(* ===== verification/Prelude.thy ===== *)
theory Prelude
  imports Main "HOL-Library.Word"
begin

text \<open>
  Shared vocabulary of the development: bytes, \<open>size_t\<close> arithmetic, the ways a C call
  can go wrong (\<open>fault\<close>), blocks of heap memory with uninitialised bytes, and the
  outside world the library talks to (the allocator and one file descriptor).
\<close>

named_theorems mem_simps \<open>evaluation of block accesses that are in range\<close>
named_theorems sz_simps \<open>size arithmetic that does not wrap\<close>

type_synonym byte = "8 word"

section \<open>Faults and the result monad\<close>

text \<open>
  A call of the library either returns (\<open>Inr\<close>) or hits one of these (\<open>Inl\<close>): a failed
  \<open>assert\<close>, an access outside of the block, a null pointer access, a read of a byte that was
  never written, an access to freed memory, a \<open>free\<close> of memory that \<open>malloc\<close> did not return,
  a variable length array of length zero, or a loop that did not end within its fuel.
\<close>

datatype fault =
    Assert_failed
  | Out_of_bounds
  | Null_deref
  | Uninitialised
  | Use_after_free
  | Bad_free
  | Zero_vla
  | Out_of_fuel

definition bindF :: "fault + 'a \<Rightarrow> ('a \<Rightarrow> fault + 'b) \<Rightarrow> fault + 'b" where
  "bindF m k = (case m of Inl f \<Rightarrow> Inl f | Inr x \<Rightarrow> k x)"

definition assertF :: "bool \<Rightarrow> fault + unit" where
  "assertF b = (if b then Inr () else Inl Assert_failed)"

lemma bindF_simps [simp]:
  "bindF (Inl f) k = Inl f"
  "bindF (Inr x) k = k x"
  by (simp_all add: bindF_def)

lemma bindF_eq_Inr:
  "bindF m k = Inr y \<longleftrightarrow> (\<exists>x. m = Inr x \<and> k x = Inr y)"
  by (cases m) auto

lemma bindF_InrE:
  assumes "bindF m k = Inr y"
  obtains x where "m = Inr x" and "k x = Inr y"
  using assms by (auto simp: bindF_eq_Inr)

lemma assertF_simps [simp]:
  "assertF True = Inr ()"
  "assertF False = Inl Assert_failed"
  by (simp_all add: assertF_def)

lemma assertF_eq_Inr [simp]: "assertF b = Inr u \<longleftrightarrow> b"
  by (simp add: assertF_def)

section \<open>Sizes\<close>

text \<open>
  \<open>size_t\<close> has 64 bits: sizes are natural numbers below \<open>size_limit\<close> and the wrap-around of
  the C operators is written out.
\<close>

definition size_limit :: nat where
  "size_limit = 2 ^ 64"

definition sz_add :: "nat \<Rightarrow> nat \<Rightarrow> nat" where
  "sz_add a b = (a + b) mod size_limit"

definition sz_sub :: "nat \<Rightarrow> nat \<Rightarrow> nat" where
  "sz_sub a b = (a + (size_limit - b)) mod size_limit"

lemma sz_add_exact [sz_simps]: "a + b < size_limit \<Longrightarrow> sz_add a b = a + b"
  by (simp add: sz_add_def)

lemma sz_sub_exact [sz_simps]:
  assumes "b \<le> a" and "a < size_limit"
  shows "sz_sub a b = a - b"
proof -
  have "a + (size_limit - b) = (a - b) + size_limit"
    using assms by simp
  moreover have "(a - b + size_limit) mod size_limit = a - b"
    using assms by (metis mod_add_self2 mod_less less_imp_diff_less)
  ultimately show ?thesis
    by (simp only: sz_sub_def)
qed

lemma sz_sub_self [simp]: "a < size_limit \<Longrightarrow> sz_sub a a = 0"
  by (simp add: sz_sub_exact)

section \<open>Blocks of memory\<close>

text \<open>
  A block is the list of its bytes, \<open>None\<close> for a byte that has not been written since
  \<open>malloc\<close>. A pointer to a block is \<open>None\<close> when it is the null pointer.
\<close>

type_synonym block = "byte option list"

definition fresh_block :: "nat \<Rightarrow> block" where
  "fresh_block n = replicate n None"

definition resize_block :: "nat \<Rightarrow> block \<Rightarrow> block" where
  "resize_block n m = take n m @ replicate (n - length m) None"

fun known :: "byte option list \<Rightarrow> byte list option" where
  "known [] = Some []"
| "known (None # xs) = None"
| "known (Some x # xs) = map_option ((#) x) (known xs)"

definition mem_load :: "block option \<Rightarrow> nat \<Rightarrow> nat \<Rightarrow> fault + byte list" where
  "mem_load p off n =
     (case p of
        None \<Rightarrow> Inl Null_deref
      | Some m \<Rightarrow>
          if off + n \<le> length m
          then (case known (take n (drop off m)) of
                  None \<Rightarrow> Inl Uninitialised
                | Some bs \<Rightarrow> Inr bs)
          else Inl Out_of_bounds)"

definition mem_store :: "block option \<Rightarrow> nat \<Rightarrow> byte list \<Rightarrow> fault + block option" where
  "mem_store p off bs =
     (case p of
        None \<Rightarrow> Inl Null_deref
      | Some m \<Rightarrow>
          if off + length bs \<le> length m
          then Inr (Some (take off m @ map Some bs @ drop (off + length bs) m))
          else Inl Out_of_bounds)"

text \<open>\<open>memmove\<close> of \<open>n\<close> bytes to the start of the block; it may move unwritten bytes.\<close>

definition mem_move_front :: "block option \<Rightarrow> nat \<Rightarrow> nat \<Rightarrow> fault + block option" where
  "mem_move_front p off n =
     (case p of
        None \<Rightarrow> Inl Null_deref
      | Some m \<Rightarrow>
          if off + n \<le> length m
          then Inr (Some (take n (drop off m) @ drop n m))
          else Inl Out_of_bounds)"

lemma known_map_Some [simp]: "known (map Some bs) = Some bs"
  by (induction bs) auto

lemma known_eq_Some: "known xs = Some bs \<longleftrightarrow> xs = map Some bs"
  by (induction xs arbitrary: bs rule: known.induct) auto

lemma length_fresh_block [simp]: "length (fresh_block n) = n"
  by (simp add: fresh_block_def)

lemma length_resize_block [simp]: "length (resize_block n m) = n"
  by (simp add: resize_block_def)

lemma mem_load_eq_Inr:
  "mem_load p off n = Inr bs \<longleftrightarrow>
     (\<exists>m. p = Some m \<and> off + n \<le> length m \<and> take n (drop off m) = map Some bs)"
  by (auto simp: mem_load_def known_eq_Some split: option.splits)

lemma mem_store_eq_Inr:
  "mem_store p off bs = Inr q \<longleftrightarrow>
     (\<exists>m. p = Some m \<and> off + length bs \<le> length m \<and>
          q = Some (take off m @ map Some bs @ drop (off + length bs) m))"
  by (auto simp: mem_store_def split: option.splits)

lemma mem_load_length: "mem_load p off n = Inr bs \<Longrightarrow> length bs = n"
  by (auto simp: mem_load_eq_Inr dest: arg_cong [of _ _ length])

section \<open>The outside world\<close>

text \<open>
  The allocator answers each request with success or failure; a list of answers covers every
  behaviour of \<open>malloc\<close> and \<open>realloc\<close> (an exhausted list means success). \<open>read\<close> and
  \<open>write\<close> on the stream are driven the same way: an answer is the most bytes the kernel moves
  in this call, a negative one an error; \<open>inbox\<close> is what the peer has sent and \<open>sent\<close> what the
  library has written.
\<close>

record world =
  allocs :: "bool list"
  reads :: "int list"
  inbox :: "byte list"
  writes :: "int list"
  sent :: "byte list"

definition sys_alloc :: "world \<Rightarrow> bool \<times> world" where
  "sys_alloc w = (case allocs w of
      [] \<Rightarrow> (True, w)
    | b # bs \<Rightarrow> (b, w\<lparr>allocs := bs\<rparr>))"

definition sys_read :: "world \<Rightarrow> nat \<Rightarrow> byte list option \<times> world" where
  "sys_read w n = (case reads w of
      [] \<Rightarrow> (None, w)
    | k # ks \<Rightarrow>
        if k < 0 then (None, w\<lparr>reads := ks\<rparr>)
        else let m = min (nat k) n in
          (Some (take m (inbox w)), w\<lparr>reads := ks, inbox := drop m (inbox w)\<rparr>))"

definition sys_write :: "world \<Rightarrow> byte list \<Rightarrow> nat option \<times> world" where
  "sys_write w bs = (case writes w of
      [] \<Rightarrow> (None, w)
    | k # ks \<Rightarrow>
        if k < 0 then (None, w\<lparr>writes := ks\<rparr>)
        else let m = min (nat k) (length bs) in
          (Some m, w\<lparr>writes := ks, sent := sent w @ take m bs\<rparr>))"

lemma sys_read_length:
  "sys_read w n = (Some bs, w') \<Longrightarrow> length bs \<le> n"
  by (auto simp: sys_read_def Let_def split: list.splits if_splits)

lemma sys_read_inbox:
  "sys_read w n = (Some bs, w') \<Longrightarrow> inbox w = bs @ inbox w'"
  by (auto simp: sys_read_def Let_def split: list.splits if_splits)

lemma sys_write_le:
  "sys_write w bs = (Some k, w') \<Longrightarrow> k \<le> length bs \<and> sent w' = sent w @ take k bs"
  by (auto simp: sys_write_def Let_def split: list.splits if_splits)

lemma sys_read_sent: "sys_read w n = (x, w') \<Longrightarrow> sent w' = sent w"
  by (auto simp: sys_read_def Let_def split: list.splits if_splits)

lemma sys_write_inbox: "sys_write w bs = (x, w') \<Longrightarrow> inbox w' = inbox w"
  by (auto simp: sys_write_def Let_def split: list.splits if_splits)

lemma sys_alloc_world: "sys_alloc w = (x, w') \<Longrightarrow> inbox w' = inbox w \<and> sent w' = sent w"
  by (auto simp: sys_alloc_def split: list.splits)

end
