(* ===== verification/Inbuf.thy ===== *)
theory Inbuf
  imports Prelude
begin

text \<open>
  The input side of the buffering, shared by \<open>struct dnswire_reader\<close> (\<open>buf\<close>, \<open>size\<close>, \<open>inc\<close>,
  \<open>max\<close>, \<open>at\<close>, \<open>left\<close>) and \<open>struct dnswire_writer\<close> (the same fields with the prefix
  \<open>read_\<close>): bytes are appended behind \<open>at + left\<close>, decoded from \<open>at\<close>, and moved to the
  front or given a larger block when the decoder needs more. The interface the state machines
  rely on is the locale \<open>growing_queue\<close>.
\<close>

section \<open>Interfaces\<close>

text \<open>A queue of bytes with a bounded room: what is loaded is what was appended and not consumed.\<close>

locale byte_queue =
  fixes ok :: "'b \<Rightarrow> bool"
    and live :: "'b \<Rightarrow> byte list"
    and room :: "'b \<Rightarrow> nat"
    and load :: "'b \<Rightarrow> fault + byte list"
    and append :: "'b \<Rightarrow> byte list \<Rightarrow> fault + 'b"
    and consume :: "nat \<Rightarrow> 'b \<Rightarrow> 'b"
  assumes load_live: "ok b \<Longrightarrow> load b = Inr (live b)"
    and append_live: "ok b \<Longrightarrow> length bs \<le> room b \<Longrightarrow>
      \<exists>b'. append b bs = Inr b' \<and> ok b' \<and> live b' = live b @ bs"
    and consume_ok: "ok b \<Longrightarrow> n \<le> length (live b) \<Longrightarrow> ok (consume n b)"
    and consume_live: "ok b \<Longrightarrow> n \<le> length (live b) \<Longrightarrow> live (consume n b) = drop n (live b)"
    and empty_room: "ok b \<Longrightarrow> live b = [] \<Longrightarrow> 0 < room b"
begin

text \<open>Appending what fits of the data at hand loses, repeats and reorders nothing.\<close>

lemma append_fitting:
  assumes "ok b"
  shows "\<exists>b'. append b (take (room b) data) = Inr b' \<and> ok b' \<and>
     live b' @ drop (room b) data = live b @ data"
  using append_live [OF assms, of "take (room b) data"] by auto

lemma append_nonempty:
  assumes "ok b" and "data \<noteq> []"
    and "append b (take (room b) data) = Inr b'" and "live b' = live b @ take (room b) data"
  shows "live b' \<noteq> []"
  using assms empty_room [OF assms(1)] by auto

lemma append_consume:
  assumes "ok b" and "length bs \<le> room b" and "n \<le> length (live b)"
  shows "\<exists>b'. append b bs = Inr b' \<and> live (consume n b') = drop n (live b) @ bs"
  using append_live [OF assms(1,2)] consume_live assms(3) by fastforce

end

text \<open>A queue that can be asked for room: it moves its bytes or allocates, and says whether it could.\<close>

locale growing_queue = byte_queue +
  fixes make_room :: "world \<Rightarrow> 'b \<Rightarrow> fault + bool \<times> 'b \<times> world"
  assumes make_room: "ok b \<Longrightarrow>
      \<exists>r b' w'. make_room w b = Inr (r, b', w') \<and> ok b' \<and> live b' = live b \<and> (r \<longrightarrow> 0 < room b')"
begin

text \<open>After a successful request the next byte can be taken in.\<close>

lemma make_room_append:
  assumes "ok b" and "make_room w b = Inr (True, b1, w1)"
  shows "\<exists>b'. append b1 [x] = Inr b' \<and> ok b' \<and> live b' = live b @ [x]"
proof -
  from make_room [OF assms(1), of w] assms(2) have "ok b1" "live b1 = live b" "0 < room b1"
    by auto
  with append_live [of b1 "[x]"] show ?thesis by auto
qed

end

section \<open>Model\<close>

record inbuf =
  i_buf :: "block option"
  i_size :: nat
  i_inc :: nat
  i_max :: nat
  i_at :: nat
  i_left :: nat

text \<open>\<open>size - at - left\<close>\<close>

definition in_room :: "inbuf \<Rightarrow> nat" where
  "in_room b = sz_sub (sz_sub (i_size b) (i_at b)) (i_left b)"

text \<open>\<open>&buf[at]\<close>, \<open>left\<close> bytes, as the decoder reads them.\<close>

definition in_load :: "inbuf \<Rightarrow> fault + byte list" where
  "in_load b = mem_load (i_buf b) (i_at b) (i_left b)"

text \<open>\<open>memcpy(&buf[at + left], bs, n)\<close> and \<open>left += n\<close>\<close>

definition in_append :: "inbuf \<Rightarrow> byte list \<Rightarrow> fault + inbuf" where
  "in_append b bs =
     bindF (mem_store (i_buf b) (sz_add (i_at b) (i_left b)) bs) (\<lambda>m.
     Inr (b\<lparr>i_buf := m, i_left := sz_add (i_left b) (length bs)\<rparr>))"

text \<open>\<open>at += n\<close>, \<open>left -= n\<close>, and \<open>at = 0\<close> when nothing is left.\<close>

definition in_consume :: "nat \<Rightarrow> inbuf \<Rightarrow> inbuf" where
  "in_consume n b =
     (let left = sz_sub (i_left b) n
      in b\<lparr>i_at := (if left = 0 then 0 else sz_add (i_at b) n), i_left := left\<rparr>)"

text \<open>
  The decoder needs more: move what is left to the start while there is space, else expand by
  \<open>inc\<close> up to \<open>max\<close>; \<open>False\<close> when the block is full at its maximum size or \<open>realloc\<close> failed.
\<close>

definition in_need_more :: "world \<Rightarrow> inbuf \<Rightarrow> fault + bool \<times> inbuf \<times> world" where
  "in_need_more w b =
     (if i_left b < i_size b
      then if i_at b \<noteq> 0
           then bindF (if i_left b \<noteq> 0 then mem_move_front (i_buf b) (i_at b) (i_left b)
                       else Inr (i_buf b)) (\<lambda>m.
                Inr (True, b\<lparr>i_buf := m, i_at := 0\<rparr>, w))
           else Inr (True, b, w)
      else if i_size b < i_max b
      then let size = (if sz_add (i_size b) (i_inc b) > i_max b then i_max b
                       else sz_add (i_size b) (i_inc b))
           in (case sys_alloc w of (ok, w') \<Rightarrow>
                 if ok
                 then Inr (True, b\<lparr>i_buf := map_option (resize_block size) (i_buf b),
                                  i_size := size\<rparr>, w')
                 else Inr (False, b, w'))
      else Inr (False, b, w))"

text \<open>\<open>dnswire_reader_set_bufsize\<close> without its results: \<open>False\<close> stands for \<open>dnswire_error\<close>.\<close>

definition in_set_size :: "world \<Rightarrow> nat \<Rightarrow> inbuf \<Rightarrow> fault + bool \<times> inbuf \<times> world" where
  "in_set_size w sz b =
     bindF (assertF (sz \<noteq> 0)) (\<lambda>_.
     bindF (assertF (i_buf b \<noteq> None)) (\<lambda>_.
     if i_left b > sz then Inr (False, b, w)
     else if sz > i_max b then Inr (False, b, w)
     else bindF (if sz_add (i_at b) (i_left b) > sz
                 then bindF (if i_left b \<noteq> 0
                             then mem_move_front (i_buf b) (i_at b) (i_left b)
                             else Inr (i_buf b)) (\<lambda>m.
                      Inr (b\<lparr>i_buf := m, i_at := 0\<rparr>))
                 else Inr b) (\<lambda>b1.
          case sys_alloc w of (ok, w') \<Rightarrow>
            if ok
            then Inr (True, b1\<lparr>i_buf := map_option (resize_block sz) (i_buf b1),
                              i_size := sz\<rparr>, w')
            else Inr (False, b1, w'))))"

section \<open>Invariant and contents\<close>

definition in_live :: "inbuf \<Rightarrow> byte list" where
  "in_live b = (case i_buf b of None \<Rightarrow> []
    | Some m \<Rightarrow> map the (take (i_left b) (drop (i_at b) m)))"

definition in_limits :: "inbuf \<Rightarrow> bool" where
  "in_limits b \<longleftrightarrow> 0 < i_size b \<and> i_size b \<le> i_max b \<and> 0 < i_inc b \<and>
     i_max b + i_inc b < size_limit"

definition in_ok :: "inbuf \<Rightarrow> bool" where
  "in_ok b \<longleftrightarrow> in_limits b \<and> i_at b + i_left b \<le> i_size b \<and> (i_left b = 0 \<longrightarrow> i_at b = 0) \<and>
     (case i_buf b of None \<Rightarrow> False
      | Some m \<Rightarrow> length m = i_size b \<and> None \<notin> set (take (i_left b) (drop (i_at b) m)))"

lemma map_Some_the: "None \<notin> set xs \<Longrightarrow> map Some (map the xs) = xs"
  by (induction xs) auto

lemma known_if_written: "None \<notin> set xs \<Longrightarrow> known xs = Some (map the xs)"
  using known_map_Some [of "map the xs"] by (simp add: map_Some_the del: map_map)

lemma in_okD:
  assumes "in_ok b"
  obtains m where "i_buf b = Some m" "length m = i_size b" "i_at b + i_left b \<le> i_size b"
    "None \<notin> set (take (i_left b) (drop (i_at b) m))"
    "i_size b < size_limit" "0 < i_size b" "i_size b \<le> i_max b" "0 < i_inc b"
    "i_max b + i_inc b < size_limit" "i_left b = 0 \<longrightarrow> i_at b = 0"
  using assms by (auto simp: in_ok_def in_limits_def split: option.splits)

lemma in_live_length: "in_ok b \<Longrightarrow> length (in_live b) = i_left b"
  by (auto simp: in_live_def elim!: in_okD)

lemma in_room_exact:
  assumes "in_ok b"
  shows "in_room b = i_size b - i_at b - i_left b"
  using assms by (auto elim!: in_okD simp: in_room_def sz_sub_exact)

lemma in_load_live:
  assumes "in_ok b"
  shows "in_load b = Inr (in_live b)"
  using assms
  by (auto elim!: in_okD simp: in_load_def mem_load_def in_live_def known_if_written)

lemma in_append_live:
  assumes ok: "in_ok b" and fits: "length bs \<le> in_room b"
  shows "\<exists>b'. in_append b bs = Inr b' \<and> in_ok b' \<and> in_live b' = in_live b @ bs"
proof -
  from ok obtain m where m: "i_buf b = Some m" "length m = i_size b"
    "i_at b + i_left b \<le> i_size b" "None \<notin> set (take (i_left b) (drop (i_at b) m))"
    "i_size b < size_limit" "i_left b = 0 \<longrightarrow> i_at b = 0"
    by (blast elim: in_okD)
  have room: "length bs \<le> i_size b - i_at b - i_left b"
    using fits in_room_exact [OF ok] by simp
  let ?e = "i_at b + i_left b"
  let ?m = "take ?e m @ map Some bs @ drop (?e + length bs) m"
  let ?b = "b\<lparr>i_buf := Some ?m, i_left := i_left b + length bs\<rparr>"
  have st: "in_append b bs = Inr ?b"
    using m room by (simp add: in_append_def mem_store_def sz_add_exact)
  have seg: "take (i_left b + length bs) (drop (i_at b) ?m) =
      take (i_left b) (drop (i_at b) m) @ map Some bs"
    using m(2,3) room by (simp add: drop_take)
  have "in_ok ?b"
    using ok m room seg by (auto simp: in_ok_def in_limits_def)
  moreover have "in_live ?b = in_live b @ bs"
    using m seg by (simp add: in_live_def comp_def)
  ultimately show ?thesis using st by blast
qed

lemma in_consume_props:
  assumes ok: "in_ok b" and n: "n \<le> length (in_live b)"
  shows "in_ok (in_consume n b)" and "in_live (in_consume n b) = drop n (in_live b)"
proof -
  from ok obtain m where m: "i_buf b = Some m" "length m = i_size b"
    "i_at b + i_left b \<le> i_size b" "None \<notin> set (take (i_left b) (drop (i_at b) m))"
    "i_size b < size_limit" "i_left b = 0 \<longrightarrow> i_at b = 0"
    by (blast elim: in_okD)
  have nl: "n \<le> i_left b"
    using n in_live_length [OF ok] by simp
  have c: "in_consume n b = b\<lparr>i_at := (if i_left b = n then 0 else i_at b + n), i_left := i_left b - n\<rparr>"
    using m nl by (simp add: in_consume_def sz_sub_exact sz_add_exact Let_def)
  have seg: "take (i_left b - n) (drop (i_at b + n) m) = drop n (take (i_left b) (drop (i_at b) m))"
    by (simp add: drop_take add.commute)
  show "in_ok (in_consume n b)"
    using ok m nl seg unfolding c
    by (auto simp: in_ok_def in_limits_def dest: in_set_dropD)
  show "in_live (in_consume n b) = drop n (in_live b)"
    using m nl seg unfolding c
    by (auto simp: in_live_def drop_map)
qed

lemma move_front_segment:
  assumes "off + n \<le> length m"
  shows "mem_move_front (Some m) off n = Inr (Some (take n (drop off m) @ drop n m))"
    and "take n (take n (drop off m) @ drop n m) = take n (drop off m)"
  using assms by (simp_all add: mem_move_front_def)

text \<open>Moving the live bytes to the start of the block.\<close>

lemma in_move_props:
  assumes ok: "in_ok b"
  shows "\<exists>m'. (if i_left b \<noteq> 0 then mem_move_front (i_buf b) (i_at b) (i_left b)
               else Inr (i_buf b)) = Inr (Some m') \<and> length m' = i_size b \<and>
     in_ok (b\<lparr>i_buf := Some m', i_at := 0\<rparr>) \<and> in_live (b\<lparr>i_buf := Some m', i_at := 0\<rparr>) = in_live b"
proof -
  from ok obtain m where m: "i_buf b = Some m" "length m = i_size b"
    "i_at b + i_left b \<le> i_size b" "None \<notin> set (take (i_left b) (drop (i_at b) m))"
    by (blast elim: in_okD)
  let ?m = "if i_left b \<noteq> 0 then take (i_left b) (drop (i_at b) m) @ drop (i_left b) m else m"
  have "take (i_left b) ?m = take (i_left b) (drop (i_at b) m)"
    using m by simp
  moreover have "length ?m = i_size b"
    using m by simp
  ultimately show ?thesis
    using ok m move_front_segment [of "i_at b" "i_left b" m]
    by (intro exI [of _ ?m]) (simp add: in_ok_def in_limits_def in_live_def)
qed

lemma take_resize_block:
  assumes "k \<le> length m" and "k \<le> n"
  shows "take k (resize_block n m) = take k m"
  using assms by (simp add: resize_block_def min_def)

lemma segment_resize_block:
  assumes "off + k \<le> length m" and "off + k \<le> n"
  shows "take k (drop off (resize_block n m)) = take k (drop off m)"
proof -
  have "take k (drop off (resize_block n m)) = drop off (take (off + k) (resize_block n m))"
    by (simp add: drop_take)
  then show ?thesis
    using assms by (simp add: take_resize_block drop_take)
qed

lemma in_resize_props:
  assumes ok: "in_ok b" and fits: "i_at b + i_left b \<le> n" and n: "0 < n" "n \<le> i_max b"
  defines "b' \<equiv> b\<lparr>i_buf := map_option (resize_block n) (i_buf b), i_size := n\<rparr>"
  shows "in_ok b'" and "in_live b' = in_live b"
proof -
  from ok obtain m where m: "i_buf b = Some m" "length m = i_size b"
    "i_at b + i_left b \<le> i_size b" "None \<notin> set (take (i_left b) (drop (i_at b) m))"
    "i_max b + i_inc b < size_limit" "0 < i_inc b" "i_left b = 0 \<longrightarrow> i_at b = 0"
    by (blast elim: in_okD)
  have seg: "take (i_left b) (drop (i_at b) (resize_block n m)) = take (i_left b) (drop (i_at b) m)"
    using m fits by (simp add: segment_resize_block)
  show "in_ok b'"
    using m fits n seg by (simp add: b'_def in_ok_def in_limits_def)
  show "in_live b' = in_live b"
    using m seg by (simp add: b'_def in_live_def)
qed

lemma in_need_more_props:
  assumes ok: "in_ok b"
  shows "\<exists>r b' w'. in_need_more w b = Inr (r, b', w') \<and> in_ok b' \<and> in_live b' = in_live b \<and>
     (r \<longrightarrow> 0 < in_room b')"
proof (cases "i_left b < i_size b")
  case True
  show ?thesis
  proof (cases "i_at b = 0")
    case at0: True
    with True ok show ?thesis
      by (intro exI [of _ True] exI [of _ b] exI [of _ w])
        (simp add: in_need_more_def in_room_exact)
  next
    case False
    from in_move_props [OF ok] obtain m' where m':
      "(if i_left b \<noteq> 0 then mem_move_front (i_buf b) (i_at b) (i_left b)
               else Inr (i_buf b)) = Inr (Some m')"
      "in_ok (b\<lparr>i_buf := Some m', i_at := 0\<rparr>)"
      "in_live (b\<lparr>i_buf := Some m', i_at := 0\<rparr>) = in_live b" by blast
    have "in_room (b\<lparr>i_buf := Some m', i_at := 0\<rparr>) = i_size b - i_left b"
      using in_room_exact [OF m'(2)] by simp
    with True False m' show ?thesis
      by (intro exI [of _ True]) (simp add: in_need_more_def)
  qed
next
  case False
  from ok have lim: "i_at b + i_left b \<le> i_size b" "0 < i_size b" "i_size b \<le> i_max b"
    "0 < i_inc b" "i_max b + i_inc b < size_limit"
    by (auto simp: in_ok_def in_limits_def)
  show ?thesis
  proof (cases "i_size b < i_max b")
    case grow: True
    define n where "n = (if i_size b + i_inc b > i_max b then i_max b else i_size b + i_inc b)"
    define b' where "b' = b\<lparr>i_buf := map_option (resize_block n) (i_buf b), i_size := n\<rparr>"
    obtain r w' where a: "sys_alloc w = (r, w')" by (cases "sys_alloc w")
    have n: "i_size b < n" "n \<le> i_max b"
      using grow lim by (auto simp: n_def)
    then have r: "in_ok b'" "in_live b' = in_live b"
      using in_resize_props [OF ok, of n] lim by (simp_all add: b'_def)
    have "in_room b' = n - i_at b - i_left b"
      using in_room_exact [OF r(1)] by (simp add: b'_def)
    then have room: "0 < in_room b'" using n lim by simp
    have "in_need_more w b = Inr (if r then (True, b', w') else (False, b, w'))"
      using grow False lim a by (simp add: in_need_more_def Let_def sz_add_exact n_def b'_def)
    then show ?thesis
      using r room ok by (cases r) auto
  next
    case full: False
    with False ok show ?thesis by (intro exI [of _ False]) (simp add: in_need_more_def)
  qed
qed

interpretation inq: growing_queue in_ok in_live in_room in_load in_append in_consume in_need_more
proof unfold_locales
  show "in_ok b \<Longrightarrow> in_live b = [] \<Longrightarrow> 0 < in_room b" for b
    using in_live_length [of b] in_room_exact [of b]
    by (auto elim!: in_okD)
qed (blast intro: in_load_live in_append_live in_consume_props in_need_more_props)+

end
