(* ===== verification/Dnswire.thy ===== *)
theory Dnswire
  imports Prelude
begin

text \<open>
  \<open>dnswire.h\<close> and \<open>dnswire.c\<close>: the result every operation of the library returns, its printable
  names, and the default buffer sizes.
\<close>

datatype dnswire_result =
    dnswire_ok
  | dnswire_error
  | dnswire_again
  | dnswire_need_more
  | dnswire_have_dnstap
  | dnswire_endofdata
  | dnswire_bidirectional

fun dnswire_result_code :: "dnswire_result \<Rightarrow> nat" where
  "dnswire_result_code dnswire_ok = 0"
| "dnswire_result_code dnswire_error = 1"
| "dnswire_result_code dnswire_again = 2"
| "dnswire_result_code dnswire_need_more = 3"
| "dnswire_result_code dnswire_have_dnstap = 4"
| "dnswire_result_code dnswire_endofdata = 5"
| "dnswire_result_code dnswire_bidirectional = 6"

definition dnswire_result_string :: "string list" where
  "dnswire_result_string =
     [''ok'', ''error'', ''again'', ''need_more'', ''have_dnstap'', ''endofdata'',
      ''bidirectional'']"

definition DNSWIRE_DEFAULT_BUF_SIZE :: nat where
  "DNSWIRE_DEFAULT_BUF_SIZE = 4 * 1024"

definition DNSWIRE_MAXIMUM_BUF_SIZE :: nat where
  "DNSWIRE_MAXIMUM_BUF_SIZE = 64 * 1024"

text \<open>Every result has a name: the table lookup used by the tracing code is in range.\<close>

lemma dnswire_result_string_total:
  "dnswire_result_code res < length dnswire_result_string"
  by (cases res) (simp_all add: dnswire_result_string_def)

end
