(* ===== verification/Extlib.thy ===== *)
theory Extlib
  imports Dnswire
begin

text \<open>
  What dnswire calls but does not contain: the protobuf-c code generated from
  \<open>dnstap.proto\<close> and the Frame Streams codec \<open>tinyframe\<close>. Both are parameters of the model,
  gathered in the record \<open>extlib\<close>; their state types \<open>'r\<close> (\<open>struct tinyframe_reader\<close>) and
  \<open>'w\<close> (\<open>struct tinyframe_writer\<close>) stay abstract. What dnswire relies on is stated by the
  predicates at the end, which are hypotheses of the theorems that need them.
\<close>

section \<open>The message tree of dnstap.proto\<close>

text \<open>
  The fields of the three protobuf messages, as \<open>dnstap.fields\<close> lists them. An optional field
  has its \<open>has\<close> flag; an enum field is a C \<open>int\<close>, since the wire may carry any value. The
  pointers between the messages are not fields here: \<open>Dnstap\<close> adds them.
\<close>

record policy_fields =
  p_has_rule :: bool
  p_rule :: "byte list"
  p_has_action :: bool
  p_action :: int
  p_has_match :: bool
  p_match :: int
  p_has_value :: bool
  p_value :: "byte list"

record message_fields =
  m_type :: int
  m_has_socket_family :: bool
  m_socket_family :: int
  m_has_socket_protocol :: bool
  m_socket_protocol :: int
  m_has_query_address :: bool
  m_query_address :: "byte list"
  m_has_response_address :: bool
  m_response_address :: "byte list"
  m_has_query_port :: bool
  m_query_port :: "32 word"
  m_has_response_port :: bool
  m_response_port :: "32 word"
  m_has_query_time_sec :: bool
  m_query_time_sec :: "64 word"
  m_has_query_time_nsec :: bool
  m_query_time_nsec :: "32 word"
  m_has_query_message :: bool
  m_query_message :: "byte list"
  m_has_query_zone :: bool
  m_query_zone :: "byte list"
  m_has_response_time_sec :: bool
  m_response_time_sec :: "64 word"
  m_has_response_time_nsec :: bool
  m_response_time_nsec :: "32 word"
  m_has_response_message :: bool
  m_response_message :: "byte list"

record dnstap_fields =
  t_has_identity :: bool
  t_identity :: "byte list"
  t_has_version :: bool
  t_version :: "byte list"
  t_has_extra :: bool
  t_extra :: "byte list"
  t_type :: int

text \<open>The tree that is packed and unpacked: submessages by value, the policy type a string.\<close>

type_synonym wire_policy = "policy_fields \<times> string option"
type_synonym wire_message = "message_fields \<times> wire_policy option"
type_synonym wire = "dnstap_fields \<times> wire_message option"

section \<open>tinyframe\<close>

text \<open>The results \<open>dnswire\<close> distinguishes; \<open>tinyframe_error\<close> stands for every other one.\<close>

datatype tinyframe_result =
    tinyframe_ok
  | tinyframe_error
  | tinyframe_have_control
  | tinyframe_have_control_field
  | tinyframe_have_frame
  | tinyframe_need_more
  | tinyframe_stopped
  | tinyframe_finished

datatype tinyframe_control =
    TINYFRAME_CONTROL_ACCEPT
  | TINYFRAME_CONTROL_START
  | TINYFRAME_CONTROL_STOP
  | TINYFRAME_CONTROL_READY
  | TINYFRAME_CONTROL_FINISH
  | TINYFRAME_CONTROL_other nat

datatype tinyframe_field =
    TINYFRAME_CONTROL_FIELD_CONTENT_TYPE
  | TINYFRAME_CONTROL_FIELD_other nat

text \<open>
  A writing call gets the writer and the room at \<open>out\<close> and answers with its result, the new
  writer and the bytes it put at \<open>out\<close>. \<open>tf_read\<close> gets the bytes at \<open>data\<close>; what it found is
  read off the new reader.
\<close>

record ('r, 'w) extlib =
  tf_reader_init :: 'r
  tf_read :: "'r \<Rightarrow> byte list \<Rightarrow> tinyframe_result \<times> 'r"
  tf_control_type :: "'r \<Rightarrow> tinyframe_control"
  tf_field_type :: "'r \<Rightarrow> tinyframe_field"
  tf_field_data :: "'r \<Rightarrow> byte list"
  tf_control_length_left :: "'r \<Rightarrow> nat"
  tf_frame_data :: "'r \<Rightarrow> byte list"
  tf_bytes_read :: "'r \<Rightarrow> nat"
  tf_writer_init :: 'w
  tf_write_control :: "'w \<Rightarrow> nat \<Rightarrow> tinyframe_control \<Rightarrow> (tinyframe_field \<times> byte list) list \<Rightarrow>
     tinyframe_result \<times> 'w \<times> byte list"
  tf_write_control_start :: "'w \<Rightarrow> nat \<Rightarrow> byte list \<Rightarrow> tinyframe_result \<times> 'w \<times> byte list"
  tf_write_control_stop :: "'w \<Rightarrow> nat \<Rightarrow> tinyframe_result \<times> 'w \<times> byte list"
  tf_write_frame :: "'w \<Rightarrow> nat \<Rightarrow> byte list \<Rightarrow> tinyframe_result \<times> 'w \<times> byte list"
  tf_frame_size :: "nat \<Rightarrow> nat"
  tf_bytes_wrote :: "'w \<Rightarrow> nat"
  pb_dnstap_init :: dnstap_fields
  pb_message_init :: message_fields
  pb_policy_init :: policy_fields
  pb_unpack :: "byte list \<Rightarrow> wire option"
  pb_packed_size :: "wire \<Rightarrow> nat"
  pb_pack :: "wire \<Rightarrow> byte list"

section \<open>What dnswire relies on\<close>

text \<open>
  \<open>tinyframe\<close>: a writing call stays within the room it is given and, when it returns \<open>ok\<close>,
  \<open>bytes_wrote\<close> is the number of bytes it put there; a reading call that found something
  consumed no more than it was given.
\<close>

definition write_result_ok :: "('r, 'w) extlib \<Rightarrow> nat \<Rightarrow> tinyframe_result \<times> 'w \<times> byte list \<Rightarrow> bool" where
  "write_result_ok L len x = (case x of (res, w, out) \<Rightarrow>
     length out \<le> len \<and> (res = tinyframe_ok \<longrightarrow> tf_bytes_wrote L w = length out))"

definition tinyframe_writer_ok :: "('r, 'w) extlib \<Rightarrow> bool" where
  "tinyframe_writer_ok L \<longleftrightarrow>
     (\<forall>w len c fs. write_result_ok L len (tf_write_control L w len c fs)) \<and>
     (\<forall>w len ct. write_result_ok L len (tf_write_control_start L w len ct)) \<and>
     (\<forall>w len. write_result_ok L len (tf_write_control_stop L w len)) \<and>
     (\<forall>w len fr. write_result_ok L len (tf_write_frame L w len fr))"

definition tinyframe_reader_ok :: "('r, 'w) extlib \<Rightarrow> bool" where
  "tinyframe_reader_ok L \<longleftrightarrow>
     (\<forall>r data res r'. tf_read L r data = (res, r') \<longrightarrow>
        res \<in> {tinyframe_have_control, tinyframe_have_control_field, tinyframe_have_frame} \<longrightarrow>
        tf_bytes_read L r' \<le> length data)"

text \<open>
  \<open>protobuf-c\<close>: packing writes exactly the announced number of bytes, and there is at least
  one, because the field \<open>type\<close> is required.
\<close>

definition protobuf_ok :: "('r, 'w) extlib \<Rightarrow> bool" where
  "protobuf_ok L \<longleftrightarrow>
     (\<forall>t. length (pb_pack L t) = pb_packed_size L t \<and> 0 < pb_packed_size L t)"

definition extlib_ok :: "('r, 'w) extlib \<Rightarrow> bool" where
  "extlib_ok L \<longleftrightarrow> tinyframe_writer_ok L \<and> tinyframe_reader_ok L \<and> protobuf_ok L"

lemma extlib_okD:
  assumes "extlib_ok L"
  shows "tinyframe_writer_ok L" and "tinyframe_reader_ok L" and "protobuf_ok L"
  using assms by (auto simp: extlib_ok_def)

lemma tinyframe_readD:
  "extlib_ok L \<Longrightarrow> tf_read L r data = (res, r') \<Longrightarrow>
     res \<in> {tinyframe_have_control, tinyframe_have_control_field, tinyframe_have_frame} \<Longrightarrow>
     tf_bytes_read L r' \<le> length data"
  unfolding extlib_ok_def tinyframe_reader_ok_def by blast

lemma write_resultD:
  assumes "extlib_ok L"
  shows "write_result_ok L len (tf_write_control L w len c fs)"
    and "write_result_ok L len (tf_write_control_start L w len ct)"
    and "write_result_ok L len (tf_write_control_stop L w len)"
    and "write_result_ok L len (tf_write_frame L w len fr)"
  using assms unfolding extlib_ok_def tinyframe_writer_ok_def by blast+

lemma protobuf_length: "extlib_ok L \<Longrightarrow> length (pb_pack L t) = pb_packed_size L t"
  unfolding extlib_ok_def protobuf_ok_def by blast

lemma protobuf_size_pos: "extlib_ok L \<Longrightarrow> 0 < pb_packed_size L t"
  unfolding extlib_ok_def protobuf_ok_def by blast

end
