(* ===== verification/Dnstap_Enums.thy ===== *)
theory Dnstap_Enums
  imports Extlib
begin

text \<open>
  The enumerations of \<open>dnswire/dnstap.h\<close> with their C values, the tables of printable names
  of \<open>dnstap.c\<close>, and the content type of a DNSTAP stream.
\<close>

section \<open>Enumerations\<close>

datatype dnstap_type = DNSTAP_TYPE_UNKNOWN | DNSTAP_TYPE_MESSAGE

datatype dnstap_message_type =
    DNSTAP_MESSAGE_TYPE_UNKNOWN
  | DNSTAP_MESSAGE_TYPE_AUTH_QUERY
  | DNSTAP_MESSAGE_TYPE_AUTH_RESPONSE
  | DNSTAP_MESSAGE_TYPE_RESOLVER_QUERY
  | DNSTAP_MESSAGE_TYPE_RESOLVER_RESPONSE
  | DNSTAP_MESSAGE_TYPE_CLIENT_QUERY
  | DNSTAP_MESSAGE_TYPE_CLIENT_RESPONSE
  | DNSTAP_MESSAGE_TYPE_FORWARDER_QUERY
  | DNSTAP_MESSAGE_TYPE_FORWARDER_RESPONSE
  | DNSTAP_MESSAGE_TYPE_STUB_QUERY
  | DNSTAP_MESSAGE_TYPE_STUB_RESPONSE
  | DNSTAP_MESSAGE_TYPE_TOOL_QUERY
  | DNSTAP_MESSAGE_TYPE_TOOL_RESPONSE
  | DNSTAP_MESSAGE_TYPE_UPDATE_QUERY
  | DNSTAP_MESSAGE_TYPE_UPDATE_RESPONSE

datatype dnstap_socket_family =
    DNSTAP_SOCKET_FAMILY_UNKNOWN
  | DNSTAP_SOCKET_FAMILY_INET
  | DNSTAP_SOCKET_FAMILY_INET6

datatype dnstap_socket_protocol =
    DNSTAP_SOCKET_PROTOCOL_UNKNOWN
  | DNSTAP_SOCKET_PROTOCOL_UDP
  | DNSTAP_SOCKET_PROTOCOL_TCP
  | DNSTAP_SOCKET_PROTOCOL_DOT
  | DNSTAP_SOCKET_PROTOCOL_DOH
  | DNSTAP_SOCKET_PROTOCOL_DNSCryptUDP
  | DNSTAP_SOCKET_PROTOCOL_DNSCryptTCP
  | DNSTAP_SOCKET_PROTOCOL_DOQ

datatype dnstap_policy_action =
    DNSTAP_POLICY_ACTION_UNKNOWN
  | DNSTAP_POLICY_ACTION_NXDOMAIN
  | DNSTAP_POLICY_ACTION_NODATA
  | DNSTAP_POLICY_ACTION_PASS
  | DNSTAP_POLICY_ACTION_DROP
  | DNSTAP_POLICY_ACTION_TRUNCATE
  | DNSTAP_POLICY_ACTION_LOCAL_DATA

datatype dnstap_policy_match =
    DNSTAP_POLICY_MATCH_UNKNOWN
  | DNSTAP_POLICY_MATCH_QNAME
  | DNSTAP_POLICY_MATCH_CLIENT_IP
  | DNSTAP_POLICY_MATCH_RESPONSE_IP
  | DNSTAP_POLICY_MATCH_NS_NAME
  | DNSTAP_POLICY_MATCH_NS_IP

text \<open>The C value of each enumerator.\<close>

fun type_code :: "dnstap_type \<Rightarrow> int" where
  "type_code DNSTAP_TYPE_UNKNOWN = 0"
| "type_code DNSTAP_TYPE_MESSAGE = 1"

fun message_type_code :: "dnstap_message_type \<Rightarrow> int" where
  "message_type_code DNSTAP_MESSAGE_TYPE_UNKNOWN = 0"
| "message_type_code DNSTAP_MESSAGE_TYPE_AUTH_QUERY = 1"
| "message_type_code DNSTAP_MESSAGE_TYPE_AUTH_RESPONSE = 2"
| "message_type_code DNSTAP_MESSAGE_TYPE_RESOLVER_QUERY = 3"
| "message_type_code DNSTAP_MESSAGE_TYPE_RESOLVER_RESPONSE = 4"
| "message_type_code DNSTAP_MESSAGE_TYPE_CLIENT_QUERY = 5"
| "message_type_code DNSTAP_MESSAGE_TYPE_CLIENT_RESPONSE = 6"
| "message_type_code DNSTAP_MESSAGE_TYPE_FORWARDER_QUERY = 7"
| "message_type_code DNSTAP_MESSAGE_TYPE_FORWARDER_RESPONSE = 8"
| "message_type_code DNSTAP_MESSAGE_TYPE_STUB_QUERY = 9"
| "message_type_code DNSTAP_MESSAGE_TYPE_STUB_RESPONSE = 10"
| "message_type_code DNSTAP_MESSAGE_TYPE_TOOL_QUERY = 11"
| "message_type_code DNSTAP_MESSAGE_TYPE_TOOL_RESPONSE = 12"
| "message_type_code DNSTAP_MESSAGE_TYPE_UPDATE_QUERY = 13"
| "message_type_code DNSTAP_MESSAGE_TYPE_UPDATE_RESPONSE = 14"

fun socket_family_code :: "dnstap_socket_family \<Rightarrow> int" where
  "socket_family_code DNSTAP_SOCKET_FAMILY_UNKNOWN = 0"
| "socket_family_code DNSTAP_SOCKET_FAMILY_INET = 1"
| "socket_family_code DNSTAP_SOCKET_FAMILY_INET6 = 2"

fun socket_protocol_code :: "dnstap_socket_protocol \<Rightarrow> int" where
  "socket_protocol_code DNSTAP_SOCKET_PROTOCOL_UNKNOWN = 0"
| "socket_protocol_code DNSTAP_SOCKET_PROTOCOL_UDP = 1"
| "socket_protocol_code DNSTAP_SOCKET_PROTOCOL_TCP = 2"
| "socket_protocol_code DNSTAP_SOCKET_PROTOCOL_DOT = 3"
| "socket_protocol_code DNSTAP_SOCKET_PROTOCOL_DOH = 4"
| "socket_protocol_code DNSTAP_SOCKET_PROTOCOL_DNSCryptUDP = 5"
| "socket_protocol_code DNSTAP_SOCKET_PROTOCOL_DNSCryptTCP = 6"
| "socket_protocol_code DNSTAP_SOCKET_PROTOCOL_DOQ = 7"

fun policy_action_code :: "dnstap_policy_action \<Rightarrow> int" where
  "policy_action_code DNSTAP_POLICY_ACTION_UNKNOWN = 0"
| "policy_action_code DNSTAP_POLICY_ACTION_NXDOMAIN = 1"
| "policy_action_code DNSTAP_POLICY_ACTION_NODATA = 2"
| "policy_action_code DNSTAP_POLICY_ACTION_PASS = 3"
| "policy_action_code DNSTAP_POLICY_ACTION_DROP = 4"
| "policy_action_code DNSTAP_POLICY_ACTION_TRUNCATE = 5"
| "policy_action_code DNSTAP_POLICY_ACTION_LOCAL_DATA = 6"

fun policy_match_code :: "dnstap_policy_match \<Rightarrow> int" where
  "policy_match_code DNSTAP_POLICY_MATCH_UNKNOWN = 0"
| "policy_match_code DNSTAP_POLICY_MATCH_QNAME = 1"
| "policy_match_code DNSTAP_POLICY_MATCH_CLIENT_IP = 2"
| "policy_match_code DNSTAP_POLICY_MATCH_RESPONSE_IP = 3"
| "policy_match_code DNSTAP_POLICY_MATCH_NS_NAME = 4"
| "policy_match_code DNSTAP_POLICY_MATCH_NS_IP = 5"

text \<open>The tables of printable names.\<close>

definition DNSTAP_TYPE_STRING :: "string list" where
  "DNSTAP_TYPE_STRING = [''UNKNOWN'', ''MESSAGE'']"

definition DNSTAP_MESSAGE_TYPE_STRING :: "string list" where
  "DNSTAP_MESSAGE_TYPE_STRING =
     [''UNKNOWN'', ''AUTH_QUERY'', ''AUTH_RESPONSE'', ''RESOLVER_QUERY'', ''RESOLVER_RESPONSE'',
      ''CLIENT_QUERY'', ''CLIENT_RESPONSE'', ''FORWARDER_QUERY'', ''FORWARDER_RESPONSE'',
      ''STUB_QUERY'', ''STUB_RESPONSE'', ''TOOL_QUERY'', ''TOOL_RESPONSE'', ''UPDATE_QUERY'',
      ''UPDATE_RESPONSE'']"

definition DNSTAP_SOCKET_FAMILY_STRING :: "string list" where
  "DNSTAP_SOCKET_FAMILY_STRING = [''UNKNOWN'', ''INET'', ''INET6'']"

definition DNSTAP_SOCKET_PROTOCOL_STRING :: "string list" where
  "DNSTAP_SOCKET_PROTOCOL_STRING =
     [''UNKNOWN'', ''UDP'', ''TCP'', ''DOT'', ''DOH'', ''DNSCryptUDP'', ''DNSCryptTCP'', ''DOQ'']"

definition DNSTAP_POLICY_ACTION_STRING :: "string list" where
  "DNSTAP_POLICY_ACTION_STRING =
     [''UNKNOWN'', ''NXDOMAIN'', ''NODATA'', ''PASS'', ''DROP'', ''TRUNCATE'', ''LOCAL_DATA'']"

definition DNSTAP_POLICY_MATCH_STRING :: "string list" where
  "DNSTAP_POLICY_MATCH_STRING =
     [''UNKNOWN'', ''QNAME'', ''CLIENT_IP'', ''RESPONSE_IP'', ''NS_NAME'', ''NS_IP'']"

text \<open>The content type of a DNSTAP stream, as bytes; its length is 22.\<close>

definition DNSTAP_PROTOBUF_CONTENT_TYPE :: "byte list" where
  "DNSTAP_PROTOBUF_CONTENT_TYPE =
     map (\<lambda>c. of_nat (of_char c)) ''protobuf:dnstap.Dnstap''"

definition DNSTAP_PROTOBUF_CONTENT_TYPE_LENGTH :: nat where
  "DNSTAP_PROTOBUF_CONTENT_TYPE_LENGTH = 22"

lemma content_type_length:
  "length DNSTAP_PROTOBUF_CONTENT_TYPE = DNSTAP_PROTOBUF_CONTENT_TYPE_LENGTH"
  by (simp add: DNSTAP_PROTOBUF_CONTENT_TYPE_def DNSTAP_PROTOBUF_CONTENT_TYPE_LENGTH_def)

end
