(* ===== verification/Dnstap.thy ===== *)
theory Dnstap
  imports Dnstap_Enums
begin

text \<open>
  \<open>struct dnstap\<close> of \<open>dnswire/dnstap.h\<close> with its pointers, the setter and accessor macros
  (those of \<open>dnstap.h\<close> and those \<open>gen-macros.sh\<close> generates from \<open>dnstap.fields\<close>), and the
  operations of \<open>dnstap.c\<close>.

  The struct embeds one top, one message and one policy node. \<open>dnstap.message\<close> and
  \<open>message->policy\<close> point to the embedded node (after the setters) or into the tree that
  \<open>dnstap__dnstap__unpack\<close> allocated (after decoding). Each unpacked tree gets an address, so
  a pointer into a tree that has been freed is told from one into the live tree. The payloads
  of \<open>bytes\<close> fields are kept by value; of the two addresses it is kept whether their memory is gone.
\<close>

section \<open>State\<close>

datatype msg_ref = Msg_null | Msg_own | Msg_unpacked nat

datatype pol_ref = Pol_null | Pol_own | Pol_unpacked nat

text \<open>\<open>char*\<close>: null, a \<open>strdup\<close> of the library, or a string inside an unpacked tree.\<close>

datatype str_ref = Str_null | Str_heap string | Str_unpacked nat string

record Dnstap__Policy = policy_fields +
  p_type :: str_ref

text \<open>
  The payloads of the two addresses may lie in memory that is gone: the flags say that the pointer of
  the field leads into the frame of a function that has returned.
\<close>

record Dnstap__Message = message_fields +
  m_policy :: pol_ref
  m_query_address_gone :: bool
  m_response_address_gone :: bool

record Dnstap__Dnstap = dnstap_fields +
  t_message :: msg_ref

record unpacked_tree =
  u_dnstap :: Dnstap__Dnstap
  u_message :: Dnstap__Message
  u_policy :: Dnstap__Policy

text \<open>\<open>d_next\<close> is the address of the next tree the allocator will hand out.\<close>

record dnstap =
  d_dnstap :: Dnstap__Dnstap
  d_message :: Dnstap__Message
  d_policy :: Dnstap__Policy
  d_policy_type_alloced :: bool
  d_unpacked :: "(nat \<times> unpacked_tree) option"
  d_next :: nat

definition DNSTAP_INITIALIZER :: "('r, 'w) extlib \<Rightarrow> dnstap" where
  "DNSTAP_INITIALIZER L =
     \<lparr>d_dnstap = dnstap_fields.extend (pb_dnstap_init L) (Dnstap__Dnstap.fields Msg_null),
      d_message = message_fields.extend (pb_message_init L) (Dnstap__Message.fields Pol_null False False),
      d_policy = policy_fields.extend (pb_policy_init L) (Dnstap__Policy.fields Str_null),
      d_policy_type_alloced = False,
      d_unpacked = None,
      d_next = 0\<rparr>"

section \<open>Following the pointers\<close>

definition deref_tree :: "dnstap \<Rightarrow> nat \<Rightarrow> fault + unpacked_tree" where
  "deref_tree d a = (case d_unpacked d of
      None \<Rightarrow> Inl Use_after_free
    | Some (b, u) \<Rightarrow> if a = b then Inr u else Inl Use_after_free)"

fun deref_message :: "dnstap \<Rightarrow> msg_ref \<Rightarrow> fault + Dnstap__Message" where
  "deref_message d Msg_null = Inl Null_deref"
| "deref_message d Msg_own = Inr (d_message d)"
| "deref_message d (Msg_unpacked a) = bindF (deref_tree d a) (\<lambda>u. Inr (u_message u))"

fun deref_policy :: "dnstap \<Rightarrow> pol_ref \<Rightarrow> fault + Dnstap__Policy" where
  "deref_policy d Pol_null = Inl Null_deref"
| "deref_policy d Pol_own = Inr (d_policy d)"
| "deref_policy d (Pol_unpacked a) = bindF (deref_tree d a) (\<lambda>u. Inr (u_policy u))"

fun deref_string :: "dnstap \<Rightarrow> str_ref \<Rightarrow> fault + string option" where
  "deref_string d Str_null = Inr None"
| "deref_string d (Str_heap s) = Inr (Some s)"
| "deref_string d (Str_unpacked a s) = bindF (deref_tree d a) (\<lambda>_. Inr (Some s))"

text \<open>What packing \<open>dnstap->dnstap\<close> sees: the tree reached through its pointers.\<close>

definition wire_of_policy :: "dnstap \<Rightarrow> pol_ref \<Rightarrow> fault + wire_policy option" where
  "wire_of_policy d q =
     (if q = Pol_null then Inr None
      else bindF (deref_policy d q) (\<lambda>p.
           bindF (deref_string d (p_type p)) (\<lambda>s.
           Inr (Some (policy_fields.truncate p, s)))))"

text \<open>Reading the addresses of a message that says it has them.\<close>

definition addresses_live :: "Dnstap__Message \<Rightarrow> bool" where
  "addresses_live m \<longleftrightarrow> \<not> (m_has_query_address m \<and> m_query_address_gone m) \<and>
     \<not> (m_has_response_address m \<and> m_response_address_gone m)"

definition wire_of_message :: "dnstap \<Rightarrow> msg_ref \<Rightarrow> fault + wire_message option" where
  "wire_of_message d q =
     (if q = Msg_null then Inr None
      else bindF (deref_message d q) (\<lambda>m.
           bindF (wire_of_policy d (m_policy m)) (\<lambda>p.
           if addresses_live m then Inr (Some (message_fields.truncate m, p))
           else Inl Use_after_free)))"

definition wire_of :: "dnstap \<Rightarrow> fault + wire" where
  "wire_of d =
     bindF (wire_of_message d (t_message (d_dnstap d))) (\<lambda>m.
     Inr (dnstap_fields.truncate (d_dnstap d), m))"

section \<open>Setters and accessors of dnstap.h\<close>

definition settable_message_types :: "int list" where
  "settable_message_types = map message_type_code
     [DNSTAP_MESSAGE_TYPE_AUTH_QUERY, DNSTAP_MESSAGE_TYPE_AUTH_RESPONSE,
      DNSTAP_MESSAGE_TYPE_RESOLVER_QUERY, DNSTAP_MESSAGE_TYPE_RESOLVER_RESPONSE,
      DNSTAP_MESSAGE_TYPE_CLIENT_QUERY, DNSTAP_MESSAGE_TYPE_CLIENT_RESPONSE,
      DNSTAP_MESSAGE_TYPE_FORWARDER_QUERY, DNSTAP_MESSAGE_TYPE_FORWARDER_RESPONSE,
      DNSTAP_MESSAGE_TYPE_STUB_QUERY, DNSTAP_MESSAGE_TYPE_STUB_RESPONSE,
      DNSTAP_MESSAGE_TYPE_TOOL_QUERY, DNSTAP_MESSAGE_TYPE_TOOL_RESPONSE]"

definition dnstap_set_type :: "int \<Rightarrow> dnstap \<Rightarrow> dnstap" where
  "dnstap_set_type v d =
     (if v = type_code DNSTAP_TYPE_MESSAGE
      then d\<lparr>d_dnstap := (d_dnstap d)\<lparr>t_type := v, t_message := Msg_own\<rparr>\<rparr>
      else d\<lparr>d_dnstap := (d_dnstap d)
               \<lparr>t_type := type_code DNSTAP_TYPE_UNKNOWN, t_message := Msg_null\<rparr>\<rparr>)"

definition dnstap_has_message :: "dnstap \<Rightarrow> bool" where
  "dnstap_has_message d \<longleftrightarrow> t_message (d_dnstap d) \<noteq> Msg_null"

definition dnstap_message_set_type :: "int \<Rightarrow> dnstap \<Rightarrow> dnstap" where
  "dnstap_message_set_type v d =
     (if v \<in> set settable_message_types
      then d\<lparr>d_message := (d_message d)\<lparr>m_type := v\<rparr>\<rparr>
      else d\<lparr>d_message := (d_message d)
               \<lparr>m_type := message_type_code DNSTAP_MESSAGE_TYPE_UNKNOWN\<rparr>\<rparr>)"

definition dnstap_message_set_socket_family :: "int \<Rightarrow> dnstap \<Rightarrow> dnstap" where
  "dnstap_message_set_socket_family v d =
     (if v \<in> {socket_family_code DNSTAP_SOCKET_FAMILY_INET,
              socket_family_code DNSTAP_SOCKET_FAMILY_INET6}
      then d\<lparr>d_message := (d_message d)
               \<lparr>m_has_socket_family := True, m_socket_family := v\<rparr>\<rparr>
      else d\<lparr>d_message := (d_message d)
               \<lparr>m_has_socket_family := False,
                m_socket_family := message_type_code DNSTAP_MESSAGE_TYPE_UNKNOWN\<rparr>\<rparr>)"

definition dnstap_message_set_socket_protocol :: "int \<Rightarrow> dnstap \<Rightarrow> dnstap" where
  "dnstap_message_set_socket_protocol v d =
     (if v \<in> {socket_protocol_code DNSTAP_SOCKET_PROTOCOL_UDP,
              socket_protocol_code DNSTAP_SOCKET_PROTOCOL_TCP}
      then d\<lparr>d_message := (d_message d)
               \<lparr>m_has_socket_protocol := True, m_socket_protocol := v\<rparr>\<rparr>
      else d\<lparr>d_message := (d_message d)
               \<lparr>m_has_socket_protocol := False,
                m_socket_protocol := message_type_code DNSTAP_MESSAGE_TYPE_UNKNOWN\<rparr>\<rparr>)"

text \<open>\<open>(d).dnstap.message->policy\<close> follows the message pointer, wherever it points.\<close>

definition dnstap_message_has_policy :: "dnstap \<Rightarrow> fault + bool" where
  "dnstap_message_has_policy d =
     bindF (deref_message d (t_message (d_dnstap d))) (\<lambda>m. Inr (m_policy m \<noteq> Pol_null))"

definition dnstap_message_use_policy :: "dnstap \<Rightarrow> fault + dnstap" where
  "dnstap_message_use_policy d = (case t_message (d_dnstap d) of
      Msg_null \<Rightarrow> Inl Null_deref
    | Msg_own \<Rightarrow> Inr (d\<lparr>d_message := (d_message d)\<lparr>m_policy := Pol_own\<rparr>\<rparr>)
    | Msg_unpacked a \<Rightarrow> bindF (deref_tree d a) (\<lambda>u.
        Inr (d\<lparr>d_unpacked := Some (a, u\<lparr>u_message := (u_message u)\<lparr>m_policy := Pol_own\<rparr>\<rparr>)\<rparr>)))"

definition dnstap_message_clear_policy :: "('r, 'w) extlib \<Rightarrow> dnstap \<Rightarrow> dnstap" where
  "dnstap_message_clear_policy L d =
     d\<lparr>d_message := (d_message d)\<lparr>m_policy := Pol_null\<rparr>,
       d_policy := policy_fields.extend (pb_policy_init L) (Dnstap__Policy.fields Str_null)\<rparr>"

definition dnstap_message_policy_set_action :: "int \<Rightarrow> dnstap \<Rightarrow> dnstap" where
  "dnstap_message_policy_set_action v d =
     (if v \<in> set (map policy_action_code
           [DNSTAP_POLICY_ACTION_NXDOMAIN, DNSTAP_POLICY_ACTION_NODATA,
            DNSTAP_POLICY_ACTION_PASS, DNSTAP_POLICY_ACTION_DROP,
            DNSTAP_POLICY_ACTION_TRUNCATE, DNSTAP_POLICY_ACTION_LOCAL_DATA])
      then d\<lparr>d_policy := (d_policy d)\<lparr>p_has_action := True, p_action := v\<rparr>\<rparr>
      else d\<lparr>d_policy := (d_policy d)
               \<lparr>p_has_action := False,
                p_action := policy_action_code DNSTAP_POLICY_ACTION_UNKNOWN\<rparr>\<rparr>)"

definition dnstap_message_policy_set_match :: "int \<Rightarrow> dnstap \<Rightarrow> dnstap" where
  "dnstap_message_policy_set_match v d =
     (if v \<in> set (map policy_match_code
           [DNSTAP_POLICY_MATCH_QNAME, DNSTAP_POLICY_MATCH_CLIENT_IP,
            DNSTAP_POLICY_MATCH_RESPONSE_IP, DNSTAP_POLICY_MATCH_NS_NAME,
            DNSTAP_POLICY_MATCH_NS_IP])
      then d\<lparr>d_policy := (d_policy d)\<lparr>p_has_match := True, p_match := v\<rparr>\<rparr>
      else d\<lparr>d_policy := (d_policy d)
               \<lparr>p_has_match := False,
                p_match := policy_match_code DNSTAP_POLICY_MATCH_UNKNOWN\<rparr>\<rparr>)"

section \<open>Generated setters\<close>

definition dnstap_set_identity :: "byte list \<Rightarrow> dnstap \<Rightarrow> dnstap" where
  "dnstap_set_identity v d =
     d\<lparr>d_dnstap := (d_dnstap d)\<lparr>t_has_identity := True, t_identity := v\<rparr>\<rparr>"

definition dnstap_set_version :: "byte list \<Rightarrow> dnstap \<Rightarrow> dnstap" where
  "dnstap_set_version v d =
     d\<lparr>d_dnstap := (d_dnstap d)\<lparr>t_has_version := True, t_version := v\<rparr>\<rparr>"

definition dnstap_set_extra :: "byte list \<Rightarrow> dnstap \<Rightarrow> dnstap" where
  "dnstap_set_extra v d =
     d\<lparr>d_dnstap := (d_dnstap d)\<lparr>t_has_extra := True, t_extra := v\<rparr>\<rparr>"

definition dnstap_message_set_query_address :: "byte list \<Rightarrow> dnstap \<Rightarrow> dnstap" where
  "dnstap_message_set_query_address v d =
     d\<lparr>d_message := (d_message d)\<lparr>m_has_query_address := True, m_query_address := v,
         m_query_address_gone := False\<rparr>\<rparr>"

definition dnstap_message_set_response_address :: "byte list \<Rightarrow> dnstap \<Rightarrow> dnstap" where
  "dnstap_message_set_response_address v d =
     d\<lparr>d_message := (d_message d)\<lparr>m_has_response_address := True, m_response_address := v,
         m_response_address_gone := False\<rparr>\<rparr>"

definition dnstap_message_set_query_port :: "32 word \<Rightarrow> dnstap \<Rightarrow> dnstap" where
  "dnstap_message_set_query_port v d =
     d\<lparr>d_message := (d_message d)\<lparr>m_has_query_port := True, m_query_port := v\<rparr>\<rparr>"

definition dnstap_message_set_response_port :: "32 word \<Rightarrow> dnstap \<Rightarrow> dnstap" where
  "dnstap_message_set_response_port v d =
     d\<lparr>d_message := (d_message d)\<lparr>m_has_response_port := True, m_response_port := v\<rparr>\<rparr>"

definition dnstap_message_set_query_time_sec :: "64 word \<Rightarrow> dnstap \<Rightarrow> dnstap" where
  "dnstap_message_set_query_time_sec v d =
     d\<lparr>d_message := (d_message d)\<lparr>m_has_query_time_sec := True, m_query_time_sec := v\<rparr>\<rparr>"

definition dnstap_message_set_query_time_nsec :: "32 word \<Rightarrow> dnstap \<Rightarrow> dnstap" where
  "dnstap_message_set_query_time_nsec v d =
     d\<lparr>d_message := (d_message d)\<lparr>m_has_query_time_nsec := True, m_query_time_nsec := v\<rparr>\<rparr>"

definition dnstap_message_set_query_message :: "byte list \<Rightarrow> dnstap \<Rightarrow> dnstap" where
  "dnstap_message_set_query_message v d =
     d\<lparr>d_message := (d_message d)\<lparr>m_has_query_message := True, m_query_message := v\<rparr>\<rparr>"

definition dnstap_message_set_query_zone :: "byte list \<Rightarrow> dnstap \<Rightarrow> dnstap" where
  "dnstap_message_set_query_zone v d =
     d\<lparr>d_message := (d_message d)\<lparr>m_has_query_zone := True, m_query_zone := v\<rparr>\<rparr>"

definition dnstap_message_set_response_time_sec :: "64 word \<Rightarrow> dnstap \<Rightarrow> dnstap" where
  "dnstap_message_set_response_time_sec v d =
     d\<lparr>d_message := (d_message d)
         \<lparr>m_has_response_time_sec := True, m_response_time_sec := v\<rparr>\<rparr>"

definition dnstap_message_set_response_time_nsec :: "32 word \<Rightarrow> dnstap \<Rightarrow> dnstap" where
  "dnstap_message_set_response_time_nsec v d =
     d\<lparr>d_message := (d_message d)
         \<lparr>m_has_response_time_nsec := True, m_response_time_nsec := v\<rparr>\<rparr>"

definition dnstap_message_set_response_message :: "byte list \<Rightarrow> dnstap \<Rightarrow> dnstap" where
  "dnstap_message_set_response_message v d =
     d\<lparr>d_message := (d_message d)\<lparr>m_has_response_message := True, m_response_message := v\<rparr>\<rparr>"

definition dnstap_message_policy_set_rule :: "byte list \<Rightarrow> dnstap \<Rightarrow> dnstap" where
  "dnstap_message_policy_set_rule v d =
     d\<lparr>d_policy := (d_policy d)\<lparr>p_has_rule := True, p_rule := v\<rparr>\<rparr>"

definition dnstap_message_policy_set_value :: "byte list \<Rightarrow> dnstap \<Rightarrow> dnstap" where
  "dnstap_message_policy_set_value v d =
     d\<lparr>d_policy := (d_policy d)\<lparr>p_has_value := True, p_value := v\<rparr>\<rparr>"

text \<open>
  The only \<open>string\<close> field: the old string is freed when \<open>_policy_type_alloced\<close> is set, and
  \<open>strdup\<close> may fail.
\<close>

definition dnstap_message_policy_set_type :: "string \<Rightarrow> world \<Rightarrow> dnstap \<Rightarrow> fault + dnstap \<times> world" where
  "dnstap_message_policy_set_type v w d =
     (if d_policy_type_alloced d \<and> (case p_type (d_policy d) of Str_unpacked a s \<Rightarrow> True | _ \<Rightarrow> False)
      then Inl Bad_free
      else (case sys_alloc w of (ok, w') \<Rightarrow>
        Inr (d\<lparr>d_policy := (d_policy d)\<lparr>p_type := (if ok then Str_heap v else Str_null)\<rparr>,
               d_policy_type_alloced := True\<rparr>, w')))"

section \<open>Decoding, encoding, cleaning up\<close>

definition decode_type :: "Dnstap__Dnstap \<Rightarrow> Dnstap__Dnstap" where
  "decode_type t =
     (if t_type t = type_code DNSTAP_TYPE_MESSAGE then t
      else t\<lparr>t_type := type_code DNSTAP_TYPE_UNKNOWN\<rparr>)"

definition decode_message_type :: "Dnstap__Message \<Rightarrow> Dnstap__Message" where
  "decode_message_type m =
     (if m_type m \<in> set (settable_message_types @
            map message_type_code
              [DNSTAP_MESSAGE_TYPE_UPDATE_QUERY, DNSTAP_MESSAGE_TYPE_UPDATE_RESPONSE])
      then m else m\<lparr>m_type := message_type_code DNSTAP_MESSAGE_TYPE_UNKNOWN\<rparr>)"

definition decode_socket_family :: "Dnstap__Message \<Rightarrow> Dnstap__Message" where
  "decode_socket_family m =
     (if m_socket_family m \<in> set (map socket_family_code
            [DNSTAP_SOCKET_FAMILY_INET, DNSTAP_SOCKET_FAMILY_INET6])
      then m
      else m\<lparr>m_has_socket_family := False,
             m_socket_family := socket_family_code DNSTAP_SOCKET_FAMILY_UNKNOWN\<rparr>)"

definition decode_socket_protocol :: "Dnstap__Message \<Rightarrow> Dnstap__Message" where
  "decode_socket_protocol m =
     (if m_socket_protocol m \<in> set (map socket_protocol_code
            [DNSTAP_SOCKET_PROTOCOL_UDP, DNSTAP_SOCKET_PROTOCOL_TCP,
             DNSTAP_SOCKET_PROTOCOL_DOT, DNSTAP_SOCKET_PROTOCOL_DOH,
             DNSTAP_SOCKET_PROTOCOL_DNSCryptUDP, DNSTAP_SOCKET_PROTOCOL_DNSCryptTCP,
             DNSTAP_SOCKET_PROTOCOL_DOQ])
      then m
      else m\<lparr>m_has_socket_protocol := False,
             m_socket_protocol := socket_protocol_code DNSTAP_SOCKET_PROTOCOL_UNKNOWN\<rparr>)"

definition decode_policy_action :: "Dnstap__Policy \<Rightarrow> Dnstap__Policy" where
  "decode_policy_action p =
     (if p_action p \<in> set (map policy_action_code
            [DNSTAP_POLICY_ACTION_NXDOMAIN, DNSTAP_POLICY_ACTION_NODATA,
             DNSTAP_POLICY_ACTION_PASS, DNSTAP_POLICY_ACTION_DROP,
             DNSTAP_POLICY_ACTION_TRUNCATE, DNSTAP_POLICY_ACTION_LOCAL_DATA])
      then p
      else p\<lparr>p_has_action := False,
             p_action := policy_action_code DNSTAP_POLICY_ACTION_UNKNOWN\<rparr>)"

definition decode_policy_match :: "Dnstap__Policy \<Rightarrow> Dnstap__Policy" where
  "decode_policy_match p =
     (if p_match p \<in> set (map policy_match_code
            [DNSTAP_POLICY_MATCH_QNAME, DNSTAP_POLICY_MATCH_CLIENT_IP,
             DNSTAP_POLICY_MATCH_RESPONSE_IP, DNSTAP_POLICY_MATCH_NS_NAME,
             DNSTAP_POLICY_MATCH_NS_IP])
      then p
      else p\<lparr>p_has_match := False,
             p_match := policy_match_code DNSTAP_POLICY_MATCH_UNKNOWN\<rparr>)"

text \<open>The tree \<open>dnstap__dnstap__unpack\<close> allocates at address \<open>a\<close> for an unpacked message.\<close>

definition tree_at :: "('r, 'w) extlib \<Rightarrow> nat \<Rightarrow> wire \<Rightarrow> unpacked_tree" where
  "tree_at L a t = (case t of (f, mo) \<Rightarrow>
     \<lparr>u_dnstap = dnstap_fields.extend f
        (Dnstap__Dnstap.fields (case mo of None \<Rightarrow> Msg_null | Some _ \<Rightarrow> Msg_unpacked a)),
      u_message = (case mo of
          None \<Rightarrow> message_fields.extend (pb_message_init L) (Dnstap__Message.fields Pol_null False False)
        | Some (mf, po) \<Rightarrow> message_fields.extend mf
            (Dnstap__Message.fields (case po of None \<Rightarrow> Pol_null | Some _ \<Rightarrow> Pol_unpacked a) False False)),
      u_policy = (case mo of
          Some (mf, Some (pf, s)) \<Rightarrow> policy_fields.extend pf
            (Dnstap__Policy.fields (case s of None \<Rightarrow> Str_null | Some x \<Rightarrow> Str_unpacked a x))
        | _ \<Rightarrow> policy_fields.extend (pb_policy_init L) (Dnstap__Policy.fields Str_null))\<rparr>)"

definition dnstap_decode_protobuf :: "('r, 'w) extlib \<Rightarrow> dnstap \<Rightarrow> byte list \<Rightarrow> fault + int \<times> dnstap" where
  "dnstap_decode_protobuf L d data =
     bindF (assertF (d_unpacked d = None)) (\<lambda>_.
     case pb_unpack L data of
       None \<Rightarrow> Inr (1, d\<lparr>d_unpacked := None\<rparr>)
     | Some t \<Rightarrow>
         let u = tree_at L (d_next d) t;
             d1 = d\<lparr>d_unpacked := Some (d_next d, u), d_next := Suc (d_next d),
                    d_dnstap := decode_type (u_dnstap u)\<rparr>
         in if t_message (d_dnstap d1) = Msg_null then Inr (0, d1)
            else bindF (deref_message d1 (t_message (d_dnstap d1))) (\<lambda>m.
              let d2 = d1\<lparr>d_message :=
                    decode_socket_protocol (decode_socket_family (decode_message_type m))\<rparr>
              in if m_policy (d_message d2) = Pol_null then Inr (0, d2)
                 else bindF (deref_policy d2 (m_policy (d_message d2))) (\<lambda>p.
                   Inr (0, d2\<lparr>d_policy := decode_policy_match (decode_policy_action p)\<rparr>))))"

text \<open>
  \<open>dnstap__dnstap__free_unpacked\<close> frees every node the tree points to; a policy node that is
  the embedded one was not allocated.
\<close>

definition dnstap_cleanup :: "dnstap \<Rightarrow> fault + dnstap" where
  "dnstap_cleanup d = (case d_unpacked d of
      None \<Rightarrow> Inr d
    | Some (a, u) \<Rightarrow>
        if t_message (u_dnstap u) \<noteq> Msg_null \<and> m_policy (u_message u) = Pol_own
        then Inl Bad_free
        else Inr (d\<lparr>d_unpacked := None\<rparr>))"

definition dnstap_encode_protobuf_size :: "('r, 'w) extlib \<Rightarrow> dnstap \<Rightarrow> fault + nat" where
  "dnstap_encode_protobuf_size L d = bindF (wire_of d) (\<lambda>t. Inr (pb_packed_size L t))"

text \<open>The bytes written at \<open>data\<close>; the returned count is their number.\<close>

definition dnstap_encode_protobuf :: "('r, 'w) extlib \<Rightarrow> dnstap \<Rightarrow> fault + byte list" where
  "dnstap_encode_protobuf L d = bindF (wire_of d) (\<lambda>t. Inr (pb_pack L t))"

end
