(* ===== verification/Encoder.thy ===== *)
theory Encoder
  imports Dnstap
begin

text \<open>
  \<open>dnswire/encoder.h\<close> and \<open>encoder.c\<close>: the state machine that writes the control frames of a
  Frame Streams conversation and the DNSTAP frames between them.
\<close>

datatype dnswire_encoder_state =
    dnswire_encoder_control_ready
  | dnswire_encoder_control_start
  | dnswire_encoder_control_accept
  | dnswire_encoder_control_finish
  | dnswire_encoder_frames
  | dnswire_encoder_control_stop
  | dnswire_encoder_done

text \<open>The enumerators in the order of their C values.\<close>

fun dnswire_encoder_state_code :: "dnswire_encoder_state \<Rightarrow> nat" where
  "dnswire_encoder_state_code dnswire_encoder_control_ready = 0"
| "dnswire_encoder_state_code dnswire_encoder_control_start = 1"
| "dnswire_encoder_state_code dnswire_encoder_control_accept = 2"
| "dnswire_encoder_state_code dnswire_encoder_control_finish = 3"
| "dnswire_encoder_state_code dnswire_encoder_frames = 4"
| "dnswire_encoder_state_code dnswire_encoder_control_stop = 5"
| "dnswire_encoder_state_code dnswire_encoder_done = 6"

lemma encoder_state_code_inject:
  "dnswire_encoder_state_code s = dnswire_encoder_state_code t \<longleftrightarrow> s = t"
  by (cases s; cases t) simp_all

instantiation dnswire_encoder_state :: linorder
begin

definition less_eq_dnswire_encoder_state :: "dnswire_encoder_state \<Rightarrow> dnswire_encoder_state \<Rightarrow> bool" where
  "less_eq_dnswire_encoder_state s t \<longleftrightarrow>
     dnswire_encoder_state_code s \<le> dnswire_encoder_state_code t"

definition less_dnswire_encoder_state :: "dnswire_encoder_state \<Rightarrow> dnswire_encoder_state \<Rightarrow> bool" where
  "less_dnswire_encoder_state s t \<longleftrightarrow>
     dnswire_encoder_state_code s < dnswire_encoder_state_code t"

instance
  by standard
    (auto simp: less_eq_dnswire_encoder_state_def less_dnswire_encoder_state_def
      encoder_state_code_inject)

end

definition dnswire_encoder_state_string :: "string list" where
  "dnswire_encoder_state_string =
     [''control_ready'', ''control_start'', ''control_accept'', ''control_finish'', ''frames'',
      ''control_stop'', ''done'']"

text \<open>
  \<open>dnstap\<close> is the struct the pointer leads to, \<open>None\<close> for the null pointer; a caller that
  changes the struct changes this field.
\<close>

record 'w dnswire_encoder =
  e_state :: dnswire_encoder_state
  e_writer :: 'w
  e_dnstap :: "dnstap option"

definition DNSWIRE_ENCODER_INITIALIZER :: "('r, 'w) extlib \<Rightarrow> 'w dnswire_encoder" where
  "DNSWIRE_ENCODER_INITIALIZER L =
     \<lparr>e_state = dnswire_encoder_control_start, e_writer = tf_writer_init L, e_dnstap = None\<rparr>"

definition dnswire_encoder_set_dnstap :: "'w dnswire_encoder \<Rightarrow> dnstap \<Rightarrow> 'w dnswire_encoder" where
  "dnswire_encoder_set_dnstap e d = e\<lparr>e_dnstap := Some d\<rparr>"

definition dnswire_encoder_encoded :: "('r, 'w) extlib \<Rightarrow> 'w dnswire_encoder \<Rightarrow> nat" where
  "dnswire_encoder_encoded L e = tf_bytes_wrote L (e_writer e)"

definition content_type_field :: "tinyframe_field \<times> byte list" where
  "content_type_field = (TINYFRAME_CONTROL_FIELD_CONTENT_TYPE, DNSTAP_PROTOBUF_CONTENT_TYPE)"

text \<open>
  The \<open>switch\<close> on what a \<open>tinyframe_write\<close> call returned, shared by the states: on \<open>ok\<close> the
  state moves to \<open>next\<close> and \<open>res\<close> is returned; the bytes are what the call left at \<open>out\<close>.
\<close>

definition encoder_wrote :: "'w dnswire_encoder \<Rightarrow> dnswire_encoder_state \<Rightarrow> dnswire_result \<Rightarrow>
    tinyframe_result \<times> 'w \<times> byte list \<Rightarrow> dnswire_result \<times> 'w dnswire_encoder \<times> byte list" where
  "encoder_wrote e next res x = (case x of (tf, w, out) \<Rightarrow>
     let e' = e\<lparr>e_writer := w\<rparr> in
     (case tf of
        tinyframe_ok \<Rightarrow> (res, e'\<lparr>e_state := next\<rparr>, out)
      | tinyframe_need_more \<Rightarrow> (dnswire_need_more, e', out)
      | _ \<Rightarrow> (dnswire_error, e', out)))"

text \<open>
  The state \<open>frames\<close>: \<open>frame\<close> is a variable length array of the announced size, filled by
  packing and then read over its whole size.
\<close>

definition encode_frame :: "('r, 'w) extlib \<Rightarrow> 'w dnswire_encoder \<Rightarrow> nat \<Rightarrow>
    fault + dnswire_result \<times> 'w dnswire_encoder \<times> byte list" where
  "encode_frame L e len = (case e_dnstap e of
      None \<Rightarrow> Inr (dnswire_error, e, [])
    | Some d \<Rightarrow>
        bindF (dnstap_encode_protobuf_size L d) (\<lambda>frame_len.
        if len < tf_frame_size L frame_len then Inr (dnswire_need_more, e, [])
        else if frame_len = 0 then Inl Zero_vla
        else bindF (dnstap_encode_protobuf L d) (\<lambda>bs.
             bindF (mem_store (Some (fresh_block frame_len)) 0 bs) (\<lambda>frame.
             bindF (mem_load frame 0 frame_len) (\<lambda>fr.
             Inr (encoder_wrote e dnswire_encoder_frames dnswire_ok
                    (tf_write_frame L (e_writer e) len fr)))))))"

definition dnswire_encoder_encode :: "('r, 'w) extlib \<Rightarrow> 'w dnswire_encoder \<Rightarrow> nat \<Rightarrow>
    fault + dnswire_result \<times> 'w dnswire_encoder \<times> byte list" where
  "dnswire_encoder_encode L e len =
     bindF (assertF (len \<noteq> 0)) (\<lambda>_.
     case e_state e of
       dnswire_encoder_control_ready \<Rightarrow>
         Inr (encoder_wrote e dnswire_encoder_control_start dnswire_again
           (tf_write_control L (e_writer e) len TINYFRAME_CONTROL_READY [content_type_field]))
     | dnswire_encoder_control_start \<Rightarrow>
         Inr (encoder_wrote e dnswire_encoder_frames dnswire_again
           (tf_write_control_start L (e_writer e) len DNSTAP_PROTOBUF_CONTENT_TYPE))
     | dnswire_encoder_control_accept \<Rightarrow>
         Inr (encoder_wrote e dnswire_encoder_control_finish dnswire_again
           (tf_write_control L (e_writer e) len TINYFRAME_CONTROL_ACCEPT [content_type_field]))
     | dnswire_encoder_control_finish \<Rightarrow>
         Inr (encoder_wrote e dnswire_encoder_done dnswire_endofdata
           (tf_write_control L (e_writer e) len TINYFRAME_CONTROL_FINISH []))
     | dnswire_encoder_frames \<Rightarrow> encode_frame L e len
     | dnswire_encoder_control_stop \<Rightarrow>
         Inr (encoder_wrote e dnswire_encoder_done dnswire_endofdata
           (tf_write_control_stop L (e_writer e) len))
     | dnswire_encoder_done \<Rightarrow> Inr (dnswire_error, e, []))"

definition dnswire_encoder_stop :: "'w dnswire_encoder \<Rightarrow> dnswire_result \<times> 'w dnswire_encoder" where
  "dnswire_encoder_stop e = (case e_state e of
      dnswire_encoder_frames \<Rightarrow> (dnswire_ok, e\<lparr>e_state := dnswire_encoder_control_stop\<rparr>)
    | _ \<Rightarrow> (dnswire_error, e))"

section \<open>The contract of one call\<close>

text \<open>A message that can be packed: no pointer of the struct dangles.\<close>

definition encodable :: "dnstap \<Rightarrow> bool" where
  "encodable d \<longleftrightarrow> (case wire_of d of Inl f \<Rightarrow> False | Inr t \<Rightarrow> True)"

definition encoder_ok :: "'w dnswire_encoder \<Rightarrow> bool" where
  "encoder_ok e \<longleftrightarrow> (case e_dnstap e of None \<Rightarrow> True | Some d \<Rightarrow> encodable d)"

lemma encodableE:
  assumes "encodable d"
  obtains t where "wire_of d = Inr t"
  using assms by (auto simp: encodable_def split: sum.splits)

lemma encoder_wrote_contract:
  assumes "encoder_wrote e nx rs x = (res, e', out)" and "write_result_ok L len x"
  shows "length out \<le> len \<and> e_dnstap e' = e_dnstap e \<and>
     (res = rs \<and> e_state e' = nx \<and> dnswire_encoder_encoded L e' = length out \<or>
      res \<in> {dnswire_need_more, dnswire_error} \<and> e_state e' = e_state e)"
  using assms
  by (auto simp: encoder_wrote_def write_result_ok_def Let_def dnswire_encoder_encoded_def
      split: prod.splits tinyframe_result.splits)

lemma store_fresh_load:
  assumes "length bs = n"
  shows "bindF (mem_store (Some (fresh_block n)) 0 bs) (\<lambda>m. mem_load m 0 n) = Inr bs"
  using assms by (simp add: mem_store_def mem_load_def)

lemma encode_frame_eq:
  assumes "extlib_ok L" and "e_dnstap e = Some d" and "wire_of d = Inr t"
  shows "encode_frame L e len =
     (if len < tf_frame_size L (pb_packed_size L t) then Inr (dnswire_need_more, e, [])
      else Inr (encoder_wrote e dnswire_encoder_frames dnswire_ok
                  (tf_write_frame L (e_writer e) len (pb_pack L t))))"
  using assms protobuf_length [of L t] protobuf_size_pos [of L t]
  by (simp add: encode_frame_def dnstap_encode_protobuf_size_def dnstap_encode_protobuf_def
      mem_store_def mem_load_def)

text \<open>Where each state goes on success, and what is returned then.\<close>

fun encoder_next :: "dnswire_encoder_state \<Rightarrow> (dnswire_encoder_state \<times> dnswire_result) option" where
  "encoder_next dnswire_encoder_control_ready = Some (dnswire_encoder_control_start, dnswire_again)"
| "encoder_next dnswire_encoder_control_start = Some (dnswire_encoder_frames, dnswire_again)"
| "encoder_next dnswire_encoder_control_accept = Some (dnswire_encoder_control_finish, dnswire_again)"
| "encoder_next dnswire_encoder_control_finish = Some (dnswire_encoder_done, dnswire_endofdata)"
| "encoder_next dnswire_encoder_frames = Some (dnswire_encoder_frames, dnswire_ok)"
| "encoder_next dnswire_encoder_control_stop = Some (dnswire_encoder_done, dnswire_endofdata)"
| "encoder_next dnswire_encoder_done = None"

lemma encode_returns:
  assumes "extlib_ok L" and "encoder_ok e" and "0 < len"
  shows "\<exists>res e' out. dnswire_encoder_encode L e len = Inr (res, e', out)"
proof (cases "e_state e = dnswire_encoder_frames \<and> e_dnstap e \<noteq> None")
  case True
  then obtain d where d: "e_dnstap e = Some d" by blast
  with assms(2) obtain t where "wire_of d = Inr t"
    by (auto simp: encoder_ok_def elim: encodableE)
  with True d assms(1,3) show ?thesis
    by (auto simp: dnswire_encoder_encode_def encode_frame_eq encoder_wrote_def Let_def
        split: prod.splits tinyframe_result.splits)
next
  case False
  with assms(3) show ?thesis
    by (cases "e_state e")
      (auto simp: dnswire_encoder_encode_def encode_frame_def encoder_wrote_def Let_def
        split: prod.splits tinyframe_result.splits option.splits)
qed

lemma encode_contract:
  assumes L: "extlib_ok L" and ok: "encoder_ok e"
    and enc: "dnswire_encoder_encode L e len = Inr (res, e', out)"
  shows "length out \<le> len \<and> e_dnstap e' = e_dnstap e \<and>
     (encoder_next (e_state e) = Some (e_state e', res) \<and>
        dnswire_encoder_encoded L e' = length out \<or>
      res \<in> {dnswire_need_more, dnswire_error} \<and> e_state e' = e_state e)"
proof (cases "e_state e")
  case dnswire_encoder_frames
  show ?thesis
  proof (cases "e_dnstap e")
    case None
    with enc dnswire_encoder_frames show ?thesis
      by (auto simp: dnswire_encoder_encode_def encode_frame_def assertF_def split: if_splits)
  next
    case (Some d)
    with ok obtain t where t: "wire_of d = Inr t"
      by (auto simp: encoder_ok_def elim: encodableE)
    from enc dnswire_encoder_frames show ?thesis

      by (auto simp: dnswire_encoder_encode_def encode_frame_eq [OF L Some t] assertF_def
          split: if_splits dest: encoder_wrote_contract [OF _ write_resultD(4) [OF L]])
  qed
qed (use enc in \<open>auto simp: dnswire_encoder_encode_def assertF_def split: if_splits
       dest: encoder_wrote_contract [OF _ write_resultD(1) [OF L]]
         encoder_wrote_contract [OF _ write_resultD(2) [OF L]]
         encoder_wrote_contract [OF _ write_resultD(3) [OF L]]\<close>)

end
