(* ===== verification/Toylib.thy ===== *)
theory Toylib
  imports Extlib
begin

text \<open>
  A concrete \<open>extlib\<close>, used only to evaluate the witnesses: one-byte lengths, one-byte tags,
  frames of at most 255 bytes.
  It is not a model of \<open>tinyframe\<close> or \<open>protobuf-c\<close>; it shows that the hypotheses on them can
  be met together by executable functions.
\<close>

record toy_reader =
  tr_type :: tinyframe_control
  tr_field :: "byte list"
  tr_left :: nat
  tr_frame :: "byte list"
  tr_read :: nat

fun toy_code :: "tinyframe_control \<Rightarrow> byte" where
  "toy_code TINYFRAME_CONTROL_ACCEPT = 1"
| "toy_code TINYFRAME_CONTROL_START = 2"
| "toy_code TINYFRAME_CONTROL_STOP = 3"
| "toy_code TINYFRAME_CONTROL_READY = 4"
| "toy_code TINYFRAME_CONTROL_FINISH = 5"
| "toy_code (TINYFRAME_CONTROL_other n) = 0"

definition toy_header :: "toy_reader \<Rightarrow> byte \<Rightarrow> byte \<Rightarrow> byte list \<Rightarrow> tinyframe_result \<times> toy_reader" where
  "toy_header r c k rest =
     (if c = 1 then (tinyframe_have_control,
        r\<lparr>tr_type := TINYFRAME_CONTROL_ACCEPT, tr_left := unat k, tr_read := 2\<rparr>)
      else if c = 2 then (tinyframe_have_control,
        r\<lparr>tr_type := TINYFRAME_CONTROL_START, tr_left := unat k, tr_read := 2\<rparr>)
      else if c = 3 then (tinyframe_stopped, r)
      else if c = 4 then (tinyframe_have_control,
        r\<lparr>tr_type := TINYFRAME_CONTROL_READY, tr_left := unat k, tr_read := 2\<rparr>)
      else if c = 5 then (tinyframe_finished, r)
      else if c = 6 then
        (if unat k \<le> length rest
         then (tinyframe_have_frame, r\<lparr>tr_frame := take (unat k) rest, tr_read := unat k + 2\<rparr>)
         else (tinyframe_need_more, r))
      else (tinyframe_error, r))"

definition toy_field :: "toy_reader \<Rightarrow> byte \<Rightarrow> byte list \<Rightarrow> tinyframe_result \<times> toy_reader" where
  "toy_field r n rest =
     (if unat n \<le> length rest
      then (tinyframe_have_control_field,
        r\<lparr>tr_field := take (unat n) rest, tr_left := tr_left r - (unat n + 1),
          tr_read := unat n + 1\<rparr>)
      else (tinyframe_need_more, r))"

definition toy_read :: "toy_reader \<Rightarrow> byte list \<Rightarrow> tinyframe_result \<times> toy_reader" where
  "toy_read r data =
     (if tr_left r > 0
      then (case data of [] \<Rightarrow> (tinyframe_need_more, r) | n # rest \<Rightarrow> toy_field r n rest)
      else (case data of
          c # k # rest \<Rightarrow> toy_header r c k rest
        | _ \<Rightarrow> (tinyframe_need_more, r)))"

definition toy_emit :: "nat \<Rightarrow> nat \<Rightarrow> byte list \<Rightarrow> tinyframe_result \<times> nat \<times> byte list" where
  "toy_emit w len out =
     (if 255 < length out then (tinyframe_error, w, [])
      else if length out \<le> len then (tinyframe_ok, length out, out)
      else (tinyframe_need_more, w, []))"

definition toy_control :: "tinyframe_control \<Rightarrow> byte list list \<Rightarrow> byte list" where
  "toy_control c fs =
     (let body = concat (map (\<lambda>f. of_nat (length f) # f) fs)
      in toy_code c # of_nat (length body) # body)"

definition toy_pack :: "wire \<Rightarrow> byte list" where
  "toy_pack t = (case t of
      (f, None) \<Rightarrow> [8, of_int (t_type f)]
    | (f, Some (m, None)) \<Rightarrow> [9, of_int (t_type f), of_int (m_type m)]
    | (f, Some (m, Some p)) \<Rightarrow> [10, of_int (t_type f), of_int (m_type m)])"

definition toy_dnstap :: dnstap_fields where
  "toy_dnstap =
     \<lparr>t_has_identity = False, t_identity = [], t_has_version = False, t_version = [],
      t_has_extra = False, t_extra = [], t_type = 1\<rparr>"

definition toy_message :: message_fields where
  "toy_message =
     \<lparr>m_type = 1, m_has_socket_family = False, m_socket_family = 1,
      m_has_socket_protocol = False, m_socket_protocol = 1,
      m_has_query_address = False, m_query_address = [],
      m_has_response_address = False, m_response_address = [],
      m_has_query_port = False, m_query_port = 0,
      m_has_response_port = False, m_response_port = 0,
      m_has_query_time_sec = False, m_query_time_sec = 0,
      m_has_query_time_nsec = False, m_query_time_nsec = 0,
      m_has_query_message = False, m_query_message = [],
      m_has_query_zone = False, m_query_zone = [],
      m_has_response_time_sec = False, m_response_time_sec = 0,
      m_has_response_time_nsec = False, m_response_time_nsec = 0,
      m_has_response_message = False, m_response_message = []\<rparr>"

definition toy_policy :: policy_fields where
  "toy_policy =
     \<lparr>p_has_rule = False, p_rule = [], p_has_action = False, p_action = 1,
      p_has_match = False, p_match = 1, p_has_value = False, p_value = []\<rparr>"

definition toy_unpack :: "byte list \<Rightarrow> wire option" where
  "toy_unpack bs = (case bs of
      [k, a] \<Rightarrow>
        if k = 8 then Some (toy_dnstap\<lparr>t_type := uint a\<rparr>, None) else None
    | [k, a, b] \<Rightarrow>
        if k = 9
        then Some (toy_dnstap\<lparr>t_type := uint a\<rparr>, Some (toy_message\<lparr>m_type := uint b\<rparr>, None))
        else if k = 10
        then Some (toy_dnstap\<lparr>t_type := uint a\<rparr>,
                   Some (toy_message\<lparr>m_type := uint b\<rparr>, Some (toy_policy, None)))
        else None
    | _ \<Rightarrow> None)"

definition toylib :: "(toy_reader, nat) extlib" where
  "toylib =
     \<lparr>tf_reader_init = \<lparr>tr_type = TINYFRAME_CONTROL_other 0, tr_field = [], tr_left = 0,
                        tr_frame = [], tr_read = 0\<rparr>,
      tf_read = toy_read,
      tf_control_type = tr_type,
      tf_field_type = (\<lambda>r. TINYFRAME_CONTROL_FIELD_CONTENT_TYPE),
      tf_field_data = tr_field,
      tf_control_length_left = tr_left,
      tf_frame_data = tr_frame,
      tf_bytes_read = tr_read,
      tf_writer_init = 0,
      tf_write_control = (\<lambda>w len c fs. toy_emit w len (toy_control c (map snd fs))),
      tf_write_control_start =
        (\<lambda>w len ct. toy_emit w len (toy_control TINYFRAME_CONTROL_START [ct])),
      tf_write_control_stop = (\<lambda>w len. toy_emit w len (toy_control TINYFRAME_CONTROL_STOP [])),
      tf_write_frame = (\<lambda>w len fr. toy_emit w len (6 # of_nat (length fr) # fr)),
      tf_frame_size = (\<lambda>n. n + 2),
      tf_bytes_wrote = (\<lambda>w. w),
      pb_dnstap_init = toy_dnstap,
      pb_message_init = toy_message,
      pb_policy_init = toy_policy,
      pb_unpack = toy_unpack,
      pb_packed_size = (\<lambda>t. length (toy_pack t)),
      pb_pack = toy_pack\<rparr>"

lemmas toy_defs =
  toylib_def toy_read_def toy_header_def toy_field_def toy_emit_def toy_control_def
  toy_pack_def toy_dnstap_def toy_message_def toy_policy_def toy_unpack_def

lemma toy_emit_ok: "write_result_ok toylib len (toy_emit w len out)"
  by (simp add: write_result_ok_def toy_emit_def toylib_def)

lemma toy_read_le:
  assumes "toy_read r data = (res, r')"
    and "res \<in> {tinyframe_have_control, tinyframe_have_control_field, tinyframe_have_frame}"
  shows "tr_read r' \<le> length data"
  using assms
  by (auto simp: toy_read_def toy_header_def toy_field_def split: if_splits list.splits)

lemma toylib_ok: "extlib_ok toylib"
proof -
  have "tinyframe_writer_ok toylib"
    using toy_emit_ok by (simp add: tinyframe_writer_ok_def toylib_def)
  moreover have "tinyframe_reader_ok toylib"
    using toy_read_le unfolding tinyframe_reader_ok_def by (simp add: toylib_def)
  moreover have "protobuf_ok toylib"
    by (auto simp: protobuf_ok_def toylib_def toy_pack_def split: option.splits)
  ultimately show ?thesis
    by (simp add: extlib_ok_def)
qed

end
