(* ===== verification/Encoder_Props.thy ===== *)
theory Encoder_Props
  imports Encoder Toylib "HOL-Library.Sublist"
begin

text \<open>
  Properties of the encoder: the contract of a call, the order in which it emits the frames of
  a conversation, and when it can be stopped.
\<close>

text \<open>
  With a well-behaved \<open>tinyframe\<close> and \<open>protobuf-c\<close>, some room and a message whose pointers
  do not dangle, \<open>dnswire_encoder_encode\<close> returns (the variable length array is never empty,
  packing does not overrun it, no unwritten byte of it is sent), never writes beyond the room,
  and \<open>dnswire_encoder_encoded\<close> is the number of bytes written whenever it made progress.
\<close>
theorem encoder_encode_safe:
  assumes "extlib_ok L" and "encoder_ok e" and "0 < len"
  shows "\<exists>res e' out. dnswire_encoder_encode L e len = Inr (res, e', out) \<and>
     length out \<le> len \<and> encoder_ok e' \<and>
     (res \<in> {dnswire_ok, dnswire_again, dnswire_endofdata} \<longrightarrow>
        dnswire_encoder_encoded L e' = length out)"
proof -
  obtain res e' out where r: "dnswire_encoder_encode L e len = Inr (res, e', out)"
    using encode_returns [OF assms] by blast
  from encode_contract [OF assms(1,2) r] r assms(2) show ?thesis
    by (auto simp: encoder_ok_def)
qed

lemma encoder_init_ok: "encoder_ok (DNSWIRE_ENCODER_INITIALIZER L)"
  by (simp add: encoder_ok_def DNSWIRE_ENCODER_INITIALIZER_def)

theorem encoder_encode_safe_witness:
  "\<exists>res e' out. dnswire_encoder_encode toylib (DNSWIRE_ENCODER_INITIALIZER toylib) 100 =
     Inr (res, e', out) \<and> length out \<le> 100"
  using encoder_encode_safe [OF toylib_ok encoder_init_ok [of toylib], of 100] by auto

text \<open>
  The encoder follows the conversation: a call either emits the frame of its state, moves to
  the next state and returns the result for it, or asks for more room or fails and stays where
  it is, so that it can be called again with more room. The state never goes back in the order
  of its C enumerators.
\<close>
theorem encoder_encode_moves:
  assumes "extlib_ok L" and "encoder_ok e" and "dnswire_encoder_encode L e len = Inr (res, e', out)"
  shows "(encoder_next (e_state e) = Some (e_state e', res) \<or>
          res \<in> {dnswire_need_more, dnswire_error} \<and> e_state e' = e_state e) \<and>
     e_state e \<le> e_state e' \<and> e_dnstap e' = e_dnstap e"
proof -
  have "s \<le> t" if "encoder_next s = Some (t, r)" for s t r
    using that by (cases s) (auto simp: less_eq_dnswire_encoder_state_def)
  with encode_contract [OF assms] show ?thesis by auto
qed

lemma toy_encode_ready:
  "\<exists>e' out. dnswire_encoder_encode toylib
     ((DNSWIRE_ENCODER_INITIALIZER toylib)\<lparr>e_state := dnswire_encoder_control_finish\<rparr>) 2 =
     Inr (dnswire_endofdata, e', out)"
  by (simp add: dnswire_encoder_encode_def encoder_wrote_def toylib_def toy_emit_def toy_control_def)

theorem encoder_encode_moves_witness:
  "\<exists>e' out. dnswire_encoder_encode toylib
     ((DNSWIRE_ENCODER_INITIALIZER toylib)\<lparr>e_state := dnswire_encoder_control_finish\<rparr>) 2 =
     Inr (dnswire_endofdata, e', out) \<and> e_state e' = dnswire_encoder_done"
proof -
  obtain e' out where e: "dnswire_encoder_encode toylib
     ((DNSWIRE_ENCODER_INITIALIZER toylib)\<lparr>e_state := dnswire_encoder_control_finish\<rparr>) 2 =
     Inr (dnswire_endofdata, e', out)"
    using toy_encode_ready by blast
  have "encoder_ok ((DNSWIRE_ENCODER_INITIALIZER toylib)\<lparr>e_state := dnswire_encoder_control_finish\<rparr>)"
    by (simp add: encoder_ok_def DNSWIRE_ENCODER_INITIALIZER_def)
  from encoder_encode_moves [OF toylib_ok this e] e show ?thesis by auto
qed

section \<open>Order of the emitted frames\<close>

text \<open>
  A use of an encoder: the caller sets messages, encodes and stops in any order. The trace
  lists the frames that were emitted, each by the state that emitted it.
\<close>

inductive encoder_use :: "('r, 'w) extlib \<Rightarrow> 'w dnswire_encoder \<Rightarrow> dnswire_encoder_state list \<Rightarrow>
    'w dnswire_encoder \<Rightarrow> bool" for L where
  use_nil: "encoder_use L e [] e"
| use_set: "encoder_use L e tr e1 \<Longrightarrow> encodable d \<Longrightarrow>
     encoder_use L e tr (dnswire_encoder_set_dnstap e1 d)"
| use_emit: "encoder_use L e tr e1 \<Longrightarrow> dnswire_encoder_encode L e1 len = Inr (res, e2, out) \<Longrightarrow>
     res \<in> {dnswire_ok, dnswire_again, dnswire_endofdata} \<Longrightarrow>
     encoder_use L e (tr @ [e_state e1]) e2"
| use_wait: "encoder_use L e tr e1 \<Longrightarrow> dnswire_encoder_encode L e1 len = Inr (res, e2, out) \<Longrightarrow>
     res \<in> {dnswire_need_more, dnswire_error} \<Longrightarrow> encoder_use L e tr e2"
| use_stop: "encoder_use L e tr e1 \<Longrightarrow> dnswire_encoder_stop e1 = (res, e2) \<Longrightarrow> encoder_use L e tr e2"

text \<open>
  The conversation of a sender as a function of the frames sent so far: in unidirectional mode
  START, then any number of frames, then STOP.
\<close>

fun sender_trace :: "dnswire_encoder_state \<Rightarrow> dnswire_encoder_state list \<Rightarrow> bool" where
  "sender_trace dnswire_encoder_control_start tr = (tr = [])"
| "sender_trace dnswire_encoder_frames tr =
     (\<exists>n. tr = dnswire_encoder_control_start # replicate n dnswire_encoder_frames)"
| "sender_trace dnswire_encoder_control_stop tr =
     (\<exists>n. tr = dnswire_encoder_control_start # replicate n dnswire_encoder_frames)"
| "sender_trace dnswire_encoder_done tr =
     (\<exists>n. tr = dnswire_encoder_control_start # replicate n dnswire_encoder_frames @
             [dnswire_encoder_control_stop])"
| "sender_trace s tr = False"

lemma sender_trace_emit:
  assumes "sender_trace s tr" and "encoder_next s = Some (s', res)"
  shows "sender_trace s' (tr @ [s])"
  using assms
  by (cases s) (auto simp: replicate_append_same simp flip: replicate_Suc)

lemma encoder_use_ok:
  assumes "encoder_use L e tr e'" and "extlib_ok L" and "encoder_ok e"
  shows "encoder_ok e'"
  using assms
proof (induction rule: encoder_use.induct)
  case (use_emit e tr e1 len res e2 out)
  then show ?case using encode_contract [of L e1 len res e2 out] by (simp add: encoder_ok_def)
next
  case (use_wait e tr e1 len res e2 out)
  then show ?case using encode_contract [of L e1 len res e2 out] by (simp add: encoder_ok_def)
qed (auto simp: encoder_ok_def dnswire_encoder_set_dnstap_def dnswire_encoder_stop_def
    split: dnswire_encoder_state.splits)

text \<open>
  Whatever the caller does with an encoder in its initial state, the frames it has emitted
  are START, then DNSTAP frames, then at most one STOP, in this order, and once it is done it
  emits nothing more.
\<close>
theorem encoder_emits_in_order:
  assumes "encoder_use L (DNSWIRE_ENCODER_INITIALIZER L) tr e" and "extlib_ok L"
  shows "sender_trace (e_state e) tr"
  using assms
proof (induction "DNSWIRE_ENCODER_INITIALIZER L" tr e rule: encoder_use.induct)
  case use_nil
  then show ?case by (simp add: DNSWIRE_ENCODER_INITIALIZER_def)
next
  case (use_set tr e1 d)
  then show ?case by (simp add: dnswire_encoder_set_dnstap_def)
next
  case (use_emit tr e1 len res e2 out)
  from encode_contract [OF use_emit.prems
      encoder_use_ok [OF use_emit.hyps(1) use_emit.prems encoder_init_ok] use_emit.hyps(3)]
    use_emit.hyps(4)
  have "encoder_next (e_state e1) = Some (e_state e2, res)" by auto
  with use_emit show ?case by (auto intro: sender_trace_emit)
next
  case (use_wait tr e1 len res e2 out)
  from encode_contract [OF use_wait.prems
      encoder_use_ok [OF use_wait.hyps(1) use_wait.prems encoder_init_ok] use_wait.hyps(3)]
    use_wait.hyps(4)
  have "e_state e2 = e_state e1"
    by (cases "e_state e1") auto
  with use_wait show ?case by simp
next
  case (use_stop tr e1 res e2)
  then show ?case
    by (cases "e_state e1") (auto simp: dnswire_encoder_stop_def)
qed

theorem encoder_emits_in_order_witness:
  "\<exists>e. encoder_use toylib (DNSWIRE_ENCODER_INITIALIZER toylib) [dnswire_encoder_control_start] e \<and>
       sender_trace (e_state e) [dnswire_encoder_control_start]"
proof -
  let ?e = "DNSWIRE_ENCODER_INITIALIZER toylib"
  obtain e' out where e: "dnswire_encoder_encode toylib ?e 100 = Inr (dnswire_again, e', out)"
    by (simp add: dnswire_encoder_encode_def encoder_wrote_def toylib_def toy_emit_def
        toy_control_def DNSWIRE_ENCODER_INITIALIZER_def content_type_length
        DNSTAP_PROTOBUF_CONTENT_TYPE_LENGTH_def)
  have "e_state ?e = dnswire_encoder_control_start"
    by (simp add: DNSWIRE_ENCODER_INITIALIZER_def)
  with use_emit [OF use_nil e] have u: "encoder_use toylib ?e [dnswire_encoder_control_start] e'"
    by simp
  from encoder_emits_in_order [OF u toylib_ok] u show ?thesis by blast
qed

end
