(* ===== verification/Outbuf.thy ===== *)
theory Outbuf
  imports Inbuf Encoder_Props
begin

text \<open>
  The output side of the buffering, shared by \<open>struct dnswire_writer\<close> (\<open>buf\<close>, \<open>size\<close>, \<open>inc\<close>,
  \<open>max\<close>, \<open>at\<close>, \<open>left\<close>) and \<open>struct dnswire_reader\<close> (the same fields with the prefix
  \<open>write_\<close>): the encoder writes at \<open>at\<close>, and the \<open>left\<close> bytes before \<open>at\<close> still have to be
  handed out. Both files have the same loop \<open>_encoding\<close>, which encodes and expands the block.
\<close>

section \<open>Interfaces\<close>

text \<open>What the loop needs of an encoder: it stays in its room and reports what it wrote.\<close>

locale frame_source =
  fixes good :: "'e \<Rightarrow> bool"
    and encode :: "'e \<Rightarrow> nat \<Rightarrow> fault + dnswire_result \<times> 'e \<times> byte list"
    and encoded :: "'e \<Rightarrow> nat"
  assumes encode_total: "good e \<Longrightarrow> 0 < len \<Longrightarrow>
      \<exists>res e' out. encode e len = Inr (res, e', out) \<and> good e' \<and> length out \<le> len \<and>
        (res \<in> {dnswire_ok, dnswire_again, dnswire_endofdata} \<longrightarrow> encoded e' = length out)"

text \<open>A buffer of bytes to hand out: bytes are put behind the pending ones and drained in order.\<close>

locale out_queue =
  fixes ok :: "'b \<Rightarrow> bool"
    and pending :: "'b \<Rightarrow> byte list"
    and peek :: "'b \<Rightarrow> nat \<Rightarrow> fault + byte list"
    and drain :: "nat \<Rightarrow> 'b \<Rightarrow> 'b"
  assumes peek_pending: "ok b \<Longrightarrow> n \<le> length (pending b) \<Longrightarrow> peek b n = Inr (take n (pending b))"
    and drain_ok: "ok b \<Longrightarrow> n \<le> length (pending b) \<Longrightarrow> ok (drain n b)"
    and drain_pending: "ok b \<Longrightarrow> n \<le> length (pending b) \<Longrightarrow> pending (drain n b) = drop n (pending b)"
begin

text \<open>Handing out as much as fits takes a prefix and keeps the rest, in order.\<close>

lemma hand_out:
  assumes "ok b" and "n = min len (length (pending b))"
  shows "\<exists>bs. peek b n = Inr bs \<and> ok (drain n b) \<and> bs @ pending (drain n b) = pending b \<and>
     length bs = n"
  using assms peek_pending [of b n] drain_ok [of b n] drain_pending [of b n] by auto

end

section \<open>Model\<close>

record outbuf =
  o_buf :: "block option"
  o_size :: nat
  o_inc :: nat
  o_max :: nat
  o_at :: nat
  o_left :: nat

text \<open>\<open>&buf[at - left]\<close>, \<open>n\<close> bytes.\<close>

definition out_peek :: "outbuf \<Rightarrow> nat \<Rightarrow> fault + byte list" where
  "out_peek b n = mem_load (o_buf b) (sz_sub (o_at b) (o_left b)) n"

text \<open>\<open>left -= n\<close>, and \<open>at = 0\<close> when nothing is left.\<close>

definition out_drain :: "nat \<Rightarrow> outbuf \<Rightarrow> outbuf" where
  "out_drain n b =
     (let left = sz_sub (o_left b) n
      in b\<lparr>o_left := left, o_at := (if left = 0 then 0 else o_at b)\<rparr>)"

text \<open>
  One call of the encoder on \<open>&buf[at]\<close> with room \<open>size - at\<close>: the null pointer fails the
  encoder's assertion, and the bytes it writes must lie in the block.
\<close>

definition encode_at :: "('r, 'w) extlib \<Rightarrow> 'w dnswire_encoder \<Rightarrow> outbuf \<Rightarrow>
    fault + dnswire_result \<times> 'w dnswire_encoder \<times> outbuf" where
  "encode_at L e b =
     bindF (assertF (o_buf b \<noteq> None)) (\<lambda>_.
     bindF (dnswire_encoder_encode L e (sz_sub (o_size b) (o_at b))) (\<lambda>(res, e', out).
     bindF (mem_store (o_buf b) (o_at b) out) (\<lambda>m.
     Inr (res, e', b\<lparr>o_buf := m\<rparr>))))"

text \<open>
  The loop \<open>_encoding\<close>. It repeats only after expanding the block, so with sizes that do not
  wrap \<open>max - size + 1\<close> rounds are enough; running out of fuel is a fault of its own.
\<close>

fun encoding_loop :: "nat \<Rightarrow> ('r, 'w) extlib \<Rightarrow> world \<Rightarrow> 'w dnswire_encoder \<Rightarrow> outbuf \<Rightarrow>
    fault + dnswire_result \<times> 'w dnswire_encoder \<times> outbuf \<times> world" where
  "encoding_loop 0 L w e b = Inl Out_of_fuel"
| "encoding_loop (Suc fuel) L w e b =
     bindF (encode_at L e b) (\<lambda>(res, e', b1).
     if res \<in> {dnswire_ok, dnswire_again, dnswire_endofdata}
     then Inr (res, e', b1\<lparr>o_at := sz_add (o_at b1) (dnswire_encoder_encoded L e'),
                          o_left := sz_add (o_left b1) (dnswire_encoder_encoded L e')\<rparr>, w)
     else if res = dnswire_need_more
     then if o_size b1 \<ge> o_max b1 then Inr (dnswire_error, e', b1, w)
          else let n = (if sz_add (o_size b1) (o_inc b1) > o_max b1 then o_max b1
                        else sz_add (o_size b1) (o_inc b1))
               in (case sys_alloc w of (ok, w') \<Rightarrow>
                     if ok
                     then encoding_loop fuel L w' e'
                            (b1\<lparr>o_buf := map_option (resize_block n) (o_buf b1), o_size := n\<rparr>)
                     else Inr (dnswire_error, e', b1, w'))
     else Inr (res, e', b1, w))"

definition encoding :: "('r, 'w) extlib \<Rightarrow> world \<Rightarrow> 'w dnswire_encoder \<Rightarrow> outbuf \<Rightarrow>
    fault + dnswire_result \<times> 'w dnswire_encoder \<times> outbuf \<times> world" where
  "encoding L w e b = encoding_loop (Suc (o_max b - o_size b)) L w e b"

section \<open>Invariant and contents\<close>

definition out_pending :: "outbuf \<Rightarrow> byte list" where
  "out_pending b = (case o_buf b of None \<Rightarrow> []
    | Some m \<Rightarrow> map the (take (o_left b) (drop (o_at b - o_left b) m)))"

definition out_limits :: "outbuf \<Rightarrow> bool" where
  "out_limits b \<longleftrightarrow> 0 < o_size b \<and> o_size b \<le> o_max b \<and> 0 < o_inc b \<and>
     o_max b + o_inc b < size_limit"

definition out_ok :: "outbuf \<Rightarrow> bool" where
  "out_ok b \<longleftrightarrow> out_limits b \<and> o_left b \<le> o_at b \<and> o_at b \<le> o_size b \<and>
     (o_left b = 0 \<longrightarrow> o_at b = 0) \<and>
     (case o_buf b of None \<Rightarrow> False
      | Some m \<Rightarrow> length m = o_size b \<and>
          None \<notin> set (take (o_left b) (drop (o_at b - o_left b) m)))"

lemma out_okD:
  assumes "out_ok b"
  obtains m where "o_buf b = Some m" "length m = o_size b" "o_left b \<le> o_at b" "o_at b \<le> o_size b"
    "None \<notin> set (take (o_left b) (drop (o_at b - o_left b) m))"
    "o_size b < size_limit" "0 < o_size b" "o_size b \<le> o_max b" "0 < o_inc b"
    "o_max b + o_inc b < size_limit" "o_left b = 0 \<longrightarrow> o_at b = 0"
  using assms by (auto simp: out_ok_def out_limits_def split: option.splits)

lemma out_pending_length: "out_ok b \<Longrightarrow> length (out_pending b) = o_left b"
  by (auto simp: out_pending_def elim!: out_okD)

lemma out_peek_pending:
  assumes ok: "out_ok b" and n: "n \<le> length (out_pending b)"
  shows "out_peek b n = Inr (take n (out_pending b))"
proof -
  from ok obtain m where m: "o_buf b = Some m" "length m = o_size b" "o_left b \<le> o_at b"
    "o_at b \<le> o_size b" "None \<notin> set (take (o_left b) (drop (o_at b - o_left b) m))"
    "o_size b < size_limit"
    by (blast elim: out_okD)
  let ?s = "take (o_left b) (drop (o_at b - o_left b) m)"
  have nl: "n \<le> o_left b"
    using n out_pending_length [OF ok] by simp
  have "take n (drop (o_at b - o_left b) m) = take n ?s"
    using nl by simp
  moreover have "None \<notin> set (take n ?s)"
    using m(5) by (meson in_set_takeD)
  ultimately have "known (take n (drop (o_at b - o_left b) m)) = Some (map the (take n ?s))"
    using known_if_written [of "take n ?s"] by simp
  then show ?thesis
    using m nl by (simp add: out_peek_def mem_load_def sz_sub_exact out_pending_def take_map)
qed

lemma out_drain_props:
  assumes ok: "out_ok b" and n: "n \<le> length (out_pending b)"
  shows "out_ok (out_drain n b)" and "out_pending (out_drain n b) = drop n (out_pending b)"
proof -
  from ok obtain m where m: "o_buf b = Some m" "length m = o_size b" "o_left b \<le> o_at b"
    "o_at b \<le> o_size b" "None \<notin> set (take (o_left b) (drop (o_at b - o_left b) m))"
    "o_size b < size_limit" "o_left b = 0 \<longrightarrow> o_at b = 0"
    by (blast elim: out_okD)
  have nl: "n \<le> o_left b"
    using n out_pending_length [OF ok] by simp
  have c: "out_drain n b = b\<lparr>o_left := o_left b - n, o_at := (if o_left b = n then 0 else o_at b)\<rparr>"
    using m nl by (simp add: out_drain_def sz_sub_exact Let_def)
  have seg: "take (o_left b - n) (drop (o_at b - (o_left b - n)) m) =
      drop n (take (o_left b) (drop (o_at b - o_left b) m))"
    using nl m by (simp add: drop_take add.commute)
  show "out_ok (out_drain n b)"
    using ok m nl seg unfolding c
    by (auto simp: out_ok_def out_limits_def dest: in_set_dropD)
  show "out_pending (out_drain n b) = drop n (out_pending b)"
    using m nl seg unfolding c
    by (auto simp: out_pending_def drop_map)
qed

interpretation outq: out_queue out_ok out_pending out_peek out_drain
  by unfold_locales (blast intro: out_peek_pending out_drain_props)+

interpretation enc: frame_source
  "\<lambda>e. extlib_ok L \<and> encoder_ok e" "dnswire_encoder_encode L" "dnswire_encoder_encoded L"
  for L :: "('r, 'w) extlib"
proof unfold_locales
  fix e :: "'w dnswire_encoder" and len :: nat
  assume "extlib_ok L \<and> encoder_ok e" and "0 < len"
  then obtain res e' out where "dnswire_encoder_encode L e len = Inr (res, e', out)"
    using encode_returns by blast
  with \<open>extlib_ok L \<and> encoder_ok e\<close> encode_contract [of L e len res e' out]
  show "\<exists>res e' out. dnswire_encoder_encode L e len = Inr (res, e', out) \<and>
      (extlib_ok L \<and> encoder_ok e') \<and> length out \<le> len \<and>
      (res \<in> {dnswire_ok, dnswire_again, dnswire_endofdata} \<longrightarrow>
        dnswire_encoder_encoded L e' = length out)"
    by (auto simp: encoder_ok_def)
qed


section \<open>The loop\<close>

text \<open>Bytes stored behind the pending ones leave these alone.\<close>

lemma store_behind:
  assumes ok: "out_ok b" and fits: "length out \<le> o_size b - o_at b"
  shows "\<exists>m. mem_store (o_buf b) (o_at b) out = Inr (Some m) \<and>
     out_ok (b\<lparr>o_buf := Some m\<rparr>) \<and> out_pending (b\<lparr>o_buf := Some m\<rparr>) = out_pending b \<and>
     out_ok (b\<lparr>o_buf := Some m, o_at := o_at b + length out, o_left := o_left b + length out\<rparr>) \<and>
     out_pending (b\<lparr>o_buf := Some m, o_at := o_at b + length out, o_left := o_left b + length out\<rparr>) =
       out_pending b @ out"
proof -
  from ok obtain m where m: "o_buf b = Some m" "length m = o_size b" "o_left b \<le> o_at b"
    "o_at b \<le> o_size b" "None \<notin> set (take (o_left b) (drop (o_at b - o_left b) m))"
    "o_left b = 0 \<longrightarrow> o_at b = 0"
    by (blast elim: out_okD)
  let ?m = "take (o_at b) m @ map Some out @ drop (o_at b + length out) m"
  have st: "mem_store (o_buf b) (o_at b) out = Inr (Some ?m)"
    using m fits by (simp add: mem_store_def)
  have len: "length ?m = o_size b"
    using m fits by simp
  have s1: "take (o_left b) (drop (o_at b - o_left b) ?m) =
      take (o_left b) (drop (o_at b - o_left b) m)"
    using m by (simp add: drop_take)
  have s2: "take (o_left b + length out) (drop (o_at b - o_left b) ?m) =
      take (o_left b) (drop (o_at b - o_left b) m) @ map Some out"
    using m fits by (simp add: drop_take)
  have "out_ok (b\<lparr>o_buf := Some ?m\<rparr>) \<and> out_pending (b\<lparr>o_buf := Some ?m\<rparr>) = out_pending b"
    using ok m len unfolding out_ok_def out_limits_def out_pending_def by (simp add: s1 del: take_append drop_append)
  moreover have "out_ok (b\<lparr>o_buf := Some ?m, o_at := o_at b + length out, o_left := o_left b + length out\<rparr>)"
    using ok m len fits unfolding out_ok_def out_limits_def
    by (simp add: s2 del: take_append drop_append)
  moreover have "out_pending (b\<lparr>o_buf := Some ?m, o_at := o_at b + length out,
      o_left := o_left b + length out\<rparr>) = out_pending b @ out"
    using m unfolding out_pending_def by (simp add: s2 comp_def del: take_append drop_append)
  ultimately show ?thesis
    using st by blast
qed

lemma out_resize_props:
  assumes ok: "out_ok b" and n: "o_size b \<le> n" "n \<le> o_max b"
  defines "b' \<equiv> b\<lparr>o_buf := map_option (resize_block n) (o_buf b), o_size := n\<rparr>"
  shows "out_ok b'" and "out_pending b' = out_pending b"
proof -
  from ok obtain m where m: "o_buf b = Some m" "length m = o_size b" "o_left b \<le> o_at b"
    "o_at b \<le> o_size b" "None \<notin> set (take (o_left b) (drop (o_at b - o_left b) m))"
    by (blast elim: out_okD)
  have seg: "take (o_left b) (drop (o_at b - o_left b) (resize_block n m)) =
      take (o_left b) (drop (o_at b - o_left b) m)"
    using m n by (simp add: segment_resize_block)
  show "out_ok b'"
    using ok m n seg by (auto simp: b'_def out_ok_def out_limits_def)
  show "out_pending b' = out_pending b"
    using m seg by (simp add: b'_def out_pending_def)
qed

text \<open>
  What the loop achieves: it put exactly one encoded frame behind the pending bytes and the
  encoder moved on, or it failed and neither the pending bytes nor the encoder's state changed.
\<close>

definition encoding_post :: "('r, 'w) extlib \<Rightarrow> 'w dnswire_encoder \<Rightarrow> outbuf \<Rightarrow>
    dnswire_result \<times> 'w dnswire_encoder \<times> outbuf \<times> world \<Rightarrow> bool" where
  "encoding_post L e b x = (case x of (res, e', b', w') \<Rightarrow>
     out_ok b' \<and> encoder_ok e' \<and> e_dnstap e' = e_dnstap e \<and>
     (encoder_next (e_state e) = Some (e_state e', res) \<and>
        (\<exists>e1 len out. e_state e1 = e_state e \<and> e_dnstap e1 = e_dnstap e \<and>
           dnswire_encoder_encode L e1 len = Inr (res, e', out) \<and>
           out_pending b' = out_pending b @ out) \<or>
      res = dnswire_error \<and> e_state e' = e_state e \<and> out_pending b' = out_pending b \<and>
        o_at b' = o_at b))"

lemma encoder_next_result:
  "encoder_next s = Some (s', res) \<Longrightarrow> res \<in> {dnswire_ok, dnswire_again, dnswire_endofdata}"
  by (cases s) auto

lemma encode_at_props:
  assumes L: "extlib_ok L" and e: "encoder_ok e" and ok: "out_ok b" and room: "o_at b < o_size b"
  shows "\<exists>res e' out m. dnswire_encoder_encode L e (o_size b - o_at b) = Inr (res, e', out) \<and>
     encode_at L e b = Inr (res, e', b\<lparr>o_buf := Some m\<rparr>) \<and> encoder_ok e' \<and>
     length out \<le> o_size b - o_at b \<and>
     mem_store (o_buf b) (o_at b) out = Inr (Some m)"
proof -
  have len: "0 < o_size b - o_at b" and sz: "sz_sub (o_size b) (o_at b) = o_size b - o_at b"
    using room ok by (auto elim!: out_okD simp: sz_sub_exact)
  from enc.encode_total [of L e "o_size b - o_at b"] L e len obtain res e' out where
    r: "dnswire_encoder_encode L e (o_size b - o_at b) = Inr (res, e', out)" "encoder_ok e'"
      "length out \<le> o_size b - o_at b"
    by blast
  from store_behind [OF ok r(3)] obtain m where "mem_store (o_buf b) (o_at b) out = Inr (Some m)"
    by blast
  with r sz ok show ?thesis
    by (auto simp: encode_at_def elim!: out_okD)
qed

text \<open>
  One pass of the loop before the buffer is expanded: a frame that was encoded is added to the
  pending bytes; otherwise only the block may have been written behind them.
\<close>

lemma encode_step:
  assumes L: "extlib_ok L" and e: "encoder_ok e" and ok: "out_ok b" and room: "o_at b < o_size b"
  shows "\<exists>res e' m. encode_at L e b = Inr (res, e', b\<lparr>o_buf := Some m\<rparr>) \<and> encoder_ok e' \<and>
     (if res \<in> {dnswire_need_more, dnswire_error}
      then e_state e' = e_state e \<and> e_dnstap e' = e_dnstap e \<and>
        out_ok (b\<lparr>o_buf := Some m\<rparr>) \<and> out_pending (b\<lparr>o_buf := Some m\<rparr>) = out_pending b
      else encoding_post L e b (res, e', b\<lparr>o_buf := Some m,
        o_at := sz_add (o_at b) (dnswire_encoder_encoded L e'),
        o_left := sz_add (o_left b) (dnswire_encoder_encoded L e')\<rparr>, w))"
proof -
  from encode_at_props [OF assms] obtain res e' out m where
    enc: "dnswire_encoder_encode L e (o_size b - o_at b) = Inr (res, e', out)"
    and at: "encode_at L e b = Inr (res, e', b\<lparr>o_buf := Some m\<rparr>)"
    and e': "encoder_ok e'" and len: "length out \<le> o_size b - o_at b"
    and st: "mem_store (o_buf b) (o_at b) out = Inr (Some m)" by blast
  from store_behind [OF ok len] st have b: "out_ok (b\<lparr>o_buf := Some m\<rparr>)"
    "out_pending (b\<lparr>o_buf := Some m\<rparr>) = out_pending b"
    "out_ok (b\<lparr>o_buf := Some m, o_at := o_at b + length out, o_left := o_left b + length out\<rparr>)"
    "out_pending (b\<lparr>o_buf := Some m, o_at := o_at b + length out, o_left := o_left b + length out\<rparr>) =
       out_pending b @ out" by auto
  have sz: "o_at b + length out < size_limit" "o_left b + length out < size_limit"
    using len ok by (auto elim!: out_okD)
  note con = encode_contract [OF L e enc]
  show ?thesis
  proof (cases "res \<in> {dnswire_need_more, dnswire_error}")
    case True
    with con have "e_state e' = e_state e" "e_dnstap e' = e_dnstap e"
      using encoder_next_result [of "e_state e"] by blast+
    with at e' b True show ?thesis by auto
  next
    case False
    with con have nx: "encoder_next (e_state e) = Some (e_state e', res)"
      "dnswire_encoder_encoded L e' = length out" "e_dnstap e' = e_dnstap e" by auto
    with enc e' b sz have "encoding_post L e b (res, e', b\<lparr>o_buf := Some m,
        o_at := sz_add (o_at b) (dnswire_encoder_encoded L e'),
        o_left := sz_add (o_left b) (dnswire_encoder_encoded L e')\<rparr>, w)"
      by (auto simp: encoding_post_def sz_add_exact)
    with at e' False show ?thesis by auto
  qed
qed

lemma encoding_loop_props:
  assumes L: "extlib_ok L" and "encoder_ok e" and "out_ok b" and "o_at b < o_size b"
    and "o_max b - o_size b < fuel"
  shows "\<exists>x. encoding_loop fuel L w e b = Inr x \<and> encoding_post L e b x"
  using assms(2-)
proof (induction fuel arbitrary: w e b)
  case (Suc fuel)
  from encode_step [OF L Suc.prems(1-3), of w] obtain res e' m where
    at: "encode_at L e b = Inr (res, e', b\<lparr>o_buf := Some m\<rparr>)" and e': "encoder_ok e'" and
    step: "if res \<in> {dnswire_need_more, dnswire_error}
      then e_state e' = e_state e \<and> e_dnstap e' = e_dnstap e \<and>
        out_ok (b\<lparr>o_buf := Some m\<rparr>) \<and> out_pending (b\<lparr>o_buf := Some m\<rparr>) = out_pending b
      else encoding_post L e b (res, e', b\<lparr>o_buf := Some m,
        o_at := sz_add (o_at b) (dnswire_encoder_encoded L e'),
        o_left := sz_add (o_left b) (dnswire_encoder_encoded L e')\<rparr>, w)" by blast
  let ?b1 = "b\<lparr>o_buf := Some m\<rparr>"
  have fail: "encoding_post L e b (dnswire_error, e', ?b1, w')" if "res \<in> {dnswire_need_more, dnswire_error}" for w'
    using step e' that by (simp add: encoding_post_def)
  have put: "res \<in> {dnswire_ok, dnswire_again, dnswire_endofdata}" if "res \<notin> {dnswire_need_more, dnswire_error}"
    using step that encoder_next_result [of "e_state e" "e_state e'" res] by (auto simp: encoding_post_def)
  show ?case
  proof (cases "res = dnswire_need_more \<and> o_size b < o_max b")
    case False
    with at step fail put show ?thesis by (auto split: if_splits)
  next
    case True
    define n where "n = (if o_size b + o_inc b > o_max b then o_max b else o_size b + o_inc b)"
    obtain a w' where alloc: "sys_alloc w = (a, w')" by (cases "sys_alloc w")
    have lim: "0 < o_inc b" "o_max b + o_inc b < size_limit" "o_size b \<le> o_max b"
      using Suc.prems(2) by (auto elim: out_okD)
    have n: "o_size b < n" "n \<le> o_max b"
      using lim True by (auto simp: n_def)
    let ?b3 = "?b1\<lparr>o_buf := map_option (resize_block n) (o_buf ?b1), o_size := n\<rparr>"
    from step True have same: "e_state e' = e_state e" "e_dnstap e' = e_dnstap e" by simp_all
    from out_resize_props [of ?b1 n] n step True
    have b3: "out_ok ?b3" "out_pending ?b3 = out_pending b" by simp_all
    have "\<exists>x. encoding_loop fuel L w' e' ?b3 = Inr x \<and> encoding_post L e' ?b3 x"
      using n Suc.prems(3,4) b3(1) e' by (intro Suc.IH) auto
    then obtain x where x: "encoding_loop fuel L w' e' ?b3 = Inr x" "encoding_post L e' ?b3 x" by blast
    have "encoding_post L e b x"
      using x(2) same b3(2) by (auto simp: encoding_post_def split: prod.splits)
    moreover have "encoding_loop (Suc fuel) L w e b =
        (if a then encoding_loop fuel L w' e' ?b3 else Inr (dnswire_error, e', ?b1, w'))"
      using at True alloc lim by (simp add: Let_def sz_add_exact n_def)
    ultimately show ?thesis
      using x(1) fail True by (cases a) auto
  qed
qed simp

lemma encoding_props:
  assumes "extlib_ok L" and "encoder_ok e" and "out_ok b" and "o_at b < o_size b"
  shows "\<exists>x. encoding L w e b = Inr x \<and> encoding_post L e b x"
  unfolding encoding_def by (rule encoding_loop_props [OF assms]) simp

text \<open>The loop talks to the allocator only.\<close>

lemma encoding_loop_world:
  assumes "encoding_loop fuel L w e b = Inr (res, e', b', w')"
  shows "inbox w' = inbox w \<and> sent w' = sent w"
  using assms
proof (induction fuel arbitrary: w e b)
  case (Suc fuel)
  from Suc.prems obtain x where x: "encode_at L e b = Inr x"
    by (cases "encode_at L e b") simp_all
  obtain r1 e1 b1 where x': "x = (r1, e1, b1)" by (cases x)
  obtain a w1 where a: "sys_alloc w = (a, w1)" by (cases "sys_alloc w")
  show ?case
    using Suc.prems Suc.IH sys_alloc_world [OF a]
    by (cases a) (auto simp: x x' a Let_def split: if_splits)
qed simp

lemma encoding_world:
  "encoding L w e b = Inr (res, e', b', w') \<Longrightarrow> inbox w' = inbox w \<and> sent w' = sent w"
  unfolding encoding_def by (rule encoding_loop_world)

end
