(* ===== verification/Dnstap_Props.thy ===== *)
theory Dnstap_Props
  imports Dnstap Toylib
begin

text \<open>
  What decoding guarantees about the enum fields, what re-encoding a decoded message sends,
  which structs can be encoded at all, and where the pointers of the struct dangle.
\<close>

section \<open>Enum fields\<close>

definition top_enums_ok :: "Dnstap__Dnstap \<Rightarrow> bool" where
  "top_enums_ok t \<longleftrightarrow> 0 \<le> t_type t \<and> nat (t_type t) < length DNSTAP_TYPE_STRING"

definition message_enums_ok :: "Dnstap__Message \<Rightarrow> bool" where
  "message_enums_ok m \<longleftrightarrow>
     0 \<le> m_type m \<and> nat (m_type m) < length DNSTAP_MESSAGE_TYPE_STRING \<and>
     0 \<le> m_socket_family m \<and>
     nat (m_socket_family m) < length DNSTAP_SOCKET_FAMILY_STRING \<and>
     (m_has_socket_family m \<longrightarrow> m_socket_family m \<noteq> 0) \<and>
     0 \<le> m_socket_protocol m \<and>
     nat (m_socket_protocol m) < length DNSTAP_SOCKET_PROTOCOL_STRING \<and>
     (m_has_socket_protocol m \<longrightarrow> m_socket_protocol m \<noteq> 0)"

definition policy_enums_ok :: "Dnstap__Policy \<Rightarrow> bool" where
  "policy_enums_ok p \<longleftrightarrow>
     0 \<le> p_action p \<and> nat (p_action p) < length DNSTAP_POLICY_ACTION_STRING \<and>
     (p_has_action p \<longrightarrow> p_action p \<noteq> 0) \<and>
     0 \<le> p_match p \<and> nat (p_match p) < length DNSTAP_POLICY_MATCH_STRING \<and>
     (p_has_match p \<longrightarrow> p_match p \<noteq> 0)"

lemmas enum_tables =
  DNSTAP_TYPE_STRING_def DNSTAP_MESSAGE_TYPE_STRING_def DNSTAP_SOCKET_FAMILY_STRING_def
  DNSTAP_SOCKET_PROTOCOL_STRING_def DNSTAP_POLICY_ACTION_STRING_def
  DNSTAP_POLICY_MATCH_STRING_def settable_message_types_def

lemma decode_type_ok: "top_enums_ok (decode_type t)"
  by (simp add: decode_type_def top_enums_ok_def enum_tables)

lemma decode_message_ok:
  "message_enums_ok (decode_socket_protocol (decode_socket_family (decode_message_type m)))"
proof -
  have t: "0 \<le> m_type (decode_message_type x) \<and> m_type (decode_message_type x) < 15" for x
    by (auto simp: decode_message_type_def enum_tables)
  have f: "0 \<le> m_socket_family (decode_socket_family x) \<and>
      m_socket_family (decode_socket_family x) < 3 \<and>
      (m_has_socket_family (decode_socket_family x) \<longrightarrow> m_socket_family (decode_socket_family x) \<noteq> 0)" for x
    by (auto simp: decode_socket_family_def)
  have p: "0 \<le> m_socket_protocol (decode_socket_protocol x) \<and>
      m_socket_protocol (decode_socket_protocol x) < 8 \<and>
      (m_has_socket_protocol (decode_socket_protocol x) \<longrightarrow>
        m_socket_protocol (decode_socket_protocol x) \<noteq> 0)" for x
    by (auto simp: decode_socket_protocol_def)
  have [simp]: "m_type (decode_socket_protocol x) = m_type x"
    "m_socket_family (decode_socket_protocol x) = m_socket_family x"
    "m_has_socket_family (decode_socket_protocol x) = m_has_socket_family x"
    "m_type (decode_socket_family x) = m_type x" for x
    by (simp_all add: decode_socket_protocol_def decode_socket_family_def)
  from t [of m] f [of "decode_message_type m"]
    p [of "decode_socket_family (decode_message_type m)"]
  show ?thesis
    by (auto simp: message_enums_ok_def enum_tables)
qed

lemma decode_policy_ok: "policy_enums_ok (decode_policy_match (decode_policy_action p))"
proof -
  have a: "0 \<le> p_action (decode_policy_action x) \<and> p_action (decode_policy_action x) < 7 \<and>
      (p_has_action (decode_policy_action x) \<longrightarrow> p_action (decode_policy_action x) \<noteq> 0)" for x
    by (auto simp: decode_policy_action_def)
  have m: "0 \<le> p_match (decode_policy_match x) \<and> p_match (decode_policy_match x) < 6 \<and>
      (p_has_match (decode_policy_match x) \<longrightarrow> p_match (decode_policy_match x) \<noteq> 0)" for x
    by (auto simp: decode_policy_match_def)
  have [simp]: "p_action (decode_policy_match x) = p_action x"
    "p_has_action (decode_policy_match x) = p_has_action x" for x
    by (simp_all add: decode_policy_match_def)
  from a [of p] m [of "decode_policy_action p"] show ?thesis
    by (auto simp: policy_enums_ok_def enum_tables)
qed

section \<open>Decoding\<close>

lemma decode_type_keeps [simp]:
  "t_message (decode_type t) = t_message t"
  by (simp add: decode_type_def)

lemma decode_message_keeps [simp]:
  "m_policy (decode_socket_protocol (decode_socket_family (decode_message_type m))) = m_policy m"
  "addresses_live (decode_socket_protocol (decode_socket_family (decode_message_type m))) = addresses_live m"
  by (simp_all add: decode_socket_protocol_def decode_socket_family_def decode_message_type_def
      addresses_live_def)

lemma tree_at_message:
  "t_message (u_dnstap (tree_at L a (f, mo))) =
     (case mo of None \<Rightarrow> Msg_null | Some _ \<Rightarrow> Msg_unpacked a)"
  by (simp add: tree_at_def dnstap_fields.extend_def Dnstap__Dnstap.fields_def)

lemma tree_at_policy:
  "m_policy (u_message (tree_at L a (f, Some (mf, po)))) =
     (case po of None \<Rightarrow> Pol_null | Some _ \<Rightarrow> Pol_unpacked a)"
  by (simp add: tree_at_def message_fields.extend_def Dnstap__Message.fields_def)

lemma tree_at_addresses [simp]: "addresses_live (u_message (tree_at L a t))"
proof -
  obtain f mo where t: "t = (f, mo)" by (cases t)
  have e: "addresses_live (message_fields.extend m (Dnstap__Message.fields q False False))" for m q
    by (simp add: addresses_live_def message_fields.extend_def Dnstap__Message.fields_def)
  show ?thesis by (cases mo) (simp_all add: t tree_at_def e split: prod.split)
qed

text \<open>The struct after a successful decode, one equation per shape of the message.\<close>

lemma decode_no_message:
  assumes "d_unpacked d = None" and "pb_unpack L data = Some (f, None)"
  shows "dnstap_decode_protobuf L d data =
     Inr (0, d\<lparr>d_unpacked := Some (d_next d, tree_at L (d_next d) (f, None)),
               d_next := Suc (d_next d),
               d_dnstap := decode_type (u_dnstap (tree_at L (d_next d) (f, None)))\<rparr>)"
  using assms by (simp add: dnstap_decode_protobuf_def Let_def tree_at_message)

lemma decode_message:
  assumes "d_unpacked d = None" and "pb_unpack L data = Some (f, Some (mf, None))"
  defines "u \<equiv> tree_at L (d_next d) (f, Some (mf, None))"
  shows "dnstap_decode_protobuf L d data =
     Inr (0, d\<lparr>d_unpacked := Some (d_next d, u), d_next := Suc (d_next d),
               d_dnstap := decode_type (u_dnstap u),
               d_message := decode_socket_protocol
                 (decode_socket_family (decode_message_type (u_message u)))\<rparr>)"
  using assms
  by (simp add: dnstap_decode_protobuf_def Let_def tree_at_message tree_at_policy deref_tree_def)

lemma decode_policy:
  assumes "d_unpacked d = None" and "pb_unpack L data = Some (f, Some (mf, Some p))"
  defines "u \<equiv> tree_at L (d_next d) (f, Some (mf, Some p))"
  shows "dnstap_decode_protobuf L d data =
     Inr (0, d\<lparr>d_unpacked := Some (d_next d, u), d_next := Suc (d_next d),
               d_dnstap := decode_type (u_dnstap u),
               d_message := decode_socket_protocol
                 (decode_socket_family (decode_message_type (u_message u))),
               d_policy := decode_policy_match (decode_policy_action (u_policy u))\<rparr>)"
  using assms
  by (simp add: dnstap_decode_protobuf_def Let_def tree_at_message tree_at_policy deref_tree_def)

lemmas decode_shapes = decode_no_message decode_message decode_policy

lemma decode_fails:
  "d_unpacked d = None \<Longrightarrow> pb_unpack L data = None \<Longrightarrow>
     dnstap_decode_protobuf L d data = Inr (1, d)"
  by (simp add: dnstap_decode_protobuf_def)

lemma unpack_cases:
  obtains (fails) "pb_unpack L data = None"
    | (no_message) f where "pb_unpack L data = Some (f, None)"
    | (message) f mf where "pb_unpack L data = Some (f, Some (mf, None))"
    | (policy) f mf p where "pb_unpack L data = Some (f, Some (mf, Some p))"
  by (metis (no_types, opaque_lifting) option.exhaust prod.exhaust)


lemma decode_enums:
  assumes "dnstap_decode_protobuf L d data = Inr (0, d')"
  shows "top_enums_ok (d_dnstap d') \<and>
     (dnstap_has_message d' \<longrightarrow>
        message_enums_ok (d_message d') \<and>
        (m_policy (d_message d') \<noteq> Pol_null \<longrightarrow> policy_enums_ok (d_policy d')))"
proof -
  have un: "d_unpacked d = None"
    using assms by (auto simp: dnstap_decode_protobuf_def bindF_eq_Inr)
  show ?thesis
  proof (cases rule: unpack_cases [of L data])
    case fails
    with assms un show ?thesis by (simp add: decode_fails)
  next
    case (no_message f)
    from assms [unfolded decode_no_message [OF un no_message]] show ?thesis
      by (auto simp: decode_type_ok dnstap_has_message_def tree_at_message)
  next
    case (message f mf)
    from assms [unfolded decode_message [OF un message]] show ?thesis
      by (auto simp: decode_type_ok decode_message_ok tree_at_policy)
  next
    case (policy f mf p)
    from assms [unfolded decode_policy [OF un policy]] show ?thesis
      by (auto simp: decode_type_ok decode_message_ok decode_policy_ok)
  qed
qed

lemma extend_truncate [simp]:
  "dnstap_fields.truncate (decode_type (u_dnstap (tree_at L a (f, mo)))) =
     (if t_type f = 1 then f else f\<lparr>t_type := 0\<rparr>)"
  by (simp add: decode_type_def tree_at_def dnstap_fields.defs Dnstap__Dnstap.fields_def)

lemma extend_truncate_message [simp]:
  "message_fields.truncate (u_message (tree_at L a (f, Some (mf, po)))) = mf"
  by (simp add: tree_at_def message_fields.defs)

lemma extend_truncate_policy [simp]:
  "policy_fields.truncate (u_policy (tree_at L a (f, Some (mf, Some (pf, s))))) = pf"
  by (simp add: tree_at_def policy_fields.defs)

lemma decode_addresses:
  assumes "dnstap_decode_protobuf L d data = Inr (0, d')" and "dnstap_has_message d'"
  shows "addresses_live (d_message d')"
proof -
  have un: "d_unpacked d = None"
    using assms(1) by (auto simp: dnstap_decode_protobuf_def bindF_eq_Inr)
  show ?thesis
  proof (cases rule: unpack_cases [of L data])
    case fails
    with assms un show ?thesis by (simp add: decode_fails)
  next
    case (no_message f)
    from assms [unfolded decode_no_message [OF un no_message]] show ?thesis
      by (auto simp: dnstap_has_message_def tree_at_message)
  next
    case (message f mf)
    from assms(1) [unfolded decode_message [OF un message]] show ?thesis by auto
  next
    case (policy f mf p)
    from assms(1) [unfolded decode_policy [OF un policy]] show ?thesis by auto
  qed
qed

text \<open>What becomes of a received value when the known ones are 1 to \<open>n\<close>.\<close>

definition known :: "int \<Rightarrow> int \<Rightarrow> bool" where
  "known n v \<longleftrightarrow> 1 \<le> v \<and> v \<le> n"

definition known_or_0 :: "int \<Rightarrow> int \<Rightarrow> int" where
  "known_or_0 n v = (if known n v then v else 0)"

text \<open>The fields of the struct as a function of the received fields; every other field is the received one.\<close>

definition decoded_top :: "dnstap_fields \<Rightarrow> dnstap_fields" where
  "decoded_top f = f\<lparr>t_type := known_or_0 1 (t_type f)\<rparr>"

definition decoded_message :: "message_fields \<Rightarrow> message_fields" where
  "decoded_message m =
     m\<lparr>m_type := known_or_0 14 (m_type m),
       m_has_socket_family := m_has_socket_family m \<and> known 2 (m_socket_family m),
       m_socket_family := known_or_0 2 (m_socket_family m),
       m_has_socket_protocol := m_has_socket_protocol m \<and> known 7 (m_socket_protocol m),
       m_socket_protocol := known_or_0 7 (m_socket_protocol m)\<rparr>"

definition decoded_policy :: "policy_fields \<Rightarrow> policy_fields" where
  "decoded_policy p =
     p\<lparr>p_has_action := p_has_action p \<and> known 6 (p_action p), p_action := known_or_0 6 (p_action p),
       p_has_match := p_has_match p \<and> known 5 (p_match p), p_match := known_or_0 5 (p_match p)\<rparr>"

lemma known_codes:
  "v = type_code DNSTAP_TYPE_MESSAGE \<longleftrightarrow> known 1 v"
  "v \<in> set (settable_message_types @ map message_type_code
     [DNSTAP_MESSAGE_TYPE_UPDATE_QUERY, DNSTAP_MESSAGE_TYPE_UPDATE_RESPONSE]) \<longleftrightarrow> known 14 v"
  "v \<in> set (map socket_family_code [DNSTAP_SOCKET_FAMILY_INET, DNSTAP_SOCKET_FAMILY_INET6]) \<longleftrightarrow> known 2 v"
  "v \<in> set (map socket_protocol_code
     [DNSTAP_SOCKET_PROTOCOL_UDP, DNSTAP_SOCKET_PROTOCOL_TCP, DNSTAP_SOCKET_PROTOCOL_DOT,
      DNSTAP_SOCKET_PROTOCOL_DOH, DNSTAP_SOCKET_PROTOCOL_DNSCryptUDP,
      DNSTAP_SOCKET_PROTOCOL_DNSCryptTCP, DNSTAP_SOCKET_PROTOCOL_DOQ]) \<longleftrightarrow> known 7 v"
  "v \<in> set (map policy_action_code
     [DNSTAP_POLICY_ACTION_NXDOMAIN, DNSTAP_POLICY_ACTION_NODATA, DNSTAP_POLICY_ACTION_PASS,
      DNSTAP_POLICY_ACTION_DROP, DNSTAP_POLICY_ACTION_TRUNCATE, DNSTAP_POLICY_ACTION_LOCAL_DATA]) \<longleftrightarrow> known 6 v"
  "v \<in> set (map policy_match_code
     [DNSTAP_POLICY_MATCH_QNAME, DNSTAP_POLICY_MATCH_CLIENT_IP, DNSTAP_POLICY_MATCH_RESPONSE_IP,
      DNSTAP_POLICY_MATCH_NS_NAME, DNSTAP_POLICY_MATCH_NS_IP]) \<longleftrightarrow> known 5 v"
  by (simp_all add: known_def settable_message_types_def) presburger+

lemma decode_top_fields:
  "dnstap_fields.truncate (decode_type (u_dnstap (tree_at L a (f, mo)))) = decoded_top f"
  unfolding decode_type_def known_codes
  by (simp add: tree_at_def dnstap_fields.defs Dnstap__Dnstap.fields_def decoded_top_def known_or_0_def)

lemma decode_message_fields:
  "message_fields.truncate (decode_socket_protocol (decode_socket_family (decode_message_type m))) =
     decoded_message (message_fields.truncate m)"
proof -
  have t: "message_fields.truncate (decode_message_type x) =
      (message_fields.truncate x)\<lparr>m_type := known_or_0 14 (m_type x)\<rparr>" for x
    unfolding decode_message_type_def known_codes
    by (simp add: message_fields.defs known_or_0_def)
  have f: "message_fields.truncate (decode_socket_family x) =
      (message_fields.truncate x)\<lparr>m_has_socket_family := m_has_socket_family x \<and> known 2 (m_socket_family x),
        m_socket_family := known_or_0 2 (m_socket_family x)\<rparr>" for x
    unfolding decode_socket_family_def known_codes
    by (simp add: message_fields.defs known_or_0_def)
  have p: "message_fields.truncate (decode_socket_protocol x) =
      (message_fields.truncate x)\<lparr>m_has_socket_protocol := m_has_socket_protocol x \<and> known 7 (m_socket_protocol x),
        m_socket_protocol := known_or_0 7 (m_socket_protocol x)\<rparr>" for x
    unfolding decode_socket_protocol_def known_codes
    by (simp add: message_fields.defs known_or_0_def)
  have k: "m_socket_family (decode_message_type x) = m_socket_family x"
    "m_has_socket_family (decode_message_type x) = m_has_socket_family x"
    "m_socket_protocol (decode_socket_family (decode_message_type x)) = m_socket_protocol x"
    "m_has_socket_protocol (decode_socket_family (decode_message_type x)) = m_has_socket_protocol x" for x
    by (simp_all add: decode_message_type_def decode_socket_family_def)
  show ?thesis
    by (simp add: t f p k decoded_message_def) (simp add: message_fields.defs)
qed

lemma decode_policy_fields:
  "policy_fields.truncate (decode_policy_match (decode_policy_action p)) =
     decoded_policy (policy_fields.truncate p)"
proof -
  have a: "policy_fields.truncate (decode_policy_action x) =
      (policy_fields.truncate x)\<lparr>p_has_action := p_has_action x \<and> known 6 (p_action x),
        p_action := known_or_0 6 (p_action x)\<rparr>" for x
    unfolding decode_policy_action_def known_codes by (simp add: policy_fields.defs known_or_0_def)
  have m: "policy_fields.truncate (decode_policy_match x) =
      (policy_fields.truncate x)\<lparr>p_has_match := p_has_match x \<and> known 5 (p_match x),
        p_match := known_or_0 5 (p_match x)\<rparr>" for x
    unfolding decode_policy_match_def known_codes by (simp add: policy_fields.defs known_or_0_def)
  have k: "p_match (decode_policy_action x) = p_match x"
    "p_has_match (decode_policy_action x) = p_has_match x" for x
    by (simp_all add: decode_policy_action_def)
  show ?thesis
    by (simp add: a m k decoded_policy_def) (simp add: policy_fields.defs)
qed

text \<open>
  C29: Whatever integers a peer puts into the enum fields: a successful decode leaves in the struct, for
  the type, the message type, the socket family, the socket protocol, the policy action and the policy
  match, the received value when it is one the library knows, and UNKNOWN (0) otherwise; the \<open>has\<close> flag
  of the optional ones is the received flag for a known value and clear for an unknown one. All the
  other fields are as received. So every value is within the table of printable names that is indexed
  with it.
\<close>
theorem dnstap_decode_enums:
  assumes "dnstap_decode_protobuf L d data = Inr (0, d')"
  shows "\<exists>f mo. pb_unpack L data = Some (f, mo) \<and>
     dnstap_fields.truncate (d_dnstap d') = decoded_top f \<and> (dnstap_has_message d' \<longleftrightarrow> mo \<noteq> None) \<and>
     (\<forall>mf po. mo = Some (mf, po) \<longrightarrow> message_fields.truncate (d_message d') = decoded_message mf \<and>
        (\<forall>pf s. po = Some (pf, s) \<longrightarrow> policy_fields.truncate (d_policy d') = decoded_policy pf)) \<and>
     top_enums_ok (d_dnstap d') \<and>
     (dnstap_has_message d' \<longrightarrow>
        message_enums_ok (d_message d') \<and>
        (m_policy (d_message d') \<noteq> Pol_null \<longrightarrow> policy_enums_ok (d_policy d')))"
proof -
  have un: "d_unpacked d = None"
    using assms by (auto simp: dnstap_decode_protobuf_def bindF_eq_Inr)
  note top = decode_top_fields and msg = decode_message_fields and pol = decode_policy_fields
  note e = decode_enums [OF assms]
  show ?thesis
  proof (cases rule: unpack_cases [of L data])
    case fails
    with assms un show ?thesis by (simp add: decode_fails)
  next
    case (no_message f)
    from assms [unfolded decode_no_message [OF un no_message]] e show ?thesis
      using no_message by (auto simp: dnstap_has_message_def tree_at_message top simp del: extend_truncate)
  next
    case (message f mf)
    from assms [unfolded decode_message [OF un message]] e show ?thesis
      using message by (auto simp: dnstap_has_message_def tree_at_message top msg simp del: extend_truncate)
  next
    case (policy f mf p)
    obtain pf s where p: "p = (pf, s)" by (cases p)
    from assms [unfolded decode_policy [OF un policy]] e show ?thesis
      using policy p
      by (auto simp: dnstap_has_message_def tree_at_message top msg pol simp del: extend_truncate)
  qed
qed

theorem dnstap_decode_enums_witness:
  "\<exists>d'. dnstap_decode_protobuf toylib (DNSTAP_INITIALIZER toylib) [10, 77, 99] = Inr (0, d') \<and>
        t_type (d_dnstap d') = 0 \<and> m_type (d_message d') = 0 \<and> top_enums_ok (d_dnstap d')"
proof -
  have un: "d_unpacked (DNSTAP_INITIALIZER toylib) = None"
    by (simp add: DNSTAP_INITIALIZER_def)
  have p: "pb_unpack toylib [10, 77, 99] = Some (toy_dnstap\<lparr>t_type := 77\<rparr>,
             Some (toy_message\<lparr>m_type := 99\<rparr>, Some (toy_policy, None)))"
    by (simp add: toylib_def toy_unpack_def)
  obtain d' where d': "dnstap_decode_protobuf toylib (DNSTAP_INITIALIZER toylib) [10, 77, 99] = Inr (0, d')"
    using decode_policy [OF un p] by blast
  from dnstap_decode_enums [OF d'] p have
    "dnstap_fields.truncate (d_dnstap d') = decoded_top (toy_dnstap\<lparr>t_type := 77\<rparr>)"
    "message_fields.truncate (d_message d') = decoded_message (toy_message\<lparr>m_type := 99\<rparr>)"
    "top_enums_ok (d_dnstap d')" by auto
  moreover have "t_type (dnstap_fields.truncate x) = t_type x" "m_type (message_fields.truncate y) = m_type y" for x y
    by (simp_all add: dnstap_fields.defs message_fields.defs)
  ultimately have "t_type (d_dnstap d') = t_type (decoded_top (toy_dnstap\<lparr>t_type := 77\<rparr>))"
    "m_type (d_message d') = m_type (decoded_message (toy_message\<lparr>m_type := 99\<rparr>))" "top_enums_ok (d_dnstap d')"
    by metis+
  with d' show ?thesis
    by (simp add: decoded_top_def decoded_message_def known_or_0_def known_def)
qed

text \<open>
  Decoding never faults on a struct that holds no unpacked tree (the state \<open>dnstap_cleanup\<close>
  leaves): it returns 1 and changes nothing when \<open>protobuf-c\<close> rejects the bytes, and 0 with
  the new tree attached otherwise.
\<close>
lemma dnstap_decode_total:
  assumes "d_unpacked d = None"
  shows "(pb_unpack L data = None \<longrightarrow> dnstap_decode_protobuf L d data = Inr (1, d)) \<and>
     (pb_unpack L data \<noteq> None \<longrightarrow>
        (\<exists>d' u. dnstap_decode_protobuf L d data = Inr (0, d') \<and>
                d_unpacked d' = Some (d_next d, u)))"
  using assms
  by (cases rule: unpack_cases [of L data]) (simp_all add: decode_fails decode_shapes)

lemma tree_at_type:
  "p_type (u_policy (tree_at L a (f, Some (mf, Some (pf, s))))) =
     (case s of None \<Rightarrow> Str_null | Some x \<Rightarrow> Str_unpacked a x)"
  by (simp add: tree_at_def policy_fields.extend_def Dnstap__Policy.fields_def)

lemmas wire_defs = wire_of_def wire_of_message_def wire_of_policy_def deref_tree_def

text \<open>What packing sees of a decoded struct.\<close>

definition decoded_wire :: "wire \<Rightarrow> wire" where
  "decoded_wire t = (case t of (f, mo) \<Rightarrow> (if t_type f = 1 then f else f\<lparr>t_type := 0\<rparr>, mo))"

lemma decode_wire:
  assumes "d_unpacked d = None" and "pb_unpack L data = Some t"
  shows "\<exists>d'. dnstap_decode_protobuf L d data = Inr (0, d') \<and> wire_of d' = Inr (decoded_wire t)"
proof -
  obtain f mo where t: "t = (f, mo)" by (cases t)
  show ?thesis
  proof (cases mo)
    case None
    with assms t show ?thesis
      by (simp add: decode_no_message decoded_wire_def wire_defs tree_at_message)
  next
    case (Some m)
    obtain mf po where m: "m = (mf, po)" by (cases m)
    show ?thesis
    proof (cases po)
      case None
      with assms t Some m show ?thesis
        by (simp add: decode_message decoded_wire_def wire_defs tree_at_message
            tree_at_policy)
    next
      case (Some p)
      obtain pf s where "p = (pf, s)" by (cases p)
      with assms t \<open>mo = Some m\<close> m Some show ?thesis
        by (cases s) (simp_all add: decode_policy decoded_wire_def wire_defs tree_at_message
            tree_at_policy tree_at_type)
    qed
  qed
qed

text \<open>
  C32: Re-encoding a decoded message packs the tree as it was received: the message and the
  policy are reached through pointers into the unpacked tree, so the values the decoder
  replaced in its own copies do not show; only the top-level type does. This is what a relay
  that feeds a reader's message to a writer sends.
\<close>
theorem dnstap_decode_encode:
  assumes "d_unpacked d = None" and "pb_unpack L data = Some (f, mo)"
  shows "\<exists>d'. dnstap_decode_protobuf L d data = Inr (0, d') \<and>
     dnstap_encode_protobuf L d' =
       Inr (pb_pack L (if t_type f = 1 then f else f\<lparr>t_type := 0\<rparr>, mo))"
  using decode_wire [OF assms] by (auto simp: dnstap_encode_protobuf_def decoded_wire_def)

theorem dnstap_decode_encode_witness:
  "\<exists>d'. dnstap_decode_protobuf toylib (DNSTAP_INITIALIZER toylib) [9, 1, 99] = Inr (0, d') \<and>
        dnstap_encode_protobuf toylib d' = Inr [9, 1, 99]"
proof -
  have "d_unpacked (DNSTAP_INITIALIZER toylib) = None"
    by (simp add: DNSTAP_INITIALIZER_def)
  moreover have "pb_unpack toylib [9, 1, 99] =
      Some (toy_dnstap\<lparr>t_type := 1\<rparr>, Some (toy_message\<lparr>m_type := 99\<rparr>, None))"
    by (simp add: toylib_def toy_unpack_def)
  ultimately show ?thesis
    using dnstap_decode_encode [of "DNSTAP_INITIALIZER toylib" toylib "[9, 1, 99]"]
    by (fastforce simp: toylib_def toy_pack_def toy_dnstap_def toy_message_def)
qed

text \<open>
  C40: A decode that fails after a successful one leaves the struct pointing into the tree that
  \<open>dnstap_cleanup\<close> has freed: \<open>dnstap_has_message\<close> still says yes, and following the message
  pointer or encoding the struct reads freed memory. The decoder reaches this state on a
  malformed frame.
\<close>
theorem dnstap_failed_decode_dangles:
  assumes "d_unpacked d = None" and "pb_unpack L good = Some (f, Some m)"
    and "dnstap_decode_protobuf L d good = Inr (0, d1)"
    and "pb_unpack L bad = None"
  shows "\<exists>d2. dnstap_cleanup d1 = Inr d2 \<and> dnstap_decode_protobuf L d2 bad = Inr (1, d2) \<and>
     dnstap_has_message d2 \<and>
     dnstap_message_has_policy d2 = Inl Use_after_free \<and>
     dnstap_encode_protobuf L d2 = Inl Use_after_free"
proof -
  obtain mf po where m: "m = (mf, po)" by (cases m)
  obtain u where u: "d_unpacked d1 = Some (d_next d, u)" "m_policy (u_message u) \<noteq> Pol_own"
      "t_message (d_dnstap d1) = Msg_unpacked (d_next d)"
    using assms(1-3) m by (cases po) (auto simp: decode_shapes tree_at_message tree_at_policy)
  show ?thesis
  proof (intro exI conjI)
    show "dnstap_cleanup d1 = Inr (d1\<lparr>d_unpacked := None\<rparr>)"
      using u by (simp add: dnstap_cleanup_def)
  qed (use u assms(4) in \<open>simp_all add: decode_fails dnstap_has_message_def
        dnstap_message_has_policy_def dnstap_encode_protobuf_def wire_defs\<close>)
qed

theorem dnstap_failed_decode_dangles_witness:
  "\<exists>d1 d2. dnstap_decode_protobuf toylib (DNSTAP_INITIALIZER toylib) [9, 1, 3] = Inr (0, d1) \<and>
     dnstap_cleanup d1 = Inr d2 \<and> dnstap_decode_protobuf toylib d2 [1] = Inr (1, d2) \<and>
     dnstap_message_has_policy d2 = Inl Use_after_free"
proof -
  have un: "d_unpacked (DNSTAP_INITIALIZER toylib) = None"
    by (simp add: DNSTAP_INITIALIZER_def)
  have good: "pb_unpack toylib [9, 1, 3] =
      Some (toy_dnstap\<lparr>t_type := 1\<rparr>, Some (toy_message\<lparr>m_type := 3\<rparr>, None))"
    by (simp add: toylib_def toy_unpack_def)
  have bad: "pb_unpack toylib [1] = None"
    by (simp add: toylib_def toy_unpack_def)
  show ?thesis
    using dnstap_failed_decode_dangles [OF un good decode_message [OF un good] bad]
      decode_message [OF un good]
    by blast
qed

section \<open>Setters after a decode, and the types they accept\<close>

lemmas message_setter_defs =
  dnstap_message_set_type_def dnstap_message_set_socket_family_def
  dnstap_message_set_socket_protocol_def dnstap_message_set_query_address_def
  dnstap_message_set_response_address_def dnstap_message_set_query_port_def
  dnstap_message_set_response_port_def dnstap_message_set_query_time_sec_def
  dnstap_message_set_query_time_nsec_def dnstap_message_set_response_time_sec_def
  dnstap_message_set_response_time_nsec_def dnstap_message_set_query_message_def
  dnstap_message_set_response_message_def dnstap_message_set_query_zone_def

lemmas policy_setter_defs =
  dnstap_message_policy_set_action_def dnstap_message_policy_set_match_def
  dnstap_message_policy_set_rule_def dnstap_message_policy_set_value_def
  dnstap_message_clear_policy_def

text \<open>The setters of a message work on the embedded one, which a decoded message does not use.\<close>

lemma decoded_wire_elsewhere:
  assumes "d_unpacked d = None" and "pb_unpack L data = Some (f, Some m)"
    and "dnstap_decode_protobuf L d data = Inr (0, d')"
  shows "wire_of (d'\<lparr>d_message := x, d_policy := y, d_policy_type_alloced := z\<rparr>) = wire_of d'"
proof -
  obtain mf po where m: "m = (mf, po)" by (cases m)
  show ?thesis
  proof (cases po)
    case None
    with assms m show ?thesis
      by (auto simp: decode_message wire_defs tree_at_message tree_at_policy)
  next
    case (Some p)
    obtain pf s where "p = (pf, s)" by (cases p)
    with assms m Some show ?thesis
      by (cases s) (auto simp: decode_policy wire_defs tree_at_message tree_at_policy tree_at_type)
  qed
qed

text \<open>The one macro that writes through the pointer to the message.\<close>

lemma decoded_use_policy:
  assumes "d_unpacked d = None" and "pb_unpack L data = Some (f, Some (mf, po))"
    and "dnstap_decode_protobuf L d data = Inr (0, d')" and "p_type (d_policy d') = Str_null"
  shows "\<exists>d2. dnstap_message_use_policy d' = Inr d2 \<and> wire_of d2 =
     Inr (decoded_wire (f, Some (mf, Some (policy_fields.truncate (d_policy d'), None))))"
proof -
  have tr: "message_fields.truncate (m\<lparr>m_policy := q\<rparr>) = message_fields.truncate m"
    "addresses_live (m\<lparr>m_policy := q\<rparr>) = addresses_live m" for m q
    by (simp_all add: message_fields.defs addresses_live_def)
  let ?u = "tree_at L (d_next d) (f, Some (mf, po))"
  let ?d2 = "d'\<lparr>d_unpacked := Some (d_next d, ?u\<lparr>u_message := (u_message ?u)\<lparr>m_policy := Pol_own\<rparr>\<rparr>)\<rparr>"
  have d': "d_unpacked d' = Some (d_next d, ?u)" "d_dnstap d' = decode_type (u_dnstap ?u)"
    using assms(1-3) by (cases po; auto simp: decode_message decode_policy)+
  have "dnstap_message_use_policy d' = Inr ?d2"
    by (simp add: dnstap_message_use_policy_def d' tree_at_message deref_tree_def)
  moreover have "wire_of ?d2 =
      Inr (decoded_wire (f, Some (mf, Some (policy_fields.truncate (d_policy d'), None))))"
    using assms(4) by (simp add: decoded_wire_def wire_defs d' tree_at_message tr)
  ultimately show ?thesis by blast
qed

text \<open>
  C31: On a decoded message with a \<open>message\<close> in it, no macro that sets a field of the message or of its
  policy, and not the one that clears the policy, has an effect on what is sent: a relay that replaces
  the addresses, the ports, the times or the DNS messages of what it received, or clears or edits its
  policy, and encodes the result sends the message as it was received. The macros write the structs
  embedded in \<open>struct dnstap\<close>, and what is packed is the unpacked tree. The exception among the macros
  is \<open>dnstap_message_use_policy\<close>, which writes through the pointer to the message: after it the embedded
  policy is sent (shown for one without a type string).
\<close>
theorem decoded_message_setters_lost:
  assumes "d_unpacked d = None" and "pb_unpack L data = Some (f, Some (mf, po))"
    and "dnstap_decode_protobuf L d data = Inr (0, d')"
    and "s \<in> {dnstap_message_set_type ty, dnstap_message_set_socket_family ty,
      dnstap_message_set_socket_protocol ty, dnstap_message_set_query_address bs,
      dnstap_message_set_response_address bs, dnstap_message_set_query_port p,
      dnstap_message_set_response_port p, dnstap_message_set_query_time_sec q,
      dnstap_message_set_query_time_nsec p, dnstap_message_set_response_time_sec q,
      dnstap_message_set_response_time_nsec p, dnstap_message_set_query_message bs,
      dnstap_message_set_response_message bs, dnstap_message_set_query_zone bs,
      dnstap_message_policy_set_action ty, dnstap_message_policy_set_match ty,
      dnstap_message_policy_set_rule bs, dnstap_message_policy_set_value bs,
      dnstap_message_clear_policy L}"
  shows "dnstap_encode_protobuf L (s d') = dnstap_encode_protobuf L d' \<and>
     (\<forall>w d2 w'. dnstap_message_policy_set_type str w d' = Inr (d2, w') \<longrightarrow>
        dnstap_encode_protobuf L d2 = dnstap_encode_protobuf L d') \<and>
     (p_type (d_policy d') = Str_null \<longrightarrow> (\<exists>d2. dnstap_message_use_policy d' = Inr d2 \<and>
        dnstap_encode_protobuf L d2 = Inr (pb_pack L
          (decoded_wire (f, Some (mf, Some (policy_fields.truncate (d_policy d'), None)))))))"
proof -
  note e = decoded_wire_elsewhere [OF assms(1-3)]
  have "s d' = d'\<lparr>d_message := d_message (s d'), d_policy := d_policy (s d'),
      d_policy_type_alloced := d_policy_type_alloced d'\<rparr>"
    using assms(4)
    by (elim insertE emptyE) (simp_all add: message_setter_defs policy_setter_defs)
  with e have "wire_of (s d') = wire_of d'" by metis
  moreover have "wire_of d2 = wire_of d'" if "dnstap_message_policy_set_type str w d' = Inr (d2, w')" for w d2 w'
  proof -
    have "d2 = d'\<lparr>d_message := d_message d', d_policy := d_policy d2, d_policy_type_alloced := True\<rparr>"
      using that by (auto simp: dnstap_message_policy_set_type_def split: if_splits prod.splits)
    with e show ?thesis by metis
  qed
  moreover note decoded_use_policy [OF assms(1-3)]
  ultimately show ?thesis
    unfolding dnstap_encode_protobuf_def by (fastforce simp: bindF_simps)
qed

theorem decoded_message_setters_lost_witness:
  "\<exists>d'. dnstap_decode_protobuf toylib (DNSTAP_INITIALIZER toylib) [9, 1, 3] = Inr (0, d') \<and>
     dnstap_encode_protobuf toylib (dnstap_message_set_query_address [0, 0, 0, 0] d') = Inr [9, 1, 3]"
proof -
  have un: "d_unpacked (DNSTAP_INITIALIZER toylib) = None"
    by (simp add: DNSTAP_INITIALIZER_def)
  have good: "pb_unpack toylib [9, 1, 3] =
      Some (toy_dnstap\<lparr>t_type := 1\<rparr>, Some (toy_message\<lparr>m_type := 3\<rparr>, None))"
    by (simp add: toylib_def toy_unpack_def)
  from decode_wire [OF un good] obtain d' where
    d': "dnstap_decode_protobuf toylib (DNSTAP_INITIALIZER toylib) [9, 1, 3] = Inr (0, d')"
      "wire_of d' = Inr (decoded_wire (toy_dnstap\<lparr>t_type := 1\<rparr>, Some (toy_message\<lparr>m_type := 3\<rparr>, None)))"
    by blast
  then have "dnstap_encode_protobuf toylib d' = Inr [9, 1, 3]"
    by (simp add: dnstap_encode_protobuf_def decoded_wire_def toylib_def toy_pack_def toy_dnstap_def toy_message_def)
  moreover have "dnstap_encode_protobuf toylib (dnstap_message_set_query_address [0, 0, 0, 0] d') =
      dnstap_encode_protobuf toylib d'"
    by (rule conjunct1 [OF decoded_message_setters_lost [OF un good d'(1), where bs = "[0, 0, 0, 0]"]]) simp
  ultimately show ?thesis using d'(1) by auto
qed

text \<open>
  The message types of dynamic updates, which decoding accepts, cannot be set: the setter
  maps exactly 13 and 14 of the known types to \<open>UNKNOWN\<close>; every other known type is set, and
  anything else is \<open>UNKNOWN\<close> in both directions.
\<close>
lemma update_types_not_settable:
  "m_type (d_message (dnstap_message_set_type v d)) =
     (if v \<in> {13, 14} then 0 else m_type (decode_message_type ((d_message d)\<lparr>m_type := v\<rparr>)))"
  by (auto simp: dnstap_message_set_type_def decode_message_type_def settable_message_types_def)

end
