(* ===== verification/Decoder.thy ===== *)
theory Decoder
  imports Dnstap_Props
begin

text \<open>
  \<open>dnswire/decoder.h\<close> and \<open>decoder.c\<close>: the state machine that checks the control frames of a
  Frame Streams conversation and unpacks the DNSTAP frames.
\<close>

datatype dnswire_decoder_state =
    dnswire_decoder_reading_control
  | dnswire_decoder_checking_ready
  | dnswire_decoder_checking_accept
  | dnswire_decoder_reading_start
  | dnswire_decoder_checking_start
  | dnswire_decoder_reading_frames
  | dnswire_decoder_checking_finish
  | dnswire_decoder_done

fun dnswire_decoder_state_code :: "dnswire_decoder_state \<Rightarrow> nat" where
  "dnswire_decoder_state_code dnswire_decoder_reading_control = 0"
| "dnswire_decoder_state_code dnswire_decoder_checking_ready = 1"
| "dnswire_decoder_state_code dnswire_decoder_checking_accept = 2"
| "dnswire_decoder_state_code dnswire_decoder_reading_start = 3"
| "dnswire_decoder_state_code dnswire_decoder_checking_start = 4"
| "dnswire_decoder_state_code dnswire_decoder_reading_frames = 5"
| "dnswire_decoder_state_code dnswire_decoder_checking_finish = 6"
| "dnswire_decoder_state_code dnswire_decoder_done = 7"

lemma decoder_state_code_inject:
  "dnswire_decoder_state_code s = dnswire_decoder_state_code t \<longleftrightarrow> s = t"
  by (cases s; cases t) simp_all

instantiation dnswire_decoder_state :: linorder
begin

definition less_eq_dnswire_decoder_state :: "dnswire_decoder_state \<Rightarrow> dnswire_decoder_state \<Rightarrow> bool" where
  "less_eq_dnswire_decoder_state s t \<longleftrightarrow>
     dnswire_decoder_state_code s \<le> dnswire_decoder_state_code t"

definition less_dnswire_decoder_state :: "dnswire_decoder_state \<Rightarrow> dnswire_decoder_state \<Rightarrow> bool" where
  "less_dnswire_decoder_state s t \<longleftrightarrow>
     dnswire_decoder_state_code s < dnswire_decoder_state_code t"

instance
  by standard
    (auto simp: less_eq_dnswire_decoder_state_def less_dnswire_decoder_state_def
      decoder_state_code_inject)

end

definition dnswire_decoder_state_string :: "string list" where
  "dnswire_decoder_state_string =
     [''reading_control'', ''checking_ready'', ''checking_accept'', ''reading_start'',
      ''checking_start'', ''reading_frames'', ''checking_finish'', ''done'']"

record 'r dnswire_decoder =
  dc_state :: dnswire_decoder_state
  dc_reader :: 'r
  dc_dnstap :: dnstap
  dc_ready_support_dnstap_protobuf :: bool
  dc_accept_support_dnstap_protobuf :: bool

definition DNSWIRE_DECODER_INITIALIZER :: "('r, 'w) extlib \<Rightarrow> 'r dnswire_decoder" where
  "DNSWIRE_DECODER_INITIALIZER L =
     \<lparr>dc_state = dnswire_decoder_reading_control, dc_reader = tf_reader_init L,
      dc_dnstap = DNSTAP_INITIALIZER L,
      dc_ready_support_dnstap_protobuf = False, dc_accept_support_dnstap_protobuf = False\<rparr>"

definition dnswire_decoder_decoded :: "('r, 'w) extlib \<Rightarrow> 'r dnswire_decoder \<Rightarrow> nat" where
  "dnswire_decoder_decoded L h = tf_bytes_read L (dc_reader h)"

definition dnswire_decoder_cleanup :: "'r dnswire_decoder \<Rightarrow> fault + 'r dnswire_decoder" where
  "dnswire_decoder_cleanup h = bindF (dnstap_cleanup (dc_dnstap h)) (\<lambda>d. Inr (h\<lparr>dc_dnstap := d\<rparr>))"

text \<open>
  \<open>strncmp(s, data, n) == 0\<close> where \<open>n\<close> is the length of \<open>data\<close>: the comparison stops after \<open>n\<close>
  bytes or at the terminating zero of \<open>s\<close>.
\<close>

fun strncmp_eq :: "byte list \<Rightarrow> byte list \<Rightarrow> bool" where
  "strncmp_eq s [] = True"
| "strncmp_eq [] (b # bs) = (b = 0)"
| "strncmp_eq (a # s) (b # bs) = (if a \<noteq> b then False else if a = 0 then True else strncmp_eq s bs)"

definition content_type_matches :: "('r, 'w) extlib \<Rightarrow> 'r \<Rightarrow> bool" where
  "content_type_matches L r = strncmp_eq DNSTAP_PROTOBUF_CONTENT_TYPE (tf_field_data L r)"

section \<open>The states of dnswire_decoder_decode\<close>

definition decode_reading_control :: "('r, 'w) extlib \<Rightarrow> 'r dnswire_decoder \<Rightarrow> byte list \<Rightarrow>
    dnswire_result \<times> 'r dnswire_decoder" where
  "decode_reading_control L h data = (case tf_read L (dc_reader h) data of (tf, r) \<Rightarrow>
     let h' = h\<lparr>dc_reader := r\<rparr> in
     (case tf of
        tinyframe_have_control \<Rightarrow>
          (case tf_control_type L r of
             TINYFRAME_CONTROL_READY \<Rightarrow>
               (dnswire_again, h'\<lparr>dc_state := dnswire_decoder_checking_ready\<rparr>)
           | TINYFRAME_CONTROL_ACCEPT \<Rightarrow>
               (dnswire_again, h'\<lparr>dc_state := dnswire_decoder_checking_accept\<rparr>)
           | TINYFRAME_CONTROL_START \<Rightarrow>
               (dnswire_again, h'\<lparr>dc_state := dnswire_decoder_checking_start\<rparr>)
           | _ \<Rightarrow> (dnswire_error, h'))
      | tinyframe_need_more \<Rightarrow> (dnswire_need_more, h')
      | _ \<Rightarrow> (dnswire_error, h')))"

definition decode_checking_ready :: "('r, 'w) extlib \<Rightarrow> 'r dnswire_decoder \<Rightarrow> byte list \<Rightarrow>
    dnswire_result \<times> 'r dnswire_decoder" where
  "decode_checking_ready L h data = (case tf_read L (dc_reader h) data of (tf, r) \<Rightarrow>
     let h' = h\<lparr>dc_reader := r\<rparr> in
     (case tf of
        tinyframe_have_control_field \<Rightarrow>
          if tf_field_type L r \<noteq> TINYFRAME_CONTROL_FIELD_CONTENT_TYPE then (dnswire_error, h')
          else
            let h'' = (if content_type_matches L r
                       then h'\<lparr>dc_ready_support_dnstap_protobuf := True\<rparr> else h') in
            if tf_control_length_left L r = 0
            then (dnswire_bidirectional, h''\<lparr>dc_state := dnswire_decoder_reading_start\<rparr>)
            else (dnswire_again, h'')
      | tinyframe_need_more \<Rightarrow> (dnswire_need_more, h')
      | _ \<Rightarrow> (dnswire_error, h')))"

definition decode_checking_accept :: "('r, 'w) extlib \<Rightarrow> 'r dnswire_decoder \<Rightarrow> byte list \<Rightarrow>
    dnswire_result \<times> 'r dnswire_decoder" where
  "decode_checking_accept L h data = (case tf_read L (dc_reader h) data of (tf, r) \<Rightarrow>
     let h' = h\<lparr>dc_reader := r\<rparr> in
     (case tf of
        tinyframe_have_control_field \<Rightarrow>
          if tf_field_type L r \<noteq> TINYFRAME_CONTROL_FIELD_CONTENT_TYPE then (dnswire_error, h')
          else
            let h'' = (if content_type_matches L r
                       then h'\<lparr>dc_accept_support_dnstap_protobuf := True\<rparr> else h') in
            if tf_control_length_left L r = 0
            then (dnswire_bidirectional, h''\<lparr>dc_state := dnswire_decoder_checking_finish\<rparr>)
            else (dnswire_again, h'')
      | tinyframe_need_more \<Rightarrow> (dnswire_need_more, h')
      | _ \<Rightarrow> (dnswire_error, h')))"

definition decode_reading_start :: "('r, 'w) extlib \<Rightarrow> 'r dnswire_decoder \<Rightarrow> byte list \<Rightarrow>
    dnswire_result \<times> 'r dnswire_decoder" where
  "decode_reading_start L h data = (case tf_read L (dc_reader h) data of (tf, r) \<Rightarrow>
     let h' = h\<lparr>dc_reader := r\<rparr> in
     (case tf of
        tinyframe_have_control \<Rightarrow>
          (case tf_control_type L r of
             TINYFRAME_CONTROL_START \<Rightarrow>
               (dnswire_again, h'\<lparr>dc_state := dnswire_decoder_checking_start\<rparr>)
           | _ \<Rightarrow> (dnswire_error, h'))
      | tinyframe_need_more \<Rightarrow> (dnswire_need_more, h')
      | _ \<Rightarrow> (dnswire_error, h')))"

definition decode_checking_start :: "('r, 'w) extlib \<Rightarrow> 'r dnswire_decoder \<Rightarrow> byte list \<Rightarrow>
    dnswire_result \<times> 'r dnswire_decoder" where
  "decode_checking_start L h data = (case tf_read L (dc_reader h) data of (tf, r) \<Rightarrow>
     let h' = h\<lparr>dc_reader := r\<rparr> in
     (case tf of
        tinyframe_have_control_field \<Rightarrow>
          if tf_field_type L r \<noteq> TINYFRAME_CONTROL_FIELD_CONTENT_TYPE then (dnswire_error, h')
          else if \<not> content_type_matches L r then (dnswire_error, h')
          else (dnswire_again, h'\<lparr>dc_state := dnswire_decoder_reading_frames\<rparr>)
      | tinyframe_need_more \<Rightarrow> (dnswire_need_more, h')
      | _ \<Rightarrow> (dnswire_error, h')))"

definition decode_reading_frames :: "('r, 'w) extlib \<Rightarrow> 'r dnswire_decoder \<Rightarrow> byte list \<Rightarrow>
    fault + dnswire_result \<times> 'r dnswire_decoder" where
  "decode_reading_frames L h data = (case tf_read L (dc_reader h) data of (tf, r) \<Rightarrow>
     let h' = h\<lparr>dc_reader := r\<rparr> in
     (case tf of
        tinyframe_have_frame \<Rightarrow>
          bindF (dnstap_cleanup (dc_dnstap h')) (\<lambda>d.
          bindF (dnstap_decode_protobuf L d (tf_frame_data L r)) (\<lambda>(rc, d').
          Inr (if rc \<noteq> 0 then dnswire_error else dnswire_have_dnstap, h'\<lparr>dc_dnstap := d'\<rparr>)))
      | tinyframe_need_more \<Rightarrow> Inr (dnswire_need_more, h')
      | tinyframe_stopped \<Rightarrow> Inr (dnswire_endofdata, h'\<lparr>dc_state := dnswire_decoder_done\<rparr>)
      | _ \<Rightarrow> Inr (dnswire_error, h')))"

definition decode_checking_finish :: "('r, 'w) extlib \<Rightarrow> 'r dnswire_decoder \<Rightarrow> byte list \<Rightarrow>
    dnswire_result \<times> 'r dnswire_decoder" where
  "decode_checking_finish L h data = (case tf_read L (dc_reader h) data of (tf, r) \<Rightarrow>
     let h' = h\<lparr>dc_reader := r\<rparr> in
     (case tf of
        tinyframe_finished \<Rightarrow> (dnswire_endofdata, h'\<lparr>dc_state := dnswire_decoder_done\<rparr>)
      | tinyframe_need_more \<Rightarrow> (dnswire_need_more, h')
      | _ \<Rightarrow> (dnswire_error, h')))"

definition dnswire_decoder_decode :: "('r, 'w) extlib \<Rightarrow> 'r dnswire_decoder \<Rightarrow> byte list \<Rightarrow>
    fault + dnswire_result \<times> 'r dnswire_decoder" where
  "dnswire_decoder_decode L h data =
     bindF (assertF (data \<noteq> [])) (\<lambda>_.
     case dc_state h of
       dnswire_decoder_reading_control \<Rightarrow> Inr (decode_reading_control L h data)
     | dnswire_decoder_checking_ready \<Rightarrow> Inr (decode_checking_ready L h data)
     | dnswire_decoder_checking_accept \<Rightarrow> Inr (decode_checking_accept L h data)
     | dnswire_decoder_reading_start \<Rightarrow> Inr (decode_reading_start L h data)
     | dnswire_decoder_checking_start \<Rightarrow> Inr (decode_checking_start L h data)
     | dnswire_decoder_reading_frames \<Rightarrow> decode_reading_frames L h data
     | dnswire_decoder_checking_finish \<Rightarrow> Inr (decode_checking_finish L h data)
     | dnswire_decoder_done \<Rightarrow> Inr (dnswire_error, h))"

lemmas decode_state_defs =
  decode_reading_control_def decode_checking_ready_def decode_checking_accept_def
  decode_reading_start_def decode_checking_start_def decode_checking_finish_def

section \<open>The contract of one call\<close>

text \<open>The unpacked tree of the decoder can be freed.\<close>

definition decoder_ok :: "'r dnswire_decoder \<Rightarrow> bool" where
  "decoder_ok h \<longleftrightarrow> (case d_unpacked (dc_dnstap h) of
      None \<Rightarrow> True
    | Some (a, u) \<Rightarrow> \<not> (t_message (u_dnstap u) \<noteq> Msg_null \<and> m_policy (u_message u) = Pol_own))"

text \<open>The moves of the decoder, with the result each one returns.\<close>

fun decoder_moves :: "dnswire_decoder_state \<Rightarrow> (dnswire_result \<times> dnswire_decoder_state) list" where
  "decoder_moves dnswire_decoder_reading_control =
     [(dnswire_again, dnswire_decoder_checking_ready),
      (dnswire_again, dnswire_decoder_checking_accept),
      (dnswire_again, dnswire_decoder_checking_start)]"
| "decoder_moves dnswire_decoder_checking_ready =
     [(dnswire_again, dnswire_decoder_checking_ready),
      (dnswire_bidirectional, dnswire_decoder_reading_start)]"
| "decoder_moves dnswire_decoder_checking_accept =
     [(dnswire_again, dnswire_decoder_checking_accept),
      (dnswire_bidirectional, dnswire_decoder_checking_finish)]"
| "decoder_moves dnswire_decoder_reading_start =
     [(dnswire_again, dnswire_decoder_checking_start)]"
| "decoder_moves dnswire_decoder_checking_start =
     [(dnswire_again, dnswire_decoder_reading_frames)]"
| "decoder_moves dnswire_decoder_reading_frames =
     [(dnswire_have_dnstap, dnswire_decoder_reading_frames),
      (dnswire_endofdata, dnswire_decoder_done)]"
| "decoder_moves dnswire_decoder_checking_finish =
     [(dnswire_endofdata, dnswire_decoder_done)]"
| "decoder_moves dnswire_decoder_done = []"

text \<open>The relation between the state before a call, its result and the state after it.\<close>

definition decoder_step_ok :: "dnswire_decoder_state \<Rightarrow> dnswire_result \<Rightarrow> dnswire_decoder_state \<Rightarrow> bool" where
  "decoder_step_ok s res s' \<longleftrightarrow>
     (res, s') \<in> set (decoder_moves s) \<or> res \<in> {dnswire_need_more, dnswire_error} \<and> s' = s"

lemma cleanup_ok:
  "decoder_ok h \<Longrightarrow> dnstap_cleanup (dc_dnstap h) = Inr ((dc_dnstap h)\<lparr>d_unpacked := None\<rparr>)"
  by (cases "d_unpacked (dc_dnstap h)") (auto simp: decoder_ok_def dnstap_cleanup_def)

lemma unpack_after_cleanup:
  assumes "d_unpacked d = None"
  shows "\<exists>rc d'. dnstap_decode_protobuf L d bs = Inr (rc, d') \<and>
     (rc = 0 \<or> rc = 1 \<and> d' = d) \<and> decoder_ok (h\<lparr>dc_dnstap := d'\<rparr>)"
  using assms
  by (cases rule: unpack_cases [of L bs])
    (auto simp: decode_fails decode_shapes decoder_ok_def tree_at_policy tree_at_message)

lemma decode_frames_cases:
  assumes "decoder_ok h" and "dc_state h = dnswire_decoder_reading_frames"
  shows "\<exists>res h'. decode_reading_frames L h data = Inr (res, h') \<and> decoder_ok h' \<and>
     decoder_step_ok (dc_state h) res (dc_state h') \<and>
     (res = dnswire_have_dnstap \<longrightarrow>
        tf_read L (dc_reader h) data = (tinyframe_have_frame, dc_reader h'))"
proof -
  obtain tf r where r: "tf_read L (dc_reader h) data = (tf, r)" by (cases "tf_read L (dc_reader h) data")
  let ?h = "h\<lparr>dc_reader := r\<rparr>"
  have ok: "decoder_ok ?h"
    using assms(1) by (simp add: decoder_ok_def)
  obtain rc d' where
    d: "dnstap_decode_protobuf L ((dc_dnstap ?h)\<lparr>d_unpacked := None\<rparr>) (tf_frame_data L r) = Inr (rc, d')"
      "decoder_ok (?h\<lparr>dc_dnstap := d'\<rparr>)"
    using unpack_after_cleanup [of "(dc_dnstap ?h)\<lparr>d_unpacked := None\<rparr>" L "tf_frame_data L r" ?h]
    by auto
  show ?thesis
    using r ok d cleanup_ok [OF ok] assms(2)
    by (cases tf)
      (auto simp: decode_reading_frames_def Let_def decoder_ok_def decoder_step_ok_def)
qed

end
