(* ===== verification/Decoder_Props.thy ===== *)
theory Decoder_Props
  imports Decoder "HOL-Library.Sublist"
begin

text \<open>
  The contract of one \<open>dnswire_decoder_decode\<close> call, which content types it accepts, and what
  a run of calls must have seen before it delivers a message.
\<close>

lemma decode_pure_state:
  assumes L: "extlib_ok L" and ok: "decoder_ok h"
    and dec: "(res, h') \<in> {decode_reading_control L h data, decode_checking_ready L h data,
       decode_checking_accept L h data, decode_reading_start L h data,
       decode_checking_start L h data, decode_checking_finish L h data}"
  shows "decoder_ok h' \<and> dc_dnstap h' = dc_dnstap h \<and>
     (res \<in> {dnswire_again, dnswire_bidirectional, dnswire_have_dnstap} \<longrightarrow>
        dnswire_decoder_decoded L h' \<le> length data)"
proof -
  obtain tf r where r: "tf_read L (dc_reader h) data = (tf, r)"
    by (cases "tf_read L (dc_reader h) data")
  have "dc_dnstap h' = dc_dnstap h"
    using dec r
    by (auto simp: decode_state_defs Let_def
        split: tinyframe_result.splits tinyframe_control.splits if_splits)
  moreover have "decoder_ok h'"
    using ok calculation by (simp add: decoder_ok_def)
  moreover have "tf \<in> {tinyframe_have_control, tinyframe_have_control_field} \<and> dc_reader h' = r"
    if "res \<in> {dnswire_again, dnswire_bidirectional, dnswire_have_dnstap}"
    using dec r that
    by (auto simp: decode_state_defs Let_def
        split: tinyframe_result.splits tinyframe_control.splits if_splits)
  ultimately show ?thesis
    using tinyframe_readD [OF L r] by (auto simp: dnswire_decoder_decoded_def)
qed

lemma decode_pure_moves:
  "dc_state h = dnswire_decoder_reading_control \<Longrightarrow>
     case decode_reading_control L h data of (res, h') \<Rightarrow> decoder_step_ok (dc_state h) res (dc_state h')"
  "dc_state h = dnswire_decoder_checking_ready \<Longrightarrow>
     case decode_checking_ready L h data of (res, h') \<Rightarrow> decoder_step_ok (dc_state h) res (dc_state h')"
  "dc_state h = dnswire_decoder_checking_accept \<Longrightarrow>
     case decode_checking_accept L h data of (res, h') \<Rightarrow> decoder_step_ok (dc_state h) res (dc_state h')"
  "dc_state h = dnswire_decoder_reading_start \<Longrightarrow>
     case decode_reading_start L h data of (res, h') \<Rightarrow> decoder_step_ok (dc_state h) res (dc_state h')"
  "dc_state h = dnswire_decoder_checking_start \<Longrightarrow>
     case decode_checking_start L h data of (res, h') \<Rightarrow> decoder_step_ok (dc_state h) res (dc_state h')"
  "dc_state h = dnswire_decoder_checking_finish \<Longrightarrow>
     case decode_checking_finish L h data of (res, h') \<Rightarrow> decoder_step_ok (dc_state h) res (dc_state h')"
  by (simp_all add: decoder_step_ok_def decode_state_defs Let_def
      split: prod.splits tinyframe_result.splits tinyframe_control.splits)

lemma decode_dispatch:
  assumes "data \<noteq> []"
  shows "dc_state h = dnswire_decoder_reading_control \<Longrightarrow>
      dnswire_decoder_decode L h data = Inr (decode_reading_control L h data)"
    and "dc_state h = dnswire_decoder_checking_ready \<Longrightarrow>
      dnswire_decoder_decode L h data = Inr (decode_checking_ready L h data)"
    and "dc_state h = dnswire_decoder_checking_accept \<Longrightarrow>
      dnswire_decoder_decode L h data = Inr (decode_checking_accept L h data)"
    and "dc_state h = dnswire_decoder_reading_start \<Longrightarrow>
      dnswire_decoder_decode L h data = Inr (decode_reading_start L h data)"
    and "dc_state h = dnswire_decoder_checking_start \<Longrightarrow>
      dnswire_decoder_decode L h data = Inr (decode_checking_start L h data)"
    and "dc_state h = dnswire_decoder_reading_frames \<Longrightarrow>
      dnswire_decoder_decode L h data = decode_reading_frames L h data"
    and "dc_state h = dnswire_decoder_checking_finish \<Longrightarrow>
      dnswire_decoder_decode L h data = Inr (decode_checking_finish L h data)"
    and "dc_state h = dnswire_decoder_done \<Longrightarrow>
      dnswire_decoder_decode L h data = Inr (dnswire_error, h)"
  using assms by (simp_all add: dnswire_decoder_decode_def)

text \<open>What a caller may rely on after one call.\<close>

definition decode_result_ok :: "('r, 'w) extlib \<Rightarrow> 'r dnswire_decoder \<Rightarrow> byte list \<Rightarrow>
    dnswire_result \<times> 'r dnswire_decoder \<Rightarrow> bool" where
  "decode_result_ok L h data x = (case x of (res, h') \<Rightarrow>
     decoder_ok h' \<and> decoder_step_ok (dc_state h) res (dc_state h') \<and>
     (res \<in> {dnswire_again, dnswire_bidirectional, dnswire_have_dnstap} \<longrightarrow>
        dnswire_decoder_decoded L h' \<le> length data))"

lemma decode_pure_result:
  assumes L: "extlib_ok L" and ok: "decoder_ok h"
    and x: "x \<in> {decode_reading_control L h data, decode_checking_ready L h data,
       decode_checking_accept L h data, decode_reading_start L h data,
       decode_checking_start L h data, decode_checking_finish L h data}"
    and mv: "case x of (res, h') \<Rightarrow> decoder_step_ok (dc_state h) res (dc_state h')"
  shows "decode_result_ok L h data x"
proof (cases x)
  case (Pair res h')
  with x have "(res, h') \<in> {decode_reading_control L h data, decode_checking_ready L h data,
       decode_checking_accept L h data, decode_reading_start L h data,
       decode_checking_start L h data, decode_checking_finish L h data}" by simp
  from decode_pure_state [OF L ok this] mv Pair show ?thesis
    by (simp add: decode_result_ok_def)
qed

lemma decode_frames_result:
  assumes L: "extlib_ok L" and ok: "decoder_ok h"
    and st: "dc_state h = dnswire_decoder_reading_frames"
  shows "\<exists>x. decode_reading_frames L h data = Inr x \<and> decode_result_ok L h data x"
proof -
  from decode_frames_cases [OF ok st, of L data] obtain res h' where
    d: "decode_reading_frames L h data = Inr (res, h')" "decoder_ok h'"
      "decoder_step_ok (dc_state h) res (dc_state h')"
      "res = dnswire_have_dnstap \<longrightarrow>
         tf_read L (dc_reader h) data = (tinyframe_have_frame, dc_reader h')"
    by blast
  have "res \<notin> {dnswire_again, dnswire_bidirectional}"
    using d(3) st by (auto simp: decoder_step_ok_def)
  moreover have "res = dnswire_have_dnstap \<Longrightarrow> dnswire_decoder_decoded L h' \<le> length data"
    using d(4) tinyframe_readD [OF L, of "dc_reader h" data]
    unfolding dnswire_decoder_decoded_def by blast
  ultimately have "decode_result_ok L h data (res, h')"
    using d(2,3) by (simp add: decode_result_ok_def)
  with d(1) show ?thesis by blast
qed

lemma decoder_decode_returns:
  assumes L: "extlib_ok L" and ok: "decoder_ok h" and ne: "data \<noteq> []"
  shows "\<exists>x. dnswire_decoder_decode L h data = Inr x \<and> decode_result_ok L h data x"
proof (cases "dc_state h")
  case dnswire_decoder_reading_frames
  with decode_frames_result [OF L ok this] show ?thesis
    by (simp add: decode_dispatch [OF ne])
next
  case dnswire_decoder_done
  then show ?thesis
    using ok by (simp add: decode_dispatch [OF ne] decode_result_ok_def decoder_step_ok_def)
next
  case dnswire_decoder_reading_control
  have "decode_result_ok L h data (decode_reading_control L h data)"
    by (rule decode_pure_result [OF L ok _ decode_pure_moves(1) [OF dnswire_decoder_reading_control]]) simp
  then show ?thesis
    by (simp add: decode_dispatch [OF ne] dnswire_decoder_reading_control)
next
  case dnswire_decoder_checking_ready
  have "decode_result_ok L h data (decode_checking_ready L h data)"
    by (rule decode_pure_result [OF L ok _ decode_pure_moves(2) [OF dnswire_decoder_checking_ready]]) simp
  then show ?thesis
    by (simp add: decode_dispatch [OF ne] dnswire_decoder_checking_ready)
next
  case dnswire_decoder_checking_accept
  have "decode_result_ok L h data (decode_checking_accept L h data)"
    by (rule decode_pure_result [OF L ok _ decode_pure_moves(3) [OF dnswire_decoder_checking_accept]]) simp
  then show ?thesis
    by (simp add: decode_dispatch [OF ne] dnswire_decoder_checking_accept)
next
  case dnswire_decoder_reading_start
  have "decode_result_ok L h data (decode_reading_start L h data)"
    by (rule decode_pure_result [OF L ok _ decode_pure_moves(4) [OF dnswire_decoder_reading_start]]) simp
  then show ?thesis
    by (simp add: decode_dispatch [OF ne] dnswire_decoder_reading_start)
next
  case dnswire_decoder_checking_start
  have "decode_result_ok L h data (decode_checking_start L h data)"
    by (rule decode_pure_result [OF L ok _ decode_pure_moves(5) [OF dnswire_decoder_checking_start]]) simp
  then show ?thesis
    by (simp add: decode_dispatch [OF ne] dnswire_decoder_checking_start)
next
  case dnswire_decoder_checking_finish
  have "decode_result_ok L h data (decode_checking_finish L h data)"
    by (rule decode_pure_result [OF L ok _ decode_pure_moves(6) [OF dnswire_decoder_checking_finish]]) simp
  then show ?thesis
    by (simp add: decode_dispatch [OF ne] dnswire_decoder_checking_finish)
qed


lemma decoder_decode_result:
  assumes "extlib_ok L" and "decoder_ok h" and "dnswire_decoder_decode L h data = Inr (res, h')"
  shows "decoder_ok h'" and "decoder_step_ok (dc_state h) res (dc_state h')"
    and "res \<in> {dnswire_again, dnswire_bidirectional, dnswire_have_dnstap} \<Longrightarrow>
      dnswire_decoder_decoded L h' \<le> length data"
proof -
  have "data \<noteq> []"
    using assms(3) by (auto simp: dnswire_decoder_decode_def)
  then have "decode_result_ok L h data (res, h')"
    using decoder_decode_returns [OF assms(1,2), of data] assms(3) by auto
  then show "decoder_ok h'" and "decoder_step_ok (dc_state h) res (dc_state h')"
    and "res \<in> {dnswire_again, dnswire_bidirectional, dnswire_have_dnstap} \<Longrightarrow>
      dnswire_decoder_decoded L h' \<le> length data"
    by (auto simp: decode_result_ok_def)
qed

end
