(* ===== verification/Buffered.thy ===== *)
theory Buffered
  imports Inbuf Decoder_Props
begin

text \<open>
  Decoding from a buffer: one call of the decoder on everything an input buffer holds. Both the
  reader and the answering side of the writer rest on it.
\<close>

lemma in_ok_buf: "in_ok b \<Longrightarrow> i_buf b \<noteq> None"
  by (auto elim: in_okD)

lemma in_left_live: "in_ok b \<Longrightarrow> i_left b = 0 \<longleftrightarrow> in_live b = []"
  using in_live_length [of b] by auto

text \<open>The bytes a call of the decoder took, given its result.\<close>

definition taken :: "('r, 'w) extlib \<Rightarrow> dnswire_result \<Rightarrow> 'r dnswire_decoder \<Rightarrow> nat" where
  "taken L res d =
     (if res \<in> {dnswire_again, dnswire_bidirectional, dnswire_have_dnstap}
      then dnswire_decoder_decoded L d else 0)"

lemma decode_buffered:
  assumes L: "extlib_ok L" and b: "in_ok b" and ne: "in_live b \<noteq> []" and d: "decoder_ok d"
  obtains res d' where "in_load b = Inr (in_live b)"
    and "dnswire_decoder_decode L d (in_live b) = Inr (res, d')" and "decoder_ok d'"
    and "decoder_step_ok (dc_state d) res (dc_state d')"
    and "taken L res d' \<le> length (in_live b)"
    and "res \<in> {dnswire_again, dnswire_bidirectional, dnswire_have_dnstap} \<Longrightarrow>
      in_ok (in_consume (dnswire_decoder_decoded L d') b) \<and>
      in_live (in_consume (dnswire_decoder_decoded L d') b) =
        drop (dnswire_decoder_decoded L d') (in_live b)"
proof -
  from decoder_decode_returns [OF L d ne] obtain res d' where
    r: "dnswire_decoder_decode L d (in_live b) = Inr (res, d')"
      "decode_result_ok L d (in_live b) (res, d')" by (metis surj_pair)
  show ?thesis
    using r b inq.load_live [OF b] inq.consume_ok [OF b] inq.consume_live [OF b]
    by (intro that [of res d']) (auto simp: decode_result_ok_def taken_def)
qed

lemma in_need_more_inbox: "in_need_more w b = Inr (rm, b', w') \<Longrightarrow> inbox w' = inbox w \<and> sent w' = sent w"
  by (auto simp: in_need_more_def sys_alloc_def Let_def bindF_eq_Inr split: if_splits list.splits)

end
