(* ===== verification/Reader.thy ===== *)
theory Reader
  imports Outbuf Buffered
begin

text \<open>
  \<open>dnswire/reader.h\<close> and \<open>reader.c\<close>: the handle that buffers what a peer sends, hands it to
  the decoder and, in a bidirectional conversation, answers with the frames of its encoder.
  The \<open>switch\<close> of \<open>dnswire_reader_push\<close> and \<open>dnswire_reader_read\<close> is one definition per
  \<open>case\<close>; a case that falls through calls the definition of the next one.
\<close>

section \<open>State\<close>

datatype dnswire_reader_state =
    dnswire_reader_reading_control
  | dnswire_reader_decoding_control
  | dnswire_reader_encoding_accept
  | dnswire_reader_writing_accept
  | dnswire_reader_reading
  | dnswire_reader_decoding
  | dnswire_reader_encoding_finish
  | dnswire_reader_writing_finish
  | dnswire_reader_done

fun dnswire_reader_state_code :: "dnswire_reader_state \<Rightarrow> nat" where
  "dnswire_reader_state_code dnswire_reader_reading_control = 0"
| "dnswire_reader_state_code dnswire_reader_decoding_control = 1"
| "dnswire_reader_state_code dnswire_reader_encoding_accept = 2"
| "dnswire_reader_state_code dnswire_reader_writing_accept = 3"
| "dnswire_reader_state_code dnswire_reader_reading = 4"
| "dnswire_reader_state_code dnswire_reader_decoding = 5"
| "dnswire_reader_state_code dnswire_reader_encoding_finish = 6"
| "dnswire_reader_state_code dnswire_reader_writing_finish = 7"
| "dnswire_reader_state_code dnswire_reader_done = 8"

definition dnswire_reader_state_string :: "string list" where
  "dnswire_reader_state_string =
     [''reading_control'', ''decoding_control'', ''encoding_accept'', ''writing_accept'',
      ''reading'', ''decoding'', ''encoding_finish'', ''writing_finish'', ''done'']"

text \<open>
  \<open>r_in\<close> holds \<open>buf\<close>, \<open>size\<close>, \<open>inc\<close>, \<open>max\<close>, \<open>at\<close>, \<open>left\<close>; \<open>r_out\<close> the fields with the prefix
  \<open>write_\<close>.
\<close>

record ('r, 'w) dnswire_reader =
  r_state :: dnswire_reader_state
  r_decoder :: "'r dnswire_decoder"
  r_in :: inbuf
  r_pushed :: nat
  r_encoder :: "'w dnswire_encoder"
  r_out :: outbuf
  r_allow_bidirectional :: bool
  r_is_bidirectional :: bool

definition reader_defaults :: "('r, 'w) extlib \<Rightarrow> ('r, 'w) dnswire_reader" where
  "reader_defaults L =
     \<lparr>r_state = dnswire_reader_reading_control,
      r_decoder = DNSWIRE_DECODER_INITIALIZER L,
      r_in = \<lparr>i_buf = None, i_size = DNSWIRE_DEFAULT_BUF_SIZE, i_inc = DNSWIRE_DEFAULT_BUF_SIZE,
              i_max = DNSWIRE_MAXIMUM_BUF_SIZE, i_at = 0, i_left = 0\<rparr>,
      r_pushed = 0,
      r_encoder = DNSWIRE_ENCODER_INITIALIZER L,
      r_out = \<lparr>o_buf = None, o_size = DNSWIRE_DEFAULT_BUF_SIZE, o_inc = DNSWIRE_DEFAULT_BUF_SIZE,
               o_max = DNSWIRE_MAXIMUM_BUF_SIZE, o_at = 0, o_left = 0\<rparr>,
      r_allow_bidirectional = False,
      r_is_bidirectional = False\<rparr>"

section \<open>Initialisation and settings\<close>

definition dnswire_reader_init :: "('r, 'w) extlib \<Rightarrow> world \<Rightarrow>
    dnswire_result \<times> ('r, 'w) dnswire_reader \<times> world" where
  "dnswire_reader_init L w =
     (let r = reader_defaults L in
      case sys_alloc w of (ok, w') \<Rightarrow>
        if ok
        then (dnswire_ok,
              r\<lparr>r_in := (r_in r)\<lparr>i_buf := Some (fresh_block (i_size (r_in r)))\<rparr>\<rparr>, w')
        else (dnswire_error, r, w'))"

definition dnswire_reader_allow_bidirectional :: "world \<Rightarrow> ('r, 'w) dnswire_reader \<Rightarrow> bool \<Rightarrow>
    dnswire_result \<times> ('r, 'w) dnswire_reader \<times> world" where
  "dnswire_reader_allow_bidirectional w r allow =
     (if allow
      then (case (if o_buf (r_out r) = None then sys_alloc w else (True, w)) of (ok, w') \<Rightarrow>
              if ok
              then (dnswire_ok,
                    r\<lparr>r_out := (if o_buf (r_out r) = None
                               then (r_out r)\<lparr>o_buf := Some (fresh_block (o_size (r_out r)))\<rparr>
                               else r_out r),
                      r_encoder := (r_encoder r)\<lparr>e_state := dnswire_encoder_control_accept\<rparr>,
                      r_allow_bidirectional := True\<rparr>, w')
              else (dnswire_error, r, w'))
      else (dnswire_ok,
            r\<lparr>r_encoder := (r_encoder r)\<lparr>e_state := dnswire_encoder_control_start\<rparr>,
              r_allow_bidirectional := False\<rparr>, w))"

definition dnswire_reader_set_bufsize :: "world \<Rightarrow> ('r, 'w) dnswire_reader \<Rightarrow> nat \<Rightarrow>
    fault + dnswire_result \<times> ('r, 'w) dnswire_reader \<times> world" where
  "dnswire_reader_set_bufsize w r sz =
     bindF (in_set_size w sz (r_in r)) (\<lambda>(ok, b, w').
     Inr (if ok then dnswire_ok else dnswire_error, r\<lparr>r_in := b\<rparr>, w'))"

definition dnswire_reader_set_bufinc :: "('r, 'w) dnswire_reader \<Rightarrow> nat \<Rightarrow>
    fault + dnswire_result \<times> ('r, 'w) dnswire_reader" where
  "dnswire_reader_set_bufinc r inc =
     bindF (assertF (inc \<noteq> 0)) (\<lambda>_.
     Inr (dnswire_ok, r\<lparr>r_in := (r_in r)\<lparr>i_inc := inc\<rparr>\<rparr>))"

definition dnswire_reader_set_bufmax :: "('r, 'w) dnswire_reader \<Rightarrow> nat \<Rightarrow>
    fault + dnswire_result \<times> ('r, 'w) dnswire_reader" where
  "dnswire_reader_set_bufmax r mx =
     bindF (assertF (mx \<noteq> 0)) (\<lambda>_.
     if mx < i_size (r_in r) then Inr (dnswire_error, r)
     else Inr (dnswire_ok, r\<lparr>r_in := (r_in r)\<lparr>i_max := mx\<rparr>\<rparr>))"

section \<open>dnswire_reader_push\<close>

text \<open>The case \<open>decoding_control\<close>; \<open>len\<close> is the length the caller passed.\<close>

definition push_decoding_control :: "('r, 'w) extlib \<Rightarrow> world \<Rightarrow> nat \<Rightarrow> ('r, 'w) dnswire_reader \<Rightarrow>
    fault + dnswire_result \<times> ('r, 'w) dnswire_reader \<times> world" where
  "push_decoding_control L w len r0 =
     bindF (in_load (r_in r0)) (\<lambda>bytes.
     bindF (dnswire_decoder_decode L (r_decoder r0) bytes) (\<lambda>(res, d).
     let r = r0\<lparr>r_decoder := d\<rparr>;
         b = in_consume (dnswire_decoder_decoded L d) (r_in r0) in
     (case res of
        dnswire_bidirectional \<Rightarrow>
          let r1 = r\<lparr>r_in := b,
                     r_state := (if i_left b = 0 then dnswire_reader_reading_control
                                 else r_state r)\<rparr> in
          if \<not> r_allow_bidirectional r1 then Inr (dnswire_error, r1, w)
          else let r2 = r1\<lparr>r_is_bidirectional := True\<rparr> in
               if \<not> dc_ready_support_dnstap_protobuf d then Inr (dnswire_error, r2, w)
               else Inr (dnswire_again, r2\<lparr>r_state := dnswire_reader_encoding_accept\<rparr>, w)
      | dnswire_again \<Rightarrow>
          Inr (dnswire_again,
               r\<lparr>r_in := b,
                 r_state := (if i_left b = 0 then dnswire_reader_reading_control
                             else r_state r)\<rparr>, w)
      | dnswire_need_more \<Rightarrow>
          bindF (in_need_more w (r_in r)) (\<lambda>(room, b', w').
          if \<not> room then Inr (dnswire_error, r\<lparr>r_in := b'\<rparr>, w')
          else Inr (if len \<noteq> 0 \<and> r_pushed r < len then dnswire_again else dnswire_need_more,
                    r\<lparr>r_in := b', r_state := dnswire_reader_reading_control\<rparr>, w'))
      | dnswire_have_dnstap \<Rightarrow>
          Inr (dnswire_have_dnstap,
               r\<lparr>r_in := b,
                 r_state := (if i_left b \<noteq> 0 then dnswire_reader_decoding
                             else dnswire_reader_reading)\<rparr>, w)
      | dnswire_endofdata \<Rightarrow>
          if r_is_bidirectional r
          then Inr (dnswire_again, r\<lparr>r_state := dnswire_reader_encoding_finish\<rparr>, w)
          else Inr (dnswire_endofdata, r\<lparr>r_state := dnswire_reader_done\<rparr>, w)
      | _ \<Rightarrow> Inr (dnswire_error, r, w))))"

text \<open>The case \<open>decoding\<close>; \<open>dnswire_bidirectional\<close> is not expected any more.\<close>

definition push_decoding :: "('r, 'w) extlib \<Rightarrow> world \<Rightarrow> nat \<Rightarrow> ('r, 'w) dnswire_reader \<Rightarrow>
    fault + dnswire_result \<times> ('r, 'w) dnswire_reader \<times> world" where
  "push_decoding L w len r0 =
     bindF (in_load (r_in r0)) (\<lambda>bytes.
     bindF (dnswire_decoder_decode L (r_decoder r0) bytes) (\<lambda>(res, d).
     let r = r0\<lparr>r_decoder := d\<rparr>;
         b = in_consume (dnswire_decoder_decoded L d) (r_in r0) in
     (case res of
        dnswire_again \<Rightarrow>
          Inr (dnswire_again,
               r\<lparr>r_in := b,
                 r_state := (if i_left b = 0 then dnswire_reader_reading else r_state r)\<rparr>, w)
      | dnswire_need_more \<Rightarrow>
          bindF (in_need_more w (r_in r)) (\<lambda>(room, b', w').
          if \<not> room then Inr (dnswire_error, r\<lparr>r_in := b'\<rparr>, w')
          else Inr (if len \<noteq> 0 \<and> r_pushed r < len then dnswire_again else dnswire_need_more,
                    r\<lparr>r_in := b', r_state := dnswire_reader_reading\<rparr>, w'))
      | dnswire_have_dnstap \<Rightarrow>
          Inr (dnswire_have_dnstap,
               r\<lparr>r_in := b,
                 r_state := (if i_left b = 0 then dnswire_reader_reading else r_state r)\<rparr>, w)
      | dnswire_endofdata \<Rightarrow>
          if r_is_bidirectional r
          then Inr (dnswire_again, r\<lparr>r_state := dnswire_reader_encoding_finish\<rparr>, w)
          else Inr (dnswire_endofdata, r\<lparr>r_state := dnswire_reader_done\<rparr>, w)
      | _ \<Rightarrow> Inr (dnswire_error, r, w))))"

text \<open>
  Copying as much of \<open>data\<close> as fits behind what is buffered; the first half of the cases
  \<open>reading_control\<close> and \<open>reading\<close>.
\<close>

definition push_bytes :: "byte list \<Rightarrow> ('r, 'w) dnswire_reader \<Rightarrow>
    fault + ('r, 'w) dnswire_reader" where
  "push_bytes data r =
     (let room = in_room (r_in r);
          n = (if room < length data then room else length data) in
      bindF (if n \<noteq> 0 then in_append (r_in r) (take n data) else Inr (r_in r)) (\<lambda>b.
      Inr (r\<lparr>r_pushed := n, r_in := b\<rparr>)))"

definition push_reading_control :: "('r, 'w) extlib \<Rightarrow> world \<Rightarrow> byte list \<Rightarrow>
    ('r, 'w) dnswire_reader \<Rightarrow> fault + dnswire_result \<times> ('r, 'w) dnswire_reader \<times> world" where
  "push_reading_control L w data r =
     (if data = [] then Inr (dnswire_need_more, r, w)
      else bindF (push_bytes data r) (\<lambda>r1.
           push_decoding_control L w (length data)
             (r1\<lparr>r_state := dnswire_reader_decoding_control\<rparr>)))"

definition push_reading :: "('r, 'w) extlib \<Rightarrow> world \<Rightarrow> byte list \<Rightarrow>
    ('r, 'w) dnswire_reader \<Rightarrow> fault + dnswire_result \<times> ('r, 'w) dnswire_reader \<times> world" where
  "push_reading L w data r =
     (if data = [] then Inr (dnswire_need_more, r, w)
      else bindF (push_bytes data r) (\<lambda>r1.
           push_decoding L w (length data) (r1\<lparr>r_state := dnswire_reader_decoding\<rparr>)))"

text \<open>
  The caller's room for output: whether \<open>out_data\<close> is a pointer at all, and \<open>*out_len\<close>,
  \<open>None\<close> when \<open>out_len\<close> is the null pointer. The result carries the bytes put at \<open>out_data\<close>;
  their number is the new \<open>*out_len\<close>.
\<close>

definition push_output :: "bool \<Rightarrow> nat option \<Rightarrow> ('r, 'w) dnswire_reader \<Rightarrow>
    fault + ('r, 'w) dnswire_reader \<times> byte list" where
  "push_output out_data out_len r =
     (case out_len of
        None \<Rightarrow> Inl Assert_failed
      | Some orig \<Rightarrow>
          let n = (if o_left (r_out r) < orig then o_left (r_out r) else orig) in
          bindF (if out_data then out_peek (r_out r) n else Inl Null_deref) (\<lambda>bs.
          Inr (r\<lparr>r_out := out_drain n (r_out r)\<rparr>, bs)))"

definition push_writing_accept :: "world \<Rightarrow> bool \<Rightarrow> nat option \<Rightarrow> ('r, 'w) dnswire_reader \<Rightarrow>
    fault + dnswire_result \<times> ('r, 'w) dnswire_reader \<times> world \<times> byte list" where
  "push_writing_accept w out_data out_len r =
     bindF (push_output out_data out_len r) (\<lambda>(r1, bs).
     Inr (dnswire_again,
          (if o_left (r_out r1) = 0 then r1\<lparr>r_state := dnswire_reader_reading_control\<rparr> else r1),
          w, bs))"

definition push_encoding_accept :: "('r, 'w) extlib \<Rightarrow> world \<Rightarrow> bool \<Rightarrow> nat option \<Rightarrow>
    ('r, 'w) dnswire_reader \<Rightarrow>
    fault + dnswire_result \<times> ('r, 'w) dnswire_reader \<times> world \<times> byte list" where
  "push_encoding_accept L w out_data out_len r =
     bindF (encoding L w (r_encoder r) (r_out r)) (\<lambda>(res, e, b, w').
     let r1 = r\<lparr>r_encoder := e, r_out := b\<rparr> in
     if res = dnswire_again
     then push_writing_accept w' out_data out_len (r1\<lparr>r_state := dnswire_reader_writing_accept\<rparr>)
     else Inr (dnswire_error, r1, w', []))"

definition push_writing_finish :: "world \<Rightarrow> bool \<Rightarrow> nat option \<Rightarrow> ('r, 'w) dnswire_reader \<Rightarrow>
    fault + dnswire_result \<times> ('r, 'w) dnswire_reader \<times> world \<times> byte list" where
  "push_writing_finish w out_data out_len r =
     bindF (push_output out_data out_len r) (\<lambda>(r1, bs).
     if o_left (r_out r1) = 0
     then Inr (dnswire_endofdata, r1\<lparr>r_state := dnswire_reader_done\<rparr>, w, bs)
     else Inr (dnswire_again, r1, w, bs))"

definition push_encoding_finish :: "('r, 'w) extlib \<Rightarrow> world \<Rightarrow> bool \<Rightarrow> nat option \<Rightarrow>
    ('r, 'w) dnswire_reader \<Rightarrow>
    fault + dnswire_result \<times> ('r, 'w) dnswire_reader \<times> world \<times> byte list" where
  "push_encoding_finish L w out_data out_len r =
     bindF (encoding L w (r_encoder r) (r_out r)) (\<lambda>(res, e, b, w').
     let r1 = r\<lparr>r_encoder := e, r_out := b\<rparr> in
     if res = dnswire_endofdata
     then push_writing_finish w' out_data out_len (r1\<lparr>r_state := dnswire_reader_writing_finish\<rparr>)
     else Inr (dnswire_error, r1, w', []))"

text \<open>The cases that answer nothing leave \<open>*out_len\<close> at 0.\<close>

definition no_output :: "fault + 'res \<times> 'h \<times> world \<Rightarrow> fault + 'res \<times> 'h \<times> world \<times> byte list" where
  "no_output x = bindF x (\<lambda>(res, h, w). Inr (res, h, w, []))"

definition dnswire_reader_push :: "('r, 'w) extlib \<Rightarrow> world \<Rightarrow> ('r, 'w) dnswire_reader \<Rightarrow>
    byte list option \<Rightarrow> bool \<Rightarrow> nat option \<Rightarrow>
    fault + dnswire_result \<times> ('r, 'w) dnswire_reader \<times> world \<times> byte list" where
  "dnswire_reader_push L w r data_ptr out_data out_len =
     (case data_ptr of None \<Rightarrow> Inl Assert_failed | Some data \<Rightarrow>
     bindF (assertF (i_buf (r_in r) \<noteq> None)) (\<lambda>_.
     bindF (assertF (\<not> r_allow_bidirectional r \<or> out_data)) (\<lambda>_.
     bindF (assertF (\<not> r_allow_bidirectional r \<or> out_len \<noteq> None)) (\<lambda>_.
     let r0 = r\<lparr>r_pushed := 0\<rparr> in
     (case r_state r0 of
        dnswire_reader_reading_control \<Rightarrow> no_output (push_reading_control L w data r0)
      | dnswire_reader_decoding_control \<Rightarrow>
          no_output (push_decoding_control L w (length data) r0)
      | dnswire_reader_encoding_accept \<Rightarrow> push_encoding_accept L w out_data out_len r0
      | dnswire_reader_writing_accept \<Rightarrow> push_writing_accept w out_data out_len r0
      | dnswire_reader_reading \<Rightarrow> no_output (push_reading L w data r0)
      | dnswire_reader_decoding \<Rightarrow> no_output (push_decoding L w (length data) r0)
      | dnswire_reader_encoding_finish \<Rightarrow> push_encoding_finish L w out_data out_len r0
      | dnswire_reader_writing_finish \<Rightarrow> push_writing_finish w out_data out_len r0
      | dnswire_reader_done \<Rightarrow> Inr (dnswire_error, r0, w, []))))))"

section \<open>dnswire_reader_read\<close>

text \<open>\<open>read\<close> of at most the room behind what is buffered; an error and the end of the stream fail.\<close>

definition read_bytes :: "world \<Rightarrow> ('r, 'w) dnswire_reader \<Rightarrow>
    fault + (('r, 'w) dnswire_reader option) \<times> world" where
  "read_bytes w r = (case sys_read w (in_room (r_in r)) of
      (None, w') \<Rightarrow> Inr (None, w')
    | (Some bs, w') \<Rightarrow>
        if bs = [] then Inr (None, w')
        else bindF (in_append (r_in r) bs) (\<lambda>b. Inr (Some (r\<lparr>r_in := b\<rparr>), w')))"

definition read_decoding_control :: "('r, 'w) extlib \<Rightarrow> world \<Rightarrow> ('r, 'w) dnswire_reader \<Rightarrow>
    fault + dnswire_result \<times> ('r, 'w) dnswire_reader \<times> world" where
  "read_decoding_control L w r0 =
     bindF (in_load (r_in r0)) (\<lambda>bytes.
     bindF (dnswire_decoder_decode L (r_decoder r0) bytes) (\<lambda>(res, d).
     let r = r0\<lparr>r_decoder := d\<rparr>;
         b = in_consume (dnswire_decoder_decoded L d) (r_in r0) in
     (case res of
        dnswire_bidirectional \<Rightarrow>
          let r1 = r\<lparr>r_in := b,
                     r_state := (if i_left b = 0 then dnswire_reader_reading_control
                                 else r_state r)\<rparr> in
          if \<not> r_allow_bidirectional r1 then Inr (dnswire_error, r1, w)
          else let r2 = r1\<lparr>r_is_bidirectional := True\<rparr> in
               if \<not> dc_ready_support_dnstap_protobuf d then Inr (dnswire_error, r2, w)
               else Inr (dnswire_again, r2\<lparr>r_state := dnswire_reader_encoding_accept\<rparr>, w)
      | dnswire_again \<Rightarrow>
          Inr (dnswire_again,
               r\<lparr>r_in := b,
                 r_state := (if i_left b = 0 then dnswire_reader_reading_control
                             else r_state r)\<rparr>, w)
      | dnswire_need_more \<Rightarrow>
          bindF (in_need_more w (r_in r)) (\<lambda>(room, b', w').
          if \<not> room then Inr (dnswire_error, r\<lparr>r_in := b'\<rparr>, w')
          else Inr (dnswire_need_more,
                    r\<lparr>r_in := b', r_state := dnswire_reader_reading_control\<rparr>, w'))
      | dnswire_have_dnstap \<Rightarrow>
          Inr (dnswire_have_dnstap,
               r\<lparr>r_in := b,
                 r_state := (if i_left b \<noteq> 0 then dnswire_reader_decoding
                             else dnswire_reader_reading)\<rparr>, w)
      | dnswire_endofdata \<Rightarrow>
          if r_is_bidirectional r
          then Inr (dnswire_again, r\<lparr>r_state := dnswire_reader_encoding_finish\<rparr>, w)
          else Inr (dnswire_endofdata, r\<lparr>r_state := dnswire_reader_done\<rparr>, w)
      | _ \<Rightarrow> Inr (dnswire_error, r, w))))"

definition read_decoding :: "('r, 'w) extlib \<Rightarrow> world \<Rightarrow> ('r, 'w) dnswire_reader \<Rightarrow>
    fault + dnswire_result \<times> ('r, 'w) dnswire_reader \<times> world" where
  "read_decoding L w r0 =
     bindF (in_load (r_in r0)) (\<lambda>bytes.
     bindF (dnswire_decoder_decode L (r_decoder r0) bytes) (\<lambda>(res, d).
     let r = r0\<lparr>r_decoder := d\<rparr>;
         b = in_consume (dnswire_decoder_decoded L d) (r_in r0) in
     (case res of
        dnswire_again \<Rightarrow>
          Inr (dnswire_again,
               r\<lparr>r_in := b,
                 r_state := (if i_left b = 0 then dnswire_reader_reading else r_state r)\<rparr>, w)
      | dnswire_need_more \<Rightarrow>
          bindF (in_need_more w (r_in r)) (\<lambda>(room, b', w').
          if \<not> room then Inr (dnswire_error, r\<lparr>r_in := b'\<rparr>, w')
          else Inr (dnswire_need_more,
                    r\<lparr>r_in := b', r_state := dnswire_reader_reading\<rparr>, w'))
      | dnswire_have_dnstap \<Rightarrow>
          Inr (dnswire_have_dnstap,
               r\<lparr>r_in := b,
                 r_state := (if i_left b = 0 then dnswire_reader_reading else r_state r)\<rparr>, w)
      | dnswire_endofdata \<Rightarrow>
          if r_is_bidirectional r
          then Inr (dnswire_again, r\<lparr>r_state := dnswire_reader_encoding_finish\<rparr>, w)
          else Inr (dnswire_endofdata, r\<lparr>r_state := dnswire_reader_done\<rparr>, w)
      | _ \<Rightarrow> Inr (dnswire_error, r, w))))"

definition read_reading_control :: "('r, 'w) extlib \<Rightarrow> world \<Rightarrow> ('r, 'w) dnswire_reader \<Rightarrow>
    fault + dnswire_result \<times> ('r, 'w) dnswire_reader \<times> world" where
  "read_reading_control L w r =
     bindF (read_bytes w r) (\<lambda>(got, w'). case got of
        None \<Rightarrow> Inr (dnswire_error, r, w')
      | Some r1 \<Rightarrow>
          read_decoding_control L w' (r1\<lparr>r_state := dnswire_reader_decoding_control\<rparr>))"

definition read_reading :: "('r, 'w) extlib \<Rightarrow> world \<Rightarrow> ('r, 'w) dnswire_reader \<Rightarrow>
    fault + dnswire_result \<times> ('r, 'w) dnswire_reader \<times> world" where
  "read_reading L w r =
     bindF (read_bytes w r) (\<lambda>(got, w'). case got of
        None \<Rightarrow> Inr (dnswire_error, r, w')
      | Some r1 \<Rightarrow> read_decoding L w' (r1\<lparr>r_state := dnswire_reader_decoding\<rparr>))"

text \<open>\<open>write\<close> of everything that is pending; an error and a write of nothing fail.\<close>

definition read_output :: "world \<Rightarrow> ('r, 'w) dnswire_reader \<Rightarrow>
    fault + ('r, 'w) dnswire_reader option \<times> world" where
  "read_output w r =
     bindF (out_peek (r_out r) (o_left (r_out r))) (\<lambda>bs.
     case sys_write w bs of
       (None, w') \<Rightarrow> Inr (None, w')
     | (Some n, w') \<Rightarrow>
         if n = 0 then Inr (None, w')
         else Inr (Some (r\<lparr>r_out := out_drain n (r_out r)\<rparr>), w'))"

definition read_writing_accept :: "world \<Rightarrow> ('r, 'w) dnswire_reader \<Rightarrow>
    fault + dnswire_result \<times> ('r, 'w) dnswire_reader \<times> world" where
  "read_writing_accept w r =
     bindF (read_output w r) (\<lambda>(sent, w'). case sent of
        None \<Rightarrow> Inr (dnswire_error, r, w')
      | Some r1 \<Rightarrow>
          Inr (dnswire_again,
               (if o_left (r_out r1) = 0 then r1\<lparr>r_state := dnswire_reader_reading_control\<rparr>
                else r1), w'))"

definition read_encoding_accept :: "('r, 'w) extlib \<Rightarrow> world \<Rightarrow> ('r, 'w) dnswire_reader \<Rightarrow>
    fault + dnswire_result \<times> ('r, 'w) dnswire_reader \<times> world" where
  "read_encoding_accept L w r =
     bindF (encoding L w (r_encoder r) (r_out r)) (\<lambda>(res, e, b, w').
     let r1 = r\<lparr>r_encoder := e, r_out := b\<rparr> in
     if res = dnswire_again
     then read_writing_accept w' (r1\<lparr>r_state := dnswire_reader_writing_accept\<rparr>)
     else Inr (dnswire_error, r1, w'))"

definition read_writing_finish :: "world \<Rightarrow> ('r, 'w) dnswire_reader \<Rightarrow>
    fault + dnswire_result \<times> ('r, 'w) dnswire_reader \<times> world" where
  "read_writing_finish w r =
     bindF (read_output w r) (\<lambda>(sent, w'). case sent of
        None \<Rightarrow> Inr (dnswire_error, r, w')
      | Some r1 \<Rightarrow>
          if o_left (r_out r1) = 0
          then Inr (dnswire_endofdata, r1\<lparr>r_state := dnswire_reader_done\<rparr>, w')
          else Inr (dnswire_again, r1, w'))"

definition read_encoding_finish :: "('r, 'w) extlib \<Rightarrow> world \<Rightarrow> ('r, 'w) dnswire_reader \<Rightarrow>
    fault + dnswire_result \<times> ('r, 'w) dnswire_reader \<times> world" where
  "read_encoding_finish L w r =
     bindF (encoding L w (r_encoder r) (r_out r)) (\<lambda>(res, e, b, w').
     let r1 = r\<lparr>r_encoder := e, r_out := b\<rparr> in
     if res = dnswire_endofdata
     then read_writing_finish w' (r1\<lparr>r_state := dnswire_reader_writing_finish\<rparr>)
     else Inr (dnswire_error, r1, w'))"

definition dnswire_reader_read :: "('r, 'w) extlib \<Rightarrow> world \<Rightarrow> ('r, 'w) dnswire_reader \<Rightarrow>
    fault + dnswire_result \<times> ('r, 'w) dnswire_reader \<times> world" where
  "dnswire_reader_read L w r =
     bindF (assertF (i_buf (r_in r) \<noteq> None)) (\<lambda>_.
     (case r_state r of
        dnswire_reader_reading_control \<Rightarrow> read_reading_control L w r
      | dnswire_reader_decoding_control \<Rightarrow> read_decoding_control L w r
      | dnswire_reader_encoding_accept \<Rightarrow> read_encoding_accept L w r
      | dnswire_reader_writing_accept \<Rightarrow> read_writing_accept w r
      | dnswire_reader_reading \<Rightarrow> read_reading L w r
      | dnswire_reader_decoding \<Rightarrow> read_decoding L w r
      | dnswire_reader_encoding_finish \<Rightarrow> read_encoding_finish L w r
      | dnswire_reader_writing_finish \<Rightarrow> read_writing_finish w r
      | dnswire_reader_done \<Rightarrow> Inr (dnswire_error, r, w)))"

section \<open>The other operations of reader.h\<close>

text \<open>\<open>fileno\<close> of the stream is the descriptor the world stands for.\<close>

definition dnswire_reader_fread :: "('r, 'w) extlib \<Rightarrow> world \<Rightarrow> ('r, 'w) dnswire_reader \<Rightarrow>
    fault + dnswire_result \<times> ('r, 'w) dnswire_reader \<times> world" where
  "dnswire_reader_fread L w r = dnswire_reader_read L w r"

definition dnswire_reader_cleanup :: "('r, 'w) dnswire_reader \<Rightarrow> fault + ('r, 'w) dnswire_reader" where
  "dnswire_reader_cleanup r =
     bindF (dnswire_decoder_cleanup (r_decoder r)) (\<lambda>d. Inr (r\<lparr>r_decoder := d\<rparr>))"

text \<open>Both blocks are freed (\<open>free\<close> takes the null pointer) and there is no handle any more.\<close>

definition dnswire_reader_destroy :: "('r, 'w) dnswire_reader \<Rightarrow> fault + unit" where
  "dnswire_reader_destroy r = bindF (dnswire_decoder_cleanup (r_decoder r)) (\<lambda>d. Inr ())"

end
