(* ===== verification/Reader_Inv.thy ===== *)
theory Reader_Inv
  imports Reader
begin

text \<open>
  The invariant of the reader's handle and the lemma library for its operations: what one
  decoding step does to the buffered bytes, and that every case of \<open>push\<close> and \<open>read\<close> returns
  and keeps the invariant.
\<close>

section \<open>The invariant\<close>

text \<open>The decoder has not settled yet whether the conversation is bidirectional.\<close>

definition handshaking :: "dnswire_decoder_state \<Rightarrow> bool" where
  "handshaking s \<longleftrightarrow> s \<in> {dnswire_decoder_reading_control, dnswire_decoder_checking_ready,
     dnswire_decoder_checking_accept}"

text \<open>A decoding state has something to decode.\<close>

definition input_ok :: "dnswire_reader_state \<Rightarrow> inbuf \<Rightarrow> 'r dnswire_decoder \<Rightarrow> bool" where
  "input_ok s b d \<longleftrightarrow> in_ok b \<and> decoder_ok d \<and>
     (s \<in> {dnswire_reader_decoding_control, dnswire_reader_decoding} \<longrightarrow> in_live b \<noteq> [])"

text \<open>
  The answering half: output is pending only while it is written, a bidirectional conversation
  was allowed and its encoder stands where the state of the handle says.
\<close>

definition output_ok :: "dnswire_reader_state \<Rightarrow> dnswire_decoder_state \<Rightarrow> bool \<Rightarrow> bool \<Rightarrow>
    'w dnswire_encoder \<Rightarrow> outbuf \<Rightarrow> bool" where
  "output_ok s ds allow is_bi e b \<longleftrightarrow> encoder_ok e \<and> (allow \<longrightarrow> out_ok b) \<and> (is_bi \<longrightarrow> allow) \<and>
     (o_left b \<noteq> 0 \<longrightarrow> s \<in> {dnswire_reader_writing_accept, dnswire_reader_writing_finish}) \<and>
     (is_bi \<longrightarrow> \<not> handshaking ds) \<and>
     (s \<in> {dnswire_reader_encoding_accept, dnswire_reader_writing_accept,
           dnswire_reader_encoding_finish, dnswire_reader_writing_finish} \<longrightarrow> is_bi) \<and>
     (allow \<and> (is_bi \<longrightarrow> s = dnswire_reader_encoding_accept) \<longrightarrow>
        e_state e = dnswire_encoder_control_accept) \<and>
     (is_bi \<and> s \<notin> {dnswire_reader_encoding_accept, dnswire_reader_writing_finish,
                    dnswire_reader_done} \<longrightarrow> e_state e = dnswire_encoder_control_finish)"

definition reader_ok :: "('r, 'w) dnswire_reader \<Rightarrow> bool" where
  "reader_ok r \<longleftrightarrow> input_ok (r_state r) (r_in r) (r_decoder r) \<and>
     output_ok (r_state r) (dc_state (r_decoder r)) (r_allow_bidirectional r)
       (r_is_bidirectional r) (r_encoder r) (r_out r)"

lemma reader_okD:
  assumes "reader_ok r"
  shows "in_ok (r_in r)" and "decoder_ok (r_decoder r)"
    and "r_state r \<in> {dnswire_reader_decoding_control, dnswire_reader_decoding} \<Longrightarrow>
      in_live (r_in r) \<noteq> []"
    and "output_ok (r_state r) (dc_state (r_decoder r)) (r_allow_bidirectional r)
       (r_is_bidirectional r) (r_encoder r) (r_out r)"
  using assms by (auto simp: reader_ok_def input_ok_def)

section \<open>One decoding step\<close>

lemma decoder_step_handshaking:
  assumes "decoder_step_ok s res s'"
  shows "\<not> handshaking s \<Longrightarrow> \<not> handshaking s' \<and> res \<noteq> dnswire_bidirectional"
    and "res = dnswire_bidirectional \<Longrightarrow> \<not> handshaking s'"
  using assms by (cases s; auto simp: decoder_step_ok_def handshaking_def)+

text \<open>
  What a decoding case of the handle achieves: exactly one call of the decoder on all buffered
  bytes, of which those taken leave the buffer; a message is reported when the decoder has one.
\<close>

definition decoded_once :: "('r, 'w) extlib \<Rightarrow> ('r, 'w) dnswire_reader \<Rightarrow> dnswire_result \<Rightarrow>
    ('r, 'w) dnswire_reader \<Rightarrow> bool" where
  "decoded_once L r res r' \<longleftrightarrow> (\<exists>dres.
     dnswire_decoder_decode L (r_decoder r) (in_live (r_in r)) = Inr (dres, r_decoder r') \<and>
     taken L dres (r_decoder r') \<le> length (in_live (r_in r)) \<and>
     (res = dnswire_have_dnstap \<longleftrightarrow> dres = dnswire_have_dnstap) \<and>
     (res \<noteq> dnswire_error \<longrightarrow> dres \<noteq> dnswire_error \<and>
        in_live (r_in r') = drop (taken L dres (r_decoder r')) (in_live (r_in r))))"

text \<open>What is the same in both handles.\<close>

definition same_output :: "('r, 'w) dnswire_reader \<Rightarrow> ('r, 'w) dnswire_reader \<Rightarrow> bool" where
  "same_output r r' \<longleftrightarrow> r_encoder r' = r_encoder r \<and> r_out r' = r_out r \<and>
     r_allow_bidirectional r' = r_allow_bidirectional r \<and> r_pushed r' = r_pushed r"

definition decoding_post :: "('r, 'w) extlib \<Rightarrow> ('r, 'w) dnswire_reader \<Rightarrow>
    dnswire_result \<times> ('r, 'w) dnswire_reader \<times> world \<Rightarrow> bool" where
  "decoding_post L r x = (case x of (res, r', w') \<Rightarrow>
     in_ok (r_in r') \<and> (res \<noteq> dnswire_error \<longrightarrow> reader_ok r') \<and> decoded_once L r res r' \<and>
     same_output r r' \<and>
     (res = dnswire_need_more \<longrightarrow> 0 < in_room (r_in r') \<and>
        r_state r' \<in> {dnswire_reader_reading_control, dnswire_reader_reading}))"

text \<open>A decoding step leaves the answering half alone, unless it settles the kind of conversation.\<close>

definition quiet :: "dnswire_reader_state \<Rightarrow> bool" where
  "quiet s \<longleftrightarrow> s \<in> {dnswire_reader_reading_control, dnswire_reader_decoding_control,
     dnswire_reader_reading, dnswire_reader_decoding}"

lemma quietD:
  assumes "quiet s"
  shows "s \<noteq> dnswire_reader_encoding_accept" and "s \<noteq> dnswire_reader_writing_accept"
    and "s \<noteq> dnswire_reader_encoding_finish" and "s \<noteq> dnswire_reader_writing_finish"
    and "s \<noteq> dnswire_reader_done"
  using assms by (auto simp: quiet_def)

lemma output_ok_quiet:
  assumes "quiet s"
  shows "output_ok s ds allow is_bi e b \<longleftrightarrow> encoder_ok e \<and> (allow \<longrightarrow> out_ok b) \<and> (is_bi \<longrightarrow> allow) \<and>
     o_left b = 0 \<and> (is_bi \<longrightarrow> \<not> handshaking ds \<and> e_state e = dnswire_encoder_control_finish) \<and>
     (allow \<and> \<not> is_bi \<longrightarrow> e_state e = dnswire_encoder_control_accept)"
  using quietD [OF assms] unfolding output_ok_def by (simp; blast)

lemma output_ok_move:
  assumes ok: "output_ok s ds allow is_bi e b" and step: "decoder_step_ok ds res ds'" and q: "quiet s"
    and s': "quiet s' \<or> s' = dnswire_reader_done \<or> s' = dnswire_reader_encoding_finish \<and> is_bi"
  shows "output_ok s' ds' allow is_bi e b"
proof -
  note hs = decoder_step_handshaking(1) [OF step]
  note pre = ok [unfolded output_ok_quiet [OF q]]
  from s' consider "quiet s'" | "s' = dnswire_reader_done"
    | "s' = dnswire_reader_encoding_finish" "is_bi" by blast
  then show ?thesis
    using pre hs by cases (simp_all add: output_ok_quiet, simp_all add: output_ok_def)
qed

lemma output_ok_bidirectional:
  assumes ok: "output_ok s ds allow is_bi e b"
    and step: "decoder_step_ok ds dnswire_bidirectional ds'" and q: "quiet s" and "allow"
  shows "output_ok dnswire_reader_encoding_accept ds' allow True e b"
proof -
  have "\<not> is_bi"
    using ok decoder_step_handshaking(1) [OF step] by (auto simp: output_ok_quiet [OF q])
  then show ?thesis
    using ok decoder_step_handshaking [OF step] \<open>allow\<close>
    by (simp add: output_ok_quiet [OF q]) (simp add: output_ok_def)
qed

text \<open>The handle in a decoding state, with the answer of the decoder.\<close>

definition decodes :: "('r, 'w) extlib \<Rightarrow> ('r, 'w) dnswire_reader \<Rightarrow> dnswire_result \<Rightarrow>
    'r dnswire_decoder \<Rightarrow> bool" where
  "decodes L r dres d \<longleftrightarrow> reader_ok r \<and> quiet (r_state r) \<and> decoder_ok d \<and>
     dnswire_decoder_decode L (r_decoder r) (in_live (r_in r)) = Inr (dres, d) \<and>
     decoder_step_ok (dc_state (r_decoder r)) dres (dc_state d) \<and>
     taken L dres d \<le> length (in_live (r_in r)) \<and>
     (dres \<in> {dnswire_again, dnswire_bidirectional, dnswire_have_dnstap} \<longrightarrow>
        in_ok (in_consume (dnswire_decoder_decoded L d) (r_in r)) \<and>
        in_live (in_consume (dnswire_decoder_decoded L d) (r_in r)) =
          drop (dnswire_decoder_decoded L d) (in_live (r_in r)))"

lemma decodes_exists:
  assumes L: "extlib_ok L" and ok: "reader_ok r"
    and st: "r_state r \<in> {dnswire_reader_decoding_control, dnswire_reader_decoding}"
  shows "\<exists>dres d. in_load (r_in r) = Inr (in_live (r_in r)) \<and> decodes L r dres d"
proof -
  note rok = reader_okD [OF ok]
  have "quiet (r_state r)"
    using st by (auto simp: quiet_def)
  with decode_buffered [OF L rok(1) rok(3) [OF st] rok(2)] ok show ?thesis
    unfolding decodes_def by metis
qed

lemma decodesD:
  assumes "decodes L r dres d"
  shows "dnswire_decoder_decode L (r_decoder r) (in_live (r_in r)) = Inr (dres, d)"
    and "dres \<noteq> dnswire_ok" and "in_ok (r_in r)"
proof -
  show "dnswire_decoder_decode L (r_decoder r) (in_live (r_in r)) = Inr (dres, d)"
    and "in_ok (r_in r)"
    using assms by (auto simp: decodes_def dest: reader_okD)
  show "dres \<noteq> dnswire_ok"
    using assms by (cases "dc_state (r_decoder r)") (auto simp: decodes_def decoder_step_ok_def)
qed

lemmas post_defs =
  decoding_post_def decoded_once_def same_output_def reader_ok_def input_ok_def taken_def

lemma decodes_output:
  assumes "decodes L r dres d"
    and "quiet s \<or> s = dnswire_reader_done \<or> s = dnswire_reader_encoding_finish \<and> r_is_bidirectional r"
  shows "output_ok s (dc_state d) (r_allow_bidirectional r) (r_is_bidirectional r) (r_encoder r) (r_out r)"
  by (rule output_ok_move [OF _ _ _ assms(2)])
    (use assms(1) in \<open>auto simp: decodes_def reader_ok_def\<close>)

lemma decodes_progress:
  assumes d: "decodes L r dres d" and res: "dres \<in> {dnswire_again, dnswire_have_dnstap}"
    and b: "b = in_consume (dnswire_decoder_decoded L d) (r_in r)" and q: "quiet s"
    and s: "i_left b = 0 \<longrightarrow> s \<in> {dnswire_reader_reading_control, dnswire_reader_reading}"
  shows "decoding_post L r (dres, r\<lparr>r_decoder := d, r_in := b, r_state := s\<rparr>, w)"
proof -
  have b': "in_ok b" "in_live b = drop (dnswire_decoder_decoded L d) (in_live (r_in r))"
    using d res by (auto simp: decodes_def b)
  then have "s \<in> {dnswire_reader_decoding_control, dnswire_reader_decoding} \<longrightarrow> in_live b \<noteq> []"
    using s in_left_live [of b] by auto
  with b' d res decodes_output [OF d, of s] q show ?thesis
    by (auto simp: post_defs decodes_def)
qed

lemma decodes_bidirectional:
  assumes d: "decodes L r dnswire_bidirectional d" and al: "r_allow_bidirectional r"
    and b: "b = in_consume (dnswire_decoder_decoded L d) (r_in r)"
  shows "decoding_post L r (dnswire_again, r\<lparr>r_decoder := d, r_in := b,
     r_is_bidirectional := True, r_state := dnswire_reader_encoding_accept\<rparr>, w)"
  using d al output_ok_bidirectional [of "r_state r" "dc_state (r_decoder r)"]
  by (auto simp: post_defs decodes_def b)

lemma decodes_refused:
  assumes d: "decodes L r dnswire_bidirectional d"
    and b: "b = in_consume (dnswire_decoder_decoded L d) (r_in r)"
  shows "decoding_post L r (dnswire_error, r\<lparr>r_decoder := d, r_in := b, r_state := s\<rparr>, w)"
    and "decoding_post L r (dnswire_error, r\<lparr>r_decoder := d, r_in := b, r_state := s,
           r_is_bidirectional := True\<rparr>, w)"
  using d by (auto simp: post_defs decodes_def b)

lemma decodes_room:
  assumes d: "decodes L r dnswire_need_more d" and b: "in_ok b" "in_live b = in_live (r_in r)"
  shows "decoding_post L r (dnswire_error, r\<lparr>r_decoder := d, r_in := b\<rparr>, w)"
    and "0 < in_room b \<Longrightarrow> res \<in> {dnswire_again, dnswire_need_more} \<Longrightarrow>
      s \<in> {dnswire_reader_reading_control, dnswire_reader_reading} \<Longrightarrow>
      decoding_post L r (res, r\<lparr>r_decoder := d, r_in := b, r_state := s\<rparr>, w)"
proof -
  show "decoding_post L r (dnswire_error, r\<lparr>r_decoder := d, r_in := b\<rparr>, w)"
    using d b by (auto simp: post_defs decodes_def)
  assume "0 < in_room b" "res \<in> {dnswire_again, dnswire_need_more}"
    and s: "s \<in> {dnswire_reader_reading_control, dnswire_reader_reading}"
  moreover from s have "quiet s" by (auto simp: quiet_def)
  ultimately show "decoding_post L r (res, r\<lparr>r_decoder := d, r_in := b, r_state := s\<rparr>, w)"
    using d b decodes_output [OF d, of s] by (auto simp: post_defs decodes_def)
qed

lemma decodes_end:
  assumes d: "decodes L r dnswire_endofdata d"
  shows "r_is_bidirectional r \<Longrightarrow>
      decoding_post L r (dnswire_again,
        r\<lparr>r_decoder := d, r_state := dnswire_reader_encoding_finish\<rparr>, w)"
    and "decoding_post L r (dnswire_endofdata,
        r\<lparr>r_decoder := d, r_state := dnswire_reader_done\<rparr>, w)"
  using d decodes_output [OF d, of dnswire_reader_done]
    decodes_output [OF d, of dnswire_reader_encoding_finish]
  by (auto simp: post_defs decodes_def)

lemma decodes_error:
  assumes "decodes L r dres d" and "dres \<noteq> dnswire_have_dnstap"
  shows "decoding_post L r (dnswire_error, r\<lparr>r_decoder := d\<rparr>, w)"
  using assms by (auto simp: post_defs decodes_def)

lemma push_decoding_control_post:
  assumes L: "extlib_ok L" and ok: "reader_ok r" and st: "r_state r = dnswire_reader_decoding_control"
  shows "\<exists>x. push_decoding_control L w len r = Inr x \<and> decoding_post L r x"
proof -
  from decodes_exists [OF L ok] st obtain dres d
    where load: "in_load (r_in r) = Inr (in_live (r_in r))" and d: "decodes L r dres d" by blast
  from inq.make_room [OF decodesD(3) [OF d], of w] obtain rm b' w' where
    room: "in_need_more w (r_in r) = Inr (rm, b', w')" "in_ok b'" "in_live b' = in_live (r_in r)"
      "rm \<longrightarrow> 0 < in_room b'" by blast
  note eval = push_decoding_control_def load decodesD(1) [OF d] Let_def quiet_def st
  show ?thesis
  proof (cases dres)
    case dnswire_need_more
    with d room show ?thesis
      by (cases rm) (auto simp: eval intro!: decodes_room)
  next
    case dnswire_bidirectional
    with d show ?thesis
      by (auto simp: eval intro!: decodes_bidirectional decodes_refused)
  next
    case dnswire_again
    with d show ?thesis by (auto simp: eval intro!: decodes_progress)
  next
    case dnswire_have_dnstap
    with d show ?thesis by (auto simp: eval intro!: decodes_progress)
  next
    case dnswire_endofdata
    with d show ?thesis by (auto simp: eval intro!: decodes_end)
  next
    case dnswire_error
    with d show ?thesis by (auto simp: eval intro!: decodes_error)
  next
    case dnswire_ok
    with decodesD(2) [OF d] show ?thesis by simp
  qed
qed

lemma push_decoding_post:
  assumes L: "extlib_ok L" and ok: "reader_ok r" and st: "r_state r = dnswire_reader_decoding"
  shows "\<exists>x. push_decoding L w len r = Inr x \<and> decoding_post L r x"
proof -
  from decodes_exists [OF L ok] st obtain dres d
    where load: "in_load (r_in r) = Inr (in_live (r_in r))" and d: "decodes L r dres d" by blast
  from inq.make_room [OF decodesD(3) [OF d], of w] obtain rm b' w' where
    room: "in_need_more w (r_in r) = Inr (rm, b', w')" "in_ok b'" "in_live b' = in_live (r_in r)"
      "rm \<longrightarrow> 0 < in_room b'" by blast
  note eval = push_decoding_def load decodesD(1) [OF d] Let_def quiet_def st
  show ?thesis
  proof (cases dres)
    case dnswire_need_more
    with d room show ?thesis
      by (cases rm) (auto simp: eval intro!: decodes_room)
  next
    case dnswire_bidirectional
    then show ?thesis
      using decodes_error [OF d] by (simp add: eval)
  next
    case dnswire_again
    with d show ?thesis by (auto simp: eval intro!: decodes_progress)
  next
    case dnswire_have_dnstap
    with d show ?thesis by (auto simp: eval intro!: decodes_progress)
  next
    case dnswire_endofdata
    with d show ?thesis by (auto simp: eval intro!: decodes_end)
  next
    case dnswire_error
    with d show ?thesis by (auto simp: eval intro!: decodes_error)
  next
    case dnswire_ok
    with decodesD(2) [OF d] show ?thesis by simp
  qed
qed

section \<open>The operations that do not decode\<close>

lemma reader_ok_pushed: "reader_ok (r\<lparr>r_pushed := n\<rparr>) = reader_ok r"
  by (simp add: reader_ok_def)

text \<open>Taking in bytes leads to the decoding state.\<close>

lemma output_ok_decoding:
  assumes "output_ok s ds allow is_bi e b"
    and "(s, s') \<in> {(dnswire_reader_reading_control, dnswire_reader_decoding_control),
                     (dnswire_reader_reading, dnswire_reader_decoding)}"
  shows "output_ok s' ds allow is_bi e b"
proof -
  have q: "quiet s" "quiet s'" using assms(2) by (auto simp: quiet_def)
  show ?thesis using assms(1) by (simp add: output_ok_quiet [OF q(1)] output_ok_quiet [OF q(2)])
qed

lemma reader_ok_taken_in:
  assumes ok: "reader_ok r" and b: "in_ok b" "in_live b \<noteq> []"
    and s: "(r_state r, s') \<in> {(dnswire_reader_reading_control, dnswire_reader_decoding_control),
                     (dnswire_reader_reading, dnswire_reader_decoding)}"
  shows "reader_ok (r\<lparr>r_in := b, r_state := s'\<rparr>)"
  using ok b output_ok_decoding [OF _ s] by (auto simp: reader_ok_def input_ok_def)

lemma push_bytes_post:
  assumes b: "in_ok (r_in r)" and ne: "data \<noteq> []"
  shows "\<exists>n b'. push_bytes data r = Inr (r\<lparr>r_pushed := n, r_in := b'\<rparr>) \<and> n = min (in_room (r_in r)) (length data) \<and>
     in_ok b' \<and> in_live b' = in_live (r_in r) @ take n data \<and> in_live b' \<noteq> []"
proof -
  define n where "n = min (in_room (r_in r)) (length data)"
  from inq.append_live [OF b, of "take n data"] obtain b' where
    b': "in_append (r_in r) (take n data) = Inr b'" "in_ok b'"
      "in_live b' = in_live (r_in r) @ take n data"
    by (auto simp: n_def)
  have ne': "in_live (r_in r) @ take n data \<noteq> []"
    using inq.empty_room [OF b] ne by (auto simp: n_def)
  have n: "(if in_room (r_in r) < length data then in_room (r_in r) else length data) = n"
    by (simp add: n_def)
  have ev: "push_bytes data r =
      bindF (if n \<noteq> 0 then in_append (r_in r) (take n data) else Inr (r_in r))
        (\<lambda>b. Inr (r\<lparr>r_pushed := n, r_in := b\<rparr>))"
    by (simp add: push_bytes_def Let_def n)
  show ?thesis
    unfolding n_def [symmetric]
  proof (cases "n = 0")
    case True
    with ev b ne' show "\<exists>k b'. push_bytes data r = Inr (r\<lparr>r_pushed := k, r_in := b'\<rparr>) \<and> k = n \<and>
        in_ok b' \<and> in_live b' = in_live (r_in r) @ take k data \<and> in_live b' \<noteq> []"
      by (intro exI [of _ n] exI [of _ "r_in r"]) simp
  next
    case False
    with ev b' ne' show "\<exists>k b'. push_bytes data r = Inr (r\<lparr>r_pushed := k, r_in := b'\<rparr>) \<and> k = n \<and>
        in_ok b' \<and> in_live b' = in_live (r_in r) @ take k data \<and> in_live b' \<noteq> []"
      by (intro exI [of _ n] exI [of _ b']) simp
  qed
qed

text \<open>The case \<open>reading_control\<close> or \<open>reading\<close> of \<open>push\<close>: some bytes, then one decoding step.\<close>

definition pushed_post :: "('r, 'w) extlib \<Rightarrow> byte list \<Rightarrow> ('r, 'w) dnswire_reader \<Rightarrow>
    dnswire_result \<times> ('r, 'w) dnswire_reader \<times> world \<Rightarrow> bool" where
  "pushed_post L data r x = (\<exists>b r1. in_ok b \<and>
     in_live b = in_live (r_in r) @ take (r_pushed r1) data \<and>
     r_pushed r1 = min (in_room (r_in r)) (length data) \<and>
     r_in r1 = b \<and> r_decoder r1 = r_decoder r \<and> same_output (r\<lparr>r_pushed := r_pushed r1\<rparr>) r1 \<and>
     decoding_post L r1 x)"

lemma push_reading_control_post:
  assumes L: "extlib_ok L" and ok: "reader_ok r" and ne: "data \<noteq> []"
    and st: "r_state r = dnswire_reader_reading_control"
  shows "\<exists>x. push_reading_control L w data r = Inr x \<and> pushed_post L data r x"
proof -
  from push_bytes_post [OF reader_okD(1) [OF ok] ne] obtain n b where
    b: "push_bytes data r = Inr (r\<lparr>r_pushed := n, r_in := b\<rparr>)"
      "n = min (in_room (r_in r)) (length data)" "in_ok b"
      "in_live b = in_live (r_in r) @ take n data" "in_live b \<noteq> []" by blast
  let ?r = "r\<lparr>r_pushed := n, r_in := b, r_state := dnswire_reader_decoding_control\<rparr>"
  have "reader_ok ?r"
    using reader_ok_taken_in [of "r\<lparr>r_pushed := n\<rparr>" b] ok b st by (simp add: reader_ok_pushed)
  from push_decoding_control_post [OF L this, of w "length data"] obtain x where
    x: "push_decoding_control L w (length data) ?r = Inr x" "decoding_post L ?r x" by auto
  have "pushed_post L data r x"
    unfolding pushed_post_def using b x(2)
    by (intro exI [of _ b] exI [of _ ?r]) (simp add: same_output_def)
  with x(1) b(1) ne show ?thesis by (simp add: push_reading_control_def)
qed

lemma push_reading_post:
  assumes L: "extlib_ok L" and ok: "reader_ok r" and ne: "data \<noteq> []"
    and st: "r_state r = dnswire_reader_reading"
  shows "\<exists>x. push_reading L w data r = Inr x \<and> pushed_post L data r x"
proof -
  from push_bytes_post [OF reader_okD(1) [OF ok] ne] obtain n b where
    b: "push_bytes data r = Inr (r\<lparr>r_pushed := n, r_in := b\<rparr>)"
      "n = min (in_room (r_in r)) (length data)" "in_ok b"
      "in_live b = in_live (r_in r) @ take n data" "in_live b \<noteq> []" by blast
  let ?r = "r\<lparr>r_pushed := n, r_in := b, r_state := dnswire_reader_decoding\<rparr>"
  have "reader_ok ?r"
    using reader_ok_taken_in [of "r\<lparr>r_pushed := n\<rparr>" b] ok b st by (simp add: reader_ok_pushed)
  from push_decoding_post [OF L this, of w "length data"] obtain x where
    x: "push_decoding L w (length data) ?r = Inr x" "decoding_post L ?r x" by auto
  have "pushed_post L data r x"
    unfolding pushed_post_def using b x(2)
    by (intro exI [of _ b] exI [of _ ?r]) (simp add: same_output_def)
  with x(1) b(1) ne show ?thesis by (simp add: push_reading_def)
qed

section \<open>Answering\<close>

text \<open>The encoding states put one frame behind the pending bytes, of which there are none.\<close>

lemma encoding_answer:
  assumes L: "extlib_ok L" and ok: "reader_ok r"
    and s: "(r_state r, s', res0, es) \<in>
      {(dnswire_reader_encoding_accept, dnswire_reader_writing_accept, dnswire_again,
          dnswire_encoder_control_accept),
       (dnswire_reader_encoding_finish, dnswire_reader_writing_finish, dnswire_endofdata,
          dnswire_encoder_control_finish)}"
  shows "\<exists>res e b w'. encoding L w (r_encoder r) (r_out r) = Inr (res, e, b, w') \<and>
     (res = res0 \<longrightarrow> reader_ok (r\<lparr>r_encoder := e, r_out := b, r_state := s'\<rparr>) \<and>
        encoder_next es = Some (e_state e, res0) \<and>
        (\<exists>e1 len. e_state e1 = es \<and>
           dnswire_encoder_encode L e1 len = Inr (res0, e, out_pending b)))"
proof -
  have o: "r_is_bidirectional r" "r_allow_bidirectional r" "out_ok (r_out r)" "o_left (r_out r) = 0"
    "encoder_ok (r_encoder r)" "e_state (r_encoder r) = es" "\<not> handshaking (dc_state (r_decoder r))"
    using reader_okD(4) [OF ok] s by (auto simp: output_ok_def)
  have room: "o_at (r_out r) < o_size (r_out r)" and none: "out_pending (r_out r) = []"
    using o(3,4) out_pending_length [OF o(3)] by (auto elim!: out_okD)
  from encoding_props [OF L o(5,3) room, of w] obtain res e b w' where
    r: "encoding L w (r_encoder r) (r_out r) = Inr (res, e, b, w')"
    and p: "encoding_post L (r_encoder r) (r_out r) (res, e, b, w')" by (metis prod_cases4)
  have "reader_ok (r\<lparr>r_encoder := e, r_out := b, r_state := s'\<rparr>) \<and>
      encoder_next es = Some (e_state e, res0) \<and> (\<exists>e1 len. e_state e1 = es \<and> dnswire_encoder_encode L e1 len = Inr (res0, e, out_pending b))"
    if "res = res0"
  proof -
    have "res0 \<noteq> dnswire_error" using s by auto
    with p that obtain e1 len where
      nx: "encoder_next es = Some (e_state e, res0)" and ok': "out_ok b" "encoder_ok e"
      and out: "e_state e1 = es" "dnswire_encoder_encode L e1 len = Inr (res0, e, out_pending b)"
      by (auto simp: encoding_post_def o(6) none)
    have "output_ok s' (dc_state (r_decoder r)) True True e b"
      using s nx ok' o(7) by (auto simp: output_ok_def)
    moreover have "input_ok s' (r_in r) (r_decoder r)"
      using reader_okD(1,2) [OF ok] s by (auto simp: input_ok_def)
    ultimately show ?thesis
      using out nx o(1,2) by (auto simp: reader_ok_def)
  qed
  with r show ?thesis by blast
qed

lemma output_ok_writing:
  "output_ok dnswire_reader_writing_accept ds allow is_bi e b \<longleftrightarrow> encoder_ok e \<and> out_ok b \<and> allow \<and>
     is_bi \<and> \<not> handshaking ds \<and> e_state e = dnswire_encoder_control_finish"
  "output_ok dnswire_reader_writing_finish ds allow is_bi e b \<longleftrightarrow> encoder_ok e \<and> out_ok b \<and> allow \<and>
     is_bi \<and> \<not> handshaking ds"
  by (auto simp: output_ok_def)

lemma output_ok_written:
  "output_ok dnswire_reader_done ds True True e b \<longleftrightarrow> encoder_ok e \<and> out_ok b \<and> o_left b = 0 \<and>
     \<not> handshaking ds"
  "output_ok dnswire_reader_reading_control ds True True e b \<longleftrightarrow> encoder_ok e \<and> out_ok b \<and>
     o_left b = 0 \<and> \<not> handshaking ds \<and> e_state e = dnswire_encoder_control_finish"
  by (auto simp: output_ok_def)

text \<open>Handing out pending bytes; when all are gone the next state begins.\<close>

lemma reader_ok_drained:
  assumes ok: "reader_ok r" and n: "n \<le> o_left (r_out r)"
    and s: "(r_state r, s1) \<in> {(dnswire_reader_writing_accept, dnswire_reader_reading_control),
       (dnswire_reader_writing_finish, dnswire_reader_done)}"
  defines "b \<equiv> out_drain n (r_out r)"
  shows "out_pending (r_out r) = take n (out_pending (r_out r)) @ out_pending b"
    and "reader_ok (r\<lparr>r_out := b\<rparr>)"
    and "o_left b = 0 \<Longrightarrow> reader_ok (r\<lparr>r_out := b, r_state := s1\<rparr>)"
proof -
  have o: "r_is_bidirectional r" "r_allow_bidirectional r" "out_ok (r_out r)"
    using reader_okD(4) [OF ok] s by (auto simp: output_ok_def)
  have len: "n \<le> length (out_pending (r_out r))"
    using n out_pending_length [OF o(3)] by simp
  have b: "out_ok b" "out_pending b = drop n (out_pending (r_out r))"
    using outq.drain_ok [OF o(3) len] outq.drain_pending [OF o(3) len] by (simp_all add: b_def)
  then show "out_pending (r_out r) = take n (out_pending (r_out r)) @ out_pending b" by simp
  show "reader_ok (r\<lparr>r_out := b\<rparr>)"
    using ok b(1) s by (auto simp: reader_ok_def output_ok_writing)
  show "reader_ok (r\<lparr>r_out := b, r_state := s1\<rparr>)" if "o_left b = 0"
    using ok b(1) s o that
    by (auto simp: reader_ok_def output_ok_writing output_ok_written input_ok_def)
qed

lemma push_output_post:
  assumes ok: "reader_ok r"
    and s: "r_state r \<in> {dnswire_reader_writing_accept, dnswire_reader_writing_finish}"
  shows "\<exists>n. push_output True (Some orig) r =
       Inr (r\<lparr>r_out := out_drain n (r_out r)\<rparr>, take n (out_pending (r_out r))) \<and>
     n = min (o_left (r_out r)) orig"
proof -
  have o: "out_ok (r_out r)"
    using reader_okD(4) [OF ok] s by (auto simp: output_ok_def)
  define n where "n = min (o_left (r_out r)) orig"
  have n: "(if o_left (r_out r) < orig then o_left (r_out r) else orig) = n"
    by (simp add: n_def)
  have "out_peek (r_out r) n = Inr (take n (out_pending (r_out r)))"
    using outq.peek_pending [OF o, of n] out_pending_length [OF o] by (simp add: n_def)
  then show ?thesis
    by (simp add: push_output_def Let_def n n_def [symmetric])
qed

lemma read_output_post:
  assumes ok: "reader_ok r"
    and s: "r_state r \<in> {dnswire_reader_writing_accept, dnswire_reader_writing_finish}"
  shows "\<exists>w'. read_output w r = Inr (None, w') \<or>
    (\<exists>n. read_output w r = Inr (Some (r\<lparr>r_out := out_drain n (r_out r)\<rparr>), w') \<and>
       n \<le> o_left (r_out r) \<and> sent w' = sent w @ take n (out_pending (r_out r)) \<and>
       inbox w' = inbox w)"
proof -
  have o: "out_ok (r_out r)"
    using reader_okD(4) [OF ok] s by (auto simp: output_ok_def)
  have pk: "out_peek (r_out r) (o_left (r_out r)) = Inr (out_pending (r_out r))"
    using outq.peek_pending [OF o, of "o_left (r_out r)"] out_pending_length [OF o] by simp
  obtain a w' where a: "sys_write w (out_pending (r_out r)) = (a, w')"
    by (cases "sys_write w (out_pending (r_out r))")
  with sys_write_le [of w "out_pending (r_out r)" _ w'] sys_write_inbox [of w "out_pending (r_out r)"] out_pending_length [OF o] pk show ?thesis
    by (cases a) (auto simp: read_output_def)
qed

lemma read_bytes_post:
  assumes b: "in_ok (r_in r)"
  shows "\<exists>w'. read_bytes w r = Inr (None, w') \<or>
    (\<exists>bs b'. read_bytes w r = Inr (Some (r\<lparr>r_in := b'\<rparr>), w') \<and> in_ok b' \<and> bs \<noteq> [] \<and>
       in_live b' = in_live (r_in r) @ bs \<and> inbox w = bs @ inbox w' \<and> sent w' = sent w)"
proof -
  obtain a w' where a: "sys_read w (in_room (r_in r)) = (a, w')"
    by (cases "sys_read w (in_room (r_in r))")
  show ?thesis
  proof (cases "\<exists>bs. a = Some bs \<and> bs \<noteq> []")
    case True
    then obtain bs where bs: "a = Some bs" "bs \<noteq> []" by blast
    with a sys_read_length [of w "in_room (r_in r)"] have "length bs \<le> in_room (r_in r)" by blast
    from inq.append_live [OF b this] bs a sys_read_inbox [of w "in_room (r_in r)" bs w']
      sys_read_sent [of w "in_room (r_in r)"]
    show ?thesis by (auto simp: read_bytes_def)
  next
    case False
    with a show ?thesis by (cases a) (auto simp: read_bytes_def)
  qed
qed

section \<open>The decoding cases of read\<close>

text \<open>\<open>read\<close> decodes as \<open>push\<close> does with nothing to push.\<close>

lemma nothing_to_push: "((0::nat) \<noteq> 0 \<and> p) = False"
  by simp

lemma read_decoding_eq:
  "read_decoding_control L w r = push_decoding_control L w 0 r"
  "read_decoding L w r = push_decoding L w 0 r"
  unfolding read_decoding_control_def push_decoding_control_def read_decoding_def push_decoding_def
    nothing_to_push if_False
  by (rule refl)+

definition read_in_post :: "('r, 'w) extlib \<Rightarrow> world \<Rightarrow> ('r, 'w) dnswire_reader \<Rightarrow>
    dnswire_result \<times> ('r, 'w) dnswire_reader \<times> world \<Rightarrow> bool" where
  "read_in_post L w r x = (case x of (res, r', w') \<Rightarrow>
     res = dnswire_error \<or>
     (\<exists>bs r1 (w1 :: world). in_ok (r_in r1) \<and> in_live (r_in r1) = in_live (r_in r) @ bs \<and> bs \<noteq> [] \<and>
        inbox w = bs @ inbox w1 \<and> r_decoder r1 = r_decoder r \<and> same_output r r1 \<and>
        decoding_post L r1 (res, r', w') \<and> inbox w' = inbox w1 \<and> sent w' = sent w))"

lemma push_decoding_control_world:
  assumes run: "push_decoding_control L w len r = Inr (res, r', w')"
  shows "inbox w' = inbox w \<and> sent w' = sent w"
proof -
  from run obtain bytes where load: "in_load (r_in r) = Inr bytes"
    by (cases "in_load (r_in r)") (simp_all add: push_decoding_control_def)
  from run obtain x where dec: "dnswire_decoder_decode L (r_decoder r) bytes = Inr x"
    by (cases "dnswire_decoder_decode L (r_decoder r) bytes") (simp_all add: push_decoding_control_def load)
  obtain dres d where x: "x = (dres, d)" by (cases x)
  show ?thesis
  proof (cases "dres = dnswire_need_more")
    case True
    from run True obtain y where y: "in_need_more w (r_in r) = Inr y"
      by (cases "in_need_more w (r_in r)") (simp_all add: push_decoding_control_def load dec x Let_def)
    obtain rm b w1 where "y = (rm, b, w1)" by (cases y)
    with y in_need_more_inbox [of w "r_in r" rm b w1] run True show ?thesis
      by (cases rm) (auto simp: push_decoding_control_def load dec x Let_def)
  next
    case False
    with run show ?thesis
      by (cases dres) (simp_all add: push_decoding_control_def load dec x Let_def split: if_splits)
  qed
qed

lemma push_decoding_world:
  assumes run: "push_decoding L w len r = Inr (res, r', w')"
  shows "inbox w' = inbox w \<and> sent w' = sent w"
proof -
  from run obtain bytes where load: "in_load (r_in r) = Inr bytes"
    by (cases "in_load (r_in r)") (simp_all add: push_decoding_def)
  from run obtain x where dec: "dnswire_decoder_decode L (r_decoder r) bytes = Inr x"
    by (cases "dnswire_decoder_decode L (r_decoder r) bytes") (simp_all add: push_decoding_def load)
  obtain dres d where x: "x = (dres, d)" by (cases x)
  show ?thesis
  proof (cases "dres = dnswire_need_more")
    case True
    from run True obtain y where y: "in_need_more w (r_in r) = Inr y"
      by (cases "in_need_more w (r_in r)") (simp_all add: push_decoding_def load dec x Let_def)
    obtain rm b w1 where "y = (rm, b, w1)" by (cases y)
    with y in_need_more_inbox [of w "r_in r" rm b w1] run True show ?thesis
      by (cases rm) (auto simp: push_decoding_def load dec x Let_def)
  next
    case False
    with run show ?thesis
      by (cases dres) (simp_all add: push_decoding_def load dec x Let_def split: if_splits)
  qed
qed

lemma read_reading_control_post:
  assumes L: "extlib_ok L" and ok: "reader_ok r"
    and st: "r_state r = dnswire_reader_reading_control"
  shows "\<exists>x. read_reading_control L w r = Inr x \<and> read_in_post L w r x"
proof -
  from read_bytes_post [OF reader_okD(1) [OF ok], of w] obtain w1 where
    "read_bytes w r = Inr (None, w1) \<or>
    (\<exists>bs b. read_bytes w r = Inr (Some (r\<lparr>r_in := b\<rparr>), w1) \<and> in_ok b \<and> bs \<noteq> [] \<and>
       in_live b = in_live (r_in r) @ bs \<and> inbox w = bs @ inbox w1 \<and> sent w1 = sent w)" by blast
  then show ?thesis
  proof (elim disjE exE conjE)
    fix bs b
    assume b: "read_bytes w r = Inr (Some (r\<lparr>r_in := b\<rparr>), w1)" "in_ok b" "bs \<noteq> []"
      "in_live b = in_live (r_in r) @ bs" "inbox w = bs @ inbox w1" "sent w1 = sent w"
    let ?r = "r\<lparr>r_in := b, r_state := dnswire_reader_decoding_control\<rparr>"
    have "reader_ok ?r"
      using reader_ok_taken_in [OF ok b(2)] b(3,4) st by simp
    from push_decoding_control_post [OF L this, of w1 0] obtain res r' w' where
      x: "push_decoding_control L w1 0 ?r = Inr (res, r', w')" "decoding_post L ?r (res, r', w')"
      by (metis dnswire_reader.select_convs(1) dnswire_reader.surjective
          dnswire_reader.update_convs(1) prod_cases3)
    have "read_in_post L w r (res, r', w')"
      unfolding read_in_post_def using b x(2) push_decoding_control_world [OF x(1)]
      by (auto intro!: exI [of _ bs] exI [of _ ?r] exI [of _ w1] simp: same_output_def)
    with b x show ?thesis
      by (simp add: read_reading_control_def read_decoding_eq)
  qed (simp add: read_reading_control_def read_in_post_def)
qed

lemma read_reading_post:
  assumes L: "extlib_ok L" and ok: "reader_ok r"
    and st: "r_state r = dnswire_reader_reading"
  shows "\<exists>x. read_reading L w r = Inr x \<and> read_in_post L w r x"
proof -
  from read_bytes_post [OF reader_okD(1) [OF ok], of w] obtain w1 where
    "read_bytes w r = Inr (None, w1) \<or>
    (\<exists>bs b. read_bytes w r = Inr (Some (r\<lparr>r_in := b\<rparr>), w1) \<and> in_ok b \<and> bs \<noteq> [] \<and>
       in_live b = in_live (r_in r) @ bs \<and> inbox w = bs @ inbox w1 \<and> sent w1 = sent w)" by blast
  then show ?thesis
  proof (elim disjE exE conjE)
    fix bs b
    assume b: "read_bytes w r = Inr (Some (r\<lparr>r_in := b\<rparr>), w1)" "in_ok b" "bs \<noteq> []"
      "in_live b = in_live (r_in r) @ bs" "inbox w = bs @ inbox w1" "sent w1 = sent w"
    let ?r = "r\<lparr>r_in := b, r_state := dnswire_reader_decoding\<rparr>"
    have "reader_ok ?r"
      using reader_ok_taken_in [OF ok b(2)] b(3,4) st by simp
    from push_decoding_post [OF L this, of w1 0] obtain res r' w' where
      x: "push_decoding L w1 0 ?r = Inr (res, r', w')" "decoding_post L ?r (res, r', w')"
      by (metis dnswire_reader.select_convs(1) dnswire_reader.surjective
          dnswire_reader.update_convs(1) prod_cases3)
    have "read_in_post L w r (res, r', w')"
      unfolding read_in_post_def using b x(2) push_decoding_world [OF x(1)]
      by (auto intro!: exI [of _ bs] exI [of _ ?r] exI [of _ w1] simp: same_output_def)
    with b x show ?thesis
      by (simp add: read_reading_def read_decoding_eq)
  qed (simp add: read_reading_def read_in_post_def)
qed

end
