(* ===== verification/Reader_Steps.thy ===== *)
theory Reader_Steps
  imports Reader_Inv
begin

text \<open>
  The contract of one call of \<open>dnswire_reader_push\<close> or \<open>dnswire_reader_read\<close>, as a relation
  between the handle before and after it: what the decoder was fed and what was answered.
\<close>

section \<open>The effect of one call\<close>

text \<open>
  The decoding half: either nothing was decoded, or the decoder was called once on everything
  buffered, the newly arrived \<open>chunk\<close> included.
\<close>

definition fed :: "('r, 'w) extlib \<Rightarrow> ('r, 'w) dnswire_reader \<Rightarrow> byte list \<Rightarrow> dnswire_result \<Rightarrow>
    ('r, 'w) dnswire_reader \<Rightarrow> bool" where
  "fed L r chunk res r' \<longleftrightarrow>
     r_decoder r' = r_decoder r \<and> in_live (r_in r') = in_live (r_in r) @ chunk \<and>
       res \<noteq> dnswire_have_dnstap \<or>
     (\<exists>dres. dnswire_decoder_decode L (r_decoder r) (in_live (r_in r) @ chunk) =
          Inr (dres, r_decoder r') \<and>
        in_live (r_in r') = drop (taken L dres (r_decoder r')) (in_live (r_in r) @ chunk) \<and>
        taken L dres (r_decoder r') \<le> length (in_live (r_in r) @ chunk) \<and>
        (res = dnswire_have_dnstap \<longleftrightarrow> dres = dnswire_have_dnstap))"

text \<open>
  The answering half: \<open>out\<close> was handed out of the pending bytes, or one frame was encoded for
  the state of the encoder and \<open>out\<close> is its beginning.
\<close>

definition answered :: "('r, 'w) extlib \<Rightarrow> ('r, 'w) dnswire_reader \<Rightarrow> byte list \<Rightarrow>
    ('r, 'w) dnswire_reader \<Rightarrow> bool" where
  "answered L r out r' \<longleftrightarrow> r_allow_bidirectional r' = r_allow_bidirectional r \<and>
     (r_encoder r' = r_encoder r \<and> out_pending (r_out r) = out @ out_pending (r_out r') \<and>
        (out \<noteq> [] \<longrightarrow> r_allow_bidirectional r) \<or>
      r_allow_bidirectional r \<and> out_pending (r_out r) = [] \<and>
      (\<exists>e1 len res. e_state e1 = e_state (r_encoder r) \<and>
        dnswire_encoder_encode L e1 len = Inr (res, r_encoder r', out @ out_pending (r_out r')) \<and>
        encoder_next (e_state (r_encoder r)) = Some (e_state (r_encoder r'), res)))"

definition step_ok :: "('r, 'w) extlib \<Rightarrow> ('r, 'w) dnswire_reader \<Rightarrow> byte list \<Rightarrow> dnswire_result \<Rightarrow>
    byte list \<Rightarrow> ('r, 'w) dnswire_reader \<Rightarrow> bool" where
  "step_ok L r chunk res out r' \<longleftrightarrow>
     reader_ok r' \<and> fed L r chunk res r' \<and> answered L r out r'"

definition push_post :: "('r, 'w) extlib \<Rightarrow> byte list \<Rightarrow> nat option \<Rightarrow> ('r, 'w) dnswire_reader \<Rightarrow>
    dnswire_result \<times> ('r, 'w) dnswire_reader \<times> world \<times> byte list \<Rightarrow> bool" where
  "push_post L data out_len r x = (case x of (res, r', w', out) \<Rightarrow>
     r_pushed r' \<le> length data \<and>
     length out \<le> (case out_len of None \<Rightarrow> 0 | Some n \<Rightarrow> n) \<and>
     (res \<noteq> dnswire_error \<longrightarrow> step_ok L r (take (r_pushed r') data) res out r') \<and>
     (res = dnswire_need_more \<longrightarrow> data = [] \<or> 0 < in_room (r_in r') \<and>
        r_state r' \<in> {dnswire_reader_reading_control, dnswire_reader_reading}))"

text \<open>The caller brought room for an answer if it allowed one.\<close>

definition room_for :: "('r, 'w) dnswire_reader \<Rightarrow> bool \<Rightarrow> nat option \<Rightarrow> bool" where
  "room_for r out_data out_len \<longleftrightarrow>
     (r_allow_bidirectional r \<longrightarrow> out_data \<and> out_len \<noteq> None)"

section \<open>push\<close>

lemma decoding_step_ok:
  assumes "decoding_post L r1 (res, r', w')" and "res \<noteq> dnswire_error"
    and "in_live (r_in r1) = in_live (r_in r) @ chunk" and "r_decoder r1 = r_decoder r"
    and "r_encoder r1 = r_encoder r" and "r_out r1 = r_out r"
    and "r_allow_bidirectional r1 = r_allow_bidirectional r"
  shows "step_ok L r chunk res [] r'"
  using assms
  by (auto simp: decoding_post_def decoded_once_def step_ok_def fed_def answered_def same_output_def)

lemma no_output_post:
  assumes "m = Inr (res, r', w')" and "decoding_post L r1 (res, r', w')"
    and "in_live (r_in r1) = in_live (r_in r) @ take (r_pushed r1) data"
    and "r_pushed r1 \<le> length data" and "r_decoder r1 = r_decoder r"
    and "same_output (r\<lparr>r_pushed := r_pushed r1\<rparr>) r1"
  shows "\<exists>x. no_output m = Inr x \<and> push_post L data out_len r x"
proof -
  have p: "r_pushed r' = r_pushed r1" and room: "res = dnswire_need_more \<longrightarrow> 0 < in_room (r_in r') \<and>
      r_state r' \<in> {dnswire_reader_reading_control, dnswire_reader_reading}"
    using assms(2) by (auto simp: decoding_post_def same_output_def)
  have "res \<noteq> dnswire_error \<longrightarrow> step_ok L r (take (r_pushed r') data) res [] r'"
    using decoding_step_ok [OF assms(2), of r "take (r_pushed r') data"] assms(3,5,6)
    by (auto simp: p same_output_def)
  with assms(1,4) p room show ?thesis
    by (simp add: no_output_def push_post_def split: option.split)
qed

lemma same_output_refl: "same_output r r"
  by (simp add: same_output_def)

lemma push_decoding_case:
  assumes m: "\<exists>x. m = Inr x \<and> decoding_post L (r\<lparr>r_pushed := 0\<rparr>) x"
  shows "\<exists>x. no_output m = Inr x \<and> push_post L data out_len r x"
proof -
  from m obtain res r' w' where x: "m = Inr (res, r', w')"
    "decoding_post L (r\<lparr>r_pushed := 0\<rparr>) (res, r', w')" by (metis prod_cases3)
  show ?thesis
    by (rule no_output_post [OF x]) (simp_all add: same_output_def)
qed

lemma push_reading_case:
  assumes m: "\<exists>x. m = Inr x \<and> pushed_post L data (r\<lparr>r_pushed := 0\<rparr>) x"
  shows "\<exists>x. no_output m = Inr x \<and> push_post L data out_len r x"
proof -
  from m obtain res r' w' where x: "m = Inr (res, r', w')"
    "pushed_post L data (r\<lparr>r_pushed := 0\<rparr>) (res, r', w')" by (metis prod_cases3)
  from x(2) obtain r1 where
    r1: "in_live (r_in r1) = in_live (r_in r) @ take (r_pushed r1) data"
      "r_pushed r1 = min (in_room (r_in r)) (length data)" "r_decoder r1 = r_decoder r"
      "same_output (r\<lparr>r_pushed := r_pushed r1\<rparr>) r1" "decoding_post L r1 (res, r', w')"
    unfolding pushed_post_def by - (elim exE conjE, rule that, simp_all)
  from r1(2) have "r_pushed r1 \<le> length data" by simp
  with r1 show ?thesis by (intro no_output_post [OF x(1)])
qed

lemma push_nothing_case:
  assumes "reader_ok r"
  shows "\<exists>x. no_output (Inr (dnswire_need_more, r\<lparr>r_pushed := 0\<rparr>, w)) = Inr x \<and>
    push_post L [] out_len r x"
  using assms
  by (auto simp: no_output_def push_post_def step_ok_def reader_ok_pushed fed_def answered_def
      split: option.split)

text \<open>
  A handle \<open>r1\<close> in a writing state that was reached from \<open>r\<close> within the call: whatever it hands
  out next answers \<open>r\<close>.
\<close>

definition answering :: "('r, 'w) extlib \<Rightarrow> ('r, 'w) dnswire_reader \<Rightarrow> ('r, 'w) dnswire_reader \<Rightarrow> bool" where
  "answering L r r1 \<longleftrightarrow> reader_ok r1 \<and> r_decoder r1 = r_decoder r \<and> r_in r1 = r_in r \<and>
     (\<forall>out r'. r_encoder r' = r_encoder r1 \<longrightarrow>
        out_pending (r_out r1) = out @ out_pending (r_out r') \<longrightarrow>
        r_allow_bidirectional r' = r_allow_bidirectional r1 \<longrightarrow> answered L r out r')"

lemma writing_allowed:
  assumes "reader_ok r"
    and "r_state r \<in> {dnswire_reader_encoding_accept, dnswire_reader_writing_accept,
       dnswire_reader_encoding_finish, dnswire_reader_writing_finish}"
  shows "r_allow_bidirectional r"
  using reader_okD(4) [OF assms(1)] assms(2) by (auto simp: output_ok_def)

lemma answering_pending:
  assumes "reader_ok r"
    and "r_state r \<in> {dnswire_reader_writing_accept, dnswire_reader_writing_finish}"
  shows "answering L r (r\<lparr>r_pushed := n\<rparr>)" and "answering L r r"
  using assms writing_allowed [of r]
  by (auto simp: answering_def answered_def reader_ok_pushed)

lemma answering_encoded:
  assumes L: "extlib_ok L" and ok: "reader_ok r"
    and s: "(r_state r, s', res0) \<in>
      {(dnswire_reader_encoding_accept, dnswire_reader_writing_accept, dnswire_again),
       (dnswire_reader_encoding_finish, dnswire_reader_writing_finish, dnswire_endofdata)}"
  shows "\<exists>res e b w'. encoding L w (r_encoder r) (r_out r) = Inr (res, e, b, w') \<and>
     (res = res0 \<longrightarrow> answering L r (r\<lparr>r_encoder := e, r_out := b, r_state := s'\<rparr>))"
proof -
  define es where "es = e_state (r_encoder r)"
  have o: "r_allow_bidirectional r" "out_pending (r_out r) = []"
    "(r_state r, s', res0, es) \<in>
      {(dnswire_reader_encoding_accept, dnswire_reader_writing_accept, dnswire_again,
          dnswire_encoder_control_accept),
       (dnswire_reader_encoding_finish, dnswire_reader_writing_finish, dnswire_endofdata,
          dnswire_encoder_control_finish)}"
    using reader_okD(4) [OF ok] s out_pending_length [of "r_out r"]
    by (auto simp: output_ok_def es_def)
  from encoding_answer [OF L ok o(3), of w] obtain res e b w' where
    r: "encoding L w (r_encoder r) (r_out r) = Inr (res, e, b, w')"
    and p: "res = res0 \<longrightarrow> reader_ok (r\<lparr>r_encoder := e, r_out := b, r_state := s'\<rparr>) \<and>
        encoder_next es = Some (e_state e, res0) \<and>
        (\<exists>e1 len. e_state e1 = es \<and> dnswire_encoder_encode L e1 len = Inr (res0, e, out_pending b))"
    by blast
  have "answering L r (r\<lparr>r_encoder := e, r_out := b, r_state := s'\<rparr>)" if "res = res0"
    using p that o(1,2) unfolding answering_def answered_def es_def by auto
  with r show ?thesis by blast
qed

lemma writing_case:
  assumes a: "answering L r r1"
    and st: "(r_state r1, s') \<in> {(dnswire_reader_writing_accept, dnswire_reader_reading_control),
       (dnswire_reader_writing_finish, dnswire_reader_done)}"
    and n: "n \<le> o_left (r_out r1)" and res: "res \<noteq> dnswire_have_dnstap"
    and r': "r' = r1\<lparr>r_out := out_drain n (r_out r1)\<rparr> \<or>
       o_left (out_drain n (r_out r1)) = 0 \<and> r' = r1\<lparr>r_out := out_drain n (r_out r1), r_state := s'\<rparr>"
  shows "step_ok L r [] res (take n (out_pending (r_out r1))) r'"
proof -
  from a have ok: "reader_ok r1" by (simp add: answering_def)
  note d = reader_ok_drained [OF ok n st]
  have "reader_ok r'" using r' d(2,3) by auto
  moreover have "fed L r [] res r'" using r' a res by (auto simp: fed_def answering_def)
  moreover have "r_encoder r' = r_encoder r1" "r_allow_bidirectional r' = r_allow_bidirectional r1"
    "out_pending (r_out r1) = take n (out_pending (r_out r1)) @ out_pending (r_out r')"
    using r' d(1) by auto
  then have "answered L r (take n (out_pending (r_out r1))) r'"
    using a unfolding answering_def by blast
  ultimately show ?thesis by (simp add: step_ok_def)
qed

lemma push_writing_case:
  assumes a: "answering L r r1" and p: "r_pushed r1 = 0"
  shows "r_state r1 = dnswire_reader_writing_accept \<Longrightarrow>
      \<exists>x. push_writing_accept w True (Some orig) r1 = Inr x \<and> push_post L data (Some orig) r x"
    and "r_state r1 = dnswire_reader_writing_finish \<Longrightarrow>
      \<exists>x. push_writing_finish w True (Some orig) r1 = Inr x \<and> push_post L data (Some orig) r x"
proof -
  from a have ok: "reader_ok r1" by (simp add: answering_def)
  define n where "n = min (o_left (r_out r1)) orig"
  have n: "n \<le> o_left (r_out r1)" "n \<le> orig" by (simp_all add: n_def)
  note w = writing_case [OF a _ n(1)]
  show "\<exists>x. push_writing_accept w True (Some orig) r1 = Inr x \<and> push_post L data (Some orig) r x"
    if st: "r_state r1 = dnswire_reader_writing_accept"
    using push_output_post [OF ok, of orig] st n p
      w [of dnswire_reader_reading_control dnswire_again]
    by (auto simp: push_writing_accept_def push_post_def simp flip: n_def)
  show "\<exists>x. push_writing_finish w True (Some orig) r1 = Inr x \<and> push_post L data (Some orig) r x"
    if st: "r_state r1 = dnswire_reader_writing_finish"
    using push_output_post [OF ok, of orig] st n p
      w [of dnswire_reader_done dnswire_again] w [of dnswire_reader_done dnswire_endofdata]
    by (auto simp: push_writing_finish_def push_post_def simp flip: n_def)
qed

lemma push_failed:
  "push_post L data (Some orig) r (dnswire_error, r1, w', [])" if "r_pushed r1 = 0"
  using that by (simp add: push_post_def)

lemma push_encoding_case:
  assumes L: "extlib_ok L" and ok: "reader_ok r"
  shows "r_state r = dnswire_reader_encoding_accept \<Longrightarrow>
      \<exists>x. push_encoding_accept L w True (Some orig) (r\<lparr>r_pushed := 0\<rparr>) = Inr x \<and>
        push_post L data (Some orig) (r\<lparr>r_pushed := 0\<rparr>) x"
    and "r_state r = dnswire_reader_encoding_finish \<Longrightarrow>
      \<exists>x. push_encoding_finish L w True (Some orig) (r\<lparr>r_pushed := 0\<rparr>) = Inr x \<and>
        push_post L data (Some orig) (r\<lparr>r_pushed := 0\<rparr>) x"
proof -
  let ?r = "r\<lparr>r_pushed := 0\<rparr>"
  have ok0: "reader_ok ?r" using ok by (simp add: reader_ok_pushed)
  show "\<exists>x. push_encoding_accept L w True (Some orig) ?r = Inr x \<and> push_post L data (Some orig) ?r x"
    if st: "r_state r = dnswire_reader_encoding_accept"
  proof -
    from answering_encoded [OF L ok0, of dnswire_reader_writing_accept dnswire_again w] st
    obtain res e b w' where r: "encoding L w (r_encoder ?r) (r_out ?r) = Inr (res, e, b, w')"
      "res = dnswire_again \<longrightarrow> answering L ?r (?r\<lparr>r_encoder := e, r_out := b,
         r_state := dnswire_reader_writing_accept\<rparr>)" by auto
    then show ?thesis
      using push_writing_case(1) [of L ?r "?r\<lparr>r_encoder := e, r_out := b,
         r_state := dnswire_reader_writing_accept\<rparr>" w' orig data]
      by (auto simp: push_encoding_accept_def Let_def intro: push_failed)
  qed
  show "\<exists>x. push_encoding_finish L w True (Some orig) ?r = Inr x \<and> push_post L data (Some orig) ?r x"
    if st: "r_state r = dnswire_reader_encoding_finish"
  proof -
    from answering_encoded [OF L ok0, of dnswire_reader_writing_finish dnswire_endofdata w] st
    obtain res e b w' where r: "encoding L w (r_encoder ?r) (r_out ?r) = Inr (res, e, b, w')"
      "res = dnswire_endofdata \<longrightarrow> answering L ?r (?r\<lparr>r_encoder := e, r_out := b,
         r_state := dnswire_reader_writing_finish\<rparr>)" by auto
    then show ?thesis
      using push_writing_case(2) [of L ?r "?r\<lparr>r_encoder := e, r_out := b,
         r_state := dnswire_reader_writing_finish\<rparr>" w' orig data]
      by (auto simp: push_encoding_finish_def Let_def intro: push_failed)
  qed
qed

lemma push_post_pushed:
  "push_post L data out_len (r\<lparr>r_pushed := n\<rparr>) x = push_post L data out_len r x"
  by (simp add: push_post_def step_ok_def fed_def answered_def)

lemma reader_push_returns:
  assumes L: "extlib_ok L" and ok: "reader_ok r" and room: "room_for r out_data out_len"
  shows "\<exists>x. dnswire_reader_push L w r (Some data) out_data out_len = Inr x \<and>
    push_post L data out_len r x"
proof -
  let ?r = "r\<lparr>r_pushed := 0\<rparr>"
  have ok0: "reader_ok ?r" using ok by (simp add: reader_ok_pushed)
  have buf: "i_buf (r_in r) \<noteq> None" using in_ok_buf [OF reader_okD(1) [OF ok]] .
  note eval = dnswire_reader_push_def buf Let_def
  show ?thesis
  proof (cases "r_state r \<in> {dnswire_reader_encoding_accept, dnswire_reader_writing_accept,
       dnswire_reader_encoding_finish, dnswire_reader_writing_finish}")
    case True
    from writing_allowed [OF ok True] room obtain orig where o: "out_data" "out_len = Some orig"
      by (auto simp: room_for_def)
    show ?thesis
      using True push_encoding_case [OF L ok, of w orig data] o
        push_writing_case [OF answering_pending(1) [OF ok, of L 0], of w orig data]
      by (auto simp: eval push_post_pushed)
  next
    case False
    have a: "r_allow_bidirectional r \<longrightarrow> out_data" "r_allow_bidirectional r \<longrightarrow> (\<exists>n. out_len = Some n)"
      using room by (auto simp: room_for_def)
    show ?thesis
    proof (cases "r_state r")
      case dnswire_reader_reading_control
      then show ?thesis
        using a push_reading_case [OF push_reading_control_post [OF L ok0]]
          push_nothing_case [OF ok]
        by (cases "data = []") (auto simp: eval push_reading_control_def)
    next
      case dnswire_reader_reading
      then show ?thesis
        using a push_reading_case [OF push_reading_post [OF L ok0]]
          push_nothing_case [OF ok]
        by (cases "data = []") (auto simp: eval push_reading_def)
    next
      case dnswire_reader_decoding_control
      then show ?thesis
        using a push_decoding_case [OF push_decoding_control_post [OF L ok0]] by (simp add: eval)
    next
      case dnswire_reader_decoding
      then show ?thesis
        using a push_decoding_case [OF push_decoding_post [OF L ok0]] by (simp add: eval)
    next
      case dnswire_reader_done
      then show ?thesis
        using a by (simp add: eval push_post_def split: option.split)
    qed (use False in auto)
  qed
qed

text \<open>With room in the buffer, \<open>push\<close> takes at least one byte.\<close>

lemma push_takes:
  assumes L: "extlib_ok L" and ok: "reader_ok r" and room: "0 < in_room (r_in r)"
    and st: "r_state r \<in> {dnswire_reader_reading_control, dnswire_reader_reading}"
    and data: "data \<noteq> []"
    and run: "dnswire_reader_push L w r (Some data) out_data out_len = Inr (res, r', w', out)"
  shows "r_pushed r' = min (in_room (r_in r)) (length data)"
proof -
  let ?r = "r\<lparr>r_pushed := 0\<rparr>"
  have ok0: "reader_ok ?r" using ok by (simp add: reader_ok_pushed)
  have "\<exists>x. pushed_post L data ?r x \<and> fst x = res \<and> fst (snd x) = r'"
  proof (cases "r_state r = dnswire_reader_reading")
    case True
    from push_reading_post [OF L ok0 data, of w] True run show ?thesis
      by (auto simp: dnswire_reader_push_def no_output_def assertF_def split: if_splits)
  next
    case False
    with st have "r_state r = dnswire_reader_reading_control" by simp
    with push_reading_control_post [OF L ok0 data, of w] run show ?thesis
      by (auto simp: dnswire_reader_push_def no_output_def assertF_def split: if_splits)
  qed
  then show ?thesis
    by (auto simp: pushed_post_def decoding_post_def same_output_def)
qed

section \<open>read\<close>

definition read_post :: "('r, 'w) extlib \<Rightarrow> world \<Rightarrow> ('r, 'w) dnswire_reader \<Rightarrow>
    dnswire_result \<times> ('r, 'w) dnswire_reader \<times> world \<Rightarrow> bool" where
  "read_post L w r x = (case x of (res, r', w') \<Rightarrow>
     (res \<noteq> dnswire_error \<longrightarrow>
       (\<exists>chunk out. inbox w = chunk @ inbox w' \<and> sent w' = sent w @ out \<and>
          step_ok L r chunk res out r')) \<and>
     (res = dnswire_need_more \<longrightarrow> 0 < in_room (r_in r') \<and>
        r_state r' \<in> {dnswire_reader_reading_control, dnswire_reader_reading}))"

lemma read_failed: "read_post L w r (dnswire_error, r', w')"
  by (simp add: read_post_def)

lemma read_reading_case:
  assumes "\<exists>x. m = Inr x \<and> read_in_post L w r x"
  shows "\<exists>x. m = Inr x \<and> read_post L w r x"
proof -
  from assms obtain res r' w' where m: "m = Inr (res, r', w')" "read_in_post L w r (res, r', w')"
    by (metis prod_cases3)
  have "read_post L w r (res, r', w')"
  proof (cases "res = dnswire_error")
    case False
    with m(2) obtain bs r1 and w1 :: world where
      "in_live (r_in r1) = in_live (r_in r) @ bs" "inbox w = bs @ inbox w1"
      "r_decoder r1 = r_decoder r" "same_output r r1" "decoding_post L r1 (res, r', w')"
      "inbox w' = inbox w1" "sent w' = sent w"
      by (auto simp: read_in_post_def)
    with False decoding_step_ok [of L r1 res r' w' r bs] show ?thesis
      by (auto simp: read_post_def same_output_def decoding_post_def intro!: exI [of _ bs])
  qed (simp add: read_failed)
  with m(1) show ?thesis by simp
qed

lemma read_decoding_case:
  assumes m: "\<exists>x. m = Inr x \<and> decoding_post L r x"
    and world: "\<And>res r' w'. m = Inr (res, r', w') \<Longrightarrow> inbox w' = inbox w \<and> sent w' = sent w"
  shows "\<exists>x. m = Inr x \<and> read_post L w r x"
proof -
  from m obtain res r' w' where x: "m = Inr (res, r', w')" "decoding_post L r (res, r', w')"
    by (metis prod_cases3)
  with world [OF x(1)] decoding_step_ok [OF x(2), of r "[]"] show ?thesis
    by (auto simp: read_post_def decoding_post_def)
qed

lemma read_writing_case:
  assumes a: "answering L r r1" and w: "inbox w = inbox w0" "sent w = sent w0"
  shows "r_state r1 = dnswire_reader_writing_accept \<Longrightarrow>
      \<exists>x. read_writing_accept w r1 = Inr x \<and> read_post L w0 r x"
    and "r_state r1 = dnswire_reader_writing_finish \<Longrightarrow>
      \<exists>x. read_writing_finish w r1 = Inr x \<and> read_post L w0 r x"
proof -
  from a have ok: "reader_ok r1" by (simp add: answering_def)
  show "\<exists>x. read_writing_accept w r1 = Inr x \<and> read_post L w0 r x"
    if st: "r_state r1 = dnswire_reader_writing_accept"
    using read_output_post [OF ok, of w] st w
      writing_case [OF a, of dnswire_reader_reading_control _ dnswire_again]
    by (auto simp: read_writing_accept_def read_post_def)
  show "\<exists>x. read_writing_finish w r1 = Inr x \<and> read_post L w0 r x"
    if st: "r_state r1 = dnswire_reader_writing_finish"
    using read_output_post [OF ok, of w] st w
      writing_case [OF a, of dnswire_reader_done _ dnswire_again]
      writing_case [OF a, of dnswire_reader_done _ dnswire_endofdata]
    by (auto simp: read_writing_finish_def read_post_def)
qed

lemma read_encoding_case:
  assumes L: "extlib_ok L" and ok: "reader_ok r"
  shows "r_state r = dnswire_reader_encoding_accept \<Longrightarrow>
      \<exists>x. read_encoding_accept L w r = Inr x \<and> read_post L w r x"
    and "r_state r = dnswire_reader_encoding_finish \<Longrightarrow>
      \<exists>x. read_encoding_finish L w r = Inr x \<and> read_post L w r x"
proof -
  show "\<exists>x. read_encoding_accept L w r = Inr x \<and> read_post L w r x"
    if st: "r_state r = dnswire_reader_encoding_accept"
  proof -
    from answering_encoded [OF L ok, of dnswire_reader_writing_accept dnswire_again w] st
    obtain res e b w' where r: "encoding L w (r_encoder r) (r_out r) = Inr (res, e, b, w')"
      "res = dnswire_again \<longrightarrow> answering L r (r\<lparr>r_encoder := e, r_out := b,
         r_state := dnswire_reader_writing_accept\<rparr>)" by auto
    then show ?thesis
      using read_writing_case(1) [of L r "r\<lparr>r_encoder := e, r_out := b,
         r_state := dnswire_reader_writing_accept\<rparr>" w' w] encoding_world [OF r(1)]
      by (auto simp: read_encoding_accept_def Let_def read_failed)
  qed
  show "\<exists>x. read_encoding_finish L w r = Inr x \<and> read_post L w r x"
    if st: "r_state r = dnswire_reader_encoding_finish"
  proof -
    from answering_encoded [OF L ok, of dnswire_reader_writing_finish dnswire_endofdata w] st
    obtain res e b w' where r: "encoding L w (r_encoder r) (r_out r) = Inr (res, e, b, w')"
      "res = dnswire_endofdata \<longrightarrow> answering L r (r\<lparr>r_encoder := e, r_out := b,
         r_state := dnswire_reader_writing_finish\<rparr>)" by auto
    then show ?thesis
      using read_writing_case(2) [of L r "r\<lparr>r_encoder := e, r_out := b,
         r_state := dnswire_reader_writing_finish\<rparr>" w' w] encoding_world [OF r(1)]
      by (auto simp: read_encoding_finish_def Let_def read_failed)
  qed
qed

lemma reader_read_returns:
  assumes L: "extlib_ok L" and ok: "reader_ok r"
  shows "\<exists>x. dnswire_reader_read L w r = Inr x \<and> read_post L w r x"
proof -
  have buf: "i_buf (r_in r) \<noteq> None" using in_ok_buf [OF reader_okD(1) [OF ok]] .
  note eval = dnswire_reader_read_def buf
  note dec = read_decoding_case [where w = w and r = r and L = L]
  show ?thesis
  proof (cases "r_state r")
    case dnswire_reader_reading_control
    then show ?thesis
      using read_reading_case [OF read_reading_control_post [OF L ok]] by (simp add: eval)
  next
    case dnswire_reader_reading
    then show ?thesis
      using read_reading_case [OF read_reading_post [OF L ok]] by (simp add: eval)
  next
    case dnswire_reader_decoding_control
    then show ?thesis
      using dec [OF push_decoding_control_post [OF L ok] push_decoding_control_world, of w 0]
      by (simp add: eval read_decoding_eq)
  next
    case dnswire_reader_decoding
    then show ?thesis
      using dec [OF push_decoding_post [OF L ok] push_decoding_world, of w 0]
      by (simp add: eval read_decoding_eq)
  next
    case dnswire_reader_done
    then show ?thesis by (simp add: eval read_failed)
  next
    case dnswire_reader_encoding_accept
    then show ?thesis using read_encoding_case(1) [OF L ok] by (simp add: eval)
  next
    case dnswire_reader_encoding_finish
    then show ?thesis using read_encoding_case(2) [OF L ok] by (simp add: eval)
  next
    case dnswire_reader_writing_accept
    then show ?thesis
      using read_writing_case(1) [OF answering_pending(2) [OF ok]] by (simp add: eval)
  next
    case dnswire_reader_writing_finish
    then show ?thesis
      using read_writing_case(2) [OF answering_pending(2) [OF ok]] by (simp add: eval)
  qed
qed

end
