(* ===== verification/Decoder_Traces.thy ===== *)
theory Decoder_Traces
  imports Decoder_Props
begin

text \<open>
  Properties of the decoder: the contract of a call as the users of the library see it, the
  content types it takes, and what a run of calls has seen before it delivers a message.
\<close>

text \<open>
  With a well-behaved \<open>tinyframe\<close> and at least one byte of input, a call of
  \<open>dnswire_decoder_decode\<close> returns (no failed assertion, no double free in the cleanup before
  unpacking), reports at most the bytes it was given as decoded when it made progress, and
  keeps the state of the decoder sound for the next call.
\<close>
theorem decoder_decode_safe:
  assumes "extlib_ok L" and "decoder_ok h" and "data \<noteq> []"
  shows "\<exists>res h'. dnswire_decoder_decode L h data = Inr (res, h') \<and> decoder_ok h' \<and>
     (res \<in> {dnswire_again, dnswire_bidirectional, dnswire_have_dnstap} \<longrightarrow>
        dnswire_decoder_decoded L h' \<le> length data)"
  using decoder_decode_returns [OF assms] by (auto simp: decode_result_ok_def)

lemma decoder_init_ok: "decoder_ok (DNSWIRE_DECODER_INITIALIZER L)"
  by (simp add: decoder_ok_def DNSWIRE_DECODER_INITIALIZER_def DNSTAP_INITIALIZER_def)

theorem decoder_decode_safe_witness:
  "\<exists>res h'. dnswire_decoder_decode toylib (DNSWIRE_DECODER_INITIALIZER toylib) [2, 23] = Inr (res, h')
     \<and> decoder_ok h'"
  using decoder_decode_safe [OF toylib_ok decoder_init_ok [of toylib], of "[2, 23]"] by auto

text \<open>
  The states of the decoder follow the conversation: every call either makes one of the
  listed moves with the listed result, or asks for more input or fails and stays. In
  particular the state never goes back in the order of its C enumerators, and \<open>done\<close> is final.
\<close>
theorem decoder_decode_moves:
  assumes "extlib_ok L" and "decoder_ok h"
    and "dnswire_decoder_decode L h data = Inr (res, h')"
  shows "((res, dc_state h') \<in> set (decoder_moves (dc_state h)) \<or>
          res \<in> {dnswire_need_more, dnswire_error} \<and> dc_state h' = dc_state h) \<and>
     dc_state h \<le> dc_state h'"
proof -
  have "decoder_step_ok (dc_state h) res (dc_state h')"
    by (rule decoder_decode_result(2) [OF assms])
  moreover have "s \<le> s'" if "decoder_step_ok s res s'" for s s'
    using that
    by (cases s) (auto simp: decoder_step_ok_def less_eq_dnswire_decoder_state_def)
  ultimately show ?thesis
    by (auto simp: decoder_step_ok_def)
qed

lemma toy_decode_start:
  "dnswire_decoder_decode toylib (DNSWIRE_DECODER_INITIALIZER toylib) [2, 23] =
     Inr (dnswire_again, (DNSWIRE_DECODER_INITIALIZER toylib)
       \<lparr>dc_reader := (tf_reader_init toylib)
          \<lparr>tr_type := TINYFRAME_CONTROL_START, tr_left := 23, tr_read := 2\<rparr>,
        dc_state := dnswire_decoder_checking_start\<rparr>)"
  by (simp add: dnswire_decoder_decode_def decode_reading_control_def DNSWIRE_DECODER_INITIALIZER_def
      toylib_def toy_read_def toy_header_def)

theorem decoder_decode_moves_witness:
  "(dnswire_again, dnswire_decoder_checking_start) \<in> set (decoder_moves dnswire_decoder_reading_control)"
  using decoder_decode_moves [OF toylib_ok decoder_init_ok toy_decode_start]
  by (simp add: DNSWIRE_DECODER_INITIALIZER_def)

section \<open>Content types\<close>

lemma strncmp_eq_iff:
  assumes "0 \<notin> set s"
  shows "strncmp_eq s bs \<longleftrightarrow> prefix bs s \<or> (\<exists>rest. bs = s @ 0 # rest)"
  using assms by (induction s bs rule: strncmp_eq.induct) auto

lemma content_type_no_zero: "0 \<notin> set DNSTAP_PROTOBUF_CONTENT_TYPE"
  by (simp add: DNSTAP_PROTOBUF_CONTENT_TYPE_def)

text \<open>
  C33: The content type a peer announces in its START frame is compared with \<open>strncmp\<close> over the
  announced length only. The decoder therefore goes on to the frames exactly for the prefixes
  of \<open>protobuf:dnstap.Dnstap\<close>, the empty content type among them, and for that string followed
  by a zero byte and anything at all.
\<close>
theorem decoder_content_type:
  assumes "dc_state h = dnswire_decoder_checking_start" and "data \<noteq> []"
    and "tf_read L (dc_reader h) data = (tinyframe_have_control_field, r)"
    and "tf_field_type L r = TINYFRAME_CONTROL_FIELD_CONTENT_TYPE"
  shows "\<exists>res h'. dnswire_decoder_decode L h data = Inr (res, h') \<and>
     (dc_state h' = dnswire_decoder_reading_frames \<longleftrightarrow>
        prefix (tf_field_data L r) DNSTAP_PROTOBUF_CONTENT_TYPE \<or>
        (\<exists>rest. tf_field_data L r = DNSTAP_PROTOBUF_CONTENT_TYPE @ 0 # rest))"
  using assms strncmp_eq_iff [OF content_type_no_zero, of "tf_field_data L r"]
  by (auto simp: dnswire_decoder_decode_def decode_checking_start_def content_type_matches_def
      Let_def)

theorem decoder_content_type_witness:
  "\<exists>res h'. dnswire_decoder_decode toylib
       ((DNSWIRE_DECODER_INITIALIZER toylib)
          \<lparr>dc_state := dnswire_decoder_checking_start,
           dc_reader := (tf_reader_init toylib)\<lparr>tr_left := 1\<rparr>\<rparr>) [0] = Inr (res, h') \<and>
     dc_state h' = dnswire_decoder_reading_frames"
proof -
  let ?h = "(DNSWIRE_DECODER_INITIALIZER toylib)
          \<lparr>dc_state := dnswire_decoder_checking_start,
           dc_reader := (tf_reader_init toylib)\<lparr>tr_left := 1\<rparr>\<rparr>"
  let ?r = "(tf_reader_init toylib)\<lparr>tr_left := 0, tr_read := 1\<rparr>"
  have "tf_read toylib (dc_reader ?h) [0] = (tinyframe_have_control_field, ?r)"
    by (simp add: toylib_def toy_read_def toy_field_def)
  moreover have "tf_field_type toylib ?r = TINYFRAME_CONTROL_FIELD_CONTENT_TYPE"
    "tf_field_data toylib ?r = []"
    by (simp_all add: toylib_def)
  ultimately show ?thesis
    using decoder_content_type [of ?h "[0]" toylib ?r] by auto
qed

section \<open>Runs\<close>

text \<open>
  A run of a decoder: consecutive calls, each on whatever bytes its caller has at hand. The
  trace keeps the handle before each call, the input and the result.
\<close>

inductive decoder_run :: "('r, 'w) extlib \<Rightarrow> 'r dnswire_decoder \<Rightarrow>
    ('r dnswire_decoder \<times> byte list \<times> dnswire_result) list \<Rightarrow> 'r dnswire_decoder \<Rightarrow> bool"
  for L where
  run_nil: "decoder_run L h [] h"
| run_step: "decoder_run L h tr h1 \<Longrightarrow> dnswire_decoder_decode L h1 data = Inr (res, h2) \<Longrightarrow>
     decoder_run L h (tr @ [(h1, data, res)]) h2"

inductive_cases decoder_run_emptyE: "decoder_run L h [] h'"

text \<open>A call that accepted the content type of a START frame.\<close>

definition accepted_start :: "('r, 'w) extlib \<Rightarrow> 'r dnswire_decoder \<times> byte list \<times> dnswire_result \<Rightarrow> bool" where
  "accepted_start L x = (case x of (h, data, res) \<Rightarrow>
     dc_state h = dnswire_decoder_checking_start \<and> res = dnswire_again \<and>
     (case tf_read L (dc_reader h) data of (tf, r) \<Rightarrow>
        tf = tinyframe_have_control_field \<and>
        tf_field_type L r = TINYFRAME_CONTROL_FIELD_CONTENT_TYPE \<and> content_type_matches L r))"

lemma decode_accepts:
  assumes "dnswire_decoder_decode L h data = Inr (dnswire_again, h')"
    and "dc_state h = dnswire_decoder_checking_start"
  shows "accepted_start L (h, data, dnswire_again)"
proof -
  have "data \<noteq> []"
    using assms(1) by (auto simp: dnswire_decoder_decode_def)
  with assms show ?thesis
    by (auto simp: decode_dispatch accepted_start_def decode_checking_start_def Let_def
        split: prod.splits tinyframe_result.splits if_splits)
qed

lemma step_started:
  assumes "decoder_step_ok s res s'" and "s' = dnswire_decoder_reading_frames \<or> res = dnswire_have_dnstap"
  shows "s = dnswire_decoder_reading_frames \<or> s = dnswire_decoder_checking_start \<and> res = dnswire_again"
  using assms by (cases s) (auto simp: decoder_step_ok_def)

lemma decoder_run_ok:
  assumes "decoder_run L h tr h'" and "extlib_ok L" and "decoder_ok h"
  shows "decoder_ok h'"
  using assms
proof (induction rule: decoder_run.induct)
  case (run_step h tr h1 data res h2)
  then show ?case
    by (auto intro: decoder_decode_result(1))
qed

lemma decoder_run_started:
  assumes "decoder_run L h tr h'" and L: "extlib_ok L" and ok: "decoder_ok h"
    and "dc_state h \<noteq> dnswire_decoder_reading_frames"
    and "dc_state h' = dnswire_decoder_reading_frames"
  shows "\<exists>x \<in> set tr. accepted_start L x"
  using assms
proof (induction rule: decoder_run.induct)
  case (run_step h tr h1 data res h2)
  have ok1: "decoder_ok h1"
    using decoder_run_ok [OF run_step.hyps(1) L run_step.prems(2)] .
  have "decoder_step_ok (dc_state h1) res (dc_state h2)"
    by (rule decoder_decode_result(2) [OF L ok1 run_step.hyps(2)])
  from step_started [OF this] run_step.prems
  consider "dc_state h1 = dnswire_decoder_reading_frames"
    | "dc_state h1 = dnswire_decoder_checking_start" "res = dnswire_again"
    by blast
  then show ?case
  proof cases
    case 1
    with run_step show ?thesis by auto
  next
    case 2
    with decode_accepts [of L h1 data h2] run_step.hyps(2) show ?thesis by auto
  qed
qed simp

text \<open>
  A decoder delivers a message only after the handshake: in any run from the initial state
  whose last call returns \<open>dnswire_have_dnstap\<close>, an earlier call read the content type field of
  a START frame and found it acceptable.
\<close>
theorem have_dnstap_after_start:
  assumes "decoder_run L (DNSWIRE_DECODER_INITIALIZER L) tr h" and "extlib_ok L"
    and "dnswire_decoder_decode L h data = Inr (dnswire_have_dnstap, h')"
  shows "\<exists>x \<in> set tr. accepted_start L x"
proof -
  have ok: "decoder_ok h"
    using decoder_run_ok [OF assms(1,2) decoder_init_ok] .
  have "decoder_step_ok (dc_state h) dnswire_have_dnstap (dc_state h')"
    by (rule decoder_decode_result(2) [OF assms(2) ok assms(3)])
  from step_started [OF this] have "dc_state h = dnswire_decoder_reading_frames" by simp
  with assms(1,2) show ?thesis
    by (intro decoder_run_started [OF _ _ decoder_init_ok])
      (auto simp: DNSWIRE_DECODER_INITIALIZER_def)
qed


definition toy_checking :: "toy_reader dnswire_decoder" where
  "toy_checking = (DNSWIRE_DECODER_INITIALIZER toylib)
     \<lparr>dc_reader := (tf_reader_init toylib)
        \<lparr>tr_type := TINYFRAME_CONTROL_START, tr_left := 1, tr_read := 2\<rparr>,
      dc_state := dnswire_decoder_checking_start\<rparr>"

definition toy_frames :: "toy_reader dnswire_decoder" where
  "toy_frames = toy_checking
     \<lparr>dc_reader := (dc_reader toy_checking)\<lparr>tr_left := 0, tr_read := 1\<rparr>,
      dc_state := dnswire_decoder_reading_frames\<rparr>"

lemma toy_steps:
  "dnswire_decoder_decode toylib (DNSWIRE_DECODER_INITIALIZER toylib) [2, 1] =
     Inr (dnswire_again, toy_checking)"
  "dnswire_decoder_decode toylib toy_checking [0] = Inr (dnswire_again, toy_frames)"
  by (simp_all add: dnswire_decoder_decode_def decode_reading_control_def decode_checking_start_def
      content_type_matches_def DNSWIRE_DECODER_INITIALIZER_def toy_checking_def toy_frames_def
      toylib_def toy_read_def toy_header_def toy_field_def Let_def)

lemma toy_frame_step:
  "\<exists>h'. dnswire_decoder_decode toylib toy_frames [6, 2, 8, 1] = Inr (dnswire_have_dnstap, h') \<and>
     dnswire_decoder_decoded toylib h' = 4"
proof -
  have un: "d_unpacked (dc_dnstap toy_frames) = None"
    by (simp add: toy_frames_def toy_checking_def DNSWIRE_DECODER_INITIALIZER_def
        DNSTAP_INITIALIZER_def)
  have up: "pb_unpack toylib [8, 1] = Some (toy_dnstap\<lparr>t_type := 1\<rparr>, None)"
    by (simp add: toylib_def toy_unpack_def)
  have rd: "tf_read toylib (dc_reader toy_frames) [6, 2, 8, 1] =
      (tinyframe_have_frame, (dc_reader toy_frames)\<lparr>tr_frame := [8, 1], tr_read := 4\<rparr>)"
    by (simp add: toy_frames_def toylib_def toy_read_def toy_header_def)
  have fr: "tf_frame_data toylib ((dc_reader toy_frames)\<lparr>tr_frame := [8, 1], tr_read := 4\<rparr>) = [8, 1]"
    by (simp add: toylib_def)
  have st: "dc_state toy_frames = dnswire_decoder_reading_frames"
    by (simp add: toy_frames_def)
  show ?thesis
    using decode_no_message [OF un up]
    by (simp add: dnswire_decoder_decode_def decode_reading_frames_def st rd fr un
        dnstap_cleanup_def Let_def) (simp add: dnswire_decoder_decoded_def toylib_def)?
qed

theorem have_dnstap_after_start_witness:
  "\<exists>x \<in> set [(DNSWIRE_DECODER_INITIALIZER toylib, [2, 1], dnswire_again),
              (toy_checking, [0], dnswire_again)]. accepted_start toylib x"
proof -
  have run: "decoder_run toylib (DNSWIRE_DECODER_INITIALIZER toylib)
      [(DNSWIRE_DECODER_INITIALIZER toylib, [2, 1], dnswire_again),
       (toy_checking, [0], dnswire_again)] toy_frames"
    using run_step [OF run_step [OF run_nil toy_steps(1)] toy_steps(2)] by simp
  obtain h' where "dnswire_decoder_decode toylib toy_frames [6, 2, 8, 1] = Inr (dnswire_have_dnstap, h')"
    using toy_frame_step by blast
  then show ?thesis
    by (rule have_dnstap_after_start [OF run toylib_ok])
qed

end
