(* ===== verification/Reader_Traces.thy ===== *)
theory Reader_Traces
  imports Reader_Steps Decoder_Traces
begin

text \<open>
  Properties of the reader: its calls are safe and keep the invariant, a run of them is a run
  of the decoder on the byte stream that came in, and what it answers are the frames of its
  encoder in order.
\<close>

section \<open>Safety\<close>

text \<open>
  C8: From a sound handle, \<open>dnswire_reader_push\<close> with any data returns, provided that the caller gives
  \<open>out_data\<close> and \<open>out_len\<close> when the handle allows bidirectional conversations: no assertion fails, no
  access leaves a buffer or reads a byte that was not written. It takes no more than it was given and
  answers with no more than fits. When the result is not \<open>dnswire_error\<close> the handle is sound again;
  nothing is said of the handle after an error.
\<close>
theorem reader_push_safe:
  assumes "extlib_ok L" and "reader_ok r" and "room_for r out_data out_len"
  shows "\<exists>res r' w' out.
     dnswire_reader_push L w r (Some data) out_data out_len = Inr (res, r', w', out) \<and>
     r_pushed r' \<le> length data \<and> length out \<le> (case out_len of None \<Rightarrow> 0 | Some n \<Rightarrow> n) \<and>
     (res \<noteq> dnswire_error \<longrightarrow> reader_ok r')"
  using reader_push_returns [OF assms, of w data] by (auto simp: push_post_def step_ok_def)

lemma default_in_ok:
  "in_ok \<lparr>i_buf = Some (fresh_block DNSWIRE_DEFAULT_BUF_SIZE), i_size = DNSWIRE_DEFAULT_BUF_SIZE,
     i_inc = DNSWIRE_DEFAULT_BUF_SIZE, i_max = DNSWIRE_MAXIMUM_BUF_SIZE, i_at = 0, i_left = 0\<rparr>"
  by (simp add: in_ok_def in_limits_def DNSWIRE_DEFAULT_BUF_SIZE_def DNSWIRE_MAXIMUM_BUF_SIZE_def
      size_limit_def)

lemma reader_init_sound:
  assumes "dnswire_reader_init L w = (dnswire_ok, r, w')"
  shows "reader_ok r" and "in_live (r_in r) = []" and "r_decoder r = DNSWIRE_DECODER_INITIALIZER L"
    and "\<not> r_allow_bidirectional r" and "o_buf (r_out r) = None"
    and "r_state r = dnswire_reader_reading_control"
proof -
  have r: "r = (reader_defaults L)\<lparr>r_in := (r_in (reader_defaults L))
      \<lparr>i_buf := Some (fresh_block (i_size (r_in (reader_defaults L))))\<rparr>\<rparr>"
    using assms by (cases "sys_alloc w") (auto simp: dnswire_reader_init_def Let_def split: if_splits)
  show "reader_ok r"
    using default_in_ok
    by (simp add: r reader_defaults_def reader_ok_def input_ok_def output_ok_def decoder_init_ok
        encoder_init_ok)
  show "in_live (r_in r) = []" and "r_decoder r = DNSWIRE_DECODER_INITIALIZER L"
    and "\<not> r_allow_bidirectional r" and "o_buf (r_out r) = None"
    and "r_state r = dnswire_reader_reading_control"
    by (simp_all add: r reader_defaults_def in_live_def)
qed

definition toy_world :: world where
  "toy_world = \<lparr>allocs = [], reads = [10], inbox = [2, 1, 0, 6], writes = [], sent = []\<rparr>"

definition toy_reader0 :: "(toy_reader, nat) dnswire_reader" where
  "toy_reader0 = fst (snd (dnswire_reader_init toylib toy_world))"

lemma toy_init: "dnswire_reader_init toylib toy_world = (dnswire_ok, toy_reader0, toy_world)"
  by (simp add: toy_reader0_def dnswire_reader_init_def sys_alloc_def toy_world_def Let_def)

lemmas toy_reader0_ok = reader_init_sound [OF toy_init]

theorem reader_push_safe_witness:
  "\<exists>res r' w' out. dnswire_reader_push toylib toy_world toy_reader0 (Some [2, 1, 0]) False None =
     Inr (res, r', w', out) \<and> r_pushed r' \<le> 3"
  using reader_push_safe [OF toylib_ok toy_reader0_ok(1), of False None toy_world "[2, 1, 0]"]
    toy_reader0_ok(4) by (auto simp: room_for_def)

text \<open>
  C9: From a sound handle, \<open>dnswire_reader_read\<close> returns, whatever the kernel answers to \<open>read\<close> and
  \<open>write\<close> (errors, end of file, short transfers) and the allocator to \<open>realloc\<close>: no assertion fails, no
  access leaves a buffer or reads a byte that was not written. When the result is not \<open>dnswire_error\<close>
  the handle is sound again; nothing is said of the handle after an error.
\<close>
theorem reader_read_safe:
  assumes "extlib_ok L" and "reader_ok r"
  shows "\<exists>res r' w'. dnswire_reader_read L w r = Inr (res, r', w') \<and>
     (res \<noteq> dnswire_error \<longrightarrow> reader_ok r')"
  using reader_read_returns [OF assms, of w] by (auto simp: read_post_def step_ok_def)

theorem reader_read_safe_witness:
  "\<exists>res r' w'. dnswire_reader_read toylib toy_world toy_reader0 = Inr (res, r', w') \<and>
     (res \<noteq> dnswire_error \<longrightarrow> reader_ok r')"
  by (rule reader_read_safe [OF toylib_ok toy_reader0_ok(1)])

section \<open>Settings\<close>

lemma in_set_size_post:
  assumes ok: "in_ok b" and sz: "0 < sz"
  shows "\<exists>r b' w'. in_set_size w sz b = Inr (r, b', w') \<and> in_ok b' \<and> in_live b' = in_live b \<and>
     (r \<longrightarrow> i_size b' = sz)"
proof -
  from ok obtain m where m: "i_buf b = Some m" "i_at b + i_left b \<le> i_size b" "i_size b < size_limit"
    by (blast elim: in_okD)
  obtain a w' where a: "sys_alloc w = (a, w')" by (cases "sys_alloc w")
  show ?thesis
  proof (cases "i_left b > sz \<or> sz > i_max b")
    case True
    with ok m sz show ?thesis by (auto simp: in_set_size_def)
  next
    case False
    define b1 where "b1 = (if i_at b + i_left b > sz then b\<lparr>i_buf := Some (the (case
        (if i_left b \<noteq> 0 then mem_move_front (i_buf b) (i_at b) (i_left b) else Inr (i_buf b)) of
        Inr q \<Rightarrow> q)), i_at := 0\<rparr> else b)"
    from in_move_props [OF ok] obtain m' where m': "(if i_left b \<noteq> 0
        then mem_move_front (i_buf b) (i_at b) (i_left b) else Inr (i_buf b)) = Inr (Some m')"
      "in_ok (b\<lparr>i_buf := Some m', i_at := 0\<rparr>)"
      "in_live (b\<lparr>i_buf := Some m', i_at := 0\<rparr>) = in_live b" by blast
    have b1: "in_ok b1" "in_live b1 = in_live b" "i_at b1 + i_left b1 \<le> sz" "i_max b1 = i_max b"
      using m' ok False by (auto simp: b1_def)
    let ?b = "b1\<lparr>i_buf := map_option (resize_block sz) (i_buf b1), i_size := sz\<rparr>"
    have r: "in_ok ?b" "in_live ?b = in_live b"
      using in_resize_props [OF b1(1,3)] sz False b1(2,4) by simp_all
    have "in_set_size w sz b = Inr (if a then (True, ?b, w') else (False, b1, w'))"
      using False sz m m'(1) a by (simp add: in_set_size_def sz_add_exact b1_def)
    then show ?thesis
      using r b1 by (cases a) auto
  qed
qed

text \<open>
  \<open>dnswire_reader_set_bufsize\<close> with a size other than 0 never loses buffered bytes and
  keeps the handle sound: it moves them to the front when they would not fit where they are,
  refuses a size they do not fit in, and reports \<open>dnswire_ok\<close> only when the size was set.
\<close>
theorem reader_set_bufsize_keeps:
  assumes "reader_ok r" and "sz \<noteq> 0"
  shows "\<exists>res r' w'. dnswire_reader_set_bufsize w r sz = Inr (res, r', w') \<and> reader_ok r' \<and>
     in_live (r_in r') = in_live (r_in r) \<and> (res = dnswire_ok \<longrightarrow> i_size (r_in r') = sz) \<and>
     res \<in> {dnswire_ok, dnswire_error}"
proof -
  from in_set_size_post [OF reader_okD(1) [OF assms(1)], of sz w] assms(2) obtain ok b w' where
    b: "in_set_size w sz (r_in r) = Inr (ok, b, w')" "in_ok b" "in_live b = in_live (r_in r)"
      "ok \<longrightarrow> i_size b = sz" by auto
  have "reader_ok (r\<lparr>r_in := b\<rparr>)"
    using assms(1) b(2,3) by (simp add: reader_ok_def input_ok_def)
  with b show ?thesis by (auto simp: dnswire_reader_set_bufsize_def)
qed

theorem reader_set_bufsize_keeps_witness:
  "\<exists>res r' w'. dnswire_reader_set_bufsize toy_world toy_reader0 16 = Inr (res, r', w') \<and> reader_ok r'"
  using reader_set_bufsize_keeps [OF toy_reader0_ok(1), of 16 toy_world] by auto

lemma default_out_ok:
  "out_ok \<lparr>o_buf = Some (fresh_block DNSWIRE_DEFAULT_BUF_SIZE), o_size = DNSWIRE_DEFAULT_BUF_SIZE,
     o_inc = DNSWIRE_DEFAULT_BUF_SIZE, o_max = DNSWIRE_MAXIMUM_BUF_SIZE, o_at = 0, o_left = 0\<rparr>"
  by (simp add: out_ok_def out_limits_def DNSWIRE_DEFAULT_BUF_SIZE_def DNSWIRE_MAXIMUM_BUF_SIZE_def
      size_limit_def)

lemma reader_allow_sound:
  assumes "dnswire_reader_init L w = (dnswire_ok, r, w1)"
    and "dnswire_reader_allow_bidirectional w1 r allow = (res, r', w')"
  shows "reader_ok r \<and> reader_ok r' \<and>
     (res = dnswire_ok \<and> r_allow_bidirectional r' = allow \<and>
        (allow \<longrightarrow> out_ok (r_out r') \<and> out_pending (r_out r') = [] \<and>
           e_state (r_encoder r') = dnswire_encoder_control_accept) \<or>
      res = dnswire_error \<and> r' = r \<and> allow)"
proof -
  have r: "r = (reader_defaults L)\<lparr>r_in := (r_in (reader_defaults L))
      \<lparr>i_buf := Some (fresh_block (i_size (r_in (reader_defaults L))))\<rparr>\<rparr>"
    using assms by (cases "sys_alloc w") (auto simp: dnswire_reader_init_def Let_def split: if_splits)
  note i = reader_init_sound [OF assms(1)]
  have f: "r_is_bidirectional r = False" "encoder_ok (r_encoder r)"
    "(r_out r)\<lparr>o_buf := Some (fresh_block (o_size (r_out r)))\<rparr> =
       \<lparr>o_buf = Some (fresh_block DNSWIRE_DEFAULT_BUF_SIZE), o_size = DNSWIRE_DEFAULT_BUF_SIZE,
        o_inc = DNSWIRE_DEFAULT_BUF_SIZE, o_max = DNSWIRE_MAXIMUM_BUF_SIZE, o_at = 0, o_left = 0\<rparr>"
    "o_left (r_out r) = 0"
    by (simp_all add: r reader_defaults_def encoder_init_ok)
  have e: "encoder_ok ((r_encoder r)\<lparr>e_state := s\<rparr>)" for s
    using f(2) by (simp add: encoder_ok_def)
  have q: "quiet dnswire_reader_reading_control" by (simp add: quiet_def)
  note oq = output_ok_quiet [OF q]
  obtain a w2 where a: "sys_alloc w1 = (a, w2)" by (cases "sys_alloc w1")
  show ?thesis
  proof (cases "allow \<and> \<not> a")
    case True
    with assms(2) a i show ?thesis by (auto simp: dnswire_reader_allow_bidirectional_def)
  next
    case False
    show ?thesis
    proof (cases allow)
      case no: False
      with assms(2) i(1,6) e f show ?thesis
        by (auto simp: dnswire_reader_allow_bidirectional_def reader_ok_def oq)
    next
      case yes: True
      with False assms(2) a have r': "res = dnswire_ok" "r' = r\<lparr>r_out :=
            (r_out r)\<lparr>o_buf := Some (fresh_block (o_size (r_out r)))\<rparr>,
          r_encoder := (r_encoder r)\<lparr>e_state := dnswire_encoder_control_accept\<rparr>,
          r_allow_bidirectional := True\<rparr>"
        by (simp_all add: dnswire_reader_allow_bidirectional_def i(5))
      have "out_pending (r_out r') = []"
        by (simp add: r' f(3) out_pending_def)
      moreover have "out_ok (r_out r')" "o_left (r_out r') = 0"
        using default_out_ok by (simp_all add: r' f(3))
      ultimately show ?thesis
        using i(1,6) e f yes by (simp add: r' reader_ok_def oq)
    qed
  qed
qed

text \<open>
  A new handle is sound, and so it is after \<open>dnswire_reader_allow_bidirectional\<close> with
  either argument: when the conversation may be bidirectional there is a block for the answers
  and the encoder is about to send ACCEPT. Only an allocation that fails is reported as an error.
\<close>
theorem reader_init_allow:
  assumes "dnswire_reader_init L w = (dnswire_ok, r, w1)"
    and "dnswire_reader_allow_bidirectional w1 r allow = (res, r', w')"
  shows "reader_ok r \<and> reader_ok r' \<and>
     (res = dnswire_ok \<and> r_allow_bidirectional r' = allow \<and>
        (allow \<longrightarrow> out_ok (r_out r') \<and> out_pending (r_out r') = [] \<and>
           e_state (r_encoder r') = dnswire_encoder_control_accept) \<or>
      res = dnswire_error \<and> r' = r \<and> allow)"
  by (rule reader_allow_sound [OF assms])

theorem reader_init_allow_witness:
  "\<exists>r'. fst (snd (dnswire_reader_allow_bidirectional toy_world toy_reader0 True)) = r' \<and> reader_ok r'"
  using reader_init_allow [OF toy_init, of True] by (metis prod.collapse)

section \<open>Runs\<close>

text \<open>
  A step is a call of either operation that did not fail, with the bytes it took in and the
  bytes it answered; a run is any mixture of them. A call that returned \<open>dnswire_error\<close>, as after a
  failed allocation, is not a step.
\<close>

inductive reader_step :: "('r, 'w) extlib \<Rightarrow> ('r, 'w) dnswire_reader \<Rightarrow> byte list \<Rightarrow>
    dnswire_result \<Rightarrow> byte list \<Rightarrow> ('r, 'w) dnswire_reader \<Rightarrow> bool" for L where
  step_push: "dnswire_reader_push L w r (Some data) out_data out_len = Inr (res, r', w', out) \<Longrightarrow>
     res \<noteq> dnswire_error \<Longrightarrow> reader_step L r (take (r_pushed r') data) res out r'"
| step_read: "dnswire_reader_read L w r = Inr (res, r', w') \<Longrightarrow> res \<noteq> dnswire_error \<Longrightarrow>
     inbox w = chunk @ inbox w' \<Longrightarrow> sent w' = sent w @ out \<Longrightarrow> reader_step L r chunk res out r'"

inductive reader_run :: "('r, 'w) extlib \<Rightarrow> ('r, 'w) dnswire_reader \<Rightarrow> byte list \<Rightarrow>
    dnswire_result list \<Rightarrow> byte list \<Rightarrow> ('r, 'w) dnswire_reader \<Rightarrow> bool" for L where
  reader_start: "reader_run L r [] [] [] r"
| reader_more: "reader_run L r inp rs outp r1 \<Longrightarrow> reader_step L r1 chunk res out r2 \<Longrightarrow>
     reader_run L r (inp @ chunk) (rs @ [res]) (outp @ out) r2"

lemma push_needs_room:
  assumes "dnswire_reader_push L w r (Some data) out_data out_len = Inr x"
  shows "room_for r out_data out_len"
  using assms by (auto simp: dnswire_reader_push_def room_for_def assertF_def split: if_splits)

lemma reader_step_ok:
  assumes "reader_step L r chunk res out r'" and L: "extlib_ok L" and ok: "reader_ok r"
  shows "step_ok L r chunk res out r'"
  using assms(1)
proof cases
  case (step_push w data out_data out_len w')
  from reader_push_returns [OF L ok push_needs_room [OF step_push(2)], of w data] step_push
  show ?thesis by (auto simp: push_post_def)
next
  case (step_read w w')
  from reader_read_returns [OF L ok, of w] step_read obtain c o' where
    "inbox w = c @ inbox w'" "sent w' = sent w @ o'" "step_ok L r c res o' r'"
    by (auto simp: read_post_def)
  with step_read show ?thesis by auto
qed

lemma reader_run_ok:
  assumes "reader_run L r inp rs outp r'" and "extlib_ok L" and "reader_ok r"
  shows "reader_ok r'"
  using assms
proof (induction rule: reader_run.induct)
  case (reader_more r inp rs outp r1 chunk res out r2)
  then show ?case using reader_step_ok [of L r1 chunk res out r2] by (simp add: step_ok_def)
qed

section \<open>The handle is a queue in front of the decoder\<close>

text \<open>
  The abstract machine: a decoder and the bytes that arrived and were not taken yet. Bytes
  arrive, or the decoder is called on all of them. There are no sizes, positions or moves.
\<close>

inductive queue_run :: "('r, 'w) extlib \<Rightarrow> 'r dnswire_decoder \<times> byte list \<Rightarrow> byte list \<Rightarrow>
    dnswire_result list \<Rightarrow> 'r dnswire_decoder \<times> byte list \<Rightarrow> bool" for L where
  queue_start: "queue_run L s [] [] s"
| queue_arrive: "queue_run L s inp rs (d, q) \<Longrightarrow> queue_run L s (inp @ chunk) rs (d, q @ chunk)"
| queue_decode: "queue_run L s inp rs (d, q) \<Longrightarrow> dnswire_decoder_decode L d q = Inr (res, d') \<Longrightarrow>
     taken L res d' \<le> length q \<Longrightarrow>
     queue_run L s inp (rs @ [res]) (d', drop (taken L res d') q)"

text \<open>The messages among the results.\<close>

definition messages :: "dnswire_result list \<Rightarrow> nat" where
  "messages rs = length (filter ((=) dnswire_have_dnstap) rs)"

lemma queue_run_fed:
  assumes "queue_run L s inp rs (r_decoder r, in_live (r_in r))" and "fed L r chunk res r'"
    and "messages rs = messages rs0"
  shows "\<exists>rs'. queue_run L s (inp @ chunk) rs' (r_decoder r', in_live (r_in r')) \<and>
     messages rs' = messages (rs0 @ [res])"
proof -
  note arr = queue_arrive [OF assms(1), of chunk]
  from assms(2) show ?thesis unfolding fed_def
  proof (elim disjE exE conjE)
    assume "r_decoder r' = r_decoder r" "in_live (r_in r') = in_live (r_in r) @ chunk"
      "res \<noteq> dnswire_have_dnstap"
    then show ?thesis using arr assms(3) by (intro exI [of _ rs]) (simp add: messages_def)
  next
    fix dres
    assume d: "dnswire_decoder_decode L (r_decoder r) (in_live (r_in r) @ chunk) = Inr (dres, r_decoder r')"
      "in_live (r_in r') = drop (taken L dres (r_decoder r')) (in_live (r_in r) @ chunk)"
      "taken L dres (r_decoder r') \<le> length (in_live (r_in r) @ chunk)"
      "(res = dnswire_have_dnstap) = (dres = dnswire_have_dnstap)"
    from queue_decode [OF arr d(1,3)] d(2,4) assms(3) show ?thesis
      by (intro exI [of _ "rs @ [dres]"]) (auto simp: messages_def)
  qed
qed

lemma reader_run_queue:
  assumes "reader_run L r inp rs outp r'" and "extlib_ok L" and "reader_ok r"
  shows "\<exists>ds. queue_run L (r_decoder r, in_live (r_in r)) inp ds (r_decoder r', in_live (r_in r')) \<and>
     messages ds = messages rs"
  using assms
proof (induction rule: reader_run.induct)
  case (reader_start r)
  then show ?case by (blast intro: queue_start)
next
  case (reader_more r inp rs outp r1 chunk res out r2)
  then obtain ds where
    ds: "queue_run L (r_decoder r, in_live (r_in r)) inp ds (r_decoder r1, in_live (r_in r1))"
      "messages ds = messages rs" by blast
  have "reader_ok r1"
    using reader_run_ok [OF reader_more.hyps(1) reader_more.prems] .
  with reader_step_ok [OF reader_more.hyps(2) reader_more.prems(1)] have "fed L r1 chunk res r2"
    by (simp add: step_ok_def)
  from queue_run_fed [OF ds(1) this ds(2)] show ?case .
qed

text \<open>
  C6: The buffering is transparent. Every run of calls that do not fail, that is, do not return
  \<open>dnswire_error\<close>, from a sound handle, with whatever buffer sizes, chunks, short reads and mixture of
  \<open>push\<close> and \<open>read\<close>, is a run of the abstract machine on the bytes that came in: none is lost, repeated
  or reordered on its way to the decoder, and the handle delivers exactly the messages the decoder
  found. A call for which an allocation fails returns \<open>dnswire_error\<close> and so ends such a run.
\<close>
theorem reader_refines_queue:
  assumes "reader_run L r inp rs outp r'" and "extlib_ok L" and "reader_ok r"
  shows "\<exists>ds. queue_run L (r_decoder r, in_live (r_in r)) inp ds (r_decoder r', in_live (r_in r')) \<and>
     messages ds = messages rs"
  by (rule reader_run_queue [OF assms])

text \<open>
  An evaluation rule: with an empty buffer and data that fits and that the decoder takes whole,
  \<open>push\<close> returns the decoder's result and the buffer is empty again.
\<close>

lemma push_bytes_size: "push_bytes data r = Inr r' \<Longrightarrow> i_size (r_in r') = i_size (r_in r)"
  by (auto simp: push_bytes_def Let_def in_append_def bindF_eq_Inr split: if_splits)

lemma push_whole:
  assumes ok: "reader_ok r" and e: "in_live (r_in r) = []"
    and st: "r_state r = dnswire_reader_reading_control" and al: "room_for r out_data out_len"
    and data: "data \<noteq> []" "length data \<le> i_size (r_in r)"
    and dec: "dnswire_decoder_decode L (r_decoder r) data = Inr (res, d)"
    and res: "res \<in> {dnswire_again, dnswire_have_dnstap}"
    and all: "dnswire_decoder_decoded L d = length data"
  shows "\<exists>r'. dnswire_reader_push L w r (Some data) out_data out_len = Inr (res, r', w, []) \<and>
     r_pushed r' = length data \<and> r_decoder r' = d \<and> in_live (r_in r') = [] \<and>
     i_size (r_in r') = i_size (r_in r) \<and> r_allow_bidirectional r' = r_allow_bidirectional r \<and>
     r_encoder r' = r_encoder r \<and> r_out r' = r_out r \<and>
     r_state r' = (if res = dnswire_again then dnswire_reader_reading_control
                   else dnswire_reader_reading)"
proof -
  let ?r = "r\<lparr>r_pushed := 0\<rparr>"
  note in0 = reader_okD(1) [OF ok]
  have "in_room (r_in r) = i_size (r_in r)"
    using in_room_exact [OF in0] in_live_length [OF in0] e in0 by (auto elim: in_okD)
  with push_bytes_post [of ?r data] in0 data obtain b where
    b: "push_bytes data ?r = Inr (r\<lparr>r_pushed := length data, r_in := b\<rparr>)" "in_ok b"
      "in_live b = data"
    by (auto simp: e min_def)
  have sz: "i_size b = i_size (r_in r)"
    using push_bytes_size [OF b(1)] by simp
  have c: "in_ok (in_consume (length data) b)" "in_live (in_consume (length data) b) = []"
    using in_consume_props [OF b(2), of "length data"] b(3) by simp_all
  then have l: "i_left (in_consume (length data) b) = 0"
    using in_left_live by blast
  have "push_reading_control L w data ?r = Inr (res, r\<lparr>r_pushed := length data, r_decoder := d,
      r_in := in_consume (length data) b,
      r_state := (if res = dnswire_again then dnswire_reader_reading_control
                   else dnswire_reader_reading)\<rparr>, w)"
    using res data(1) in_load_live [OF b(2)]
    by (auto simp: push_reading_control_def b push_decoding_control_def dec all l)
  then show ?thesis
    using st al in_ok_buf [OF in0] c(2) sz
    by (auto simp: dnswire_reader_push_def no_output_def in_consume_def Let_def room_for_def)
qed

lemma push_whole_step:
  assumes L: "extlib_ok L" and ok: "reader_ok r" and r: "in_live (r_in r) = []"
      "\<not> r_allow_bidirectional r" "r_state r = dnswire_reader_reading_control"
    and dec: "dnswire_decoder_decode L (r_decoder r) data = Inr (res, d)"
      "res \<in> {dnswire_again, dnswire_have_dnstap}" "dnswire_decoder_decoded L d = length data"
    and data: "data \<noteq> []" "length data \<le> i_size (r_in r)"
  shows "\<exists>r'. reader_step L r data res [] r' \<and> reader_ok r' \<and> r_decoder r' = d \<and>
     in_live (r_in r') = [] \<and> i_size (r_in r') = i_size (r_in r) \<and> \<not> r_allow_bidirectional r' \<and>
     r_state r' = (if res = dnswire_again then dnswire_reader_reading_control
                   else dnswire_reader_reading)"
proof -
  have "room_for r False None" using r(2) by (simp add: room_for_def)
  from push_whole [OF ok r(1,3) this data dec, of toy_world] r(2) obtain r' where
    r': "dnswire_reader_push L toy_world r (Some data) False None = Inr (res, r', toy_world, [])"
      "r_pushed r' = length data" "r_decoder r' = d" "in_live (r_in r') = []"
      "i_size (r_in r') = i_size (r_in r)" "\<not> r_allow_bidirectional r'"
      "r_state r' = (if res = dnswire_again then dnswire_reader_reading_control
                   else dnswire_reader_reading)" by auto
  have "res \<noteq> dnswire_error" using dec(2) by auto
  from step_push [OF r'(1) this] r'(2) have s: "reader_step L r data res [] r'" by simp
  with r' reader_step_ok [OF s L ok] show ?thesis by (auto simp: step_ok_def)
qed

lemma toy_run:
  "\<exists>r1 r2. reader_run toylib toy_reader0 [2, 1, 0] [dnswire_again, dnswire_again] [] r1 \<and>
     reader_run toylib toy_reader0 [2, 1, 0, 6, 2, 8, 1]
       [dnswire_again, dnswire_again, dnswire_have_dnstap] [] r2"
proof -
  have one: "\<exists>r'. reader_run toylib toy_reader0 (inp @ data) (rs @ [res]) [] r' \<and> r_decoder r' = d \<and>
      in_live (r_in r') = [] \<and> i_size (r_in r') = 4096 \<and> \<not> r_allow_bidirectional r' \<and>
      r_state r' = (if res = dnswire_again then dnswire_reader_reading_control
                    else dnswire_reader_reading)"
    if run: "reader_run toylib toy_reader0 inp rs [] r" and r: "in_live (r_in r) = []"
      "i_size (r_in r) = 4096" "\<not> r_allow_bidirectional r"
      "r_state r = dnswire_reader_reading_control"
      and dec: "dnswire_decoder_decode toylib (r_decoder r) data = Inr (res, d)"
      "res \<in> {dnswire_again, dnswire_have_dnstap}" "dnswire_decoder_decoded toylib d = length data"
      and data: "data \<noteq> []" "length data \<le> 4096" for inp rs r data res d
    using push_whole_step [OF toylib_ok reader_run_ok [OF run toylib_ok toy_reader0_ok(1)] r(1,3,4)
        dec data(1)] data(2) r(2) reader_more [OF run]
    by fastforce
  have sz: "i_size (r_in toy_reader0) = 4096"
    by (simp add: toy_reader0_def dnswire_reader_init_def reader_defaults_def toy_world_def
        sys_alloc_def DNSWIRE_DEFAULT_BUF_SIZE_def Let_def)
  have d: "dnswire_decoder_decoded toylib toy_checking = 2" "dnswire_decoder_decoded toylib toy_frames = 1"
    by (simp_all add: dnswire_decoder_decoded_def toylib_def toy_checking_def toy_frames_def)
  from one [OF reader_start toy_reader0_ok(2) sz toy_reader0_ok(4,6), of "[2, 1]"] toy_steps(1) d
  obtain r1 where r1: "reader_run toylib toy_reader0 [2, 1] [dnswire_again] [] r1"
    "r_decoder r1 = toy_checking" "in_live (r_in r1) = []" "i_size (r_in r1) = 4096"
    "\<not> r_allow_bidirectional r1" "r_state r1 = dnswire_reader_reading_control"
    by (auto simp: toy_reader0_ok(3))
  from one [OF r1(1,3-6), of "[0]"] toy_steps(2) d
  obtain r2 where r2: "reader_run toylib toy_reader0 [2, 1, 0] [dnswire_again, dnswire_again] [] r2"
    "r_decoder r2 = toy_frames" "in_live (r_in r2) = []" "i_size (r_in r2) = 4096"
    "\<not> r_allow_bidirectional r2" "r_state r2 = dnswire_reader_reading_control"
    by (auto simp: r1(2))
  from toy_frame_step obtain h where
    h: "dnswire_decoder_decode toylib toy_frames [6, 2, 8, 1] = Inr (dnswire_have_dnstap, h)"
      "dnswire_decoder_decoded toylib h = 4" by blast
  from one [OF r2(1,3-6), of "[6, 2, 8, 1]"] h
  obtain r3 where "reader_run toylib toy_reader0 [2, 1, 0, 6, 2, 8, 1]
       [dnswire_again, dnswire_again, dnswire_have_dnstap] [] r3"
    by (auto simp: r2(2))
  with r2(1) show ?thesis by blast
qed

theorem reader_refines_queue_witness:
  "\<exists>r ds. reader_run toylib toy_reader0 [2, 1, 0] [dnswire_again, dnswire_again] [] r \<and>
     queue_run toylib (r_decoder toy_reader0, in_live (r_in toy_reader0)) [2, 1, 0] ds
       (r_decoder r, in_live (r_in r)) \<and> messages ds = 0"
proof -
  from toy_run obtain r where
    r: "reader_run toylib toy_reader0 [2, 1, 0] [dnswire_again, dnswire_again] [] r" by blast
  from reader_refines_queue [OF r toylib_ok toy_reader0_ok(1)] r show ?thesis
    by (auto simp: messages_def)
qed

lemma messages_pos: "messages rs \<noteq> 0 \<longleftrightarrow> dnswire_have_dnstap \<in> set rs"
  by (induction rs) (auto simp: messages_def)

lemma queue_run_decoder:
  assumes "queue_run L s inp ds s'"
  shows "\<exists>tr. decoder_run L (fst s) tr (fst s') \<and> map (\<lambda>x. snd (snd x)) tr = ds"
  using assms
proof (induction rule: queue_run.induct)
  case (queue_start s)
  then show ?case by (intro exI [of _ "[]"]) (simp add: run_nil)
next
  case (queue_decode s inp rs d q res d')
  then obtain tr where tr: "decoder_run L (fst s) tr d" "map (\<lambda>x. snd (snd x)) tr = rs" by auto
  from run_step [OF tr(1) queue_decode.hyps(2)] tr(2) show ?case
    by (intro exI [of _ "tr @ [(d, q, res)]"]) simp
qed auto

lemma decoder_run_delivers:
  assumes "decoder_run L h tr h'" and L: "extlib_ok L" and ok: "decoder_ok h"
    and st: "dc_state h \<noteq> dnswire_decoder_reading_frames"
    and "\<exists>x \<in> set tr. snd (snd x) = dnswire_have_dnstap"
  shows "\<exists>x \<in> set tr. accepted_start L x"
  using assms
proof (induction rule: decoder_run.induct)
  case (run_step h tr h1 data res h2)
  show ?case
  proof (cases "res = dnswire_have_dnstap")
    case True
    have "decoder_ok h1"
      using decoder_run_ok [OF run_step.hyps(1) L run_step.prems(2)] .
    then have "decoder_step_ok (dc_state h1) res (dc_state h2)"
      using decoder_decode_result(2) [OF L _ run_step.hyps(2)] by blast
    with True have "dc_state h1 = dnswire_decoder_reading_frames"
      using step_started by blast
    from decoder_run_started [OF run_step.hyps(1) L run_step.prems(2,3) this] show ?thesis by auto
  next
    case False
    with run_step show ?thesis by auto
  qed
qed simp

text \<open>
  C12: A new reader delivers a message only after its peer announced a content type that was
  accepted: in every run, by \<open>push\<close> or \<open>read\<close>, in which a call returned \<open>dnswire_have_dnstap\<close>,
  the decoder had checked the content type of a START frame.
\<close>
theorem reader_delivers_after_start:
  assumes "dnswire_reader_init L w = (dnswire_ok, r, w')" and "extlib_ok L"
    and "reader_run L r inp rs outp r'" and "dnswire_have_dnstap \<in> set rs"
  shows "\<exists>tr. decoder_run L (DNSWIRE_DECODER_INITIALIZER L) tr (r_decoder r') \<and>
     (\<exists>x \<in> set tr. accepted_start L x)"
proof -
  note i = reader_init_sound [OF assms(1)]
  from reader_run_queue [OF assms(3,2) i(1)] obtain ds where
    "queue_run L (r_decoder r, in_live (r_in r)) inp ds (r_decoder r', in_live (r_in r'))"
    "messages ds = messages rs" by blast
  note ds = this
  obtain tr where "decoder_run L (r_decoder r) tr (r_decoder r')" "map (\<lambda>x. snd (snd x)) tr = ds"
    using queue_run_decoder [OF ds(1)] by auto
  then have tr: "decoder_run L (DNSWIRE_DECODER_INITIALIZER L) tr (r_decoder r')"
      "messages (map (\<lambda>x. snd (snd x)) tr) = messages rs"
    using ds(2) by (simp_all add: i(3))
  have "dnswire_have_dnstap \<in> set (map (\<lambda>x. snd (snd x)) tr)"
    using tr(2) assms(4) messages_pos by metis
  then have "\<exists>x \<in> set tr. snd (snd x) = dnswire_have_dnstap" by force
  moreover have "dc_state (DNSWIRE_DECODER_INITIALIZER L) \<noteq> dnswire_decoder_reading_frames"
    by (simp add: DNSWIRE_DECODER_INITIALIZER_def)
  ultimately show ?thesis
    using tr(1) decoder_run_delivers [OF tr(1) assms(2) decoder_init_ok] by blast
qed

theorem reader_delivers_after_start_witness:
  "\<exists>d tr. decoder_run toylib (DNSWIRE_DECODER_INITIALIZER toylib) tr d \<and>
     (\<exists>x \<in> set tr. accepted_start toylib x)"
proof -
  from toy_run obtain r where r: "reader_run toylib toy_reader0 [2, 1, 0, 6, 2, 8, 1]
       [dnswire_again, dnswire_again, dnswire_have_dnstap] [] r" by blast
  from reader_delivers_after_start [OF toy_init toylib_ok r] show ?thesis by auto
qed

end
