(* ===== verification/Reader_Answers.thy ===== *)
theory Reader_Answers
  imports Reader_Traces
begin

text \<open>
  What the reader answers in a run, when a call that asked for more can be repeated, and the
  limits of \<open>dnswire_reader_read\<close> and of the growth of the buffer.
\<close>

section \<open>Answers\<close>

text \<open>The control frames an answering encoder has emitted when it is in a state.\<close>

fun answer_frames :: "dnswire_encoder_state \<Rightarrow> dnswire_encoder_state list" where
  "answer_frames dnswire_encoder_control_finish = [dnswire_encoder_control_accept]"
| "answer_frames dnswire_encoder_done =
     [dnswire_encoder_control_accept, dnswire_encoder_control_finish]"
| "answer_frames s = []"

text \<open>The bytes of frames that an encoder wrote completely.\<close>

definition emitted :: "('r, 'w) extlib \<Rightarrow> dnswire_encoder_state \<times> byte list \<Rightarrow> bool" where
  "emitted L x \<longleftrightarrow> (\<exists>(e :: 'w dnswire_encoder) len res e'. e_state e = fst x \<and>
     dnswire_encoder_encode L e len = Inr (res, e', snd x) \<and>
     encoder_next (fst x) = Some (e_state e', res))"

definition answers :: "('r, 'w) extlib \<Rightarrow> byte list \<Rightarrow> ('r, 'w) dnswire_reader \<Rightarrow> bool" where
  "answers L outp r \<longleftrightarrow> (\<exists>frames. list_all (emitted L) frames \<and>
     map fst frames = answer_frames (e_state (r_encoder r)) \<and>
     e_state (r_encoder r) \<in> {dnswire_encoder_control_accept, dnswire_encoder_control_finish,
       dnswire_encoder_done} \<and>
     outp @ out_pending (r_out r) = concat (map snd frames))"

lemma answers_step:
  assumes a: "answers L outp r" and s: "answered L r out r'"
  shows "answers L (outp @ out) r'"
proof -
  from a obtain frames where f: "list_all (emitted L) frames"
    "map fst frames = answer_frames (e_state (r_encoder r))"
    "e_state (r_encoder r) \<in> {dnswire_encoder_control_accept, dnswire_encoder_control_finish,
       dnswire_encoder_done}"
    "outp @ out_pending (r_out r) = concat (map snd frames)"
    by (auto simp: answers_def)
  from s consider "r_encoder r' = r_encoder r" "out_pending (r_out r) = out @ out_pending (r_out r')"
    | e1 len res where "out_pending (r_out r) = []" "e_state e1 = e_state (r_encoder r)"
      "dnswire_encoder_encode L e1 len = Inr (res, r_encoder r', out @ out_pending (r_out r'))"
      "encoder_next (e_state (r_encoder r)) = Some (e_state (r_encoder r'), res)"
    by (auto simp: answered_def)
  then show ?thesis
  proof cases
    case 1
    with f show ?thesis unfolding answers_def by (intro exI [of _ frames]) auto
  next
    case (2 e1 len res)
    let ?x = "(e_state (r_encoder r), out @ out_pending (r_out r'))"
    have "emitted L ?x" using 2 by (auto simp: emitted_def)
    with f 2 show ?thesis
      unfolding answers_def by (intro exI [of _ "frames @ [?x]"]) auto
  qed
qed

lemma reader_run_answers:
  assumes "reader_run L r inp rs outp r'" and "extlib_ok L" and "reader_ok r"
    and "e_state (r_encoder r) = dnswire_encoder_control_accept" and "out_pending (r_out r) = []"
  shows "answers L outp r'"
  using assms
proof (induction rule: reader_run.induct)
  case (reader_start r)
  then show ?case by (auto simp: answers_def intro!: exI [of _ "[]"])
next
  case (reader_more r inp rs outp r1 chunk res out r2)
  then have "answers L outp r1" by simp
  moreover have "step_ok L r1 chunk res out r2"
    using reader_step_ok [OF reader_more.hyps(2) reader_more.prems(1)]
      reader_run_ok [OF reader_more.hyps(1) reader_more.prems(1,2)] by blast
  ultimately show ?case by (auto simp: step_ok_def intro: answers_step)
qed

text \<open>
  C13: In a bidirectional conversation the bytes a reader has answered, followed by those still
  pending, are exactly the frames of its encoder: nothing, then the ACCEPT frame, then the
  FINISH frame behind it, whatever the room the caller offers in each call and wherever a frame
  is cut.
\<close>
theorem reader_answers_frames:
  assumes "reader_run L r inp rs outp r'" and "extlib_ok L" and "reader_ok r"
    and "e_state (r_encoder r) = dnswire_encoder_control_accept" and "out_pending (r_out r) = []"
  shows "answers L outp r'"
  by (rule reader_run_answers [OF assms])

text \<open>
  A reader that was not allowed bidirectional conversations never answers anything.
\<close>
theorem reader_unidirectional_silent:
  assumes "reader_run L r inp rs outp r'" and "extlib_ok L" and "reader_ok r"
    and "\<not> r_allow_bidirectional r" and "out_pending (r_out r) = []"
  shows "outp = [] \<and> \<not> r_allow_bidirectional r' \<and> \<not> r_is_bidirectional r'"
proof -
  have "outp = [] \<and> \<not> r_allow_bidirectional r' \<and> out_pending (r_out r') = []"
    using assms
  proof (induction rule: reader_run.induct)
    case (reader_more r inp rs outp r1 chunk res out r2)
    have "step_ok L r1 chunk res out r2"
      using reader_step_ok [OF reader_more.hyps(2) reader_more.prems(1)]
        reader_run_ok [OF reader_more.hyps(1) reader_more.prems(1,2)] by blast
    with reader_more show ?case by (auto simp: step_ok_def answered_def)
  qed simp
  moreover have "reader_ok r'" using reader_run_ok [OF assms(1-3)] .
  ultimately show ?thesis using reader_okD(4) [of r'] by (auto simp: output_ok_def)
qed

theorem reader_unidirectional_silent_witness:
  "\<exists>r. reader_run toylib toy_reader0 [2, 1, 0] [dnswire_again, dnswire_again] [] r \<and>
     \<not> r_is_bidirectional r"
proof -
  from toy_run obtain r where
    r: "reader_run toylib toy_reader0 [2, 1, 0] [dnswire_again, dnswire_again] [] r" by blast
  have "out_pending (r_out toy_reader0) = []"
    by (simp add: out_pending_def toy_reader0_ok(5))
  with reader_unidirectional_silent [OF r toylib_ok toy_reader0_ok(1,4)] r show ?thesis by blast
qed

text \<open>The reader of a bidirectional conversation, for the evaluation.\<close>

definition toy_readerB :: "(toy_reader, nat) dnswire_reader" where
  "toy_readerB = fst (snd (dnswire_reader_allow_bidirectional toy_world toy_reader0 True))"

lemma toy_allow:
  "dnswire_reader_allow_bidirectional toy_world toy_reader0 True = (dnswire_ok, toy_readerB, toy_world)"
  by (simp add: toy_readerB_def dnswire_reader_allow_bidirectional_def sys_alloc_def toy_world_def)

lemmas toy_readerB_sound = reader_allow_sound [OF toy_init toy_allow]

theorem reader_answers_frames_witness:
  "\<exists>r. reader_run toylib toy_readerB [4, 1] [dnswire_again] [] r \<and> answers toylib [] r"
proof -
  have ok: "reader_ok toy_readerB" "e_state (r_encoder toy_readerB) = dnswire_encoder_control_accept"
    "out_pending (r_out toy_readerB) = []"
    using toy_readerB_sound by auto
  have f: "in_live (r_in toy_readerB) = []" "r_state toy_readerB = dnswire_reader_reading_control"
    "i_size (r_in toy_readerB) = 4096" "r_decoder toy_readerB = DNSWIRE_DECODER_INITIALIZER toylib"
    by (simp_all add: toy_readerB_def dnswire_reader_allow_bidirectional_def toy_world_def sys_alloc_def
        toy_reader0_def dnswire_reader_init_def reader_defaults_def in_live_def Let_def
        DNSWIRE_DEFAULT_BUF_SIZE_def)
  obtain d where d: "dnswire_decoder_decode toylib (DNSWIRE_DECODER_INITIALIZER toylib) [4, 1] =
      Inr (dnswire_again, d)" "dnswire_decoder_decoded toylib d = 2"
    by (simp add: dnswire_decoder_decode_def decode_reading_control_def DNSWIRE_DECODER_INITIALIZER_def
        toylib_def toy_read_def toy_header_def dnswire_decoder_decoded_def Let_def)
  from push_whole [OF ok(1) f(1,2), of True "Some 100" "[4, 1]" toylib dnswire_again d toy_world]
    d f obtain r where
    r: "dnswire_reader_push toylib toy_world toy_readerB (Some [4, 1]) True (Some 100) =
        Inr (dnswire_again, r, toy_world, [])" "r_pushed r = 2"
    by (auto simp: room_for_def)
  have run: "reader_run toylib toy_readerB [4, 1] [dnswire_again] [] r"
    using reader_more [OF reader_start step_push [OF r(1)]] r(2) by simp
  from reader_answers_frames [OF run toylib_ok ok] run show ?thesis by blast
qed

section \<open>Progress\<close>

text \<open>
  When \<open>push\<close> asks for more, more can be given: the next \<open>push\<close> of at least one byte,
  with whatever room for answers, takes at least one byte, so a caller that repeats the call
  with the rest of its data does not loop without progress.
\<close>
theorem reader_need_more_progress:
  assumes "extlib_ok L" and "reader_ok r" and "data \<noteq> []" and "data' \<noteq> []"
    and "dnswire_reader_push L w r (Some data) out_data out_len = Inr (dnswire_need_more, r1, w1, out)"
    and "dnswire_reader_push L w' r1 (Some data') out_data' out_len' = Inr (res, r2, w2, out')"
  shows "0 < r_pushed r2"
proof -
  from reader_push_returns [OF assms(1,2) push_needs_room [OF assms(5)], of w data] assms(3,5)
  have "reader_ok r1" "0 < in_room (r_in r1)"
    "r_state r1 \<in> {dnswire_reader_reading_control, dnswire_reader_reading}"
    by (auto simp: push_post_def step_ok_def)
  from push_takes [OF assms(1) this assms(4,6)] this(2) assms(4) show ?thesis by simp
qed

lemma in_need_more_space:
  assumes "in_ok b" and "i_left b < i_size b"
  shows "\<exists>b'. in_need_more w b = Inr (True, b', w)"
proof -
  from in_move_props [OF assms(1)] obtain m where
    "(if i_left b \<noteq> 0 then mem_move_front (i_buf b) (i_at b) (i_left b) else Inr (i_buf b)) = Inr (Some m)"
    by blast
  then show ?thesis using assms(2) by (simp add: in_need_more_def)
qed

lemma push_waits:
  assumes ok: "reader_ok r" and e: "in_live (r_in r) = []"
    and st: "r_state r = dnswire_reader_reading_control" and al: "room_for r out_data out_len"
    and data: "data \<noteq> []" "length data < i_size (r_in r)"
    and dec: "dnswire_decoder_decode L (r_decoder r) data = Inr (dnswire_need_more, d)"
  shows "\<exists>r'. dnswire_reader_push L w r (Some data) out_data out_len =
     Inr (dnswire_need_more, r', w, []) \<and> r_allow_bidirectional r' = r_allow_bidirectional r"
proof -
  let ?r = "r\<lparr>r_pushed := 0\<rparr>"
  note in0 = reader_okD(1) [OF ok]
  have "in_room (r_in r) = i_size (r_in r)"
    using in_room_exact [OF in0] in_live_length [OF in0] e in0 by (auto elim: in_okD)
  with push_bytes_post [of ?r data] in0 data obtain b where
    b: "push_bytes data ?r = Inr (r\<lparr>r_pushed := length data, r_in := b\<rparr>)" "in_ok b"
      "in_live b = data"
    by (auto simp: e min_def)
  have "i_left b < i_size b"
    using push_bytes_size [OF b(1)] in_live_length [OF b(2)] b(3) data(2) by simp
  from in_need_more_space [OF b(2) this, of w] obtain b' where "in_need_more w b = Inr (True, b', w)"
    by blast
  then have "push_reading_control L w data ?r = Inr (dnswire_need_more, r\<lparr>r_pushed := length data,
      r_decoder := d, r_in := b', r_state := dnswire_reader_reading_control\<rparr>, w)"
    using data(1) in_load_live [OF b(2)]
    by (simp add: push_reading_control_def b push_decoding_control_def dec)
  then show ?thesis
    using st al in_ok_buf [OF in0]
    by (auto simp: dnswire_reader_push_def no_output_def room_for_def)
qed

theorem reader_need_more_progress_witness:
  "\<exists>r1 r2 res w2 out. dnswire_reader_push toylib toy_world r1 (Some [1, 0]) False None =
     Inr (res, r2, w2, out) \<and> 0 < r_pushed r2"
proof -
  have room: "room_for toy_reader0 False None" using toy_reader0_ok(4) by (simp add: room_for_def)
  obtain d where d: "dnswire_decoder_decode toylib (DNSWIRE_DECODER_INITIALIZER toylib) [2] =
      Inr (dnswire_need_more, d)"
    by (simp add: dnswire_decoder_decode_def decode_reading_control_def DNSWIRE_DECODER_INITIALIZER_def
        toylib_def toy_read_def Let_def)
  have sz: "i_size (r_in toy_reader0) = 4096"
    by (simp add: toy_reader0_def dnswire_reader_init_def reader_defaults_def toy_world_def
        sys_alloc_def DNSWIRE_DEFAULT_BUF_SIZE_def Let_def)
  from push_waits [OF toy_reader0_ok(1,2,6) room, of "[2]" toylib d toy_world] d sz obtain r1 where
    r1: "dnswire_reader_push toylib toy_world toy_reader0 (Some [2]) False None =
       Inr (dnswire_need_more, r1, toy_world, [])" "\<not> r_allow_bidirectional r1"
    by (auto simp: toy_reader0_ok(3,4))
  from reader_push_returns [OF toylib_ok toy_reader0_ok(1) room, of toy_world "[2]"] r1(1)
  have "reader_ok r1" by (simp add: push_post_def step_ok_def)
  with r1(2) reader_push_returns [OF toylib_ok this, of False None toy_world "[1, 0]"]
  obtain res r2 w2 out where
    r2: "dnswire_reader_push toylib toy_world r1 (Some [1, 0]) False None = Inr (res, r2, w2, out)"
    by (auto simp: room_for_def)
  from reader_need_more_progress [OF toylib_ok toy_reader0_ok(1) _ _ r1(1) r2] have "0 < r_pushed r2"
    by simp
  with r2 show ?thesis by blast
qed

section \<open>Limits\<close>

text \<open>
  \<open>dnswire_reader_read\<close> in a reading state with a full buffer always fails: it asks
  \<open>read\<close> for 0 bytes and takes the answer 0 for the end of the stream, although nothing was
  taken from the stream. \<open>dnswire_reader_push\<close> goes on to decode in that situation.
\<close>
theorem reader_read_full_fails:
  assumes "reader_ok r" and "in_room (r_in r) = 0"
    and "r_state r \<in> {dnswire_reader_reading_control, dnswire_reader_reading}"
  shows "\<exists>w'. dnswire_reader_read L w r = Inr (dnswire_error, r, w') \<and> inbox w' = inbox w"
proof -
  have buf: "i_buf (r_in r) \<noteq> None" using in_ok_buf [OF reader_okD(1) [OF assms(1)]] .
  obtain x w' where s: "sys_read w (in_room (r_in r)) = (x, w')" by (cases "sys_read w (in_room (r_in r))")
  have "x = None \<or> x = Some []" and "inbox w' = inbox w"
    using s assms(2) by (auto simp: sys_read_def Let_def split: list.splits if_splits)
  with s have "read_bytes w r = Inr (None, w') \<and> inbox w' = inbox w"
    by (auto simp: read_bytes_def)
  with buf assms(3) show ?thesis
    by (auto simp: dnswire_reader_read_def read_reading_control_def read_reading_def)
qed

definition toy_full :: "(toy_reader, nat) dnswire_reader" where
  "toy_full = toy_reader0\<lparr>r_in := \<lparr>i_buf = Some [Some 2, Some 1], i_size = 2, i_inc = 2, i_max = 4,
     i_at = 0, i_left = 2\<rparr>\<rparr>"

theorem reader_read_full_fails_witness:
  "\<exists>w'. dnswire_reader_read toylib toy_world toy_full = Inr (dnswire_error, toy_full, w') \<and>
     inbox w' = [2, 1, 0, 6]"
proof -
  have i: "in_ok (r_in toy_full)"
    by (simp add: toy_full_def in_ok_def in_limits_def size_limit_def)
  have "reader_ok toy_full"
    using toy_reader0_ok(1,6) i by (simp add: reader_ok_def input_ok_def toy_full_def)
  moreover have "in_room (r_in toy_full) = 0"
    using in_room_exact [OF i] by (simp add: toy_full_def)
  moreover have "r_state toy_full = dnswire_reader_reading_control"
    by (simp add: toy_full_def toy_reader0_ok(6))
  ultimately show ?thesis
    using reader_read_full_fails [of toy_full toylib toy_world] by (simp add: toy_world_def)
qed

text \<open>
  C36: \<open>dnswire_reader_set_bufinc\<close> takes any increment but 0. With one so large that
  \<open>size + inc\<close> wraps around, growing a full buffer makes its block smaller than what it holds,
  and the next decoding step reads beyond its end.
\<close>
theorem reader_bufinc_wraps:
  assumes "reader_ok r" and "i_left (r_in r) = i_size (r_in r)" and "i_size (r_in r) < i_max (r_in r)"
    and "inc < size_limit" and "size_limit \<le> i_size (r_in r) + inc" and "sys_alloc w = (True, w')"
  shows "\<exists>r1 b. dnswire_reader_set_bufinc r inc = Inr (dnswire_ok, r1) \<and>
     in_need_more w (r_in r1) = Inr (True, b, w') \<and> i_size b < i_left b \<and>
     in_load b = Inl Out_of_bounds"
proof -
  let ?b = "(r_in r)\<lparr>i_inc := inc\<rparr>"
  define n where "n = i_size (r_in r) + inc - size_limit"
  from reader_okD(1) [OF assms(1)] obtain m where
    m: "i_buf (r_in r) = Some m" "length m = i_size (r_in r)" "i_at (r_in r) = 0"
      "i_max (r_in r) < size_limit" "0 < i_size (r_in r)"
    using assms(2) by (auto elim!: in_okD)
  have "i_size (r_in r) + inc = n + size_limit" and "n < size_limit"
    using assms(3-5) m(4) by (simp_all add: n_def)
  then have "sz_add (i_size (r_in r)) inc = n"
    by (simp add: sz_add_def)
  moreover have n: "n < i_size (r_in r)"
    using assms(4,5) by (simp add: n_def)
  ultimately have g: "in_need_more w ?b =
      Inr (True, ?b\<lparr>i_buf := Some (resize_block n m), i_size := n\<rparr>, w')"
    using assms(2,3,6) m by (simp add: in_need_more_def)
  have "inc \<noteq> 0" using assms(3,5) m(4) by auto
  then show ?thesis
    using g n assms(2) m(3) by (auto simp: dnswire_reader_set_bufinc_def in_load_def mem_load_def)
qed

theorem reader_bufinc_wraps_witness:
  "\<exists>r1 b. dnswire_reader_set_bufinc toy_full (size_limit - 1) = Inr (dnswire_ok, r1) \<and>
     in_need_more toy_world (r_in r1) = Inr (True, b, toy_world) \<and> in_load b = Inl Out_of_bounds"
proof -
  have "in_ok (r_in toy_full)"
    by (simp add: toy_full_def in_ok_def in_limits_def size_limit_def)
  then have ok: "reader_ok toy_full"
    using toy_reader0_ok(1,6) by (simp add: reader_ok_def input_ok_def toy_full_def)
  have "0 < size_limit" by (simp add: size_limit_def)
  then show ?thesis
    using reader_bufinc_wraps [OF ok, of "size_limit - 1" toy_world toy_world]
    by (auto simp: toy_full_def toy_world_def sys_alloc_def)
qed

end
