(* ===== verification/Writer.thy ===== *)
theory Writer
  imports Outbuf Buffered
begin

text \<open>
  \<open>dnswire/writer.h\<close> and \<open>writer.c\<close>: the handle that buffers the frames of its encoder and hands
  them out and, in a bidirectional conversation, reads the answers of the peer. As for the
  reader, every \<open>case\<close> of the two \<open>switch\<close> statements is a definition; the variable \<open>res\<close> the
  cases share is an argument.
\<close>

section \<open>State\<close>

datatype dnswire_writer_state =
    dnswire_writer_encoding_ready
  | dnswire_writer_writing_ready
  | dnswire_writer_reading_accept
  | dnswire_writer_decoding_accept
  | dnswire_writer_encoding
  | dnswire_writer_writing
  | dnswire_writer_stopping
  | dnswire_writer_encoding_stop
  | dnswire_writer_writing_stop
  | dnswire_writer_reading_finish
  | dnswire_writer_decoding_finish
  | dnswire_writer_done

fun dnswire_writer_state_code :: "dnswire_writer_state \<Rightarrow> nat" where
  "dnswire_writer_state_code dnswire_writer_encoding_ready = 0"
| "dnswire_writer_state_code dnswire_writer_writing_ready = 1"
| "dnswire_writer_state_code dnswire_writer_reading_accept = 2"
| "dnswire_writer_state_code dnswire_writer_decoding_accept = 3"
| "dnswire_writer_state_code dnswire_writer_encoding = 4"
| "dnswire_writer_state_code dnswire_writer_writing = 5"
| "dnswire_writer_state_code dnswire_writer_stopping = 6"
| "dnswire_writer_state_code dnswire_writer_encoding_stop = 7"
| "dnswire_writer_state_code dnswire_writer_writing_stop = 8"
| "dnswire_writer_state_code dnswire_writer_reading_finish = 9"
| "dnswire_writer_state_code dnswire_writer_decoding_finish = 10"
| "dnswire_writer_state_code dnswire_writer_done = 11"

definition dnswire_writer_state_string :: "string list" where
  "dnswire_writer_state_string =
     [''encoding_ready'', ''writing_ready'', ''reading_accept'', ''decoding_accept'',
      ''encoding'', ''writing'', ''stopping'', ''encoding_stop'', ''writing_stop'',
      ''reading_finish'', ''decoding_finish'', ''done'']"

text \<open>\<open>wr_out\<close> is \<open>buf\<close>, \<open>size\<close>, ..., \<open>left\<close>; \<open>wr_in\<close> the fields with the prefix \<open>read_\<close>.\<close>

record ('r, 'w) dnswire_writer =
  wr_state :: dnswire_writer_state
  wr_encoder :: "'w dnswire_encoder"
  wr_out :: outbuf
  wr_popped :: nat
  wr_decoder :: "'r dnswire_decoder"
  wr_in :: inbuf
  wr_read_pushed :: nat
  wr_bidirectional :: bool

definition writer_defaults :: "('r, 'w) extlib \<Rightarrow> ('r, 'w) dnswire_writer" where
  "writer_defaults L =
     \<lparr>wr_state = dnswire_writer_encoding,
      wr_encoder = DNSWIRE_ENCODER_INITIALIZER L,
      wr_out = \<lparr>o_buf = None, o_size = DNSWIRE_DEFAULT_BUF_SIZE, o_inc = DNSWIRE_DEFAULT_BUF_SIZE,
                o_max = DNSWIRE_MAXIMUM_BUF_SIZE, o_at = 0, o_left = 0\<rparr>,
      wr_popped = 0,
      wr_decoder = DNSWIRE_DECODER_INITIALIZER L,
      wr_in = \<lparr>i_buf = None, i_size = DNSWIRE_DEFAULT_BUF_SIZE, i_inc = DNSWIRE_DEFAULT_BUF_SIZE,
               i_max = DNSWIRE_MAXIMUM_BUF_SIZE, i_at = 0, i_left = 0\<rparr>,
      wr_read_pushed = 0,
      wr_bidirectional = False\<rparr>"

section \<open>Initialisation and settings\<close>

definition dnswire_writer_init :: "('r, 'w) extlib \<Rightarrow> world \<Rightarrow>
    dnswire_result \<times> ('r, 'w) dnswire_writer \<times> world" where
  "dnswire_writer_init L w =
     (let h = writer_defaults L in
      case sys_alloc w of (ok, w') \<Rightarrow>
        if ok
        then (dnswire_ok,
              h\<lparr>wr_out := (wr_out h)\<lparr>o_buf := Some (fresh_block (o_size (wr_out h)))\<rparr>\<rparr>, w')
        else (dnswire_error, h, w'))"

definition dnswire_writer_set_dnstap :: "('r, 'w) dnswire_writer \<Rightarrow> dnstap \<Rightarrow> ('r, 'w) dnswire_writer" where
  "dnswire_writer_set_dnstap h d = h\<lparr>wr_encoder := dnswire_encoder_set_dnstap (wr_encoder h) d\<rparr>"

definition dnswire_writer_set_bidirectional :: "world \<Rightarrow> ('r, 'w) dnswire_writer \<Rightarrow> bool \<Rightarrow>
    dnswire_result \<times> ('r, 'w) dnswire_writer \<times> world" where
  "dnswire_writer_set_bidirectional w h bidirectional =
     (if bidirectional
      then (case (if i_buf (wr_in h) = None then sys_alloc w else (True, w)) of (ok, w') \<Rightarrow>
              if ok
              then (dnswire_ok,
                    h\<lparr>wr_in := (if i_buf (wr_in h) = None
                               then (wr_in h)\<lparr>i_buf := Some (fresh_block (i_size (wr_in h)))\<rparr>
                               else wr_in h),
                      wr_encoder := (wr_encoder h)\<lparr>e_state := dnswire_encoder_control_ready\<rparr>,
                      wr_state := dnswire_writer_encoding_ready,
                      wr_bidirectional := True\<rparr>, w')
              else (dnswire_error, h, w'))
      else (dnswire_ok,
            h\<lparr>wr_encoder := (wr_encoder h)\<lparr>e_state := dnswire_encoder_control_start\<rparr>,
              wr_state := dnswire_writer_encoding,
              wr_bidirectional := False\<rparr>, w))"

definition dnswire_writer_set_bufsize :: "world \<Rightarrow> ('r, 'w) dnswire_writer \<Rightarrow> nat \<Rightarrow>
    fault + dnswire_result \<times> ('r, 'w) dnswire_writer \<times> world" where
  "dnswire_writer_set_bufsize w h sz =
     bindF (assertF (sz \<noteq> 0)) (\<lambda>_.
     bindF (assertF (o_buf (wr_out h) \<noteq> None)) (\<lambda>_.
     let b = wr_out h in
     if o_left b > sz then Inr (dnswire_error, h, w)
     else if sz > o_max b then Inr (dnswire_error, h, w)
     else bindF (if sz_add (o_at b) (o_left b) > sz
                 then bindF (if o_left b \<noteq> 0 then mem_move_front (o_buf b) (o_at b) (o_left b)
                             else Inr (o_buf b)) (\<lambda>m.
                      Inr (b\<lparr>o_buf := m, o_at := 0\<rparr>))
                 else Inr b) (\<lambda>b1.
          case sys_alloc w of (ok, w') \<Rightarrow>
            if ok
            then Inr (dnswire_ok,
                      h\<lparr>wr_out := b1\<lparr>o_buf := map_option (resize_block sz) (o_buf b1),
                                     o_size := sz\<rparr>\<rparr>, w')
            else Inr (dnswire_error, h\<lparr>wr_out := b1\<rparr>, w'))))"

definition dnswire_writer_set_bufinc :: "('r, 'w) dnswire_writer \<Rightarrow> nat \<Rightarrow>
    fault + dnswire_result \<times> ('r, 'w) dnswire_writer" where
  "dnswire_writer_set_bufinc h inc =
     bindF (assertF (inc \<noteq> 0)) (\<lambda>_.
     Inr (dnswire_ok, h\<lparr>wr_out := (wr_out h)\<lparr>o_inc := inc\<rparr>\<rparr>))"

definition dnswire_writer_set_bufmax :: "('r, 'w) dnswire_writer \<Rightarrow> nat \<Rightarrow>
    fault + dnswire_result \<times> ('r, 'w) dnswire_writer" where
  "dnswire_writer_set_bufmax h mx =
     bindF (assertF (mx \<noteq> 0)) (\<lambda>_.
     if mx < o_size (wr_out h) then Inr (dnswire_error, h)
     else Inr (dnswire_ok, h\<lparr>wr_out := (wr_out h)\<lparr>o_max := mx\<rparr>\<rparr>))"

definition dnswire_writer_stop :: "('r, 'w) dnswire_writer \<Rightarrow>
    dnswire_result \<times> ('r, 'w) dnswire_writer" where
  "dnswire_writer_stop h = (case dnswire_encoder_stop (wr_encoder h) of (res, e) \<Rightarrow>
     let h1 = h\<lparr>wr_encoder := e\<rparr> in
     (res, if res = dnswire_ok then h1\<lparr>wr_state := dnswire_writer_stopping\<rparr> else h1))"

section \<open>Decoding the answers of the peer\<close>

text \<open>The case \<open>decoding_accept\<close>, the same in \<open>pop\<close> and \<open>write\<close>.\<close>

definition pop_decoding_accept :: "('r, 'w) extlib \<Rightarrow> world \<Rightarrow> ('r, 'w) dnswire_writer \<Rightarrow>
    fault + dnswire_result \<times> ('r, 'w) dnswire_writer \<times> world" where
  "pop_decoding_accept L w h0 =
     bindF (in_load (wr_in h0)) (\<lambda>bytes.
     bindF (dnswire_decoder_decode L (wr_decoder h0) bytes) (\<lambda>(res, d).
     let h = h0\<lparr>wr_decoder := d\<rparr>;
         b = in_consume (dnswire_decoder_decoded L d) (wr_in h0) in
     (case res of
        dnswire_bidirectional \<Rightarrow>
          if \<not> dc_accept_support_dnstap_protobuf d then Inr (dnswire_error, h\<lparr>wr_in := b\<rparr>, w)
          else Inr (dnswire_again, h\<lparr>wr_in := b, wr_state := dnswire_writer_encoding\<rparr>, w)
      | dnswire_again \<Rightarrow>
          Inr (dnswire_again,
               h\<lparr>wr_in := b,
                 wr_state := (if i_left b = 0 then dnswire_writer_reading_accept
                              else wr_state h)\<rparr>, w)
      | dnswire_need_more \<Rightarrow>
          bindF (in_need_more w (wr_in h)) (\<lambda>(room, b', w').
          if \<not> room then Inr (dnswire_error, h\<lparr>wr_in := b'\<rparr>, w')
          else Inr (dnswire_need_more,
                    h\<lparr>wr_in := b', wr_state := dnswire_writer_reading_accept\<rparr>, w'))
      | _ \<Rightarrow> Inr (dnswire_error, h, w))))"

text \<open>
  The case \<open>decoding_finish\<close>, the same in \<open>pop\<close> and \<open>write\<close>; when it needs more it goes to
  \<open>reading_accept\<close>.
\<close>

definition pop_decoding_finish :: "('r, 'w) extlib \<Rightarrow> world \<Rightarrow> ('r, 'w) dnswire_writer \<Rightarrow>
    fault + dnswire_result \<times> ('r, 'w) dnswire_writer \<times> world" where
  "pop_decoding_finish L w h0 =
     bindF (in_load (wr_in h0)) (\<lambda>bytes.
     bindF (dnswire_decoder_decode L (wr_decoder h0) bytes) (\<lambda>(res, d).
     let h = h0\<lparr>wr_decoder := d\<rparr> in
     (case res of
        dnswire_endofdata \<Rightarrow> Inr (dnswire_endofdata, h\<lparr>wr_state := dnswire_writer_done\<rparr>, w)
      | dnswire_need_more \<Rightarrow>
          bindF (in_need_more w (wr_in h)) (\<lambda>(room, b', w').
          if \<not> room then Inr (dnswire_error, h\<lparr>wr_in := b'\<rparr>, w')
          else Inr (dnswire_need_more,
                    h\<lparr>wr_in := b', wr_state := dnswire_writer_reading_accept\<rparr>, w'))
      | _ \<Rightarrow> Inr (dnswire_error, h, w))))"

definition write_decoding_accept :: "('r, 'w) extlib \<Rightarrow> world \<Rightarrow> ('r, 'w) dnswire_writer \<Rightarrow>
    fault + dnswire_result \<times> ('r, 'w) dnswire_writer \<times> world" where
  "write_decoding_accept L w h = pop_decoding_accept L w h"

definition write_decoding_finish :: "('r, 'w) extlib \<Rightarrow> world \<Rightarrow> ('r, 'w) dnswire_writer \<Rightarrow>
    fault + dnswire_result \<times> ('r, 'w) dnswire_writer \<times> world" where
  "write_decoding_finish L w h = pop_decoding_finish L w h"

end
