(* ===== verification/Writer_Calls.thy ===== *)
theory Writer_Calls
  imports Writer
begin

text \<open>The two operations that move bytes, \<open>dnswire_writer_pop\<close> and \<open>dnswire_writer_write\<close>.\<close>

section \<open>dnswire_writer_pop\<close>

text \<open>
  The arguments of a call: whether \<open>data\<close> is a pointer at all, \<open>len\<close>, the bytes at \<open>in_data\<close>
  (\<open>None\<close> for the null pointer) and \<open>*in_len\<close> (\<open>None\<close> when \<open>in_len\<close> is the null pointer).
\<close>

record pop_args =
  pa_data :: bool
  pa_len :: nat
  pa_in_data :: "byte list option"
  pa_in_len :: "nat option"

text \<open>\<open>in_len_orig\<close>\<close>

definition in_len_orig :: "pop_args \<Rightarrow> nat" where
  "in_len_orig a = (case pa_in_len a of None \<Rightarrow> 0 | Some n \<Rightarrow> n)"

text \<open>A result of \<open>pop\<close>: the bytes put at \<open>data\<close>, and the new \<open>*in_len\<close>.\<close>

type_synonym ('r, 'w) popped =
  "fault + dnswire_result \<times> ('r, 'w) dnswire_writer \<times> world \<times> byte list \<times> nat"

definition with_io :: "byte list \<Rightarrow> nat \<Rightarrow> fault + dnswire_result \<times> ('r, 'w) dnswire_writer \<times> world \<Rightarrow>
    ('r, 'w) popped" where
  "with_io bs n x = bindF x (\<lambda>(res, h, w). Inr (res, h, w, bs, n))"

text \<open>
  \<open>popped\<close> is the smaller of \<open>len\<close> and \<open>left\<close>; as many bytes are copied to \<open>data\<close> and taken off
  \<open>left\<close>, and \<open>at\<close> becomes 0 when nothing is left.
\<close>

definition pop_bytes :: "pop_args \<Rightarrow> ('r, 'w) dnswire_writer \<Rightarrow>
    fault + ('r, 'w) dnswire_writer \<times> byte list" where
  "pop_bytes a h =
     (let n = (if pa_len a < o_left (wr_out h) then pa_len a else o_left (wr_out h)) in
      bindF (if pa_data a then out_peek (wr_out h) n else Inl Null_deref) (\<lambda>bs.
      Inr (h\<lparr>wr_popped := n, wr_out := out_drain n (wr_out h)\<rparr>, bs)))"

text \<open>
  Taking input: the bytes are copied behind \<open>read_at + read_left\<close>, but their number is added to
  \<open>left\<close>, the field of the output side.
\<close>

definition pop_take_in :: "pop_args \<Rightarrow> ('r, 'w) dnswire_writer \<Rightarrow>
    fault + ('r, 'w) dnswire_writer \<times> nat" where
  "pop_take_in a h =
     (let room = in_room (wr_in h);
          n = (if room < in_len_orig a then room else in_len_orig a) in
      if n = 0 then Inr (h, 0)
      else (case pa_in_data a of
              None \<Rightarrow> Inl Null_deref
            | Some data \<Rightarrow>
                if length data < n then Inl Out_of_bounds
                else bindF (mem_store (i_buf (wr_in h)) (sz_add (i_at (wr_in h)) (i_left (wr_in h)))
                       (take n data)) (\<lambda>m.
                     Inr (h\<lparr>wr_in := (wr_in h)\<lparr>i_buf := m\<rparr>,
                            wr_out := (wr_out h)\<lparr>o_left := sz_add (o_left (wr_out h)) n\<rparr>\<rparr>, n))))"

definition pop_reading_accept :: "('r, 'w) extlib \<Rightarrow> world \<Rightarrow> pop_args \<Rightarrow> byte list \<Rightarrow>
    ('r, 'w) dnswire_writer \<Rightarrow> ('r, 'w) popped" where
  "pop_reading_accept L w a bs h =
     (if in_len_orig a = 0 then Inr (dnswire_need_more, h, w, bs, 0)
      else bindF (pop_take_in a h) (\<lambda>(h1, n).
           with_io bs n
             (pop_decoding_accept L w (h1\<lparr>wr_state := dnswire_writer_decoding_accept\<rparr>))))"

definition pop_reading_finish :: "('r, 'w) extlib \<Rightarrow> world \<Rightarrow> pop_args \<Rightarrow>
    ('r, 'w) dnswire_writer \<Rightarrow> ('r, 'w) popped" where
  "pop_reading_finish L w a h =
     (if in_len_orig a = 0 then Inr (dnswire_need_more, h, w, [], 0)
      else bindF (pop_take_in a h) (\<lambda>(h1, n).
           with_io [] n
             (pop_decoding_finish L w (h1\<lparr>wr_state := dnswire_writer_decoding_finish\<rparr>))))"

definition pop_writing_ready :: "('r, 'w) extlib \<Rightarrow> world \<Rightarrow> dnswire_result \<Rightarrow> pop_args \<Rightarrow>
    ('r, 'w) dnswire_writer \<Rightarrow> ('r, 'w) popped" where
  "pop_writing_ready L w res a h =
     bindF (pop_bytes a h) (\<lambda>(h1, bs).
     if o_left (wr_out h1) \<noteq> 0 then Inr (res, h1, w, bs, 0)
     else pop_reading_accept L w a bs (h1\<lparr>wr_state := dnswire_writer_reading_accept\<rparr>))"

text \<open>After encoding READY the state becomes \<open>writing\<close>, while the code runs on into \<open>writing_ready\<close>.\<close>

definition pop_encoding_ready :: "('r, 'w) extlib \<Rightarrow> world \<Rightarrow> pop_args \<Rightarrow>
    ('r, 'w) dnswire_writer \<Rightarrow> ('r, 'w) popped" where
  "pop_encoding_ready L w a h =
     bindF (encoding L w (wr_encoder h) (wr_out h)) (\<lambda>(res, e, b, w').
     let h1 = h\<lparr>wr_encoder := e, wr_out := b\<rparr> in
     if res \<noteq> dnswire_error \<and> o_left b \<noteq> 0
     then pop_writing_ready L w' res a (h1\<lparr>wr_state := dnswire_writer_writing\<rparr>)
     else Inr (res, h1, w', [], 0))"

definition pop_writing :: "world \<Rightarrow> dnswire_result \<Rightarrow> pop_args \<Rightarrow>
    ('r, 'w) dnswire_writer \<Rightarrow> ('r, 'w) popped" where
  "pop_writing w res a h =
     bindF (pop_bytes a h) (\<lambda>(h1, bs).
     Inr (res, (if o_left (wr_out h1) = 0 then h1\<lparr>wr_state := dnswire_writer_encoding\<rparr> else h1),
          w, bs, 0))"

definition pop_encoding :: "('r, 'w) extlib \<Rightarrow> world \<Rightarrow> pop_args \<Rightarrow>
    ('r, 'w) dnswire_writer \<Rightarrow> ('r, 'w) popped" where
  "pop_encoding L w a h =
     bindF (encoding L w (wr_encoder h) (wr_out h)) (\<lambda>(res, e, b, w').
     let h1 = h\<lparr>wr_encoder := e, wr_out := b\<rparr> in
     if res \<noteq> dnswire_error \<and> o_left b \<noteq> 0
     then pop_writing w' res a (h1\<lparr>wr_state := dnswire_writer_writing\<rparr>)
     else Inr (res, h1, w', [], 0))"

text \<open>
  \<open>bs0\<close> are the first \<open>popped\<close> bytes at \<open>data\<close> when the case begins. A case that runs after
  another one of the same call starts at the beginning of \<open>data\<close> again and sets \<open>popped\<close> anew.
\<close>

definition pop_writing_stop :: "world \<Rightarrow> pop_args \<Rightarrow> byte list \<Rightarrow>
    ('r, 'w) dnswire_writer \<Rightarrow> ('r, 'w) popped" where
  "pop_writing_stop w a bs0 h =
     bindF (if o_left (wr_out h) \<noteq> 0 then pop_bytes a h else Inr (h, bs0)) (\<lambda>(h1, bs).
     if o_left (wr_out h1) \<noteq> 0 then Inr (dnswire_again, h1, w, bs, 0)
     else if wr_bidirectional h1
     then Inr (dnswire_again, h1\<lparr>wr_state := dnswire_writer_reading_finish\<rparr>, w, bs, 0)
     else Inr (dnswire_endofdata, h1\<lparr>wr_state := dnswire_writer_done\<rparr>, w, bs, 0))"

definition pop_encoding_stop :: "('r, 'w) extlib \<Rightarrow> world \<Rightarrow> pop_args \<Rightarrow> byte list \<Rightarrow>
    ('r, 'w) dnswire_writer \<Rightarrow> ('r, 'w) popped" where
  "pop_encoding_stop L w a bs0 h =
     bindF (encoding L w (wr_encoder h) (wr_out h)) (\<lambda>(res, e, b, w').
     let h1 = h\<lparr>wr_encoder := e, wr_out := b\<rparr> in
     if res = dnswire_endofdata
     then pop_writing_stop w' a bs0 (h1\<lparr>wr_state := dnswire_writer_writing_stop\<rparr>)
     else Inr (res, h1, w', bs0, 0))"

definition pop_stopping :: "('r, 'w) extlib \<Rightarrow> world \<Rightarrow> pop_args \<Rightarrow>
    ('r, 'w) dnswire_writer \<Rightarrow> ('r, 'w) popped" where
  "pop_stopping L w a h =
     bindF (if o_left (wr_out h) \<noteq> 0 then pop_bytes a h else Inr (h, [])) (\<lambda>(h1, bs).
     if o_left (wr_out h1) \<noteq> 0 then Inr (dnswire_again, h1, w, bs, 0)
     else pop_encoding_stop L w a bs (h1\<lparr>wr_state := dnswire_writer_encoding_stop\<rparr>))"

definition dnswire_writer_pop :: "('r, 'w) extlib \<Rightarrow> world \<Rightarrow> ('r, 'w) dnswire_writer \<Rightarrow> pop_args \<Rightarrow>
    ('r, 'w) popped" where
  "dnswire_writer_pop L w h a =
     bindF (assertF (pa_data a)) (\<lambda>_.
     bindF (assertF (pa_len a \<noteq> 0)) (\<lambda>_.
     bindF (assertF (o_buf (wr_out h) \<noteq> None)) (\<lambda>_.
     bindF (assertF (\<not> wr_bidirectional h \<or> pa_in_data a \<noteq> None)) (\<lambda>_.
     let h0 = h\<lparr>wr_popped := 0\<rparr> in
     (case wr_state h0 of
        dnswire_writer_encoding_ready \<Rightarrow> pop_encoding_ready L w a h0
      | dnswire_writer_writing_ready \<Rightarrow> pop_writing_ready L w dnswire_again a h0
      | dnswire_writer_reading_accept \<Rightarrow> pop_reading_accept L w a [] h0
      | dnswire_writer_decoding_accept \<Rightarrow> with_io [] 0 (pop_decoding_accept L w h0)
      | dnswire_writer_encoding \<Rightarrow> pop_encoding L w a h0
      | dnswire_writer_writing \<Rightarrow> pop_writing w dnswire_again a h0
      | dnswire_writer_stopping \<Rightarrow> pop_stopping L w a h0
      | dnswire_writer_encoding_stop \<Rightarrow> pop_encoding_stop L w a [] h0
      | dnswire_writer_writing_stop \<Rightarrow> pop_writing_stop w a [] h0
      | dnswire_writer_reading_finish \<Rightarrow> pop_reading_finish L w a h0
      | dnswire_writer_decoding_finish \<Rightarrow> with_io [] 0 (pop_decoding_finish L w h0)
      | dnswire_writer_done \<Rightarrow> Inr (dnswire_error, h0, w, [], 0))))))"

section \<open>dnswire_writer_write\<close>

text \<open>\<open>write\<close> of everything pending; \<open>None\<close> when it failed or moved nothing.\<close>

definition write_bytes :: "world \<Rightarrow> ('r, 'w) dnswire_writer \<Rightarrow>
    fault + ('r, 'w) dnswire_writer option \<times> world" where
  "write_bytes w h =
     bindF (out_peek (wr_out h) (o_left (wr_out h))) (\<lambda>bs.
     case sys_write w bs of
       (None, w') \<Rightarrow> Inr (None, w')
     | (Some n, w') \<Rightarrow>
         if n = 0 then Inr (None, w')
         else Inr (Some (h\<lparr>wr_out := out_drain n (wr_out h)\<rparr>), w'))"

text \<open>\<open>read\<close> behind what is buffered; \<open>None\<close> when it failed or the stream ended.\<close>

definition write_take_in :: "world \<Rightarrow> ('r, 'w) dnswire_writer \<Rightarrow>
    fault + ('r, 'w) dnswire_writer option \<times> world" where
  "write_take_in w h = (case sys_read w (in_room (wr_in h)) of
      (None, w') \<Rightarrow> Inr (None, w')
    | (Some bs, w') \<Rightarrow>
        if bs = [] then Inr (None, w')
        else bindF (in_append (wr_in h) bs) (\<lambda>b. Inr (Some (h\<lparr>wr_in := b\<rparr>), w')))"

type_synonym ('r, 'w) written = "fault + dnswire_result \<times> ('r, 'w) dnswire_writer \<times> world"

definition write_reading_accept :: "('r, 'w) extlib \<Rightarrow> world \<Rightarrow> ('r, 'w) dnswire_writer \<Rightarrow>
    ('r, 'w) written" where
  "write_reading_accept L w h =
     bindF (write_take_in w h) (\<lambda>(got, w'). case got of
        None \<Rightarrow> Inr (dnswire_error, h, w')
      | Some h1 \<Rightarrow>
          write_decoding_accept L w' (h1\<lparr>wr_state := dnswire_writer_decoding_accept\<rparr>))"

definition write_reading_finish :: "('r, 'w) extlib \<Rightarrow> world \<Rightarrow> ('r, 'w) dnswire_writer \<Rightarrow>
    ('r, 'w) written" where
  "write_reading_finish L w h =
     bindF (write_take_in w h) (\<lambda>(got, w'). case got of
        None \<Rightarrow> Inr (dnswire_error, h, w')
      | Some h1 \<Rightarrow>
          write_decoding_finish L w' (h1\<lparr>wr_state := dnswire_writer_decoding_finish\<rparr>))"

definition write_writing_ready :: "('r, 'w) extlib \<Rightarrow> world \<Rightarrow> dnswire_result \<Rightarrow>
    ('r, 'w) dnswire_writer \<Rightarrow> ('r, 'w) written" where
  "write_writing_ready L w res h =
     bindF (write_bytes w h) (\<lambda>(sent, w'). case sent of
        None \<Rightarrow> Inr (dnswire_error, h, w')
      | Some h1 \<Rightarrow>
          if o_left (wr_out h1) \<noteq> 0 then Inr (res, h1, w')
          else write_reading_accept L w' (h1\<lparr>wr_state := dnswire_writer_reading_accept\<rparr>))"

definition write_encoding_ready :: "('r, 'w) extlib \<Rightarrow> world \<Rightarrow> ('r, 'w) dnswire_writer \<Rightarrow>
    ('r, 'w) written" where
  "write_encoding_ready L w h =
     bindF (encoding L w (wr_encoder h) (wr_out h)) (\<lambda>(res, e, b, w').
     let h1 = h\<lparr>wr_encoder := e, wr_out := b\<rparr> in
     if res \<noteq> dnswire_error \<and> o_left b \<noteq> 0
     then write_writing_ready L w' res (h1\<lparr>wr_state := dnswire_writer_writing\<rparr>)
     else Inr (res, h1, w'))"

definition write_writing :: "world \<Rightarrow> dnswire_result \<Rightarrow> ('r, 'w) dnswire_writer \<Rightarrow>
    ('r, 'w) written" where
  "write_writing w res h =
     bindF (write_bytes w h) (\<lambda>(sent, w'). case sent of
        None \<Rightarrow> Inr (dnswire_error, h, w')
      | Some h1 \<Rightarrow>
          Inr (res, (if o_left (wr_out h1) = 0 then h1\<lparr>wr_state := dnswire_writer_encoding\<rparr>
                     else h1), w'))"

definition write_encoding :: "('r, 'w) extlib \<Rightarrow> world \<Rightarrow> ('r, 'w) dnswire_writer \<Rightarrow>
    ('r, 'w) written" where
  "write_encoding L w h =
     bindF (encoding L w (wr_encoder h) (wr_out h)) (\<lambda>(res, e, b, w').
     let h1 = h\<lparr>wr_encoder := e, wr_out := b\<rparr> in
     if res \<noteq> dnswire_error \<and> o_left b \<noteq> 0
     then write_writing w' res (h1\<lparr>wr_state := dnswire_writer_writing\<rparr>)
     else Inr (res, h1, w'))"

text \<open>
  Writing what is pending, if anything: the call ends when that failed or left something, and
  goes on with \<open>k\<close> otherwise.
\<close>

definition write_pending :: "world \<Rightarrow> ('r, 'w) dnswire_writer \<Rightarrow>
    (('r, 'w) dnswire_writer \<Rightarrow> world \<Rightarrow> ('r, 'w) written) \<Rightarrow> ('r, 'w) written" where
  "write_pending w h k =
     (if o_left (wr_out h) \<noteq> 0
      then bindF (write_bytes w h) (\<lambda>(sent, w'). case sent of
             None \<Rightarrow> Inr (dnswire_error, h, w')
           | Some h1 \<Rightarrow>
               if o_left (wr_out h1) \<noteq> 0 then Inr (dnswire_again, h1, w') else k h1 w')
      else k h w)"

definition write_writing_stop :: "world \<Rightarrow> ('r, 'w) dnswire_writer \<Rightarrow> ('r, 'w) written" where
  "write_writing_stop w h =
     write_pending w h (\<lambda>h1 w'.
       if wr_bidirectional h1
       then Inr (dnswire_again, h1\<lparr>wr_state := dnswire_writer_reading_finish\<rparr>, w')
       else Inr (dnswire_endofdata, h1\<lparr>wr_state := dnswire_writer_done\<rparr>, w'))"

definition write_encoding_stop :: "('r, 'w) extlib \<Rightarrow> world \<Rightarrow> ('r, 'w) dnswire_writer \<Rightarrow>
    ('r, 'w) written" where
  "write_encoding_stop L w h =
     bindF (encoding L w (wr_encoder h) (wr_out h)) (\<lambda>(res, e, b, w').
     let h1 = h\<lparr>wr_encoder := e, wr_out := b\<rparr> in
     if res = dnswire_endofdata
     then write_writing_stop w' (h1\<lparr>wr_state := dnswire_writer_writing_stop\<rparr>)
     else Inr (res, h1, w'))"

definition write_stopping :: "('r, 'w) extlib \<Rightarrow> world \<Rightarrow> ('r, 'w) dnswire_writer \<Rightarrow>
    ('r, 'w) written" where
  "write_stopping L w h =
     write_pending w h (\<lambda>h1 w'.
       write_encoding_stop L w' (h1\<lparr>wr_state := dnswire_writer_encoding_stop\<rparr>))"

definition dnswire_writer_write :: "('r, 'w) extlib \<Rightarrow> world \<Rightarrow> ('r, 'w) dnswire_writer \<Rightarrow>
    ('r, 'w) written" where
  "dnswire_writer_write L w h =
     bindF (assertF (o_buf (wr_out h) \<noteq> None)) (\<lambda>_.
     (case wr_state h of
        dnswire_writer_encoding_ready \<Rightarrow> write_encoding_ready L w h
      | dnswire_writer_writing_ready \<Rightarrow> write_writing_ready L w dnswire_again h
      | dnswire_writer_reading_accept \<Rightarrow> write_reading_accept L w h
      | dnswire_writer_decoding_accept \<Rightarrow> write_decoding_accept L w h
      | dnswire_writer_encoding \<Rightarrow> write_encoding L w h
      | dnswire_writer_writing \<Rightarrow> write_writing w dnswire_again h
      | dnswire_writer_stopping \<Rightarrow> write_stopping L w h
      | dnswire_writer_encoding_stop \<Rightarrow> write_encoding_stop L w h
      | dnswire_writer_writing_stop \<Rightarrow> write_writing_stop w h
      | dnswire_writer_reading_finish \<Rightarrow> write_reading_finish L w h
      | dnswire_writer_decoding_finish \<Rightarrow> write_decoding_finish L w h
      | dnswire_writer_done \<Rightarrow> Inr (dnswire_error, h, w)))"

section \<open>The other operation of writer.h\<close>

text \<open>\<open>fileno\<close> of the stream is the descriptor the world stands for.\<close>

definition dnswire_writer_fwrite :: "('r, 'w) extlib \<Rightarrow> world \<Rightarrow> ('r, 'w) dnswire_writer \<Rightarrow>
    ('r, 'w) written" where
  "dnswire_writer_fwrite L w h = dnswire_writer_write L w h"

end
