(* ===== verification/Writer_Inv.thy ===== *)
theory Writer_Inv
  imports Writer_Calls
begin

text \<open>
  The invariant of the writer's handle, what a call emits, and that every case of \<open>write\<close>, and
  of \<open>pop\<close> in a unidirectional conversation, returns and keeps the invariant.
\<close>

section \<open>The invariant\<close>

definition writer_ok :: "('r, 'w) dnswire_writer \<Rightarrow> bool" where
  "writer_ok h \<longleftrightarrow> out_ok (wr_out h) \<and> encoder_ok (wr_encoder h) \<and> decoder_ok (wr_decoder h) \<and>
     (wr_bidirectional h \<longrightarrow> in_ok (wr_in h)) \<and>
     (wr_state h \<in> {dnswire_writer_decoding_accept, dnswire_writer_decoding_finish} \<longrightarrow>
        in_live (wr_in h) \<noteq> []) \<and>
     (o_left (wr_out h) \<noteq> 0 \<longrightarrow>
        wr_state h \<in> {dnswire_writer_writing_ready, dnswire_writer_writing,
          dnswire_writer_stopping, dnswire_writer_writing_stop}) \<and>
     (wr_state h \<in> {dnswire_writer_encoding_ready, dnswire_writer_writing_ready,
          dnswire_writer_reading_accept, dnswire_writer_decoding_accept,
          dnswire_writer_reading_finish, dnswire_writer_decoding_finish} \<longrightarrow> wr_bidirectional h) \<and>
     (wr_state h \<in> {dnswire_writer_stopping, dnswire_writer_encoding_stop} \<longrightarrow>
        e_state (wr_encoder h) = dnswire_encoder_control_stop)"

lemma writer_okD:
  assumes "writer_ok h"
  shows "out_ok (wr_out h)" and "encoder_ok (wr_encoder h)" and "decoder_ok (wr_decoder h)"
    and "wr_bidirectional h \<Longrightarrow> in_ok (wr_in h)"
  using assms by (simp_all add: writer_ok_def)

lemma nothing_left: "out_ok b \<Longrightarrow> o_left b = 0 \<Longrightarrow> out_pending b = [] \<and> o_at b < o_size b"
  using out_pending_length [of b] by (auto elim!: out_okD)

section \<open>Emitted frames\<close>

text \<open>
  A frame as the encoder writes it: the state it was written in, the message that was set, and
  the bytes.
\<close>

type_synonym wframe = "dnswire_encoder_state \<times> dnstap option \<times> byte list"

definition written :: "('r, 'w) extlib \<Rightarrow> wframe \<Rightarrow> bool" where
  "written L f \<longleftrightarrow> (case f of (s, d, bs) \<Rightarrow>
     \<exists>(e :: 'w dnswire_encoder) len res e'. e_state e = s \<and> e_dnstap e = d \<and>
       dnswire_encoder_encode L e len = Inr (res, e', bs) \<and>
       encoder_next s = Some (e_state e', res))"

text \<open>The frames lead the encoder from one state to the next.\<close>

fun frame_path :: "dnswire_encoder_state \<Rightarrow> wframe list \<Rightarrow> dnswire_encoder_state \<Rightarrow> bool" where
  "frame_path s [] s' \<longleftrightarrow> s = s'"
| "frame_path s ((t, d, bs) # fs) s' \<longleftrightarrow> t = s \<and>
     (case encoder_next s of None \<Rightarrow> False | Some (s1, res) \<Rightarrow> frame_path s1 fs s')"

definition frame_bytes :: "wframe list \<Rightarrow> byte list" where
  "frame_bytes fs = concat (map (\<lambda>(s, d, bs). bs) fs)"

lemma frame_path_append:
  "frame_path s fs s1 \<Longrightarrow> frame_path s1 gs s2 \<Longrightarrow> frame_path s (fs @ gs) s2"
  by (induction fs arbitrary: s rule: list.induct) (auto split: option.splits)

lemma frame_bytes_simps [simp]:
  "frame_bytes [] = []"
  "frame_bytes ((s, d, bs) # fs) = bs @ frame_bytes fs"
  "frame_bytes (fs @ gs) = frame_bytes fs @ frame_bytes gs"
  by (simp_all add: frame_bytes_def)

text \<open>
  What a piece of a call does to the encoder and the output buffer: some frames are appended to
  what is pending, all with the message that is set, and \<open>out\<close> is handed out at the front.
\<close>

definition emits :: "('r, 'w) extlib \<Rightarrow> 'w dnswire_encoder \<Rightarrow> outbuf \<Rightarrow> byte list \<Rightarrow>
    'w dnswire_encoder \<Rightarrow> outbuf \<Rightarrow> bool" where
  "emits L e b out e' b' \<longleftrightarrow> e_dnstap e' = e_dnstap e \<and> (\<exists>fs. list_all (written L) fs \<and>
     frame_path (e_state e) fs (e_state e') \<and>
     (\<forall>f \<in> set fs. fst (snd f) = e_dnstap e) \<and>
     out @ out_pending b' = out_pending b @ frame_bytes fs)"

lemma emits_nothing: "emits L e b [] e b"
  by (auto simp: emits_def intro!: exI [of _ "[]"])

lemma emits_drain:
  assumes "out_ok b" and "n \<le> o_left b"
  shows "emits L e b (take n (out_pending b)) e (out_drain n b)"
proof -
  have "n \<le> length (out_pending b)"
    using assms by (simp add: out_pending_length)
  then show ?thesis
    using outq.drain_pending [OF assms(1)] by (auto simp: emits_def intro!: exI [of _ "[]"])
qed

lemma emits_trans:
  assumes "emits L e b out e1 b1" and "emits L e1 b1 out' e2 b2"
  shows "emits L e b (out @ out') e2 b2"
proof -
  from assms obtain fs gs where "list_all (written L) fs" "frame_path (e_state e) fs (e_state e1)"
    "\<forall>f \<in> set fs. fst (snd f) = e_dnstap e" and fs: "out @ out_pending b1 = out_pending b @ frame_bytes fs"
    and "list_all (written L) gs" "frame_path (e_state e1) gs (e_state e2)"
    "\<forall>f \<in> set gs. fst (snd f) = e_dnstap e1" and gs: "out' @ out_pending b2 = out_pending b1 @ frame_bytes gs"
    by (auto simp: emits_def)
  moreover have "e_dnstap e2 = e_dnstap e" "e_dnstap e1 = e_dnstap e"
    using assms by (simp_all add: emits_def)
  moreover have "(out @ out') @ out_pending b2 = out_pending b @ frame_bytes (fs @ gs)"
  proof -
    have "(out @ out') @ out_pending b2 = (out @ out_pending b1) @ frame_bytes gs"
      using gs by simp
    then show ?thesis using fs by simp
  qed
  ultimately show ?thesis
    unfolding emits_def by (intro conjI exI [of _ "fs @ gs"]) (auto intro: frame_path_append)
qed

text \<open>One pass of the encoding loop, from an output buffer with nothing pending.\<close>

lemma encoding_emits:
  assumes L: "extlib_ok L" and e: "encoder_ok e" and b: "out_ok b" "o_left b = 0"
  shows "\<exists>res e' b' w'. encoding L w e b = Inr (res, e', b', w') \<and> out_ok b' \<and> encoder_ok e' \<and>
     emits L e b [] e' b' \<and> inbox w' = inbox w \<and> sent w' = sent w \<and>
     (res = dnswire_error \<longrightarrow> o_left b' = 0 \<and> e_state e' = e_state e) \<and>
     (res \<noteq> dnswire_error \<longrightarrow> encoder_next (e_state e) = Some (e_state e', res))"
proof -
  note nl = nothing_left [OF b]
  from encoding_props [OF L e b(1), of w] nl obtain res e' b' w' where
    r: "encoding L w e b = Inr (res, e', b', w')" and p: "encoding_post L e b (res, e', b', w')"
    by (metis prod_cases4)
  from p have ok: "out_ok b'" "encoder_ok e'" "e_dnstap e' = e_dnstap e"
    by (auto simp: encoding_post_def)
  from p consider (frame) e1 len out where "encoder_next (e_state e) = Some (e_state e', res)"
      "e_state e1 = e_state e" "e_dnstap e1 = e_dnstap e"
      "dnswire_encoder_encode L e1 len = Inr (res, e', out)" "out_pending b' = out_pending b @ out"
    | (fail) "res = dnswire_error" "e_state e' = e_state e" "out_pending b' = out_pending b"
    by (auto simp: encoding_post_def)
  then have "emits L e b [] e' b' \<and> (res = dnswire_error \<longrightarrow> o_left b' = 0 \<and> e_state e' = e_state e) \<and>
     (res \<noteq> dnswire_error \<longrightarrow> encoder_next (e_state e) = Some (e_state e', res))"
  proof cases
    case frame
    let ?f = "(e_state e, e_dnstap e, out)"
    have "written L ?f" using frame by (auto simp: written_def)
    with frame ok(3) have "emits L e b [] e' b'"
      unfolding emits_def by (intro conjI exI [of _ "[?f]"]) auto
    with frame encoder_next_result [OF frame(1)] show ?thesis by auto
  next
    case fail
    have "o_left b' = 0"
      using fail(3) nl out_pending_length [OF ok(1)] by simp
    with fail ok show ?thesis
      unfolding emits_def by (intro conjI exI [of _ "[]"]) auto
  qed
  with r ok encoding_world [OF r] show ?thesis by blast
qed

section \<open>Decoding the answers\<close>

text \<open>What a piece of \<open>write\<close> achieves: unless it fails the handle is sound and sent what it emitted.\<close>

definition write_post :: "('r, 'w) extlib \<Rightarrow> world \<Rightarrow> ('r, 'w) dnswire_writer \<Rightarrow>
    dnswire_result \<times> ('r, 'w) dnswire_writer \<times> world \<Rightarrow> bool" where
  "write_post L w h x = (case x of (res, h', w') \<Rightarrow> res \<noteq> dnswire_error \<longrightarrow> writer_ok h' \<and>
     (\<exists>out. sent w' = sent w @ out \<and>
        emits L (wr_encoder h) (wr_out h) out (wr_encoder h') (wr_out h')))"

lemma write_post_error [simp]: "write_post L w h (dnswire_error, h', w')"
  by (simp add: write_post_def)

lemma write_post_quiet:
  assumes "writer_ok h'" and "wr_encoder h' = wr_encoder h" and "wr_out h' = wr_out h"
    and "sent w' = sent w"
  shows "write_post L w h (res, h', w')"
  using assms emits_nothing by (auto simp: write_post_def)

lemma write_post_after:
  assumes "write_post L w1 h1 x" and "sent w1 = sent w @ out"
    and "emits L (wr_encoder h) (wr_out h) out (wr_encoder h1) (wr_out h1)"
  shows "write_post L w h x"
  using assms emits_trans [OF assms(3)] by (fastforce simp: write_post_def split: prod.splits)

lemma decoding_accept_post:
  assumes L: "extlib_ok L" and ok: "writer_ok h" and st: "wr_state h = dnswire_writer_decoding_accept"
  shows "\<exists>x. pop_decoding_accept L w h = Inr x \<and> write_post L w h x"
proof -
  have bi: "wr_bidirectional h" "in_live (wr_in h) \<noteq> []" "o_left (wr_out h) = 0"
    using ok st by (auto simp: writer_ok_def)
  note wok = writer_okD [OF ok]
  from decode_buffered [OF L wok(4) [OF bi(1)] bi(2) wok(3)] obtain dres d where
    load: "in_load (wr_in h) = Inr (in_live (wr_in h))"
    and dec: "dnswire_decoder_decode L (wr_decoder h) (in_live (wr_in h)) = Inr (dres, d)"
    and d: "decoder_ok d"
    and con: "dres \<in> {dnswire_again, dnswire_bidirectional, dnswire_have_dnstap} \<Longrightarrow>
      in_ok (in_consume (dnswire_decoder_decoded L d) (wr_in h)) \<and>
      in_live (in_consume (dnswire_decoder_decoded L d) (wr_in h)) =
        drop (dnswire_decoder_decoded L d) (in_live (wr_in h))"
    by metis
  from inq.make_room [OF wok(4) [OF bi(1)], of w] obtain rm b' w' where
    room: "in_need_more w (wr_in h) = Inr (rm, b', w')" "in_ok b'" "in_live b' = in_live (wr_in h)"
    by blast
  let ?c = "in_consume (dnswire_decoder_decoded L d) (wr_in h)"
  note eval = pop_decoding_accept_def load dec Let_def
  have q: "writer_ok (h\<lparr>wr_decoder := d, wr_in := b, wr_state := s\<rparr>)"
    if "in_ok b" "s \<in> {dnswire_writer_encoding, dnswire_writer_reading_accept}
       \<or> s = dnswire_writer_decoding_accept \<and> in_live b \<noteq> []" for b s
    using that wok bi d by (auto simp: writer_ok_def)
  show ?thesis
  proof (cases dres)
    case dnswire_bidirectional
    with con q [of ?c dnswire_writer_encoding] show ?thesis
      by (auto simp: eval intro!: write_post_quiet)
  next
    case dnswire_again
    with con q [of ?c dnswire_writer_reading_accept] q [of ?c dnswire_writer_decoding_accept]
      in_left_live [of ?c] show ?thesis
      by (auto simp: eval st intro!: write_post_quiet)
  next
    case dnswire_need_more
    with room q [of b' dnswire_writer_reading_accept] in_need_more_inbox [OF room(1)] show ?thesis
      by (cases rm) (auto simp: eval intro!: write_post_quiet)
  qed (simp_all add: eval)
qed

lemma decoding_finish_post:
  assumes L: "extlib_ok L" and ok: "writer_ok h" and st: "wr_state h = dnswire_writer_decoding_finish"
  shows "\<exists>x. pop_decoding_finish L w h = Inr x \<and> write_post L w h x"
proof -
  have bi: "wr_bidirectional h" "in_live (wr_in h) \<noteq> []" "o_left (wr_out h) = 0"
    using ok st by (auto simp: writer_ok_def)
  note wok = writer_okD [OF ok]
  from decode_buffered [OF L wok(4) [OF bi(1)] bi(2) wok(3)] obtain dres d where
    load: "in_load (wr_in h) = Inr (in_live (wr_in h))"
    and dec: "dnswire_decoder_decode L (wr_decoder h) (in_live (wr_in h)) = Inr (dres, d)"
    and d: "decoder_ok d"
    by metis
  from inq.make_room [OF wok(4) [OF bi(1)], of w] obtain rm b' w' where
    room: "in_need_more w (wr_in h) = Inr (rm, b', w')" "in_ok b'"
    by blast
  note eval = pop_decoding_finish_def load dec Let_def
  have q: "writer_ok (h\<lparr>wr_decoder := d, wr_in := b', wr_state := dnswire_writer_reading_accept\<rparr>)"
    "writer_ok (h\<lparr>wr_decoder := d, wr_state := dnswire_writer_done\<rparr>)"
    using wok bi d room by (auto simp: writer_ok_def)
  show ?thesis
  proof (cases dres)
    case dnswire_endofdata
    with q(2) show ?thesis by (auto simp: eval intro!: write_post_quiet)
  next
    case dnswire_need_more
    with room q(1) in_need_more_inbox [OF room(1)] show ?thesis
      by (cases rm) (auto simp: eval intro!: write_post_quiet)
  qed (simp_all add: eval)
qed

section \<open>The cases of write\<close>

text \<open>Changing the output side and the state keeps a handle sound under these conditions.\<close>

definition may_have_pending :: "dnswire_writer_state \<Rightarrow> bool" where
  "may_have_pending s \<longleftrightarrow> s \<in> {dnswire_writer_writing_ready, dnswire_writer_writing,
     dnswire_writer_stopping, dnswire_writer_writing_stop}"

definition undirected :: "dnswire_writer_state \<Rightarrow> bool" where
  "undirected s \<longleftrightarrow> s \<in> {dnswire_writer_encoding, dnswire_writer_writing, dnswire_writer_stopping,
     dnswire_writer_encoding_stop, dnswire_writer_writing_stop, dnswire_writer_done}"

definition stops :: "dnswire_writer_state \<Rightarrow> bool" where
  "stops s \<longleftrightarrow> s \<in> {dnswire_writer_stopping, dnswire_writer_encoding_stop}"

definition decoding :: "dnswire_writer_state \<Rightarrow> bool" where
  "decoding s \<longleftrightarrow> s \<in> {dnswire_writer_decoding_accept, dnswire_writer_decoding_finish}"

lemma writer_ok_output:
  assumes "writer_ok h" and "out_ok b" and "encoder_ok e" and "\<not> decoding s"
    and "o_left b = 0 \<or> may_have_pending s" and "undirected s \<or> wr_bidirectional h"
    and "stops s \<Longrightarrow> e_state e = dnswire_encoder_control_stop"
  shows "writer_ok (h\<lparr>wr_encoder := e, wr_out := b, wr_state := s\<rparr>)"
  using assms
  by (cases s) (simp_all add: writer_ok_def decoding_def may_have_pending_def undirected_def stops_def)

lemma writer_ok_output_same:
  assumes "writer_ok h" and "out_ok b" and "encoder_ok e" and "wr_state h = s" and "\<not> decoding s"
    and "o_left b = 0" and "\<not> stops s"
  shows "writer_ok (h\<lparr>wr_encoder := e, wr_out := b\<rparr>)"
proof -
  have "undirected (wr_state h) \<or> wr_bidirectional h"
    using assms(1) by (cases "wr_state h") (simp_all add: writer_ok_def undirected_def)
  then show ?thesis
    using writer_ok_output [OF assms(1-3), of "wr_state h"] assms(6) assms(5,7) [folded assms(4)]
    by simp
qed

lemma writer_ok_drained:
  assumes "writer_ok h" and "n \<le> o_left (wr_out h)" and "\<not> decoding s"
    and "o_left (out_drain n (wr_out h)) = 0 \<or> may_have_pending s"
    and "undirected s \<or> wr_bidirectional h" and "stops s \<Longrightarrow> s = wr_state h"
  shows "writer_ok (h\<lparr>wr_out := out_drain n (wr_out h), wr_state := s\<rparr>)"
proof -
  have "out_ok (out_drain n (wr_out h))"
    using outq.drain_ok [of "wr_out h" n] assms(1,2) by (simp add: writer_ok_def out_pending_length)
  moreover have "stops s \<Longrightarrow> e_state (wr_encoder h) = dnswire_encoder_control_stop"
    using assms(1,6) by (auto simp: writer_ok_def stops_def)
  ultimately have "writer_ok (h\<lparr>wr_encoder := wr_encoder h, wr_out := out_drain n (wr_out h), wr_state := s\<rparr>)"
    using writer_ok_output [OF assms(1) _ writer_okD(2) [OF assms(1)] assms(3-5)] by blast
  then show ?thesis by simp
qed

lemma writer_ok_drained_same:
  assumes "writer_ok h" and "n \<le> o_left (wr_out h)" and "\<not> decoding (wr_state h)"
    and "may_have_pending (wr_state h)" and "undirected (wr_state h) \<or> wr_bidirectional h"
  shows "writer_ok (h\<lparr>wr_out := out_drain n (wr_out h)\<rparr>)"
  using writer_ok_drained [OF assms(1-3) _ assms(5)] assms(4) by simp

lemma write_bytes_post:
  assumes b: "out_ok (wr_out h)"
  obtains w' where "write_bytes w h = Inr (None, w')"
  | w' n where "write_bytes w h = Inr (Some (h\<lparr>wr_out := out_drain n (wr_out h)\<rparr>), w')"
    "n \<le> o_left (wr_out h)" "sent w' = sent w @ take n (out_pending (wr_out h))"
proof -
  have pk: "out_peek (wr_out h) (o_left (wr_out h)) = Inr (out_pending (wr_out h))"
    using outq.peek_pending [OF b, of "o_left (wr_out h)"] out_pending_length [OF b] by simp
  obtain a w' where a: "sys_write w (out_pending (wr_out h)) = (a, w')"
    by (cases "sys_write w (out_pending (wr_out h))")
  show ?thesis
  proof (cases "a = None \<or> a = Some 0")
    case True
    with a pk that(1) show ?thesis by (auto simp: write_bytes_def)
  next
    case False
    then obtain k where k: "a = Some k" "k \<noteq> 0" by auto
    with sys_write_le [of w "out_pending (wr_out h)" k w'] a out_pending_length [OF b]
    have "k \<le> o_left (wr_out h)" "sent w' = sent w @ take k (out_pending (wr_out h))" by auto
    then show ?thesis
      using k a pk by (intro that(2) [of k w']) (simp_all add: write_bytes_def)
  qed
qed

lemma write_take_in_post:
  assumes b: "in_ok (wr_in h)"
  obtains w' where "write_take_in w h = Inr (None, w')"
  | w' bs b' where "write_take_in w h = Inr (Some (h\<lparr>wr_in := b'\<rparr>), w')" "in_ok b'" "bs \<noteq> []"
    "in_live b' = in_live (wr_in h) @ bs" "sent w' = sent w" "inbox w = bs @ inbox w'"
proof -
  obtain a w' where a: "sys_read w (in_room (wr_in h)) = (a, w')"
    by (cases "sys_read w (in_room (wr_in h))")
  show ?thesis
  proof (cases "a = None \<or> a = Some []")
    case True
    with a that(1) show ?thesis by (auto simp: write_take_in_def)
  next
    case False
    then obtain bs where bs: "a = Some bs" "bs \<noteq> []" by auto
    with a sys_read_length [of w "in_room (wr_in h)"] have "length bs \<le> in_room (wr_in h)" by blast
    from inq.append_live [OF b this] bs a sys_read_inbox [of w "in_room (wr_in h)" bs w']
      sys_read_sent [of w "in_room (wr_in h)"] that(2)
    show ?thesis by (auto simp: write_take_in_def)
  qed
qed

lemma write_reading_accept_post:
  assumes L: "extlib_ok L" and ok: "writer_ok h" and st: "wr_state h = dnswire_writer_reading_accept"
  shows "\<exists>x. write_reading_accept L w h = Inr x \<and> write_post L w h x"
proof -
  have bi: "wr_bidirectional h" "o_left (wr_out h) = 0"
    using ok st by (auto simp: writer_ok_def)
  from writer_okD(4) [OF ok bi(1)] show ?thesis
  proof (cases rule: write_take_in_post [where w = w])
    case (2 w1 bs b)
    let ?h = "h\<lparr>wr_in := b, wr_state := dnswire_writer_decoding_accept\<rparr>"
    have "writer_ok ?h"
      using ok 2 bi by (simp add: writer_ok_def)
    from decoding_accept_post [OF L this, of w1] obtain x where
      x: "pop_decoding_accept L w1 ?h = Inr x" "write_post L w1 ?h x" by auto
    have "write_post L w h x"
      by (rule write_post_after [OF x(2), of w "[]"]) (use 2 emits_nothing in auto)
    with 2 x(1) show ?thesis
      by (simp add: write_reading_accept_def write_decoding_accept_def)
  qed (simp add: write_reading_accept_def)
qed

lemma write_reading_finish_post:
  assumes L: "extlib_ok L" and ok: "writer_ok h" and st: "wr_state h = dnswire_writer_reading_finish"
  shows "\<exists>x. write_reading_finish L w h = Inr x \<and> write_post L w h x"
proof -
  have bi: "wr_bidirectional h" "o_left (wr_out h) = 0"
    using ok st by (auto simp: writer_ok_def)
  from writer_okD(4) [OF ok bi(1)] show ?thesis
  proof (cases rule: write_take_in_post [where w = w])
    case (2 w1 bs b)
    let ?h = "h\<lparr>wr_in := b, wr_state := dnswire_writer_decoding_finish\<rparr>"
    have "writer_ok ?h"
      using ok 2 bi by (simp add: writer_ok_def)
    from decoding_finish_post [OF L this, of w1] obtain x where
      x: "pop_decoding_finish L w1 ?h = Inr x" "write_post L w1 ?h x" by auto
    have "write_post L w h x"
      by (rule write_post_after [OF x(2), of w "[]"]) (use 2 emits_nothing in auto)
    with 2 x(1) show ?thesis
      by (simp add: write_reading_finish_def write_decoding_finish_def)
  qed (simp add: write_reading_finish_def)
qed

lemma write_writing_ready_post:
  assumes L: "extlib_ok L" and ok: "writer_ok h" and bi: "wr_bidirectional h"
    and st: "wr_state h \<in> {dnswire_writer_writing_ready, dnswire_writer_writing}"
  shows "\<exists>x. write_writing_ready L w res h = Inr x \<and> write_post L w h x"
  using writer_okD(1) [OF ok]
proof (cases rule: write_bytes_post [where w = w])
  case (2 w1 n)
  let ?b = "out_drain n (wr_out h)"
  have s: "\<not> decoding (wr_state h)" "may_have_pending (wr_state h)"
    using st by (auto simp: decoding_def may_have_pending_def)
  have em: "emits L (wr_encoder h) (wr_out h) (take n (out_pending (wr_out h))) (wr_encoder h) ?b"
    by (rule emits_drain [OF writer_okD(1) [OF ok] 2(2)])
  show ?thesis
  proof (cases "o_left ?b = 0")
    case False
    have "writer_ok (h\<lparr>wr_out := ?b\<rparr>)"
      using writer_ok_drained_same [OF ok 2(2) s] bi by simp
    with 2 em have "write_post L w h (res, h\<lparr>wr_out := ?b\<rparr>, w1)"
      by (auto simp: write_post_def)
    with False 2 show ?thesis by (simp add: write_writing_ready_def)
  next
    case True
    let ?h = "h\<lparr>wr_out := ?b, wr_state := dnswire_writer_reading_accept\<rparr>"
    have "writer_ok ?h"
      by (rule writer_ok_drained [OF ok 2(2)]) (use True bi in \<open>simp_all add: decoding_def stops_def\<close>)
    from write_reading_accept_post [OF L this, of w1] obtain x where
      x: "write_reading_accept L w1 ?h = Inr x" "write_post L w1 ?h x" by auto
    have "write_post L w h x"
      by (rule write_post_after [OF x(2) 2(3)]) (use em in simp)
    with True 2 x(1) show ?thesis by (simp add: write_writing_ready_def)
  qed
qed (simp add: write_writing_ready_def)

lemma write_writing_post:
  assumes ok: "writer_ok h" and st: "wr_state h = dnswire_writer_writing"
  shows "\<exists>x. write_writing w res h = Inr x \<and> write_post L w h x"
  using writer_okD(1) [OF ok]
proof (cases rule: write_bytes_post [where w = w])
  case (2 w1 n)
  let ?b = "out_drain n (wr_out h)"
  have em: "emits L (wr_encoder h) (wr_out h) (take n (out_pending (wr_out h))) (wr_encoder h) ?b"
    by (rule emits_drain [OF writer_okD(1) [OF ok] 2(2)])
  have "o_left ?b = 0 \<longrightarrow> writer_ok (h\<lparr>wr_out := ?b, wr_state := dnswire_writer_encoding\<rparr>)"
    using writer_ok_drained [OF ok 2(2), of dnswire_writer_encoding]
    by (auto simp: decoding_def undirected_def stops_def)
  moreover have "writer_ok (h\<lparr>wr_out := ?b\<rparr>)"
    using writer_ok_drained_same [OF ok 2(2)] st
    by (simp add: decoding_def may_have_pending_def undirected_def)
  ultimately show ?thesis
    using 2 em by (auto simp: write_writing_def write_post_def)
qed (simp add: write_writing_def)

lemma write_encoding_post:
  assumes L: "extlib_ok L" and ok: "writer_ok h" and st: "wr_state h = dnswire_writer_encoding"
  shows "\<exists>x. write_encoding L w h = Inr x \<and> write_post L w h x"
proof -
  have left: "o_left (wr_out h) = 0" using ok st by (auto simp: writer_ok_def)
  from encoding_emits [OF L writer_okD(2,1) [OF ok] left, of w] obtain res e b w1 where
    r: "encoding L w (wr_encoder h) (wr_out h) = Inr (res, e, b, w1)" "out_ok b" "encoder_ok e"
      "emits L (wr_encoder h) (wr_out h) [] e b" "sent w1 = sent w" by blast
  let ?h = "h\<lparr>wr_encoder := e, wr_out := b\<rparr>"
  show ?thesis
  proof (cases "res \<noteq> dnswire_error \<and> o_left b \<noteq> 0")
    case True
    have "writer_ok (?h\<lparr>wr_state := dnswire_writer_writing\<rparr>)"
      by (rule writer_ok_output [OF ok r(2,3)])
        (simp_all add: decoding_def may_have_pending_def undirected_def stops_def)
    from write_writing_post [OF this, where w = w1 and res = res and L = L] obtain x where
      x: "write_writing w1 res (?h\<lparr>wr_state := dnswire_writer_writing\<rparr>) = Inr x"
        "write_post L w1 (?h\<lparr>wr_state := dnswire_writer_writing\<rparr>) x" by auto
    have "write_post L w h x"
      by (rule write_post_after [OF x(2), of w "[]"]) (use r in simp_all)
    with True x(1) r(1) show ?thesis by (simp add: write_encoding_def)
  next
    case False
    have "o_left b = 0 \<longrightarrow> writer_ok ?h"
      using writer_ok_output_same [OF ok r(2,3) st] by (simp add: decoding_def stops_def)
    with False r show ?thesis
      by (auto simp: write_encoding_def write_post_def)
  qed
qed

lemma write_encoding_ready_post:
  assumes L: "extlib_ok L" and ok: "writer_ok h" and st: "wr_state h = dnswire_writer_encoding_ready"
  shows "\<exists>x. write_encoding_ready L w h = Inr x \<and> write_post L w h x"
proof -
  have left: "o_left (wr_out h) = 0" "wr_bidirectional h" using ok st by (auto simp: writer_ok_def)
  from encoding_emits [OF L writer_okD(2,1) [OF ok] left(1), of w] obtain res e b w1 where
    r: "encoding L w (wr_encoder h) (wr_out h) = Inr (res, e, b, w1)" "out_ok b" "encoder_ok e"
      "emits L (wr_encoder h) (wr_out h) [] e b" "sent w1 = sent w" by blast
  let ?h = "h\<lparr>wr_encoder := e, wr_out := b\<rparr>"
  show ?thesis
  proof (cases "res \<noteq> dnswire_error \<and> o_left b \<noteq> 0")
    case True
    have "writer_ok (?h\<lparr>wr_state := dnswire_writer_writing\<rparr>)"
      by (rule writer_ok_output [OF ok r(2,3)])
        (simp_all add: decoding_def may_have_pending_def undirected_def stops_def)
    from write_writing_ready_post [OF L this, of w1 res] left(2) obtain x where
      x: "write_writing_ready L w1 res (?h\<lparr>wr_state := dnswire_writer_writing\<rparr>) = Inr x"
        "write_post L w1 (?h\<lparr>wr_state := dnswire_writer_writing\<rparr>) x" by auto
    have "write_post L w h x"
      by (rule write_post_after [OF x(2), of w "[]"]) (use r in simp_all)
    with True x(1) r(1) show ?thesis by (simp add: write_encoding_ready_def)
  next
    case False
    have "o_left b = 0 \<longrightarrow> writer_ok ?h"
      using writer_ok_output_same [OF ok r(2,3) st] by (simp add: decoding_def stops_def)
    with False r show ?thesis
      by (auto simp: write_encoding_ready_def write_post_def)
  qed
qed

lemma write_pending_post:
  assumes ok: "writer_ok h" and st: "wr_state h \<in> {dnswire_writer_stopping, dnswire_writer_writing_stop}"
    and k: "\<And>b w1. out_ok b \<Longrightarrow> o_left b = 0 \<Longrightarrow>
      \<exists>x. k (h\<lparr>wr_out := b\<rparr>) w1 = Inr x \<and> write_post L w1 (h\<lparr>wr_out := b\<rparr>) x"
  shows "\<exists>x. write_pending w h k = Inr x \<and> write_post L w h x"
proof (cases "o_left (wr_out h) = 0")
  case True
  with k [OF writer_okD(1) [OF ok] True, of w] show ?thesis by (simp add: write_pending_def)
next
  case pending: False
  from writer_okD(1) [OF ok] show ?thesis
  proof (cases rule: write_bytes_post [where w = w])
    case 1
    with pending show ?thesis by (simp add: write_pending_def)
  next
    case (2 w1 n)
    let ?b = "out_drain n (wr_out h)"
    have em: "emits L (wr_encoder h) (wr_out h) (take n (out_pending (wr_out h))) (wr_encoder h) ?b"
      by (rule emits_drain [OF writer_okD(1) [OF ok] 2(2)])
    show ?thesis
    proof (cases "o_left ?b = 0")
      case False
      have "writer_ok (h\<lparr>wr_out := ?b\<rparr>)"
        by (rule writer_ok_drained_same [OF ok 2(2)])
          (use st in \<open>auto simp: decoding_def may_have_pending_def undirected_def\<close>)
      with False pending 2 em show ?thesis
        by (auto simp: write_pending_def write_post_def)
    next
      case True
      have "out_ok ?b"
        using outq.drain_ok [of "wr_out h" n] writer_okD(1) [OF ok] 2(2) by (simp add: out_pending_length)
      from k [OF this True, of w1] obtain x where
        x: "k (h\<lparr>wr_out := ?b\<rparr>) w1 = Inr x" "write_post L w1 (h\<lparr>wr_out := ?b\<rparr>) x" by blast
      have "write_post L w h x"
        by (rule write_post_after [OF x(2) 2(3)]) (use em in simp)
      with True pending 2 x(1) show ?thesis by (simp add: write_pending_def)
    qed
  qed
qed

lemma write_writing_stop_post:
  assumes ok: "writer_ok h" and st: "wr_state h = dnswire_writer_writing_stop"
  shows "\<exists>x. write_writing_stop w h = Inr x \<and> write_post L w h x"
  unfolding write_writing_stop_def
proof (rule write_pending_post [OF ok])
  fix b w1
  assume b: "out_ok b" "o_left b = 0"
  let ?h = "h\<lparr>wr_out := b\<rparr>"
  have "writer_ok (?h\<lparr>wr_state := s\<rparr>)"
    if "s = dnswire_writer_done \<or> s = dnswire_writer_reading_finish \<and> wr_bidirectional h" for s
    using writer_ok_output [OF ok b(1) writer_okD(2) [OF ok], of s] b(2) that
    by (auto simp: decoding_def undirected_def stops_def)
  then show "\<exists>x. (if wr_bidirectional ?h
       then Inr (dnswire_again, ?h\<lparr>wr_state := dnswire_writer_reading_finish\<rparr>, w1)
       else Inr (dnswire_endofdata, ?h\<lparr>wr_state := dnswire_writer_done\<rparr>, w1)) = Inr x \<and>
     write_post L w1 ?h x"
    by (auto intro!: write_post_quiet)
qed (simp add: st)

lemma write_encoding_stop_post:
  assumes L: "extlib_ok L" and ok: "writer_ok h" and st: "wr_state h = dnswire_writer_encoding_stop"
  shows "\<exists>x. write_encoding_stop L w h = Inr x \<and> write_post L w h x"
proof -
  have left: "o_left (wr_out h) = 0" using ok st by (auto simp: writer_ok_def)
  from encoding_emits [OF L writer_okD(2,1) [OF ok] left, of w] obtain res e b w1 where
    r: "encoding L w (wr_encoder h) (wr_out h) = Inr (res, e, b, w1)" "out_ok b" "encoder_ok e"
      "emits L (wr_encoder h) (wr_out h) [] e b" "sent w1 = sent w"
      "res \<noteq> dnswire_error \<longrightarrow> encoder_next (e_state (wr_encoder h)) = Some (e_state e, res)" by blast
  let ?h = "h\<lparr>wr_encoder := e, wr_out := b\<rparr>"
  show ?thesis
  proof (cases "res = dnswire_endofdata")
    case True
    have "writer_ok (?h\<lparr>wr_state := dnswire_writer_writing_stop\<rparr>)"
      by (rule writer_ok_output [OF ok r(2,3)])
        (simp_all add: decoding_def may_have_pending_def undirected_def stops_def)
    from write_writing_stop_post [OF this, where w = w1 and L = L] obtain x where
      x: "write_writing_stop w1 (?h\<lparr>wr_state := dnswire_writer_writing_stop\<rparr>) = Inr x"
        "write_post L w1 (?h\<lparr>wr_state := dnswire_writer_writing_stop\<rparr>) x" by auto
    have "write_post L w h x"
      by (rule write_post_after [OF x(2), of w "[]"]) (use r in simp_all)
    with True x(1) r(1) show ?thesis by (simp add: write_encoding_stop_def)
  next
    case False
    have "encoder_next (e_state (wr_encoder h)) = Some (dnswire_encoder_done, dnswire_endofdata)"
      using ok st by (simp add: writer_ok_def)
    with False r(6) have "res = dnswire_error" by auto
    with r(1) show ?thesis by (simp add: write_encoding_stop_def)
  qed
qed

lemma write_stopping_post:
  assumes L: "extlib_ok L" and ok: "writer_ok h" and st: "wr_state h = dnswire_writer_stopping"
  shows "\<exists>x. write_stopping L w h = Inr x \<and> write_post L w h x"
  unfolding write_stopping_def
proof (rule write_pending_post [OF ok])
  fix b w1
  assume b: "out_ok b" "o_left b = 0"
  let ?h = "h\<lparr>wr_out := b\<rparr>"
  have "writer_ok (?h\<lparr>wr_state := dnswire_writer_encoding_stop\<rparr>)"
    using ok b st by (simp add: writer_ok_def)
  from write_encoding_stop_post [OF L this, of w1] obtain x where
    x: "write_encoding_stop L w1 (?h\<lparr>wr_state := dnswire_writer_encoding_stop\<rparr>) = Inr x"
      "write_post L w1 (?h\<lparr>wr_state := dnswire_writer_encoding_stop\<rparr>) x" by auto
  have "write_post L w1 ?h x"
    by (rule write_post_after [OF x(2), of w1 "[]"]) (simp_all add: emits_nothing)
  with x(1) show "\<exists>x. write_encoding_stop L w1 (?h\<lparr>wr_state := dnswire_writer_encoding_stop\<rparr>) = Inr x \<and>
     write_post L w1 ?h x" by blast
qed (simp add: st)

lemma writer_write_returns:
  assumes L: "extlib_ok L" and ok: "writer_ok h"
  shows "\<exists>x. dnswire_writer_write L w h = Inr x \<and> write_post L w h x"
proof -
  have "o_buf (wr_out h) \<noteq> None"
    using writer_okD(1) [OF ok] by (auto elim: out_okD)
  then have eval: "dnswire_writer_write L w h = (case wr_state h of
        dnswire_writer_encoding_ready \<Rightarrow> write_encoding_ready L w h
      | dnswire_writer_writing_ready \<Rightarrow> write_writing_ready L w dnswire_again h
      | dnswire_writer_reading_accept \<Rightarrow> write_reading_accept L w h
      | dnswire_writer_decoding_accept \<Rightarrow> write_decoding_accept L w h
      | dnswire_writer_encoding \<Rightarrow> write_encoding L w h
      | dnswire_writer_writing \<Rightarrow> write_writing w dnswire_again h
      | dnswire_writer_stopping \<Rightarrow> write_stopping L w h
      | dnswire_writer_encoding_stop \<Rightarrow> write_encoding_stop L w h
      | dnswire_writer_writing_stop \<Rightarrow> write_writing_stop w h
      | dnswire_writer_reading_finish \<Rightarrow> write_reading_finish L w h
      | dnswire_writer_decoding_finish \<Rightarrow> write_decoding_finish L w h
      | dnswire_writer_done \<Rightarrow> Inr (dnswire_error, h, w))"
    by (simp add: dnswire_writer_write_def)
  have bi: "wr_state h = dnswire_writer_writing_ready \<Longrightarrow> wr_bidirectional h"
    using ok by (auto simp: writer_ok_def)
  show ?thesis
    using write_encoding_ready_post [OF L ok, of w] write_writing_ready_post [OF L ok bi, of w]
      write_reading_accept_post [OF L ok, of w] decoding_accept_post [OF L ok, of w]
      write_encoding_post [OF L ok, of w] write_writing_post [OF ok, of w]
      write_stopping_post [OF L ok, of w] write_encoding_stop_post [OF L ok, of w]
      write_writing_stop_post [OF ok, of w L] write_reading_finish_post [OF L ok, of w]
      decoding_finish_post [OF L ok, of w]
    unfolding eval write_decoding_accept_def write_decoding_finish_def
    by (cases "wr_state h") simp_all
qed

section \<open>The cases of pop in a unidirectional conversation\<close>

text \<open>
  What a piece of \<open>pop\<close> achieves when \<open>pre\<close> is at \<open>data\<close> before it: the bytes it emits replace
  them, so they are what was emitted only if there were none.
\<close>

definition pop_post :: "('r, 'w) extlib \<Rightarrow> nat \<Rightarrow> byte list \<Rightarrow> ('r, 'w) dnswire_writer \<Rightarrow>
    dnswire_result \<times> ('r, 'w) dnswire_writer \<times> world \<times> byte list \<times> nat \<Rightarrow> bool" where
  "pop_post L len pre h x = (case x of (res, h', w', out, taken_in) \<Rightarrow>
     length out \<le> len \<and> wr_popped h' = length out \<and> taken_in = 0 \<and>
     (res \<noteq> dnswire_error \<longrightarrow> writer_ok h' \<and> \<not> wr_bidirectional h' \<and>
        (pre = [] \<longrightarrow> emits L (wr_encoder h) (wr_out h) out (wr_encoder h') (wr_out h'))))"

lemma pop_post_after:
  assumes "pop_post L len pre h1 x"
    and "emits L (wr_encoder h) (wr_out h) [] (wr_encoder h1) (wr_out h1)"
  shows "pop_post L len pre h x"
  using assms emits_trans [OF assms(2)] by (fastforce simp: pop_post_def split: prod.splits)

lemma pop_bytes_post:
  assumes b: "out_ok (wr_out h)" and "pa_data a"
  shows "\<exists>n. pop_bytes a h = Inr (h\<lparr>wr_popped := n, wr_out := out_drain n (wr_out h)\<rparr>,
       take n (out_pending (wr_out h))) \<and> n = min (pa_len a) (o_left (wr_out h))"
proof -
  define n where "n = min (pa_len a) (o_left (wr_out h))"
  have n: "(if pa_len a < o_left (wr_out h) then pa_len a else o_left (wr_out h)) = n"
    by (simp add: n_def)
  have "out_peek (wr_out h) n = Inr (take n (out_pending (wr_out h)))"
    using outq.peek_pending [OF b, of n] out_pending_length [OF b] by (simp add: n_def)
  then show ?thesis
    using assms(2) by (simp add: pop_bytes_def Let_def n n_def [symmetric])
qed

lemma writer_ok_popped: "writer_ok (h\<lparr>wr_popped := n\<rparr>) = writer_ok h"
  by (simp add: writer_ok_def)

text \<open>Handing out in a state in which something may be pending.\<close>

lemma pop_drained:
  assumes ok: "writer_ok h" and uni: "\<not> wr_bidirectional h" and n: "n = min (pa_len a) (o_left (wr_out h))"
    and s: "s \<in> {wr_state h, t}" "s \<noteq> wr_state h \<longrightarrow> o_left (out_drain n (wr_out h)) = 0"
      "may_have_pending (wr_state h)" "undirected t" "\<not> stops t"
  shows "pop_post L (pa_len a) pre h (res, h\<lparr>wr_popped := n, wr_out := out_drain n (wr_out h), wr_state := s\<rparr>,
     w, take n (out_pending (wr_out h)), 0)"
proof -
  let ?h = "h\<lparr>wr_popped := n\<rparr>"
  have ok': "writer_ok ?h" using ok by (simp add: writer_ok_popped)
  have nl: "n \<le> o_left (wr_out ?h)" using n by simp
  have u: "undirected (wr_state h)" "\<not> decoding (wr_state h)"
    using ok uni s(3) unfolding may_have_pending_def
    by (auto simp: writer_ok_def undirected_def decoding_def)
  have v: "\<not> decoding t"
    using s(4) by (auto simp: undirected_def decoding_def)
  have "writer_ok (?h\<lparr>wr_out := out_drain n (wr_out ?h), wr_state := s\<rparr>)"
  proof (cases "s = wr_state h")
    case True
    have "writer_ok (?h\<lparr>wr_out := out_drain n (wr_out ?h)\<rparr>)"
      by (rule writer_ok_drained_same [OF ok' nl]) (use u s(3) in simp_all)
    with True show ?thesis by simp
  next
    case False
    then show ?thesis
      by (intro writer_ok_drained [OF ok' nl]) (use v s in auto)
  qed
  moreover have "emits L (wr_encoder h) (wr_out h) (take n (out_pending (wr_out h))) (wr_encoder h)
      (out_drain n (wr_out h))"
    using emits_drain [OF writer_okD(1) [OF ok]] nl by simp
  ultimately show ?thesis
    using n uni out_pending_length [OF writer_okD(1) [OF ok]] by (simp add: pop_post_def)
qed

lemma pop_writing_post:
  assumes ok: "writer_ok h" and uni: "\<not> wr_bidirectional h" and a: "pa_data a"
    and st: "wr_state h = dnswire_writer_writing"
  shows "\<exists>x. pop_writing w res a h = Inr x \<and> pop_post L (pa_len a) [] h x"
proof -
  from pop_bytes_post [OF writer_okD(1) [OF ok] a] obtain n where
    n: "pop_bytes a h = Inr (h\<lparr>wr_popped := n, wr_out := out_drain n (wr_out h)\<rparr>,
       take n (out_pending (wr_out h)))" "n = min (pa_len a) (o_left (wr_out h))" by blast
  have d: "pop_post L (pa_len a) [] h (res, h\<lparr>wr_popped := n, wr_out := out_drain n (wr_out h), wr_state := s\<rparr>,
     w, take n (out_pending (wr_out h)), 0)"
    if "s \<in> {wr_state h, dnswire_writer_encoding}" "s \<noteq> wr_state h \<longrightarrow> o_left (out_drain n (wr_out h)) = 0" for s
    by (rule pop_drained [OF ok uni n(2) that])
      (simp_all add: st may_have_pending_def undirected_def stops_def)
  from d [of dnswire_writer_encoding] d [of "wr_state h"] n(1) show ?thesis
    by (auto simp: pop_writing_def)
qed

lemma pop_encoding_post:
  assumes L: "extlib_ok L" and ok: "writer_ok h" and uni: "\<not> wr_bidirectional h" and a: "pa_data a"
    and st: "wr_state h = dnswire_writer_encoding" and p: "wr_popped h = 0"
  shows "\<exists>x. pop_encoding L w a h = Inr x \<and> pop_post L (pa_len a) [] h x"
proof -
  have left: "o_left (wr_out h) = 0" using ok st by (auto simp: writer_ok_def)
  from encoding_emits [OF L writer_okD(2,1) [OF ok] left, of w] obtain res e b w1 where
    r: "encoding L w (wr_encoder h) (wr_out h) = Inr (res, e, b, w1)" "out_ok b" "encoder_ok e"
      "emits L (wr_encoder h) (wr_out h) [] e b" by blast
  let ?h = "h\<lparr>wr_encoder := e, wr_out := b\<rparr>"
  show ?thesis
  proof (cases "res \<noteq> dnswire_error \<and> o_left b \<noteq> 0")
    case True
    have "writer_ok (?h\<lparr>wr_state := dnswire_writer_writing\<rparr>)"
      by (rule writer_ok_output [OF ok r(2,3)])
        (simp_all add: decoding_def may_have_pending_def undirected_def stops_def)
    from pop_writing_post [OF this _ a, where w = w1 and res = res and L = L] uni obtain x where
      x: "pop_writing w1 res a (?h\<lparr>wr_state := dnswire_writer_writing\<rparr>) = Inr x"
        "pop_post L (pa_len a) [] (?h\<lparr>wr_state := dnswire_writer_writing\<rparr>) x" by auto
    have "pop_post L (pa_len a) [] h x"
      by (rule pop_post_after [OF x(2)]) (use r in simp)
    with True x(1) r(1) show ?thesis by (simp add: pop_encoding_def)
  next
    case False
    have "o_left b = 0 \<longrightarrow> writer_ok ?h"
      using writer_ok_output_same [OF ok r(2,3) st] by (simp add: decoding_def stops_def)
    with False r uni p show ?thesis by (auto simp: pop_encoding_def pop_post_def)
  qed
qed

lemma pop_writing_stop_post:
  assumes ok: "writer_ok h" and uni: "\<not> wr_bidirectional h" and a: "pa_data a"
    and st: "wr_state h = dnswire_writer_writing_stop"
    and pre: "length pre = wr_popped h" "length pre \<le> pa_len a"
  shows "\<exists>x. pop_writing_stop w a pre h = Inr x \<and> pop_post L (pa_len a) pre h x"
proof (cases "o_left (wr_out h) = 0")
  case True
  have "writer_ok (h\<lparr>wr_state := dnswire_writer_done\<rparr>)"
    using ok True by (simp add: writer_ok_def)
  with True uni pre emits_nothing show ?thesis
    by (auto simp: pop_writing_stop_def pop_post_def)
next
  case False
  from pop_bytes_post [OF writer_okD(1) [OF ok] a] obtain n where
    n: "pop_bytes a h = Inr (h\<lparr>wr_popped := n, wr_out := out_drain n (wr_out h)\<rparr>,
       take n (out_pending (wr_out h)))" "n = min (pa_len a) (o_left (wr_out h))" by blast
  have d: "pop_post L (pa_len a) pre h (res, h\<lparr>wr_popped := n, wr_out := out_drain n (wr_out h), wr_state := s\<rparr>,
     w, take n (out_pending (wr_out h)), 0)"
    if "s \<in> {wr_state h, dnswire_writer_done}" "s \<noteq> wr_state h \<longrightarrow> o_left (out_drain n (wr_out h)) = 0" for s res
    by (rule pop_drained [OF ok uni n(2) that])
      (simp_all add: st may_have_pending_def undirected_def stops_def)
  from d [of dnswire_writer_done] d [of "wr_state h"] n(1) False uni show ?thesis
    by (auto simp: pop_writing_stop_def)
qed

lemma pop_encoding_stop_post:
  assumes L: "extlib_ok L" and ok: "writer_ok h" and uni: "\<not> wr_bidirectional h" and a: "pa_data a"
    and st: "wr_state h = dnswire_writer_encoding_stop"
    and pre: "length pre = wr_popped h" "length pre \<le> pa_len a"
  shows "\<exists>x. pop_encoding_stop L w a pre h = Inr x \<and> pop_post L (pa_len a) pre h x"
proof -
  have left: "o_left (wr_out h) = 0" using ok st by (auto simp: writer_ok_def)
  from encoding_emits [OF L writer_okD(2,1) [OF ok] left, of w] obtain res e b w1 where
    r: "encoding L w (wr_encoder h) (wr_out h) = Inr (res, e, b, w1)" "out_ok b" "encoder_ok e"
      "emits L (wr_encoder h) (wr_out h) [] e b"
      "res \<noteq> dnswire_error \<longrightarrow> encoder_next (e_state (wr_encoder h)) = Some (e_state e, res)" by blast
  let ?h = "h\<lparr>wr_encoder := e, wr_out := b\<rparr>"
  show ?thesis
  proof (cases "res = dnswire_endofdata")
    case True
    have "writer_ok (?h\<lparr>wr_state := dnswire_writer_writing_stop\<rparr>)"
      by (rule writer_ok_output [OF ok r(2,3)])
        (simp_all add: decoding_def may_have_pending_def undirected_def stops_def)
    from pop_writing_stop_post [OF this _ a, where w = w1 and L = L and pre = pre] uni pre
    obtain x where
      x: "pop_writing_stop w1 a pre (?h\<lparr>wr_state := dnswire_writer_writing_stop\<rparr>) = Inr x"
        "pop_post L (pa_len a) pre (?h\<lparr>wr_state := dnswire_writer_writing_stop\<rparr>) x" by auto
    have "pop_post L (pa_len a) pre h x"
      by (rule pop_post_after [OF x(2)]) (use r in simp)
    with True x(1) r(1) show ?thesis by (simp add: pop_encoding_stop_def)
  next
    case False
    have "encoder_next (e_state (wr_encoder h)) = Some (dnswire_encoder_done, dnswire_endofdata)"
      using ok st by (simp add: writer_ok_def)
    with False r(5) have "res = dnswire_error" by auto
    with r(1) pre show ?thesis by (simp add: pop_encoding_stop_def pop_post_def)
  qed
qed

end
