(* ===== verification/Writer_Traces.thy ===== *)
theory Writer_Traces
  imports Writer_Inv Decoder_Traces Encoder_Props
begin

text \<open>
  Properties of the writer: its calls are safe and keep the invariant, and what a run of calls
  hands out are the frames of the conversation, in order and without gaps.
\<close>

section \<open>Safety\<close>

text \<open>
  C10: From a sound handle, \<open>dnswire_writer_write\<close> returns, whatever the kernel answers to \<open>write\<close> and
  \<open>read\<close> and the allocator to \<open>realloc\<close>, in unidirectional and bidirectional conversations: no assertion
  fails, no access leaves a buffer or reads a byte that was not written. When the result is not
  \<open>dnswire_error\<close> the handle is sound again. After an error it need not be: once the peer has refused
  the content type, the next call can fail an assertion.
\<close>
theorem writer_write_safe:
  assumes "extlib_ok L" and "writer_ok h"
  shows "\<exists>res h' w'. dnswire_writer_write L w h = Inr (res, h', w') \<and>
     (res \<noteq> dnswire_error \<longrightarrow> writer_ok h')"
  using writer_write_returns [OF assms, of w] by (auto simp: write_post_def)

lemma default_outbuf_ok:
  "out_ok \<lparr>o_buf = Some (fresh_block DNSWIRE_DEFAULT_BUF_SIZE), o_size = DNSWIRE_DEFAULT_BUF_SIZE,
     o_inc = DNSWIRE_DEFAULT_BUF_SIZE, o_max = DNSWIRE_MAXIMUM_BUF_SIZE, o_at = 0, o_left = 0\<rparr>"
  by (simp add: out_ok_def out_limits_def DNSWIRE_DEFAULT_BUF_SIZE_def DNSWIRE_MAXIMUM_BUF_SIZE_def
      size_limit_def)

lemma writer_init_sound:
  assumes "dnswire_writer_init L w = (dnswire_ok, h, w')"
  shows "writer_ok h" and "\<not> wr_bidirectional h" and "wr_state h = dnswire_writer_encoding"
    and "wr_encoder h = DNSWIRE_ENCODER_INITIALIZER L" and "o_left (wr_out h) = 0"
    and "i_buf (wr_in h) = None"
    and "(wr_in h)\<lparr>i_buf := Some (fresh_block (i_size (wr_in h)))\<rparr> =
      \<lparr>i_buf = Some (fresh_block DNSWIRE_DEFAULT_BUF_SIZE), i_size = DNSWIRE_DEFAULT_BUF_SIZE,
       i_inc = DNSWIRE_DEFAULT_BUF_SIZE, i_max = DNSWIRE_MAXIMUM_BUF_SIZE, i_at = 0, i_left = 0\<rparr>"
    and "wr_decoder h = DNSWIRE_DECODER_INITIALIZER L"
proof -
  have h: "h = (writer_defaults L)\<lparr>wr_out := (wr_out (writer_defaults L))
      \<lparr>o_buf := Some (fresh_block (o_size (wr_out (writer_defaults L))))\<rparr>\<rparr>"
    using assms by (cases "sys_alloc w") (auto simp: dnswire_writer_init_def Let_def split: if_splits)
  show "writer_ok h"
    using default_outbuf_ok
    by (simp add: h writer_defaults_def writer_ok_def decoder_init_ok encoder_init_ok)
  show "\<not> wr_bidirectional h" and "wr_state h = dnswire_writer_encoding"
    and "wr_encoder h = DNSWIRE_ENCODER_INITIALIZER L" and "o_left (wr_out h) = 0"
    and "i_buf (wr_in h) = None"
    and "(wr_in h)\<lparr>i_buf := Some (fresh_block (i_size (wr_in h)))\<rparr> =
      \<lparr>i_buf = Some (fresh_block DNSWIRE_DEFAULT_BUF_SIZE), i_size = DNSWIRE_DEFAULT_BUF_SIZE,
       i_inc = DNSWIRE_DEFAULT_BUF_SIZE, i_max = DNSWIRE_MAXIMUM_BUF_SIZE, i_at = 0, i_left = 0\<rparr>"
    and "wr_decoder h = DNSWIRE_DECODER_INITIALIZER L"
    by (simp_all add: h writer_defaults_def)
qed

definition toy_out :: world where
  "toy_out = \<lparr>allocs = [], reads = [], inbox = [], writes = [100, 100], sent = []\<rparr>"

definition toy_writer0 :: "(toy_reader, nat) dnswire_writer" where
  "toy_writer0 = fst (snd (dnswire_writer_init toylib toy_out))"

lemma toy_writer_init: "dnswire_writer_init toylib toy_out = (dnswire_ok, toy_writer0, toy_out)"
  by (simp add: toy_writer0_def dnswire_writer_init_def sys_alloc_def toy_out_def Let_def)

lemmas toy_writer0_sound = writer_init_sound [OF toy_writer_init]

theorem writer_write_safe_witness:
  "\<exists>res h' w'. dnswire_writer_write toylib toy_out toy_writer0 = Inr (res, h', w') \<and>
     (res \<noteq> dnswire_error \<longrightarrow> writer_ok h')"
  by (rule writer_write_safe [OF toylib_ok toy_writer0_sound(1)])

lemma pop_post_weaken:
  assumes "pop_post L len pre h1 x" and "pre' \<noteq> []"
  shows "pop_post L len pre' h x"
  using assms by (auto simp: pop_post_def split: prod.splits)

lemma pop_stopping_post:
  assumes L: "extlib_ok L" and ok: "writer_ok h" and uni: "\<not> wr_bidirectional h" and a: "pa_data a"
    and st: "wr_state h = dnswire_writer_stopping" and p: "wr_popped h = 0"
  shows "\<exists>x. pop_stopping L w a h = Inr x \<and> pop_post L (pa_len a) (out_pending (wr_out h)) h x"
proof -
  have stop: "e_state (wr_encoder h) = dnswire_encoder_control_stop"
    using ok st by (simp add: writer_ok_def)
  have next_ok: "writer_ok (g\<lparr>wr_state := dnswire_writer_encoding_stop\<rparr>)"
    if "o_left (wr_out g) = 0" "writer_ok g" "wr_state g = dnswire_writer_stopping" for g :: "('a, 'b) dnswire_writer"
    using that by (simp add: writer_ok_def)
  show ?thesis
  proof (cases "o_left (wr_out h) = 0")
    case True
    let ?h = "h\<lparr>wr_state := dnswire_writer_encoding_stop\<rparr>"
    from pop_encoding_stop_post [OF L next_ok [OF True ok st] _ a, where pre = "[]" and w = w] uni p
    obtain x where x: "pop_encoding_stop L w a [] ?h = Inr x" "pop_post L (pa_len a) [] ?h x" by auto
    have "pop_post L (pa_len a) [] h x"
      by (rule pop_post_after [OF x(2)]) (simp add: emits_nothing)
    moreover have "out_pending (wr_out h) = []"
      using nothing_left [OF writer_okD(1) [OF ok] True] by simp
    ultimately show ?thesis using True x(1) by (simp add: pop_stopping_def)
  next
    case False
    from pop_bytes_post [OF writer_okD(1) [OF ok] a] obtain n where
      n: "pop_bytes a h = Inr (h\<lparr>wr_popped := n, wr_out := out_drain n (wr_out h)\<rparr>,
         take n (out_pending (wr_out h)))" "n = min (pa_len a) (o_left (wr_out h))" by blast
    let ?h = "h\<lparr>wr_popped := n, wr_out := out_drain n (wr_out h)\<rparr>"
    have d: "pop_post L (pa_len a) (out_pending (wr_out h)) h
       (res, h\<lparr>wr_popped := n, wr_out := out_drain n (wr_out h), wr_state := wr_state h\<rparr>,
        w, take n (out_pending (wr_out h)), 0)" for res
      by (rule pop_drained [OF ok uni n(2), where t = dnswire_writer_encoding])
        (simp_all add: st may_have_pending_def undirected_def stops_def)
    then have hok: "writer_ok ?h"
      by (simp add: pop_post_def) (metis dnswire_result.distinct(1))
    have len: "length (take n (out_pending (wr_out h))) = n" "n \<le> pa_len a"
      using n(2) out_pending_length [OF writer_okD(1) [OF ok]] by auto
    have ne: "out_pending (wr_out h) \<noteq> []"
      using False out_pending_length [OF writer_okD(1) [OF ok]] by auto
    show ?thesis
    proof (cases "o_left (out_drain n (wr_out h)) = 0")
      case True
      from pop_encoding_stop_post [OF L next_ok [of ?h] _ a, where w = w and pre = "take n (out_pending (wr_out h))"]
        True hok st uni len
      obtain x where x: "pop_encoding_stop L w a (take n (out_pending (wr_out h)))
           (?h\<lparr>wr_state := dnswire_writer_encoding_stop\<rparr>) = Inr x"
        "pop_post L (pa_len a) (take n (out_pending (wr_out h)))
           (?h\<lparr>wr_state := dnswire_writer_encoding_stop\<rparr>) x" by auto
      show ?thesis
        using pop_post_weaken [OF x(2) ne] x(1) True False n(1) by (simp add: pop_stopping_def)
    next
      case left: False
      with d [of dnswire_again] False n(1) show ?thesis by (simp add: pop_stopping_def)
    qed
  qed
qed

lemma pop_post_popped: "pop_post L len pre (h\<lparr>wr_popped := n\<rparr>) x = pop_post L len pre h x"
  by (simp add: pop_post_def)

lemma writer_pop_returns:
  assumes L: "extlib_ok L" and ok: "writer_ok h" and uni: "\<not> wr_bidirectional h"
    and a: "pa_data a" "0 < pa_len a"
  shows "\<exists>x. dnswire_writer_pop L w h a = Inr x \<and> pop_post L (pa_len a)
     (if wr_state h = dnswire_writer_stopping then out_pending (wr_out h) else []) h x"
proof -
  let ?h = "h\<lparr>wr_popped := 0\<rparr>"
  have ok0: "writer_ok ?h" using ok by (simp add: writer_ok_popped)
  have buf: "o_buf (wr_out h) \<noteq> None"
    using writer_okD(1) [OF ok] by (auto elim: out_okD)
  note eval = dnswire_writer_pop_def Let_def buf a uni
  have und: "undirected (wr_state h)"
    using ok uni by (cases "wr_state h") (simp_all add: writer_ok_def undirected_def)
  have u0: "\<not> wr_bidirectional ?h" using uni by simp
  show ?thesis
  proof (cases "wr_state h")
    case dnswire_writer_encoding
    with pop_encoding_post [OF L ok0 u0 a(1), of w] show ?thesis
      by (auto simp: eval pop_post_popped)
  next
    case dnswire_writer_writing
    with pop_writing_post [OF ok0 u0 a(1), of w dnswire_again L] show ?thesis
      by (auto simp: eval pop_post_popped)
  next
    case dnswire_writer_stopping
    with pop_stopping_post [OF L ok0 u0 a(1), of w] show ?thesis
      by (auto simp: eval pop_post_popped)
  next
    case dnswire_writer_encoding_stop
    with pop_encoding_stop_post [OF L ok0 u0 a(1), where pre = "[]" and w = w] show ?thesis
      by (auto simp: eval pop_post_popped)
  next
    case dnswire_writer_writing_stop
    with pop_writing_stop_post [OF ok0 u0 a(1), where pre = "[]" and w = w and L = L] show ?thesis
      by (auto simp: eval pop_post_popped)
  next
    case dnswire_writer_done
    then show ?thesis by (simp add: eval pop_post_def)
  qed (use und in \<open>simp_all add: undirected_def\<close>)
qed

text \<open>
  C11: From a sound handle of a unidirectional conversation, \<open>dnswire_writer_pop\<close> called with a \<open>data\<close>
  pointer and a \<open>len\<close> of at least 1 returns, hands out no more than \<open>len\<close> bytes, says how many in
  \<open>popped\<close>, and takes no input. When the result is not \<open>dnswire_error\<close> the handle is sound again.
\<close>
theorem writer_pop_safe:
  assumes "extlib_ok L" and "writer_ok h" and "\<not> wr_bidirectional h"
    and "pa_data a" and "0 < pa_len a"
  shows "\<exists>res h' w' out. dnswire_writer_pop L w h a = Inr (res, h', w', out, 0) \<and>
     length out \<le> pa_len a \<and> wr_popped h' = length out \<and>
     (res \<noteq> dnswire_error \<longrightarrow> writer_ok h' \<and> \<not> wr_bidirectional h')"
  using writer_pop_returns [OF assms, of w] by (auto simp: pop_post_def)

definition toy_pop :: pop_args where
  "toy_pop = \<lparr>pa_data = True, pa_len = 10, pa_in_data = None, pa_in_len = None\<rparr>"

theorem writer_pop_safe_witness:
  "\<exists>res h' w' out. dnswire_writer_pop toylib toy_out toy_writer0 toy_pop = Inr (res, h', w', out, 0) \<and>
     length out \<le> 10"
  using writer_pop_safe [OF toylib_ok toy_writer0_sound(1,2), of toy_pop toy_out]
  by (auto simp: toy_pop_def)

section \<open>What a run hands out\<close>

text \<open>
  A step of a user of the handle: a call of \<open>write\<close> or \<open>pop\<close> that did not return \<open>dnswire_error\<close>,
  setting a message that can be encoded, or stopping. \<open>pop\<close> is restricted to unidirectional
  conversations and, after a stop, to an output buffer with nothing pending: otherwise it loses what is
  pending (theory Writer_Limits).
\<close>

inductive writer_step :: "('r, 'w) extlib \<Rightarrow> ('r, 'w) dnswire_writer \<Rightarrow> dnstap list \<Rightarrow> byte list \<Rightarrow>
    ('r, 'w) dnswire_writer \<Rightarrow> bool" for L where
  step_write: "dnswire_writer_write L w h = Inr (res, h', w') \<Longrightarrow> res \<noteq> dnswire_error \<Longrightarrow>
     sent w' = sent w @ out \<Longrightarrow> writer_step L h [] out h'"
| step_pop: "dnswire_writer_pop L w h a = Inr (res, h', w', out, n) \<Longrightarrow> res \<noteq> dnswire_error \<Longrightarrow>
     \<not> wr_bidirectional h \<Longrightarrow> wr_state h \<noteq> dnswire_writer_stopping \<or> o_left (wr_out h) = 0 \<Longrightarrow>
     writer_step L h [] out h'"
| step_set: "encodable d \<Longrightarrow> writer_step L h [d] [] (dnswire_writer_set_dnstap h d)"
| step_stop: "dnswire_writer_stop h = (res, h') \<Longrightarrow> writer_step L h [] [] h'"

inductive writer_run :: "('r, 'w) extlib \<Rightarrow> ('r, 'w) dnswire_writer \<Rightarrow> dnstap list \<Rightarrow> byte list \<Rightarrow>
    ('r, 'w) dnswire_writer \<Rightarrow> bool" for L where
  writer_start: "writer_run L h [] [] h"
| writer_more: "writer_run L h ds outp h1 \<Longrightarrow> writer_step L h1 set_now out h2 \<Longrightarrow>
     writer_run L h (ds @ set_now) (outp @ out) h2"

lemma writer_stop_cases:
  assumes "dnswire_writer_stop h = (res, h')"
  shows "h' = h \<and> res = dnswire_error \<or> e_state (wr_encoder h) = dnswire_encoder_frames \<and>
     res = dnswire_ok \<and>
     h' = h\<lparr>wr_encoder := (wr_encoder h)\<lparr>e_state := dnswire_encoder_control_stop\<rparr>,
           wr_state := dnswire_writer_stopping\<rparr>"
  using assms
  by (cases "e_state (wr_encoder h)") (simp_all add: dnswire_writer_stop_def dnswire_encoder_stop_def Let_def)

lemma writer_stop_ok:
  assumes "writer_ok h" and "dnswire_writer_stop h = (res, h')"
  shows "writer_ok h'"
  using writer_stop_cases [OF assms(2)]
proof (elim disjE conjE)
  assume h': "h' = h\<lparr>wr_encoder := (wr_encoder h)\<lparr>e_state := dnswire_encoder_control_stop\<rparr>,
           wr_state := dnswire_writer_stopping\<rparr>"
  then show ?thesis
    using assms(1) by (simp add: writer_ok_def encoder_ok_def)
qed (use assms(1) in simp)

lemma pop_needs:
  assumes "dnswire_writer_pop L w h a = Inr x"
  shows "pa_data a" and "0 < pa_len a"
  using assms by (auto simp: dnswire_writer_pop_def assertF_def split: if_splits)

lemma writer_step_emits:
  assumes s: "writer_step L h ds out h'" and L: "extlib_ok L" and ok: "writer_ok h"
  shows "writer_ok h' \<and>
     ((ds = [] \<and> emits L (wr_encoder h) (wr_out h) out (wr_encoder h') (wr_out h')) \<or>
      (\<exists>d. ds = [d] \<and> out = [] \<and> h' = dnswire_writer_set_dnstap h d) \<or>
      (ds = [] \<and> out = [] \<and> (\<exists>res. dnswire_writer_stop h = (res, h'))))"
  using s
proof cases
  case (step_write w res w')
  with writer_write_returns [OF L ok, of w] show ?thesis by (auto simp: write_post_def)
next
  case (step_pop w a res w' n)
  have "out_pending (wr_out h) = []" if "wr_state h = dnswire_writer_stopping"
    using step_pop(5) that nothing_left [OF writer_okD(1) [OF ok]] by simp
  with step_pop writer_pop_returns [OF L ok step_pop(4) pop_needs [OF step_pop(2)], of w] show ?thesis
    by (auto simp: pop_post_def split: if_splits)
next
  case (step_set d)
  with ok show ?thesis
    by (auto simp: writer_ok_def encoder_ok_def dnswire_writer_set_dnstap_def
        dnswire_encoder_set_dnstap_def)
next
  case (step_stop res)
  with writer_stop_ok [OF ok] show ?thesis by auto
qed

lemma written_has_message:
  assumes "written L (dnswire_encoder_frames, d, bs)"
  shows "d \<noteq> None"
proof
  assume "d = None"
  with assms obtain e :: "'b dnswire_encoder" and len e' where
    "e_state e = dnswire_encoder_frames" "e_dnstap e = None"
    "dnswire_encoder_encode L e len = Inr (dnswire_ok, e', bs)"
    by (auto simp: written_def)
  then show False
    by (simp add: dnswire_encoder_encode_def encode_frame_def assertF_def split: if_splits)
qed

text \<open>
  What has been handed out and is pending, as frames of a conversation whose order \<open>allowed\<close> relates
  the state of the encoder to the frames it has emitted.
\<close>

definition sent_messages :: "wframe list \<Rightarrow> dnstap list" where
  "sent_messages fs = [m. (s, Some m, bs) \<leftarrow> fs, s = dnswire_encoder_frames]"

lemma sent_messages_simps [simp]:
  "sent_messages [] = []"
  "sent_messages ((s, d, bs) # fs) =
     (if s = dnswire_encoder_frames then (case d of None \<Rightarrow> [] | Some m \<Rightarrow> [m]) else []) @ sent_messages fs"
  by (simp_all add: sent_messages_def split: option.splits)

lemma sent_messages_append: "sent_messages (fs @ gs) = sent_messages fs @ sent_messages gs"
  by (induction fs rule: list.induct) auto

text \<open>Frames that were all written with the same message set.\<close>

lemma sent_messages_same:
  assumes "\<forall>g \<in> set gs. fst (snd g) = d"
  shows "\<exists>k. sent_messages gs = (case d of None \<Rightarrow> [] | Some m \<Rightarrow> replicate k m)"
  using assms
proof (induction gs)
  case (Cons g gs)
  then obtain k where k: "sent_messages gs = (case d of None \<Rightarrow> [] | Some m \<Rightarrow> replicate k m)" by auto
  obtain s d' bs where g: "g = (s, d', bs)" by (cases g)
  show ?case
  proof (cases "d = None \<or> s \<noteq> dnswire_encoder_frames")
    case True
    with Cons.prems k g show ?thesis by (intro exI [of _ k]) (auto split: option.split)
  next
    case False
    with Cons.prems k g show ?thesis by (intro exI [of _ "Suc k"]) auto
  qed
qed (simp split: option.split)

text \<open>The messages \<open>ds\<close> in their order, each some number of times.\<close>

definition in_turn :: "'a list \<Rightarrow> 'a list \<Rightarrow> bool" where
  "in_turn ds ms \<longleftrightarrow> (\<exists>ns. length ns = length ds \<and> ms = concat (map2 replicate ns ds))"

lemma in_turn_nil [simp]: "in_turn [] []"
  by (simp add: in_turn_def)

lemma in_turn_set: "in_turn ds ms \<Longrightarrow> in_turn (ds @ [d]) ms"
  unfolding in_turn_def by (elim exE, rule_tac x = "ns @ [0]" in exI) simp

lemma in_turn_sent:
  assumes "in_turn ds ms" and "ds \<noteq> []"
  shows "in_turn ds (ms @ replicate k (last ds))"
proof -
  obtain ds' d where ds: "ds = ds' @ [d]" using assms(2) by (cases ds rule: rev_cases) auto
  from assms(1) obtain ns where n: "length ns = length ds" "ms = concat (map2 replicate ns ds)"
    by (auto simp: in_turn_def)
  then obtain ns' n where ns: "ns = ns' @ [n]" "length ns' = length ds'"
    using ds by (cases ns rule: rev_cases) auto
  show ?thesis unfolding in_turn_def
    by (rule exI [of _ "ns' @ [n + k]"]) (use n ns ds in \<open>simp add: replicate_add\<close>)
qed

definition conversation_in :: "(dnswire_encoder_state \<Rightarrow> dnswire_encoder_state list \<Rightarrow> bool) \<Rightarrow>
    ('r, 'w) extlib \<Rightarrow> dnstap list \<Rightarrow> byte list \<Rightarrow> ('r, 'w) dnswire_writer \<Rightarrow> bool" where
  "conversation_in allowed L ds outp h \<longleftrightarrow> (\<exists>fs. list_all (written L) fs \<and>
     allowed (e_state (wr_encoder h)) (map fst fs) \<and>
     (\<forall>(s, d, bs) \<in> set fs. s = dnswire_encoder_frames \<longrightarrow> (\<exists>m \<in> set ds. d = Some m)) \<and>
     outp @ out_pending (wr_out h) = frame_bytes fs \<and> in_turn ds (sent_messages fs))"

definition conversation :: "('r, 'w) extlib \<Rightarrow> dnstap list \<Rightarrow> byte list \<Rightarrow> ('r, 'w) dnswire_writer \<Rightarrow>
    bool" where
  "conversation L ds outp h \<longleftrightarrow> conversation_in sender_trace L ds outp h"

definition message_set :: "dnstap list \<Rightarrow> ('r, 'w) dnswire_writer \<Rightarrow> bool" where
  "message_set ds h \<longleftrightarrow> (case e_dnstap (wr_encoder h) of None \<Rightarrow> True | Some m \<Rightarrow> ds \<noteq> [] \<and> m = last ds)"

lemma writer_run_ok:
  assumes "writer_run L h ds outp h'" and "extlib_ok L" and "writer_ok h"
  shows "writer_ok h'"
  using assms
proof (induction rule: writer_run.induct)
  case (writer_more h ds outp h1 set_now out h2)
  then show ?case using writer_step_emits [of L h1 set_now out h2] by simp
qed simp

text \<open>
  The interface between the encoder and what is said of its frames: an order that every frame the
  encoder emits extends, and that a stop does not disturb. Whatever has it holds for every run of
  the handle.
\<close>

locale frame_order =
  fixes allowed :: "dnswire_encoder_state \<Rightarrow> dnswire_encoder_state list \<Rightarrow> bool"
  assumes order_emit: "allowed s tr \<Longrightarrow> encoder_next s = Some (s', res) \<Longrightarrow> allowed s' (tr @ [s])"
    and order_stop: "allowed dnswire_encoder_frames tr \<Longrightarrow> allowed dnswire_encoder_control_stop tr"
begin

lemma path_kept:
  "frame_path s fs s' \<Longrightarrow> allowed s tr \<Longrightarrow> allowed s' (tr @ map fst fs)"
proof (induction fs arbitrary: s tr)
  case (Cons f fs)
  obtain t d bs where f: "f = (t, d, bs)" by (cases f)
  with Cons.prems(1) obtain s1 res where "encoder_next s = Some (s1, res)" "frame_path s1 fs s'" "t = s"
    by (auto split: option.splits)
  with Cons.IH [of s1 "tr @ [s]"] order_emit [OF Cons.prems(2)] f show ?case by simp
qed simp

lemma emits_kept:
  assumes c: "conversation_in allowed L ds outp h" and m: "message_set ds h"
    and e: "emits L (wr_encoder h) (wr_out h) out (wr_encoder h') (wr_out h')"
  shows "conversation_in allowed L ds (outp @ out) h' \<and> message_set ds h'"
proof -
  from c obtain fs where f: "list_all (written L) fs"
    "allowed (e_state (wr_encoder h)) (map fst fs)"
    "\<forall>(s, d, bs) \<in> set fs. s = dnswire_encoder_frames \<longrightarrow> (\<exists>m \<in> set ds. d = Some m)"
    "outp @ out_pending (wr_out h) = frame_bytes fs" "in_turn ds (sent_messages fs)"
    by (auto simp: conversation_in_def)
  from e obtain gs where g: "list_all (written L) gs"
    "frame_path (e_state (wr_encoder h)) gs (e_state (wr_encoder h'))"
    "\<forall>g \<in> set gs. fst (snd g) = e_dnstap (wr_encoder h)"
    "out @ out_pending (wr_out h') = out_pending (wr_out h) @ frame_bytes gs"
    and dn: "e_dnstap (wr_encoder h') = e_dnstap (wr_encoder h)"
    by (auto simp: emits_def)
  have "\<forall>(s, d, bs) \<in> set gs. s = dnswire_encoder_frames \<longrightarrow> (\<exists>m \<in> set ds. d = Some m)"
  proof (clarify)
    fix s d bs
    assume x: "(dnswire_encoder_frames, d, bs) \<in> set gs"
    with g(1) have "written L (dnswire_encoder_frames, d, bs)" by (auto simp: list_all_iff)
    then have "d \<noteq> None" by (rule written_has_message)
    moreover have "d = e_dnstap (wr_encoder h)" using g(3) x by fastforce
    ultimately show "\<exists>m \<in> set ds. d = Some m"
      using m by (auto simp: message_set_def)
  qed
  moreover have "allowed (e_state (wr_encoder h')) (map fst (fs @ gs))"
    using path_kept [OF g(2) f(2)] by simp
  moreover have "(outp @ out) @ out_pending (wr_out h') = frame_bytes (fs @ gs)"
  proof -
    have "(outp @ out) @ out_pending (wr_out h') = (outp @ out_pending (wr_out h)) @ frame_bytes gs"
      using g(4) by simp
    then show ?thesis using f(4) by simp
  qed
  moreover have "in_turn ds (sent_messages (fs @ gs))"
  proof -
    from sent_messages_same [OF g(3)] obtain k where
      "sent_messages gs = (case e_dnstap (wr_encoder h) of None \<Rightarrow> [] | Some m \<Rightarrow> replicate k m)" by blast
    with m in_turn_sent [OF f(5), of k] f(5) show ?thesis
      by (auto simp: message_set_def sent_messages_append split: option.splits)
  qed
  ultimately have "conversation_in allowed L ds (outp @ out) h'"
    using f(1,3) g(1) unfolding conversation_in_def by (intro exI [of _ "fs @ gs"]) auto
  with m dn show ?thesis by (simp add: message_set_def)
qed

lemma stop_kept:
  assumes c: "conversation_in allowed L ds outp h" and "dnswire_writer_stop h = (res, h')"
  shows "conversation_in allowed L ds outp h'"
  using writer_stop_cases [OF assms(2)]
proof (elim disjE conjE)
  assume "e_state (wr_encoder h) = dnswire_encoder_frames"
    and "h' = h\<lparr>wr_encoder := (wr_encoder h)\<lparr>e_state := dnswire_encoder_control_stop\<rparr>,
           wr_state := dnswire_writer_stopping\<rparr>"
  then show ?thesis using c order_stop unfolding conversation_in_def by auto
qed (use c in simp)

lemma set_kept:
  assumes "conversation_in allowed L ds outp h"
  shows "conversation_in allowed L (ds @ [d]) outp (dnswire_writer_set_dnstap h d)"
proof -
  from assms obtain fs where f: "list_all (written L) fs" "allowed (e_state (wr_encoder h)) (map fst fs)"
    "\<forall>(s, d, bs) \<in> set fs. s = dnswire_encoder_frames \<longrightarrow> (\<exists>m \<in> set ds. d = Some m)"
    "outp @ out_pending (wr_out h) = frame_bytes fs" "in_turn ds (sent_messages fs)"
    by (auto simp: conversation_in_def)
  have "\<forall>(s, d', bs) \<in> set fs. s = dnswire_encoder_frames \<longrightarrow> (\<exists>m \<in> set (ds @ [d]). d' = Some m)"
    using f(3) by fastforce
  with f in_turn_set [OF f(5)] show ?thesis
    unfolding conversation_in_def
    by (intro exI [of _ fs]) (simp add: dnswire_writer_set_dnstap_def dnswire_encoder_set_dnstap_def)
qed

lemma run_kept:
  assumes "writer_run L h ds outp h'" and L: "extlib_ok L" and "writer_ok h"
    and "conversation_in allowed L [] [] h" and "message_set [] h"
  shows "writer_ok h' \<and> conversation_in allowed L ds outp h' \<and> message_set ds h'"
  using assms
proof (induction rule: writer_run.induct)
  case (writer_more h ds outp h1 set_now out h2)
  then have ok: "writer_ok h1" and c: "conversation_in allowed L ds outp h1" and m: "message_set ds h1" by auto
  from writer_step_emits [OF writer_more.hyps(2) L ok] have ok2: "writer_ok h2"
    and cs: "(set_now = [] \<and> emits L (wr_encoder h1) (wr_out h1) out (wr_encoder h2) (wr_out h2)) \<or>
      (\<exists>d. set_now = [d] \<and> out = [] \<and> h2 = dnswire_writer_set_dnstap h1 d) \<or>
      (set_now = [] \<and> out = [] \<and> (\<exists>res. dnswire_writer_stop h1 = (res, h2)))" by auto
  from cs show ?case
  proof (elim disjE exE conjE)
    assume "set_now = []" "emits L (wr_encoder h1) (wr_out h1) out (wr_encoder h2) (wr_out h2)"
    with emits_kept [OF c m] ok2 show ?thesis by simp
  next
    fix d
    assume "set_now = [d]" "out = []" "h2 = dnswire_writer_set_dnstap h1 d"
    with set_kept [OF c, of d] ok2 show ?thesis
      by (simp add: message_set_def dnswire_writer_set_dnstap_def dnswire_encoder_set_dnstap_def)
  next
    fix res
    assume st: "set_now = []" "out = []" "dnswire_writer_stop h1 = (res, h2)"
    have "e_dnstap (wr_encoder h2) = e_dnstap (wr_encoder h1)"
      using writer_stop_cases [OF st(3)] by auto
    with stop_kept [OF c st(3)] st(1,2) ok2 m show ?thesis by (simp add: message_set_def)
  qed
qed simp

end

interpretation uni: frame_order sender_trace
  by unfold_locales (auto intro: sender_trace_emit)

lemma writer_conversation:
  assumes "dnswire_writer_init L w = (dnswire_ok, h, w')" and "extlib_ok L"
    and "writer_run L h ds outp h'"
  shows "conversation L ds outp h'"
proof -
  note i = writer_init_sound [OF assms(1)]
  have "out_pending (wr_out h) = []"
    using nothing_left [OF writer_okD(1) [OF i(1)] i(5)] by simp
  then have "conversation L [] [] h"
    unfolding conversation_def conversation_in_def
    by (intro exI [of _ "[]"]) (simp add: i(4) DNSWIRE_ENCODER_INITIALIZER_def)
  moreover have "message_set [] h"
    by (simp add: message_set_def i(4) DNSWIRE_ENCODER_INITIALIZER_def)
  ultimately show ?thesis
    using uni.run_kept [OF assms(3,2) i(1)] unfolding conversation_def by blast
qed

text \<open>
  C7: What a new writer has handed out, followed by what is pending, are the frames of a
  unidirectional conversation: START, then frames of the messages the user has set, in the order they
  were set and each any number of times, then at most one STOP. This holds for any mixture of \<open>write\<close>
  and \<open>pop\<close> calls that do not fail, however the frames are cut and whatever the kernel and the allocator
  answer, with one exception: after \<open>stop\<close>, \<open>pop\<close> may not be called while bytes are pending (it would lose
  them); \<open>write\<close> may. The messages that are set must be such that they can be encoded.
\<close>
theorem writer_sends_conversation:
  assumes "dnswire_writer_init L w = (dnswire_ok, h, w')" and "extlib_ok L"
    and "writer_run L h ds outp h'"
  shows "conversation L ds outp h'"
  by (rule writer_conversation [OF assms])

text \<open>An evaluation rule: a frame that fits at once.\<close>

lemma encoding_first:
  assumes L: "extlib_ok L" and e: "encoder_ok e" and b: "out_ok b" "o_left b = 0"
    and enc: "dnswire_encoder_encode L e (o_size b) = Inr (res, e', out)"
    and res: "res \<in> {dnswire_ok, dnswire_again, dnswire_endofdata}"
  shows "\<exists>b'. encoding L w e b = Inr (res, e', b', w) \<and> out_pending b' = out \<and> out_ok b' \<and>
     o_size b' = o_size b"
proof -
  have at: "o_at b = 0" using b by (auto elim: out_okD)
  note nl = nothing_left [OF b]
  from encode_at_props [OF L e b(1)] nl at obtain m where
    m: "encode_at L e b = Inr (res, e', b\<lparr>o_buf := Some m\<rparr>)" "length out \<le> o_size b"
      "mem_store (o_buf b) (o_at b) out = Inr (Some m)"
    using enc by auto
  have n: "dnswire_encoder_encoded L e' = length out"
    using encode_contract [OF L e enc] res by auto
  let ?b = "b\<lparr>o_buf := Some m, o_at := length out, o_left := length out\<rparr>"
  have sz: "length out < size_limit" using m(2) b(1) by (auto elim!: out_okD)
  have "encoding L w e b = Inr (res, e', ?b, w)"
    using m(1) n res at b(2) sz by (auto simp: encoding_def sz_add_exact)
  moreover have "out_ok ?b \<and> out_pending ?b = out"
    using store_behind [OF b(1), of out] m(2,3) at b(2) nl by auto
  moreover have "o_size ?b = o_size b" by simp
  ultimately show ?thesis by (intro exI [of _ ?b] conjI) (assumption | elim conjE)+
qed

lemma toy_start:
  "\<exists>e out. dnswire_encoder_encode toylib (DNSWIRE_ENCODER_INITIALIZER toylib) 4096 =
     Inr (dnswire_again, e, out) \<and> out \<noteq> [] \<and> length out \<le> 100"
  by (simp add: dnswire_encoder_encode_def encoder_wrote_def toylib_def toy_emit_def
      toy_control_def DNSWIRE_ENCODER_INITIALIZER_def content_type_length
      DNSTAP_PROTOBUF_CONTENT_TYPE_LENGTH_def)

text \<open>Likewise for a call of \<open>write\<close> with nothing pending, when the kernel takes everything.\<close>

lemma write_whole:
  assumes L: "extlib_ok L" and ok: "writer_ok h" and st: "wr_state h = dnswire_writer_encoding"
    and enc: "dnswire_encoder_encode L (wr_encoder h) (o_size (wr_out h)) = Inr (res, e, out)"
    and res: "res \<in> {dnswire_ok, dnswire_again}" and out: "out \<noteq> []"
    and w: "sys_write w out = (Some (length out), w')"
  shows "\<exists>b. dnswire_writer_write L w h = Inr (res, h\<lparr>wr_encoder := e, wr_out := b\<rparr>, w') \<and>
     o_size b = o_size (wr_out h) \<and> out_ok b \<and> out_pending b = []"
proof -
  have left0: "o_left (wr_out h) = 0" using ok st by (simp add: writer_ok_def)
  note wok = writer_okD [OF ok]
  from encoding_first [OF L wok(2,1) left0 enc, of w] res obtain b where
    b: "encoding L w (wr_encoder h) (wr_out h) = Inr (res, e, b, w)" "out_pending b = out" "out_ok b"
      "o_size b = o_size (wr_out h)" by auto
  have left: "o_left b = length out" using out_pending_length [OF b(3)] b(2) by simp
  let ?g = "h\<lparr>wr_encoder := e, wr_out := b, wr_state := dnswire_writer_writing\<rparr>"
  have pk: "out_peek b (o_left b) = Inr out"
    using outq.peek_pending [OF b(3), of "o_left b"] b(2) left by simp
  let ?d = "out_drain (length out) b"
  have d: "out_ok ?d" "out_pending ?d = []"
    using outq.drain_ok [OF b(3), of "length out"] outq.drain_pending [OF b(3), of "length out"] b(2)
    by simp_all
  have wr: "write_bytes w ?g = Inr (Some (?g\<lparr>wr_out := ?d\<rparr>), w')"
    using pk w out by (simp add: write_bytes_def)
  have left1: "o_left ?d = 0" using out_pending_length [OF d(1)] d(2) by simp
  have same: "?g\<lparr>wr_out := ?d, wr_state := dnswire_writer_encoding\<rparr> = h\<lparr>wr_encoder := e, wr_out := ?d\<rparr>"
    using st by simp
  have "o_buf (wr_out h) \<noteq> None" using wok(1) by (auto elim: out_okD)
  moreover have "write_encoding L w h = Inr (res, h\<lparr>wr_encoder := e, wr_out := ?d\<rparr>, w')"
    using b(1) left out res wr left1 same
    by (auto simp: write_encoding_def write_writing_def)
  ultimately show ?thesis
    using st d b(4) by (auto simp: dnswire_writer_write_def out_drain_def Let_def)
qed

lemma toy_write:
  "\<exists>h w. dnswire_writer_write toylib toy_out toy_writer0 = Inr (dnswire_again, h, w) \<and> sent w \<noteq> []"
proof -
  have sz: "o_size (wr_out toy_writer0) = 4096"
    by (simp add: toy_writer0_def dnswire_writer_init_def writer_defaults_def toy_out_def
        sys_alloc_def DNSWIRE_DEFAULT_BUF_SIZE_def Let_def)
  note i = toy_writer0_sound
  from toy_start obtain e out where
    e: "dnswire_encoder_encode toylib (wr_encoder toy_writer0) (o_size (wr_out toy_writer0)) =
        Inr (dnswire_again, e, out)" "out \<noteq> []" "length out \<le> 100"
    by (auto simp: i(4) sz)
  have "sys_write toy_out out = (Some (length out), toy_out\<lparr>writes := [100], sent := out\<rparr>)"
    using e(3) by (simp add: sys_write_def toy_out_def)
  from write_whole [OF toylib_ok i(1,3) e(1) _ e(2) this] e(2) show ?thesis by auto
qed

theorem writer_sends_conversation_witness:
  "\<exists>outp h. outp \<noteq> [] \<and> writer_run toylib toy_writer0 [] outp h \<and> conversation toylib [] outp h"
proof -
  from toy_write obtain h w where
    h: "dnswire_writer_write toylib toy_out toy_writer0 = Inr (dnswire_again, h, w)" "sent w \<noteq> []" by blast
  have out: "sent w = sent toy_out @ sent w" by (simp add: toy_out_def)
  from writer_more [OF writer_start step_write [OF h(1) _ out]]
  have run: "writer_run toylib toy_writer0 [] (sent w) h" by simp
  from writer_sends_conversation [OF toy_writer_init toylib_ok run] run h(2) show ?thesis by blast
qed

end
