(* ===== verification/Progress.thy ===== *)
theory Progress
  imports Buffered Outbuf Toylib
begin

text \<open>
  What calls use up: the answers of the kernel, and the bytes the decoder consumes whenever it finds
  something.
\<close>

section \<open>The kernel\<close>

lemma sys_write_uses:
  "sys_write w bs = (Some k, w') \<Longrightarrow>
     length (writes w) = Suc (length (writes w')) \<and> reads w' = reads w \<and> inbox w' = inbox w"
  by (auto simp: sys_write_def Let_def split: list.splits if_splits)

lemma sys_read_uses:
  "sys_read w n = (Some bs, w') \<Longrightarrow>
     length (reads w) = Suc (length (reads w')) \<and> writes w' = writes w \<and> inbox w = bs @ inbox w'"
  by (auto simp: sys_read_def Let_def split: list.splits if_splits)

definition same_io :: "world \<Rightarrow> world \<Rightarrow> bool" where
  "same_io w w' \<longleftrightarrow> writes w' = writes w \<and> reads w' = reads w \<and> inbox w' = inbox w \<and> sent w' = sent w"

lemma same_io_simps [simp]:
  "same_io w w"
  "same_io w (w\<lparr>allocs := bs\<rparr>)"
  by (simp_all add: same_io_def)

lemma same_io_trans: "same_io w w1 \<Longrightarrow> same_io w1 w2 \<Longrightarrow> same_io w w2"
  by (simp add: same_io_def)

lemma sys_alloc_io: "sys_alloc w = (x, w') \<Longrightarrow> same_io w w'"
  by (auto simp: sys_alloc_def split: list.splits)

lemma encoding_loop_io: "encoding_loop fuel L w e b = Inr (res, e', b', w') \<Longrightarrow> same_io w w'"
proof (induction fuel arbitrary: w e b)
  case (Suc fuel)
  from Suc.prems obtain x where x: "encode_at L e b = Inr x"
    by (cases "encode_at L e b") simp_all
  obtain r1 e1 b1 where x': "x = (r1, e1, b1)" by (cases x)
  obtain a w1 where a: "sys_alloc w = (a, w1)" by (cases "sys_alloc w")
  show ?case
    using Suc.prems Suc.IH sys_alloc_io [OF a] same_io_trans [of w w1 w']
    by (cases a) (auto simp: x x' a Let_def split: if_splits)
qed simp

lemma encoding_io: "encoding L w e b = Inr (res, e', b', w') \<Longrightarrow> same_io w w'"
  unfolding encoding_def by (rule encoding_loop_io)

lemma in_need_more_io: "in_need_more w b = Inr (rm, b', w') \<Longrightarrow> same_io w w'"
  by (auto simp: in_need_more_def sys_alloc_def Let_def bindF_eq_Inr split: if_splits list.splits)

section \<open>The decoder\<close>

text \<open>
  \<open>tinyframe\<close>: a control frame header, a field and a frame are at least one byte long each, so a
  call that found one consumed something.
\<close>

definition tinyframe_consumes :: "('r, 'w) extlib \<Rightarrow> bool" where
  "tinyframe_consumes L \<longleftrightarrow>
     (\<forall>r data res r'. tf_read L r data = (res, r') \<longrightarrow>
        res \<in> {tinyframe_have_control, tinyframe_have_control_field, tinyframe_have_frame} \<longrightarrow>
        0 < tf_bytes_read L r')"

lemma decode_found:
  assumes "dnswire_decoder_decode L h data = Inr (res, h')"
    and "res \<in> {dnswire_again, dnswire_bidirectional, dnswire_have_dnstap}"
  shows "\<exists>tf. tf_read L (dc_reader h) data = (tf, dc_reader h') \<and>
     tf \<in> {tinyframe_have_control, tinyframe_have_control_field, tinyframe_have_frame}"
proof -
  obtain tf r where t: "tf_read L (dc_reader h) data = (tf, r)"
    by (cases "tf_read L (dc_reader h) data")
  show ?thesis
    using assms
    by (cases "dc_state h"; cases tf)
      (auto simp: dnswire_decoder_decode_def decode_state_defs decode_reading_frames_def t Let_def
        bindF_eq_Inr split: tinyframe_control.splits if_splits)
qed

lemma decode_consumes:
  assumes "tinyframe_consumes L" and "dnswire_decoder_decode L h data = Inr (res, h')"
    and "res \<in> {dnswire_again, dnswire_bidirectional, dnswire_have_dnstap}"
  shows "0 < dnswire_decoder_decoded L h'"
  using decode_found [OF assms(2,3)] assms(1)
  unfolding tinyframe_consumes_def dnswire_decoder_decoded_def by blast

lemma toylib_consumes: "tinyframe_consumes toylib"
  by (auto simp: tinyframe_consumes_def toylib_def toy_read_def toy_header_def toy_field_def
      split: if_splits list.splits)

section \<open>The encoder\<close>

text \<open>\<open>tinyframe\<close>: no frame it writes is empty.\<close>

definition tinyframe_nonempty :: "('r, 'w) extlib \<Rightarrow> bool" where
  "tinyframe_nonempty L \<longleftrightarrow>
     (\<forall>w len c fs w' out. tf_write_control L w len c fs = (tinyframe_ok, w', out) \<longrightarrow> out \<noteq> []) \<and>
     (\<forall>w len ct w' out. tf_write_control_start L w len ct = (tinyframe_ok, w', out) \<longrightarrow> out \<noteq> []) \<and>
     (\<forall>w len w' out. tf_write_control_stop L w len = (tinyframe_ok, w', out) \<longrightarrow> out \<noteq> []) \<and>
     (\<forall>w len fr w' out. tf_write_frame L w len fr = (tinyframe_ok, w', out) \<longrightarrow> out \<noteq> [])"

lemma control_nonempty:
  assumes "tinyframe_nonempty L" and "dnswire_encoder_encode L e len = Inr (res, e', out)"
    and "e_state e = dnswire_encoder_control_ready" and "res = dnswire_again"
  shows "out \<noteq> []"
proof -
  have "encoder_wrote e dnswire_encoder_control_start dnswire_again
      (tf_write_control L (e_writer e) len TINYFRAME_CONTROL_READY [content_type_field]) = (res, e', out)"
    using assms(2,3) by (simp add: dnswire_encoder_encode_def bindF_eq_Inr)
  with assms(4) obtain w' where "tf_write_control L (e_writer e) len TINYFRAME_CONTROL_READY [content_type_field] =
      (tinyframe_ok, w', out)"
    by (auto simp: encoder_wrote_def Let_def split: prod.splits tinyframe_result.splits)
  with assms(1) show ?thesis unfolding tinyframe_nonempty_def by blast
qed

lemma toylib_nonempty: "tinyframe_nonempty toylib"
  by (simp add: tinyframe_nonempty_def toylib_def toy_emit_def toy_control_def Let_def)

end
