(* ===== verification/Writer_Limits.thy ===== *)
theory Writer_Limits
  imports Writer_Traces Progress
begin

text \<open>
  Where the writer's handle does not do what its interface promises: a stop with bytes pending,
  the answers of the peer in a bidirectional conversation, and resizing a buffer in use. Each
  theorem states the situation and what the code does in it.
\<close>

section \<open>Settings\<close>

lemma set_bidirectional_sound:
  assumes "dnswire_writer_init L w = (dnswire_ok, h, w1)"
    and "dnswire_writer_set_bidirectional w1 h bi = (dnswire_ok, h', w')"
  shows "writer_ok h \<and> writer_ok h' \<and> wr_bidirectional h' = bi \<and>
     e_state (wr_encoder h') =
       (if bi then dnswire_encoder_control_ready else dnswire_encoder_control_start) \<and>
     wr_state h' = (if bi then dnswire_writer_encoding_ready else dnswire_writer_encoding)"
proof -
  note i = writer_init_sound [OF assms(1)]
  obtain a w2 where a: "sys_alloc w1 = (a, w2)" by (cases "sys_alloc w1")
  have out: "out_ok (wr_out h)" "encoder_ok ((wr_encoder h)\<lparr>e_state := s\<rparr>)" "decoder_ok (wr_decoder h)" for s
    using i(1) by (simp_all add: writer_ok_def encoder_ok_def)
  show ?thesis
  proof (cases bi)
    case True
    with assms(2) a have "h' = h\<lparr>wr_in := (wr_in h)\<lparr>i_buf := Some (fresh_block (i_size (wr_in h)))\<rparr>,
        wr_encoder := (wr_encoder h)\<lparr>e_state := dnswire_encoder_control_ready\<rparr>,
        wr_state := dnswire_writer_encoding_ready, wr_bidirectional := True\<rparr>"
      by (cases a) (simp_all add: dnswire_writer_set_bidirectional_def i(6))
    moreover have "in_ok ((wr_in h)\<lparr>i_buf := Some (fresh_block (i_size (wr_in h)))\<rparr>)"
      unfolding i(7) by (simp add: in_ok_def in_limits_def DNSWIRE_DEFAULT_BUF_SIZE_def
          DNSWIRE_MAXIMUM_BUF_SIZE_def size_limit_def)
    ultimately show ?thesis
      using True i(1,5) out by (simp add: writer_ok_def)
  next
    case False
    with assms(2) have "h' = h\<lparr>wr_encoder := (wr_encoder h)\<lparr>e_state := dnswire_encoder_control_start\<rparr>,
        wr_state := dnswire_writer_encoding, wr_bidirectional := False\<rparr>"
      by (simp add: dnswire_writer_set_bidirectional_def)
    with False i(1,5) out show ?thesis by (simp add: writer_ok_def)
  qed
qed

text \<open>
  A new handle is sound, and so it is after \<open>dnswire_writer_set_bidirectional\<close> with either
  argument: a bidirectional conversation starts with READY and has a block for the answers, a
  unidirectional one starts with START.
\<close>
theorem writer_init_bidirectional:
  assumes "dnswire_writer_init L w = (dnswire_ok, h, w1)"
    and "dnswire_writer_set_bidirectional w1 h bi = (dnswire_ok, h', w')"
  shows "writer_ok h \<and> writer_ok h' \<and> wr_bidirectional h' = bi \<and>
     e_state (wr_encoder h') =
       (if bi then dnswire_encoder_control_ready else dnswire_encoder_control_start) \<and>
     wr_state h' = (if bi then dnswire_writer_encoding_ready else dnswire_writer_encoding)"
  by (rule set_bidirectional_sound [OF assms])

definition toy_writerB :: "(toy_reader, nat) dnswire_writer" where
  "toy_writerB = fst (snd (dnswire_writer_set_bidirectional toy_out toy_writer0 True))"

lemma toy_bidirectional:
  "dnswire_writer_set_bidirectional toy_out toy_writer0 True = (dnswire_ok, toy_writerB, toy_out)"
  by (simp add: toy_writerB_def dnswire_writer_set_bidirectional_def sys_alloc_def toy_out_def)

theorem writer_init_bidirectional_witness:
  "writer_ok toy_writerB \<and> wr_state toy_writerB = dnswire_writer_encoding_ready"
  using writer_init_bidirectional [OF toy_writer_init toy_bidirectional] by simp

text \<open>
  C34: \<open>dnswire_writer_set_bufsize\<close> while bytes are pending and \<open>at + left\<close> exceeds the new
  size: the bytes to move are looked for behind \<open>at\<close>, though they lie before it. Either the move
  reads beyond the block, or \<open>at\<close> becomes 0 with \<open>left\<close> unchanged and the call returns
  \<open>dnswire_ok\<close>, and the next attempt to hand out bytes reads outside of the block.
\<close>
theorem writer_set_bufsize_pending:
  assumes "out_ok (wr_out h)" and "0 < o_left (wr_out h)" and "o_left (wr_out h) \<le> sz"
    and "sz < o_at (wr_out h) + o_left (wr_out h)" and "sz \<le> o_max (wr_out h)"
    and "2 * o_max (wr_out h) < size_limit" and "sys_alloc w = (True, w')"
  shows "dnswire_writer_set_bufsize w h sz = Inl Out_of_bounds \<or>
     (\<exists>h'. dnswire_writer_set_bufsize w h sz = Inr (dnswire_ok, h', w') \<and>
        o_at (wr_out h') = 0 \<and> o_left (wr_out h') = o_left (wr_out h) \<and>
        (\<forall>n. out_peek (wr_out h') n = Inl Out_of_bounds))"
proof -
  let ?b = "wr_out h"
  from assms(1) obtain m where m: "o_buf ?b = Some m" "length m = o_size ?b" "o_left ?b \<le> o_at ?b"
    "o_at ?b \<le> o_size ?b" "o_size ?b \<le> o_max ?b" by (blast elim: out_okD)
  have sum: "sz_add (o_at ?b) (o_left ?b) = o_at ?b + o_left ?b"
    using m(3-5) assms(6) by (simp add: sz_add_exact)
  have pos: "0 < sz" using assms(2,3) by simp
  show ?thesis
  proof (cases "o_at ?b + o_left ?b \<le> o_size ?b")
    case False
    with m assms(2-5) sum pos show ?thesis
      by (simp add: dnswire_writer_set_bufsize_def mem_move_front_def Let_def)
  next
    case True
    let ?m = "resize_block sz (take (o_left ?b) (drop (o_at ?b) m) @ drop (o_left ?b) m)"
    let ?b' = "?b\<lparr>o_buf := Some ?m, o_at := 0, o_size := sz\<rparr>"
    have "dnswire_writer_set_bufsize w h sz = Inr (dnswire_ok, h\<lparr>wr_out := ?b'\<rparr>, w')"
      using True m assms(2-5,7) sum pos
      by (simp add: dnswire_writer_set_bufsize_def mem_move_front_def Let_def)
    moreover have "out_peek ?b' n = Inl Out_of_bounds" for n
    proof -
      define off where "off = sz_sub 0 (o_left ?b)"
      have "off = size_limit - o_left ?b"
        using assms(2) m(3-5) assms(6) by (simp add: off_def sz_sub_def)
      then have "sz < off"
        using assms(3,5,6) m(3-5) by simp
      then show ?thesis
        by (simp add: out_peek_def mem_load_def off_def [symmetric])
    qed
    ultimately show ?thesis by auto
  qed
qed

definition toy_pending :: "(toy_reader, nat) dnswire_writer" where
  "toy_pending = toy_writer0\<lparr>wr_out := \<lparr>o_buf = Some [Some 1, Some 2, Some 3, None], o_size = 4,
     o_inc = 4, o_max = 8, o_at = 3, o_left = 1\<rparr>, wr_state := dnswire_writer_writing\<rparr>"

lemma toy_pending_ok: "writer_ok toy_pending"
  using toy_writer0_sound(1,2)
  by (simp add: toy_pending_def writer_ok_def out_ok_def out_limits_def size_limit_def)

theorem writer_set_bufsize_pending_witness:
  "\<exists>h'. dnswire_writer_set_bufsize toy_out toy_pending 3 = Inr (dnswire_ok, h', toy_out) \<and>
     out_peek (wr_out h') 1 = Inl Out_of_bounds"
proof -
  have a: "sys_alloc toy_out = (True, toy_out)" by (simp add: sys_alloc_def toy_out_def)
  have "dnswire_writer_set_bufsize toy_out toy_pending 3 \<noteq> Inl Out_of_bounds"
    by (simp add: dnswire_writer_set_bufsize_def toy_pending_def mem_move_front_def a sz_add_def
        size_limit_def)
  then show ?thesis
    using writer_set_bufsize_pending [OF writer_okD(1) [OF toy_pending_ok], of 3 toy_out toy_out] a
    by (auto simp: toy_pending_def size_limit_def)
qed

text \<open>
  With nothing pending, \<open>dnswire_writer_set_bufsize\<close> keeps the handle sound, and unless the
  size exceeds the maximum or the allocation fails the size is set.
\<close>
theorem writer_set_bufsize_idle:
  assumes "writer_ok h" and "o_left (wr_out h) = 0" and "sz \<noteq> 0"
  shows "\<exists>res h' w'. dnswire_writer_set_bufsize w h sz = Inr (res, h', w') \<and> writer_ok h' \<and>
     (res = dnswire_ok \<and> o_size (wr_out h') = sz \<and> sz \<le> o_max (wr_out h) \<or> res = dnswire_error \<and> h' = h)"
proof -
  let ?b = "wr_out h"
  from writer_okD(1) [OF assms(1)] obtain m where m: "o_buf ?b = Some m" "length m = o_size ?b"
    "o_left ?b = 0 \<longrightarrow> o_at ?b = 0" by (blast elim: out_okD)
  obtain a w' where a: "sys_alloc w = (a, w')" by (cases "sys_alloc w")
  let ?b' = "?b\<lparr>o_buf := Some (resize_block sz m), o_size := sz\<rparr>"
  have z: "sz_add 0 0 = 0" by (simp add: sz_add_def)
  have ev: "dnswire_writer_set_bufsize w h sz =
      (if sz > o_max ?b \<or> \<not> a then Inr (dnswire_error, h, if sz > o_max ?b then w else w')
       else Inr (dnswire_ok, h\<lparr>wr_out := ?b'\<rparr>, w'))"
    using m assms(2,3) a z by (simp add: dnswire_writer_set_bufsize_def Let_def)
  have "out_ok ?b'" if "sz \<le> o_max ?b"
    using writer_okD(1) [OF assms(1)] that m assms(2,3) by (simp add: out_ok_def out_limits_def)
  then have "writer_ok (h\<lparr>wr_out := ?b'\<rparr>)" if "sz \<le> o_max ?b"
    using assms(1,2) that by (simp add: writer_ok_def)
  with ev assms(1) show ?thesis by auto
qed

theorem writer_set_bufsize_idle_witness:
  "\<exists>res h' w'. dnswire_writer_set_bufsize toy_out toy_writer0 100 = Inr (res, h', w') \<and> writer_ok h'"
  using writer_set_bufsize_idle [OF toy_writer0_sound(1,5), of 100 toy_out] by auto

section \<open>Stopping with bytes pending\<close>

lemma frame_path_stop:
  assumes "frame_path dnswire_encoder_control_stop fs dnswire_encoder_done"
  shows "\<exists>d bs. fs = [(dnswire_encoder_control_stop, d, bs)]"
  using assms by (cases fs; cases "tl fs") auto

text \<open>Encoded into an empty buffer, the STOP frame is all that is pending.\<close>

lemma stop_encoded:
  assumes "extlib_ok L" and "encoder_ok e" and es: "e_state e = dnswire_encoder_control_stop"
    and "out_ok b" and l: "o_left b = 0"
    and r: "encoding L w e b = Inr (r, e', b', w')" "r \<noteq> dnswire_error"
  shows "r = dnswire_endofdata \<and> out_ok b' \<and>
     written L (dnswire_encoder_control_stop, e_dnstap e, out_pending b')"
proof -
  from encoding_emits [OF assms(1,2,4) l, of w] r have
    ok: "out_ok b'" and em: "emits L e b [] e' b'" and nx: "encoder_next (e_state e) = Some (e_state e', r)"
    by auto
  from nx es have end_of: "r = dnswire_endofdata" "e_state e' = dnswire_encoder_done" by auto
  have "out_pending b = []" using out_pending_length [OF assms(4)] l by simp
  with em obtain fs where fs: "list_all (written L) fs"
    "frame_path dnswire_encoder_control_stop fs dnswire_encoder_done"
    "\<forall>f \<in> set fs. fst (snd f) = e_dnstap e" "out_pending b' = frame_bytes fs"
    by (auto simp: emits_def es end_of)
  from frame_path_stop [OF fs(2)] fs(1,3,4) ok end_of(1) show ?thesis by auto
qed

text \<open>
  The state that encodes STOP stores from the start of what the caller gets: whatever \<open>pre\<close> was
  stored there before, the caller has the STOP frame.
\<close>

lemma pop_encoding_stop_sends:
  assumes L: "extlib_ok L" and ok: "encoder_ok (wr_encoder h)" "out_ok (wr_out h)" and l: "o_left (wr_out h) = 0"
    and es: "e_state (wr_encoder h) = dnswire_encoder_control_stop"
    and a: "pa_data a" and uni: "\<not> wr_bidirectional h"
    and run: "pop_encoding_stop L w a pre h = Inr (res, h', w', out, n)" "res \<noteq> dnswire_error"
  shows "\<exists>stop. written L (dnswire_encoder_control_stop, e_dnstap (wr_encoder h), stop) \<and>
     (stop \<noteq> [] \<longrightarrow> out @ out_pending (wr_out h') = stop)"
proof -
  obtain r e b w2 where r: "encoding L w (wr_encoder h) (wr_out h) = Inr (r, e, b, w2)"
    using run(1) by (cases "encoding L w (wr_encoder h) (wr_out h)") (auto simp: pop_encoding_stop_def)
  have "r \<noteq> dnswire_error" using run r by (auto simp: pop_encoding_stop_def Let_def)
  note r = r this
  from stop_encoded [OF L ok(1) es ok(2) l r] have
    s: "r = dnswire_endofdata" "out_ok b" "written L (dnswire_encoder_control_stop, e_dnstap (wr_encoder h), out_pending b)"
    by auto
  let ?g = "h\<lparr>wr_encoder := e, wr_out := b, wr_state := dnswire_writer_writing_stop\<rparr>"
  from pop_bytes_post [of ?g, OF _ a] s(2) obtain k where
    k: "pop_bytes a ?g = Inr (?g\<lparr>wr_popped := k, wr_out := out_drain k b\<rparr>, take k (out_pending b))" "k \<le> o_left b"
    by auto
  have "out @ out_pending (wr_out h') = out_pending b" if "out_pending b \<noteq> []"
  proof -
    have "o_left b \<noteq> 0" using that out_pending_length [OF s(2)] by (cases "out_pending b") auto
    with run r(1) s(1) k(1) uni have "out = take k (out_pending b) \<and> wr_out h' = out_drain k b"
      by (auto simp: pop_encoding_stop_def pop_writing_stop_def split: if_splits)
    with outq.drain_pending [OF s(2), of k] k(2) out_pending_length [OF s(2)] show ?thesis by simp
  qed
  with s(3) show ?thesis by blast
qed

lemma stop_nonempty:
  assumes "tinyframe_nonempty L" and "written L (dnswire_encoder_control_stop, d, bs)"
  shows "bs \<noteq> []"
proof -
  from assms(2) obtain e :: "'b dnswire_encoder" and len e' where
    "e_state e = dnswire_encoder_control_stop"
    "dnswire_encoder_encode L e len = Inr (dnswire_endofdata, e', bs)"
    by (auto simp: written_def)
  then have "encoder_wrote e dnswire_encoder_done dnswire_endofdata (tf_write_control_stop L (e_writer e) len) =
      (dnswire_endofdata, e', bs)" by (simp add: dnswire_encoder_encode_def bindF_eq_Inr)
  then obtain w' where "tf_write_control_stop L (e_writer e) len = (tinyframe_ok, w', bs)"
    by (auto simp: encoder_wrote_def Let_def split: prod.splits tinyframe_result.splits)
  with assms(1) show ?thesis unfolding tinyframe_nonempty_def by blast
qed

text \<open>
  C18: \<open>dnswire_writer_pop\<close> after \<open>dnswire_writer_stop\<close> in a unidirectional conversation, with bytes of an
  earlier frame pending, room for all of them and no failure: the pending bytes are taken off the buffer,
  then the STOP frame, which is not empty, is written over them at the start of \<open>data\<close> and \<open>popped\<close> counts
  its bytes only. What the caller gets, followed by what is pending, is the STOP frame alone: the bytes
  that were pending are never handed out. When what was handed out and pending before were the bytes of
  some frames, the stream is now these frames and the STOP frame with exactly the pending bytes cut out
  from the middle.
\<close>
theorem pop_after_stop_loses_pending:
  assumes "extlib_ok L" and "writer_ok h" and "\<not> wr_bidirectional h" and "pa_data a"
    and "wr_state h = dnswire_writer_stopping"
    and "0 < o_left (wr_out h)" and "o_left (wr_out h) \<le> pa_len a"
    and "dnswire_writer_pop L w h a = Inr (res, h', w', out, n)" and "res \<noteq> dnswire_error"
    and "tinyframe_nonempty L"
  shows "\<exists>stop. written L (dnswire_encoder_control_stop, e_dnstap (wr_encoder h), stop) \<and> stop \<noteq> [] \<and>
     out @ out_pending (wr_out h') = stop \<and>
     (\<forall>outp fs. outp @ out_pending (wr_out h) = frame_bytes fs \<longrightarrow>
        frame_bytes (fs @ [(dnswire_encoder_control_stop, e_dnstap (wr_encoder h), stop)]) =
          outp @ out_pending (wr_out h) @ out @ out_pending (wr_out h') \<and>
        length (outp @ out @ out_pending (wr_out h')) + o_left (wr_out h) =
          length (frame_bytes (fs @ [(dnswire_encoder_control_stop, e_dnstap (wr_encoder h), stop)])))"
proof -
  let ?b = "wr_out h"
  let ?b1 = "out_drain (o_left ?b) ?b"
  have oko: "out_ok ?b" and oke: "encoder_ok (wr_encoder h)"
    and es: "e_state (wr_encoder h) = dnswire_encoder_control_stop"
    using assms(2,5) by (simp_all add: writer_ok_def)
  have lenp: "length (out_pending ?b) = o_left ?b" by (rule out_pending_length [OF oko])
  from pop_bytes_post [of "h\<lparr>wr_popped := 0\<rparr>", OF _ assms(4)] oko assms(7) have
    pb: "pop_bytes a (h\<lparr>wr_popped := 0\<rparr>) = Inr (h\<lparr>wr_popped := o_left ?b, wr_out := ?b1\<rparr>, out_pending ?b)"
    using lenp by (auto simp: min_def)
  have ok1: "out_ok ?b1" and l1: "o_left ?b1 = 0"
    using outq.drain_ok [OF oko, of "o_left ?b"] outq.drain_pending [OF oko, of "o_left ?b"] lenp
      out_pending_length [of ?b1] by simp_all
  have "pop_encoding_stop L w a (out_pending ?b) (h\<lparr>wr_popped := o_left ?b, wr_out := ?b1,
      wr_state := dnswire_writer_encoding_stop\<rparr>) = Inr (res, h', w', out, n)"
    using assms(3-8) writer_okD(1) [OF assms(2)] pb l1
    by (auto simp: dnswire_writer_pop_def pop_stopping_def elim!: out_okD)
  from pop_encoding_stop_sends [OF assms(1) _ _ _ _ assms(4) _ this assms(9)] oke ok1 l1 es assms(3)
  obtain stop where stop: "written L (dnswire_encoder_control_stop, e_dnstap (wr_encoder h), stop)"
    "stop \<noteq> [] \<longrightarrow> out @ out_pending (wr_out h') = stop" by auto
  with stop_nonempty [OF assms(10) stop(1)] have o: "stop \<noteq> []" "out @ out_pending (wr_out h') = stop" by blast+
  have "frame_bytes (fs @ [(dnswire_encoder_control_stop, e_dnstap (wr_encoder h), stop)]) =
          outp @ out_pending ?b @ out @ out_pending (wr_out h') \<and>
        length (outp @ out @ out_pending (wr_out h')) + o_left ?b =
          length (frame_bytes (fs @ [(dnswire_encoder_control_stop, e_dnstap (wr_encoder h), stop)]))"
    if "outp @ out_pending ?b = frame_bytes fs" for outp fs
    using arg_cong [OF that, of length] lenp by (simp add: o(2) flip: that)
  with stop(1) o show ?thesis by blast
qed

definition toy_stopping :: "(toy_reader, nat) dnswire_writer" where
  "toy_stopping = toy_pending\<lparr>wr_state := dnswire_writer_stopping,
     wr_encoder := (wr_encoder toy_pending)\<lparr>e_state := dnswire_encoder_control_stop\<rparr>\<rparr>"

lemma toy_stopping_ok: "writer_ok toy_stopping"
  using toy_pending_ok by (simp add: toy_stopping_def writer_ok_def encoder_ok_def)

lemma toy_stopping_pop:
  "\<exists>h out. dnswire_writer_pop toylib toy_out toy_stopping toy_pop = Inr (dnswire_endofdata, h, toy_out, out, 0)"
proof -
  let ?h = "toy_stopping\<lparr>wr_popped := 0\<rparr>" and ?b = "out_drain 1 (wr_out toy_stopping)"
  have f: "e_state (wr_encoder toy_stopping) = dnswire_encoder_control_stop"
    "wr_state toy_stopping = dnswire_writer_stopping" "\<not> wr_bidirectional toy_stopping"
    "o_left (wr_out toy_stopping) = 1" "o_left ?b = 0" "o_size ?b = 4"
    "o_buf (wr_out toy_stopping) \<noteq> None"
    using toy_writer0_sound(2)
    by (simp_all add: toy_stopping_def toy_pending_def out_drain_def sz_sub_def size_limit_def Let_def)
  have a: "pa_data toy_pop" "pa_len toy_pop = 10" by (simp_all add: toy_pop_def)
  note ok = writer_okD [OF toy_stopping_ok]
  from pop_bytes_post [of ?h, OF _ a(1)] ok(1) f(4) a(2) have
    p1: "pop_bytes toy_pop ?h = Inr (?h\<lparr>wr_popped := 1, wr_out := ?b\<rparr>, take 1 (out_pending (wr_out toy_stopping)))"
    by auto
  have okb: "out_ok ?b"
    using outq.drain_ok [OF ok(1), of 1] out_pending_length [OF ok(1)] f(4) by simp
  obtain e where e: "dnswire_encoder_encode toylib (wr_encoder toy_stopping) (o_size ?b) =
      Inr (dnswire_endofdata, e, [3, 0])"
    unfolding f(6) by (simp add: dnswire_encoder_encode_def f(1) toylib_def toy_emit_def toy_control_def
        encoder_wrote_def)
  from encoding_first [OF toylib_ok ok(2) okb f(5) e, of toy_out] obtain b where
    b: "encoding toylib toy_out (wr_encoder toy_stopping) ?b = Inr (dnswire_endofdata, e, b, toy_out)"
      "out_pending b = [3, 0]" "out_ok b" by auto
  have left: "o_left b = 2" using out_pending_length [OF b(3)] b(2) by simp
  let ?g = "?h\<lparr>wr_popped := 1, wr_encoder := e, wr_out := b, wr_state := dnswire_writer_writing_stop\<rparr>"
  from pop_bytes_post [of ?g, OF _ a(1)] b(3) left a(2) have
    p2: "pop_bytes toy_pop ?g = Inr (?g\<lparr>wr_popped := 2, wr_out := out_drain 2 b\<rparr>, take 2 (out_pending b))"
    by auto
  have "o_left (out_drain 2 b) = 0" by (simp add: out_drain_def left sz_sub_def size_limit_def Let_def)
  then show ?thesis
    using f p1 p2 b(1) left a
    by (simp add: dnswire_writer_pop_def pop_stopping_def pop_encoding_stop_def pop_writing_stop_def)
qed

theorem pop_after_stop_loses_pending_witness:
  "length (out_pending (wr_out toy_stopping)) = 1 \<and>
   (\<exists>h out stop. dnswire_writer_pop toylib toy_out toy_stopping toy_pop = Inr (dnswire_endofdata, h, toy_out, out, 0) \<and>
     written toylib (dnswire_encoder_control_stop, e_dnstap (wr_encoder toy_stopping), stop) \<and> stop \<noteq> [] \<and>
     out @ out_pending (wr_out h) = stop)"
proof -
  have s: "\<not> wr_bidirectional toy_stopping" "wr_state toy_stopping = dnswire_writer_stopping"
    "o_left (wr_out toy_stopping) = 1"
    using toy_writer0_sound(2) by (simp_all add: toy_stopping_def toy_pending_def)
  have a: "pa_data toy_pop" "0 < o_left (wr_out toy_stopping)" "o_left (wr_out toy_stopping) \<le> pa_len toy_pop"
    by (simp_all add: s(3) toy_pop_def)
  obtain h out where
    p: "dnswire_writer_pop toylib toy_out toy_stopping toy_pop = Inr (dnswire_endofdata, h, toy_out, out, 0)"
    using toy_stopping_pop by blast
  have "length (out_pending (wr_out toy_stopping)) = 1"
    using out_pending_length [OF writer_okD(1) [OF toy_stopping_ok]] s(3) by simp
  with pop_after_stop_loses_pending [OF toylib_ok toy_stopping_ok s(1) a(1) s(2) a(2,3) p _ toylib_nonempty] p
  show ?thesis by blast
qed

section \<open>The answers of the peer\<close>

text \<open>
  C17: \<open>dnswire_writer_pop\<close> cannot take the answer of the peer: given input while nothing is
  buffered, it copies the bytes into the block for answers but counts them as bytes to hand
  out, and calls the decoder with no input at all, whose assertion fails.
\<close>
theorem pop_answer_aborts:
  assumes "writer_ok h" and "wr_bidirectional h"
    and "wr_state h \<in> {dnswire_writer_reading_accept, dnswire_writer_reading_finish}"
    and "i_left (wr_in h) = 0"
    and "pa_data a" and "0 < pa_len a" and "pa_in_data a = Some data"
    and "pa_in_len a = Some k" and "0 < k" and "k \<le> length data"
  shows "dnswire_writer_pop L w h a = Inl Assert_failed"
proof -
  let ?h = "h\<lparr>wr_popped := 0\<rparr>"
  have i: "in_ok (wr_in h)" using writer_okD(4) [OF assms(1,2)] .
  then obtain m where m: "i_buf (wr_in h) = Some m" "length m = i_size (wr_in h)" "i_at (wr_in h) = 0"
    "0 < i_size (wr_in h)" using assms(4) by (blast elim: in_okD)
  have room: "in_room (wr_in h) = i_size (wr_in h)"
    using in_room_exact [OF i] m(3) assms(4) by simp
  define n where "n = (if i_size (wr_in h) < k then i_size (wr_in h) else k)"
  have n: "0 < n" "n \<le> length m" "n \<le> length data"
    using m(2,4) assms(9,10) by (auto simp: n_def)
  have nd: "(if i_size (wr_in h) < in_len_orig a then i_size (wr_in h) else in_len_orig a) = n"
    using assms(8) by (simp add: n_def in_len_orig_def)
  have z: "sz_add 0 0 = 0" by (simp add: sz_add_def)
  have t: "pop_take_in a ?h = Inr (?h\<lparr>wr_in := (wr_in h)\<lparr>i_buf := Some (map Some (take n data) @ drop n m)\<rparr>,
      wr_out := (wr_out h)\<lparr>o_left := sz_add (o_left (wr_out h)) n\<rparr>\<rparr>, n)"
    using n m(1,3) assms(4,7) room nd z
    by (simp add: pop_take_in_def Let_def mem_store_def)
  have ld: "in_load ((wr_in h)\<lparr>i_buf := Some (map Some (take n data) @ drop n m)\<rparr>) = Inr []"
    using m(3) assms(4) by (simp add: in_load_def mem_load_def)
  have de: "dnswire_decoder_decode L d [] = Inl Assert_failed" for d
    by (simp add: dnswire_decoder_decode_def)
  have buf: "o_buf (wr_out h) \<noteq> None" using writer_okD(1) [OF assms(1)] by (auto elim: out_okD)
  have k: "in_len_orig a \<noteq> 0" using assms(8,9) by (simp add: in_len_orig_def)
  show ?thesis
    using assms(3,5-7) buf k
    by (auto simp: dnswire_writer_pop_def pop_reading_accept_def pop_reading_finish_def t
        pop_decoding_accept_def pop_decoding_finish_def ld de with_io_def)
qed

definition toy_await :: "(toy_reader, nat) dnswire_writer" where
  "toy_await = toy_writerB\<lparr>wr_state := dnswire_writer_reading_accept\<rparr>"

lemma toy_await_sound: "writer_ok toy_await" "wr_bidirectional toy_await" "i_left (wr_in toy_await) = 0"
proof -
  have b: "writer_ok toy_writerB" "wr_bidirectional toy_writerB"
    "wr_state toy_writerB = dnswire_writer_encoding_ready"
    using set_bidirectional_sound [OF toy_writer_init toy_bidirectional] by auto
  then show "writer_ok toy_await" "wr_bidirectional toy_await"
    by (simp_all add: toy_await_def writer_ok_def)
  show "i_left (wr_in toy_await) = 0"
    using toy_writer0_sound(7)
    by (simp add: toy_await_def toy_writerB_def dnswire_writer_set_bidirectional_def
        toy_writer0_sound(6) sys_alloc_def toy_out_def)
qed

theorem pop_answer_aborts_witness:
  "dnswire_writer_pop toylib toy_out toy_await
     \<lparr>pa_data = True, pa_len = 10, pa_in_data = Some [1, 1], pa_in_len = Some 2\<rparr> = Inl Assert_failed"
  by (rule pop_answer_aborts [OF toy_await_sound(1,2) _ toy_await_sound(3), where data = "[1, 1]" and k = 2])
    (simp_all add: toy_await_def)

end
