(* ===== verification/Writer_Handshake.thy ===== *)
theory Writer_Handshake
  imports Writer_Limits
begin

text \<open>
  The two places where a bidirectional conversation goes astray in \<open>dnswire_writer_write\<close>: a READY
  frame that the kernel takes in two pieces, and a FINISH frame that arrives in two pieces.
\<close>

section \<open>Calls of write without an error\<close>

text \<open>Any number of calls of \<open>write\<close> that do not fail, with messages set between them.\<close>

inductive writes_on :: "('r, 'w) extlib \<Rightarrow> ('r, 'w) dnswire_writer \<Rightarrow> world \<Rightarrow>
    ('r, 'w) dnswire_writer \<Rightarrow> world \<Rightarrow> bool" for L where
  no_write: "writes_on L h w h w"
| one_write: "writes_on L h w h1 w1 \<Longrightarrow> dnswire_writer_write L w1 h1 = Inr (res, h2, w2) \<Longrightarrow>
     res \<noteq> dnswire_error \<Longrightarrow> writes_on L h w h2 w2"
| one_set: "writes_on L h w h1 w1 \<Longrightarrow> writes_on L h w (dnswire_writer_set_dnstap h1 d) w1"

lemma write_bytes_effect:
  assumes "write_bytes w h = Inr (x, w')"
  shows "inbox w' = inbox w \<and> (\<forall>h1. x = Some h1 \<longrightarrow> (\<exists>b. h1 = h\<lparr>wr_out := b\<rparr>))"
proof -
  obtain bs where bs: "out_peek (wr_out h) (o_left (wr_out h)) = Inr bs"
    using assms by (auto simp: write_bytes_def bindF_eq_Inr)
  obtain k w1 where k: "sys_write w bs = (k, w1)" by (cases "sys_write w bs")
  show ?thesis
    using assms bs k sys_write_inbox [OF k]
    by (auto simp: write_bytes_def split: option.splits if_splits)
qed

section \<open>READY in two pieces\<close>

text \<open>The states from which the writer only sends.\<close>

definition sending :: "dnswire_writer_state \<Rightarrow> bool" where
  "sending s \<longleftrightarrow> s \<in> {dnswire_writer_encoding, dnswire_writer_writing}"

definition only_sends :: "('r, 'w) dnswire_writer \<Rightarrow> world \<Rightarrow> ('r, 'w) dnswire_writer \<Rightarrow> world \<Rightarrow> bool" where
  "only_sends h w h' w' \<longleftrightarrow> sending (wr_state h') \<and> wr_decoder h' = wr_decoder h \<and>
     wr_in h' = wr_in h \<and> inbox w' = inbox w"

lemma write_writing_sends:
  assumes "write_writing w r h = Inr (res, h', w')" and "wr_state h = dnswire_writer_writing"
  shows "only_sends h w h' w'"
proof -
  obtain x w1 where x: "write_bytes w h = Inr (x, w1)"
    using assms(1) by (auto simp: write_writing_def bindF_eq_Inr)
  note e = write_bytes_effect [OF x]
  show ?thesis
  proof (cases x)
    case None
    with assms x e show ?thesis by (simp add: write_writing_def only_sends_def sending_def)
  next
    case (Some h1)
    then obtain b where "h1 = h\<lparr>wr_out := b\<rparr>" using e by blast
    with Some assms x e show ?thesis
      by (auto simp: write_writing_def only_sends_def sending_def split: if_splits)
  qed
qed

lemma write_encoding_sends:
  assumes "write_encoding L w h = Inr (res, h', w')" and "wr_state h = dnswire_writer_encoding"
  shows "only_sends h w h' w'"
proof -
  obtain r e b w1 where r: "encoding L w (wr_encoder h) (wr_out h) = Inr (r, e, b, w1)"
    using assms(1) by (auto simp: write_encoding_def bindF_eq_Inr)
  note w1 = encoding_world [OF r]
  let ?h = "h\<lparr>wr_encoder := e, wr_out := b\<rparr>"
  show ?thesis
  proof (cases "r \<noteq> dnswire_error \<and> o_left b \<noteq> 0")
    case True
    with assms(1) r have "write_writing w1 r (?h\<lparr>wr_state := dnswire_writer_writing\<rparr>) = Inr (res, h', w')"
      by (simp add: write_encoding_def)
    from write_writing_sends [OF this] w1 show ?thesis by (simp add: only_sends_def)
  next
    case False
    with assms r w1 show ?thesis by (auto simp: write_encoding_def only_sends_def sending_def)
  qed
qed

lemma write_sends:
  assumes "dnswire_writer_write L w h = Inr (res, h', w')" and "sending (wr_state h)"
  shows "only_sends h w h' w'"
proof -
  have "o_buf (wr_out h) \<noteq> None"
    using assms(1) by (auto simp: dnswire_writer_write_def assertF_def split: if_splits)
  then show ?thesis
    using assms write_encoding_sends [of L w h res h' w'] write_writing_sends [of w dnswire_again h res h' w']
    by (auto simp: dnswire_writer_write_def sending_def)
qed

lemma only_sends_trans:
  "only_sends h w h1 w1 \<Longrightarrow> only_sends h1 w1 h2 w2 \<Longrightarrow> only_sends h w h2 w2"
  by (simp add: only_sends_def)

lemma writes_on_only_sends:
  assumes "writes_on L h w h' w'" and "sending (wr_state h)"
  shows "only_sends h w h' w'"
  using assms
proof (induction rule: writes_on.induct)
  case (no_write h w)
  then show ?case by (simp add: only_sends_def)
next
  case (one_write h w h1 w1 res h2 w2)
  have *: "only_sends h w h1 w1" by (rule one_write.IH [OF one_write.prems])
  then have "sending (wr_state h1)" by (simp add: only_sends_def)
  from only_sends_trans [OF * write_sends [OF one_write.hyps(2) this]] show ?case .
next
  case (one_set h w h1 w1 d)
  then show ?case by (simp add: only_sends_def dnswire_writer_set_dnstap_def)
qed

text \<open>Decoding an answer leaves the output side alone.\<close>

lemma decoding_accept_keeps_out:
  assumes "pop_decoding_accept L w h = Inr (res, h', w')"
  shows "wr_out h' = wr_out h"
proof -
  obtain bs r d where d: "in_load (wr_in h) = Inr bs" "dnswire_decoder_decode L (wr_decoder h) bs = Inr (r, d)"
    using assms by (auto simp: pop_decoding_accept_def bindF_eq_Inr)
  with assms show ?thesis
    by (cases r) (auto simp: pop_decoding_accept_def Let_def bindF_eq_Inr split: if_splits)
qed

lemma reading_accept_keeps_out:
  assumes "write_reading_accept L w h = Inr (res, h', w')"
  shows "wr_out h' = wr_out h"
proof -
  obtain x w1 where x: "write_take_in w h = Inr (x, w1)"
    using assms by (auto simp: write_reading_accept_def bindF_eq_Inr)
  have "\<forall>h1. x = Some h1 \<longrightarrow> wr_out h1 = wr_out h"
    using x by (auto simp: write_take_in_def bindF_eq_Inr split: prod.splits option.splits if_splits)
  then show ?thesis
    using assms x
    by (cases x) (auto simp: write_reading_accept_def write_decoding_accept_def
        dest!: decoding_accept_keeps_out)
qed

lemma ready_in_pieces:
  assumes "dnswire_writer_write L w h = Inr (res, h1, w1)" and "wr_state h = dnswire_writer_encoding_ready"
    and "res \<noteq> dnswire_error" and "o_left (wr_out h1) \<noteq> 0"
  shows "wr_state h1 = dnswire_writer_writing \<and> wr_decoder h1 = wr_decoder h \<and> wr_in h1 = wr_in h \<and>
     inbox w1 = inbox w"
proof -
  have "write_encoding_ready L w h = Inr (res, h1, w1)"
    using assms(1,2) by (auto simp: dnswire_writer_write_def assertF_def split: if_splits)
  then obtain r e b w2 where r: "encoding L w (wr_encoder h) (wr_out h) = Inr (r, e, b, w2)"
    and m: "(if r \<noteq> dnswire_error \<and> o_left b \<noteq> 0
       then write_writing_ready L w2 r (h\<lparr>wr_encoder := e, wr_out := b, wr_state := dnswire_writer_writing\<rparr>)
       else Inr (r, h\<lparr>wr_encoder := e, wr_out := b\<rparr>, w2)) = Inr (res, h1, w1)"
    by (auto simp: write_encoding_ready_def bindF_eq_Inr Let_def)
  note w2 = encoding_world [OF r]
  let ?h = "h\<lparr>wr_encoder := e, wr_out := b, wr_state := dnswire_writer_writing\<rparr>"
  have ready: "write_writing_ready L w2 r ?h = Inr (res, h1, w1)"
    using m assms(3,4) by (auto split: if_splits)
  then obtain x w3 where x: "write_bytes w2 ?h = Inr (x, w3)"
    by (auto simp: write_writing_ready_def bindF_eq_Inr)
  note eff = write_bytes_effect [OF x]
  show ?thesis
  proof (cases x)
    case None
    with ready x assms(3) show ?thesis by (simp add: write_writing_ready_def)
  next
    case (Some h2)
    then obtain b2 where h2: "h2 = ?h\<lparr>wr_out := b2\<rparr>" using eff by blast
    have "o_left b2 \<noteq> 0"
    proof
      assume z: "o_left b2 = 0"
      with Some x ready h2 have
        "write_reading_accept L w3 (h2\<lparr>wr_state := dnswire_writer_reading_accept\<rparr>) = Inr (res, h1, w1)"
        by (simp add: write_writing_ready_def)
      from reading_accept_keeps_out [OF this] z h2 assms(4) show False by simp
    qed
    with Some x ready h2 eff w2 show ?thesis by (auto simp: write_writing_ready_def)
  qed
qed

text \<open>
  C15: When the kernel takes the READY frame of a bidirectional conversation in more than one piece,
  the state after the first piece is \<open>writing\<close> and not \<open>writing_ready\<close>. From then on, however often
  \<open>dnswire_writer_write\<close> is called with whatever messages, the writer sends START and the messages
  without ever reading the ACCEPT it has to wait for.
\<close>
theorem write_partial_ready_skips_accept:
  assumes "dnswire_writer_write L w h = Inr (res, h1, w1)" and "wr_state h = dnswire_writer_encoding_ready"
    and "res \<noteq> dnswire_error" and "o_left (wr_out h1) \<noteq> 0" and "writes_on L h1 w1 h2 w2"
  shows "wr_state h2 \<in> {dnswire_writer_encoding, dnswire_writer_writing} \<and>
     wr_decoder h2 = wr_decoder h \<and> wr_in h2 = wr_in h \<and> inbox w2 = inbox w"
proof -
  note p = ready_in_pieces [OF assms(1-4)]
  then have "only_sends h1 w1 h2 w2"
    by (intro writes_on_only_sends [OF assms(5)]) (simp add: sending_def)
  with p show ?thesis by (simp add: only_sends_def sending_def)
qed

definition toy_slow :: world where
  "toy_slow = \<lparr>allocs = [], reads = [], inbox = [1, 1], writes = [1], sent = []\<rparr>"

lemma toy_ready:
  "\<exists>e out. dnswire_encoder_encode toylib (wr_encoder toy_writerB) (o_size (wr_out toy_writerB)) =
     Inr (dnswire_again, e, out) \<and> length out = 25"
proof -
  have "o_size (wr_out toy_writerB) = 4096" "e_state (wr_encoder toy_writerB) = dnswire_encoder_control_ready"
    by (simp_all add: toy_writerB_def toy_writer0_def dnswire_writer_set_bidirectional_def toy_out_def
        dnswire_writer_init_def writer_defaults_def sys_alloc_def DNSWIRE_DEFAULT_BUF_SIZE_def Let_def)
  then show ?thesis
    by (simp add: dnswire_encoder_encode_def encoder_wrote_def content_type_field_def toylib_def
        toy_emit_def toy_control_def DNSTAP_PROTOBUF_CONTENT_TYPE_def)
qed

lemma toy_ready_write:
  "\<exists>h w. dnswire_writer_write toylib toy_slow toy_writerB = Inr (dnswire_again, h, w) \<and>
     o_left (wr_out h) = 24"
proof -
  have b0: "writer_ok toy_writerB" "wr_state toy_writerB = dnswire_writer_encoding_ready"
    using set_bidirectional_sound [OF toy_writer_init toy_bidirectional] by auto
  then have left0: "o_left (wr_out toy_writerB) = 0" by (simp add: writer_ok_def)
  from toy_ready obtain e out where
    e: "dnswire_encoder_encode toylib (wr_encoder toy_writerB) (o_size (wr_out toy_writerB)) =
      Inr (dnswire_again, e, out)" "length out = 25" by blast
  from encoding_first [OF toylib_ok writer_okD(2,1) [OF b0(1)] left0 e(1), of toy_slow] obtain b where
    b: "encoding toylib toy_slow (wr_encoder toy_writerB) (wr_out toy_writerB) = Inr (dnswire_again, e, b, toy_slow)"
      "out_pending b = out" "out_ok b" by auto
  have left: "o_left b = 25" using out_pending_length [OF b(3)] b(2) e(2) by simp
  have pk: "out_peek b 25 = Inr out"
    using outq.peek_pending [OF b(3), of 25] b(2) e(2) by simp
  have dl: "o_left (out_drain 1 b) = 24"
    by (simp add: out_drain_def left sz_sub_def size_limit_def Let_def)
  have w: "sys_write toy_slow out = (Some 1, toy_slow\<lparr>writes := [], sent := take 1 out\<rparr>)"
    using e(2) by (simp add: sys_write_def toy_slow_def)
  have "o_buf (wr_out toy_writerB) \<noteq> None"
    using writer_okD(1) [OF b0(1)] by (auto elim: out_okD)
  then show ?thesis
    using b(1) b0(2) left dl pk w
    by (simp add: dnswire_writer_write_def write_encoding_ready_def write_writing_ready_def write_bytes_def)
qed

theorem write_partial_ready_skips_accept_witness:
  "\<exists>h w. dnswire_writer_write toylib toy_slow toy_writerB = Inr (dnswire_again, h, w) \<and>
     wr_state h \<in> {dnswire_writer_encoding, dnswire_writer_writing} \<and> inbox w = [1, 1]"
proof -
  from toy_ready_write obtain h w where
    h: "dnswire_writer_write toylib toy_slow toy_writerB = Inr (dnswire_again, h, w)"
    "o_left (wr_out h) = 24" by blast
  have "wr_state toy_writerB = dnswire_writer_encoding_ready"
    using set_bidirectional_sound [OF toy_writer_init toy_bidirectional] by auto
  from write_partial_ready_skips_accept [OF h(1) this _ _ no_write] h show ?thesis
    by (auto simp: toy_slow_def)
qed

section \<open>FINISH in two pieces\<close>

text \<open>The handle waits for the rest of a FINISH frame in the state for ACCEPT frames.\<close>

definition misplaced :: "('r, 'w) dnswire_writer \<Rightarrow> bool" where
  "misplaced h \<longleftrightarrow> wr_state h = dnswire_writer_reading_accept \<and>
     dc_state (wr_decoder h) = dnswire_decoder_checking_finish"

lemma decode_checking_finish_results:
  assumes "dnswire_decoder_decode L d bs = Inr (res, d')" and "dc_state d = dnswire_decoder_checking_finish"
  shows "res \<in> {dnswire_endofdata, dnswire_need_more, dnswire_error} \<and>
     (res = dnswire_need_more \<longrightarrow> dc_state d' = dnswire_decoder_checking_finish)"
  using assms
  by (auto simp: dnswire_decoder_decode_def assertF_def decode_checking_finish_def Let_def
      split: if_splits prod.splits tinyframe_result.splits)

lemma decoding_accept_misplaced:
  assumes "pop_decoding_accept L w h = Inr (res, h', w')"
    and "dc_state (wr_decoder h) = dnswire_decoder_checking_finish" and "res \<noteq> dnswire_error"
  shows "res = dnswire_need_more \<and> misplaced h'"
proof -
  obtain bs r d where d: "in_load (wr_in h) = Inr bs" "dnswire_decoder_decode L (wr_decoder h) bs = Inr (r, d)"
    using assms(1) by (auto simp: pop_decoding_accept_def bindF_eq_Inr)
  from decode_checking_finish_results [OF d(2) assms(2)] assms(1,3) d show ?thesis
    by (auto simp: pop_decoding_accept_def Let_def bindF_eq_Inr misplaced_def split: if_splits)
qed

lemma decoding_finish_misplaced:
  assumes "pop_decoding_finish L w h = Inr (dnswire_need_more, h', w')"
    and "dc_state (wr_decoder h) = dnswire_decoder_checking_finish"
  shows "misplaced h'"
proof -
  obtain bs r d where d: "in_load (wr_in h) = Inr bs" "dnswire_decoder_decode L (wr_decoder h) bs = Inr (r, d)"
    using assms(1) by (auto simp: pop_decoding_finish_def bindF_eq_Inr)
  from decode_checking_finish_results [OF d(2) assms(2)] assms(1) d show ?thesis
    by (auto simp: pop_decoding_finish_def Let_def bindF_eq_Inr misplaced_def split: if_splits)
qed

lemma take_in_keeps:
  assumes "write_take_in w h = Inr (Some h1, w')"
  shows "\<exists>b. h1 = h\<lparr>wr_in := b\<rparr>"
  using assms
  by (auto simp: write_take_in_def bindF_eq_Inr split: prod.splits option.splits if_splits)

lemma misplaced_write:
  assumes "dnswire_writer_write L w h = Inr (res, h', w')" and "misplaced h" and "res \<noteq> dnswire_error"
  shows "res = dnswire_need_more \<and> misplaced h'"
proof -
  have "write_reading_accept L w h = Inr (res, h', w')"
    using assms(1,2) by (auto simp: dnswire_writer_write_def assertF_def misplaced_def split: if_splits)
  then obtain h1 w1 where h1: "write_take_in w h = Inr (Some h1, w1)"
    "pop_decoding_accept L w1 (h1\<lparr>wr_state := dnswire_writer_decoding_accept\<rparr>) = Inr (res, h', w')"
    using assms(3)
    by (auto simp: write_reading_accept_def write_decoding_accept_def bindF_eq_Inr split: option.splits)
  from take_in_keeps [OF h1(1)] assms(2) have "dc_state (wr_decoder h1) = dnswire_decoder_checking_finish"
    by (auto simp: misplaced_def)
  with decoding_accept_misplaced [OF h1(2) _ assms(3)] show ?thesis by simp
qed

lemma writes_on_misplaced:
  assumes "writes_on L h w h' w'" and "misplaced h"
  shows "misplaced h'"
  using assms
proof (induction rule: writes_on.induct)
  case (one_write h w h1 w1 res h2 w2)
  then show ?case using misplaced_write by blast
qed (simp_all add: misplaced_def dnswire_writer_set_dnstap_def)

lemma finish_in_pieces:
  assumes "dnswire_writer_write L w h = Inr (dnswire_need_more, h1, w1)"
    and "wr_state h \<in> {dnswire_writer_reading_finish, dnswire_writer_decoding_finish}"
    and "dc_state (wr_decoder h) = dnswire_decoder_checking_finish"
  shows "misplaced h1"
proof (cases "wr_state h = dnswire_writer_decoding_finish")
  case True
  then have "pop_decoding_finish L w h = Inr (dnswire_need_more, h1, w1)"
    using assms(1)
    by (auto simp: dnswire_writer_write_def assertF_def write_decoding_finish_def split: if_splits)
  from decoding_finish_misplaced [OF this assms(3)] show ?thesis .
next
  case False
  then have "write_reading_finish L w h = Inr (dnswire_need_more, h1, w1)"
    using assms(1,2) by (auto simp: dnswire_writer_write_def assertF_def split: if_splits)
  then obtain h2 w2 where h2: "write_take_in w h = Inr (Some h2, w2)"
    "pop_decoding_finish L w2 (h2\<lparr>wr_state := dnswire_writer_decoding_finish\<rparr>) = Inr (dnswire_need_more, h1, w1)"
    by (auto simp: write_reading_finish_def write_decoding_finish_def bindF_eq_Inr split: option.splits)
  from take_in_keeps [OF h2(1)] decoding_finish_misplaced [OF h2(2)] assms(3) show ?thesis by auto
qed

text \<open>
  C16: When the FINISH frame of the peer arrives in more than one piece, the state after the first
  piece is \<open>reading_accept\<close> and not \<open>reading_finish\<close>. From then on no call of \<open>dnswire_writer_write\<close>
  reports the end of the conversation, up to the first one that fails: it asks for more or, once the rest
  of FINISH has arrived, fails.
\<close>
theorem write_split_finish_never_ends:
  assumes "dnswire_writer_write L w h = Inr (dnswire_need_more, h1, w1)"
    and "wr_state h \<in> {dnswire_writer_reading_finish, dnswire_writer_decoding_finish}"
    and "dc_state (wr_decoder h) = dnswire_decoder_checking_finish"
    and "writes_on L h1 w1 h2 w2" and "dnswire_writer_write L w2 h2 = Inr (res, h3, w3)"
  shows "wr_state h2 = dnswire_writer_reading_accept \<and> res \<in> {dnswire_need_more, dnswire_error}"
proof -
  have "misplaced h2"
    by (rule writes_on_misplaced [OF assms(4) finish_in_pieces [OF assms(1-3)]])
  with misplaced_write [OF assms(5)] show ?thesis by (auto simp: misplaced_def)
qed

definition toy_ending :: "(toy_reader, nat) dnswire_writer" where
  "toy_ending = toy_writerB\<lparr>wr_state := dnswire_writer_reading_finish,
     wr_decoder := (wr_decoder toy_writerB)\<lparr>dc_state := dnswire_decoder_checking_finish\<rparr>\<rparr>"

definition toy_halves :: world where
  "toy_halves = \<lparr>allocs = [], reads = [1, 1], inbox = [5, 0], writes = [], sent = []\<rparr>"

lemma toy_ending_fields:
  "wr_in toy_ending = \<lparr>i_buf = Some (fresh_block 4096), i_size = 4096, i_inc = 4096, i_max = 65536,
     i_at = 0, i_left = 0\<rparr>"
  "tr_left (dc_reader (wr_decoder toy_ending)) = 0"
  "wr_state toy_ending = dnswire_writer_reading_finish"
  "dc_state (wr_decoder toy_ending) = dnswire_decoder_checking_finish"
  "o_buf (wr_out toy_ending) \<noteq> None"
  by (simp_all add: toy_ending_def toy_writerB_def toy_writer0_def dnswire_writer_set_bidirectional_def
      toy_out_def dnswire_writer_init_def writer_defaults_def sys_alloc_def Let_def
      DNSWIRE_DEFAULT_BUF_SIZE_def DNSWIRE_MAXIMUM_BUF_SIZE_def DNSWIRE_DECODER_INITIALIZER_def toylib_def)

lemma toy_ending_ok: "writer_ok toy_ending"
proof -
  have "writer_ok toy_writerB" "wr_bidirectional toy_writerB" "wr_state toy_writerB = dnswire_writer_encoding_ready"
    using set_bidirectional_sound [OF toy_writer_init toy_bidirectional] by auto
  then show ?thesis by (simp add: toy_ending_def writer_ok_def decoder_ok_def)
qed

lemma toy_ending_write:
  "\<exists>h w. dnswire_writer_write toylib toy_halves toy_ending = Inr (dnswire_need_more, h, w)"
proof -
  let ?b = "wr_in toy_ending"
  let ?c = "?b\<lparr>i_buf := Some (Some 5 # drop 1 (fresh_block 4096)), i_left := 1\<rparr>"
  let ?w = "toy_halves\<lparr>reads := [1], inbox := [0]\<rparr>"
  have "sys_read toy_halves (in_room ?b) = (Some [5], ?w)"
    by (simp add: sys_read_def toy_halves_def in_room_def toy_ending_fields(1) sz_sub_def size_limit_def)
  moreover have "in_append ?b [5] = Inr ?c"
    by (simp add: in_append_def toy_ending_fields(1) mem_store_def sz_add_def size_limit_def)
  ultimately have t: "write_take_in toy_halves toy_ending = Inr (Some (toy_ending\<lparr>wr_in := ?c\<rparr>), ?w)"
    by (simp add: write_take_in_def)
  have l: "in_load ?c = Inr [5]"
    by (simp add: in_load_def mem_load_def toy_ending_fields(1))
  have r: "dnswire_decoder_decode toylib (wr_decoder toy_ending) [5] =
      Inr (dnswire_need_more, wr_decoder toy_ending)"
    using toy_ending_fields(2,4)
    by (simp add: dnswire_decoder_decode_def decode_checking_finish_def toylib_def toy_read_def)
  have n: "in_need_more ?w ?c = Inr (True, ?c, ?w)"
    by (simp add: in_need_more_def toy_ending_fields(1))
  show ?thesis
    using toy_ending_fields(3,5) t l r n
    by (simp add: dnswire_writer_write_def write_reading_finish_def write_decoding_finish_def
        pop_decoding_finish_def)
qed

theorem write_split_finish_never_ends_witness:
  "\<exists>h1 w1. dnswire_writer_write toylib toy_halves toy_ending = Inr (dnswire_need_more, h1, w1) \<and>
     wr_state h1 = dnswire_writer_reading_accept"
proof -
  obtain h1 w1 where h1: "dnswire_writer_write toylib toy_halves toy_ending = Inr (dnswire_need_more, h1, w1)"
    using toy_ending_write by blast
  with writer_write_returns [OF toylib_ok toy_ending_ok, of toy_halves] have "writer_ok h1"
    by (auto simp: write_post_def)
  from writer_write_returns [OF toylib_ok this, of w1] obtain res h2 w2 where
    h2: "dnswire_writer_write toylib w1 h1 = Inr (res, h2, w2)" by auto
  from write_split_finish_never_ends [OF h1 _ toy_ending_fields(4) no_write h2] h1 toy_ending_fields(3)
  show ?thesis by auto
qed

end
