(* ===== verification/Encoding_Props.thy ===== *)
theory Encoding_Props
  imports Outbuf Toylib
begin

text \<open>
  The loop \<open>_encoding\<close> of \<open>reader.c\<close> and \<open>writer.c\<close>: it ends, for a reason that shows in its
  result, and the fuel of the model does not matter.
\<close>

lemma encoding_loop_more_fuel:
  assumes "encoding_loop m L w e b = Inr x" and "m \<le> n"
  shows "encoding_loop n L w e b = Inr x"
  using assms
proof (induction m arbitrary: n w e b)
  case (Suc m)
  then obtain k where n: "n = Suc k" "m \<le> k" by (cases n) auto
  obtain res e' b1 where at: "encode_at L e b = Inr (res, e', b1)"
    using Suc.prems(1) by (auto simp: bindF_eq_Inr)
  obtain a w' where a: "sys_alloc w = (a, w')" by (cases "sys_alloc w")
  show ?case
    using Suc.prems(1) Suc.IH [OF _ n(2)] at a unfolding n(1)
    by (auto simp: Let_def split: if_splits)
qed simp

text \<open>A round that goes on: the encoder needs more room and there is room to grow into.\<close>

lemma encoding_loop_round:
  assumes "encode_at L e b = Inr (dnswire_need_more, e', b1)" and "sys_alloc w = (True, w')"
    and "o_size b1 < o_max b1" and "o_max b1 + o_inc b1 < size_limit"
  shows "encoding_loop (Suc fuel) L w e b = encoding_loop fuel L w' e'
     (b1\<lparr>o_buf := map_option (resize_block (min (o_max b1) (o_size b1 + o_inc b1))) (o_buf b1),
         o_size := min (o_max b1) (o_size b1 + o_inc b1)\<rparr>)"
proof -
  have "(if sz_add (o_size b1) (o_inc b1) > o_max b1 then o_max b1 else sz_add (o_size b1) (o_inc b1)) =
      min (o_max b1) (o_size b1 + o_inc b1)"
    using assms(3,4) by (simp add: sz_add_exact min_def)
  with assms(1-3) show ?thesis by (simp add: Let_def)
qed

text \<open>Why the loop may give up: the encoder failed, or the largest block allowed is too small.\<close>

definition hopeless :: "('r, 'w) extlib \<Rightarrow> 'w dnswire_encoder \<Rightarrow> outbuf \<Rightarrow> bool" where
  "hopeless L e b \<longleftrightarrow> (\<exists>e1 len e2 out. e_state e1 = e_state e \<and> e_dnstap e1 = e_dnstap e \<and>
     (dnswire_encoder_encode L e1 len = Inr (dnswire_error, e2, out) \<or>
      dnswire_encoder_encode L e1 (o_max b - o_at b) = Inr (dnswire_need_more, e2, out)))"

definition loop_result :: "('r, 'w) extlib \<Rightarrow> world \<Rightarrow> 'w dnswire_encoder \<Rightarrow> outbuf \<Rightarrow>
    dnswire_result \<times> 'w dnswire_encoder \<times> outbuf \<times> world \<Rightarrow> bool" where
  "loop_result L w e b x = (case x of (res, e', b', w') \<Rightarrow>
     res \<noteq> dnswire_need_more \<and> o_size b \<le> o_size b' \<and> o_size b' \<le> o_max b \<and> o_max b' = o_max b \<and>
     (res = dnswire_error \<and> allocs w = [] \<longrightarrow> hopeless L e b))"

lemma hopeless_same:
  "hopeless L e' b' \<Longrightarrow> e_state e' = e_state e \<Longrightarrow> e_dnstap e' = e_dnstap e \<Longrightarrow>
     o_max b' = o_max b \<Longrightarrow> o_at b' = o_at b \<Longrightarrow> hopeless L e b"
  unfolding hopeless_def by simp

lemma encoding_loop_result:
  assumes L: "extlib_ok L" and "encoder_ok e" and "out_ok b" and "o_at b < o_size b"
    and "o_max b - o_size b < fuel"
  shows "\<exists>x. encoding_loop fuel L w e b = Inr x \<and> loop_result L w e b x"
  using assms(2-)
proof (induction fuel arbitrary: w e b)
  case (Suc fuel)
  from encode_at_props [OF L Suc.prems(1-3)] obtain res e' out m where
    enc: "dnswire_encoder_encode L e (o_size b - o_at b) = Inr (res, e', out)"
    and at: "encode_at L e b = Inr (res, e', b\<lparr>o_buf := Some m\<rparr>)"
    and e': "encoder_ok e'" and len: "length out \<le> o_size b - o_at b"
    and st: "mem_store (o_buf b) (o_at b) out = Inr (Some m)" by blast
  note con = encode_contract [OF L Suc.prems(1) enc]
  have lim: "o_size b \<le> o_max b" "0 < o_inc b" "o_max b + o_inc b < size_limit"
    using Suc.prems(2) by (auto elim: out_okD)
  obtain a w' where a: "sys_alloc w = (a, w')" by (cases "sys_alloc w")
  show ?case
  proof (cases "res = dnswire_need_more \<and> o_size b < o_max b \<and> a")
    case False
    have "hopeless L e b"
      if "res = dnswire_error \<or> res = dnswire_need_more \<and> \<not> o_size b < o_max b"
    proof -
      have "o_size b = o_max b" if "\<not> o_size b < o_max b" using that lim(1) by simp
      with that enc show ?thesis unfolding hopeless_def by metis
    qed
    moreover have "a" if "allocs w = []" using a that by (simp add: sys_alloc_def)
    ultimately show ?thesis
      using False at lim a by (auto simp: loop_result_def Let_def)
  next
    case True
    let ?n = "min (o_max b) (o_size b + o_inc b)"
    let ?b3 = "b\<lparr>o_buf := map_option (resize_block ?n) (Some m), o_size := ?n\<rparr>"
    have same: "e_state e' = e_state e" "e_dnstap e' = e_dnstap e"
      using con True encoder_next_result [of "e_state e"] by blast+
    from store_behind [OF Suc.prems(2) len] st have b1: "out_ok (b\<lparr>o_buf := Some m\<rparr>)" by auto
    have n: "o_size b < ?n" "?n \<le> o_max b" using True lim by auto
    from out_resize_props [OF b1, of ?n] n have b3: "out_ok ?b3" by simp
    have rec: "encoding_loop (Suc fuel) L w e b = encoding_loop fuel L w' e' ?b3"
      using encoding_loop_round [of L e b e' "b\<lparr>o_buf := Some m\<rparr>" w w' fuel] at True a lim by simp
    have "\<exists>x. encoding_loop fuel L w' e' ?b3 = Inr x \<and> loop_result L w' e' ?b3 x"
      by (rule Suc.IH [OF e' b3]) (use n Suc.prems(3,4) in auto)
    then obtain x where x: "encoding_loop fuel L w' e' ?b3 = Inr x" "loop_result L w' e' ?b3 x" by blast
    have "allocs w' = []" if "allocs w = []" using a that by (auto simp: sys_alloc_def)
    with x(2) n hopeless_same [of L e' ?b3 e b] same have "loop_result L w e b x"
      by (auto simp: loop_result_def split: prod.splits)
    with x(1) rec show ?thesis by auto
  qed
qed simp

text \<open>
  C30: The loop \<open>_encoding\<close> ends: \<open>max - size + 1\<close> rounds are enough, more fuel gives the same
  result, the block only grows and never beyond \<open>max\<close>. It never leaves its caller with a request
  for more room, and when the allocator does not fail it gives up only if the encoder fails or
  the frame does not even fit the largest block allowed.
\<close>
theorem encoding_terminates:
  assumes "extlib_ok L" and "encoder_ok e" and "out_ok b" and "o_at b < o_size b"
    and "o_max b - o_size b < fuel"
  shows "\<exists>res e' b' w'. encoding L w e b = Inr (res, e', b', w') \<and>
     encoding_loop fuel L w e b = encoding L w e b \<and>
     res \<noteq> dnswire_need_more \<and> o_size b \<le> o_size b' \<and> o_size b' \<le> o_max b \<and>
     (res = dnswire_error \<and> allocs w = [] \<longrightarrow> hopeless L e b)"
proof -
  from encoding_loop_result [OF assms(1-4), of "Suc (o_max b - o_size b)" w] obtain x where
    x: "encoding_loop (Suc (o_max b - o_size b)) L w e b = Inr x" "loop_result L w e b x" by auto
  have "encoding_loop fuel L w e b = Inr x"
    by (rule encoding_loop_more_fuel [OF x(1)]) (use assms(5) in simp)
  with x show ?thesis by (cases x) (auto simp: encoding_def loop_result_def)
qed

definition toy_outbuf :: outbuf where
  "toy_outbuf = \<lparr>o_buf = Some (fresh_block 4), o_size = 4, o_inc = 4, o_max = 40, o_at = 0, o_left = 0\<rparr>"

theorem encoding_terminates_witness:
  "\<exists>x. encoding_loop 100 toylib \<lparr>allocs = [], reads = [], inbox = [], writes = [], sent = []\<rparr>
     (DNSWIRE_ENCODER_INITIALIZER toylib) toy_outbuf = Inr x"
proof -
  have "out_ok toy_outbuf"
    by (simp add: toy_outbuf_def out_ok_def out_limits_def size_limit_def)
  moreover have "encoder_ok (DNSWIRE_ENCODER_INITIALIZER toylib)"
    by (simp add: encoder_ok_def DNSWIRE_ENCODER_INITIALIZER_def)
  moreover have "o_at toy_outbuf < o_size toy_outbuf" "o_max toy_outbuf - o_size toy_outbuf < 100"
    by (simp_all add: toy_outbuf_def)
  ultimately obtain res e' b' w' where "encoding toylib \<lparr>allocs = [], reads = [], inbox = [], writes = [], sent = []\<rparr>
      (DNSWIRE_ENCODER_INITIALIZER toylib) toy_outbuf = Inr (res, e', b', w') \<and>
    encoding_loop 100 toylib \<lparr>allocs = [], reads = [], inbox = [], writes = [], sent = []\<rparr>
      (DNSWIRE_ENCODER_INITIALIZER toylib) toy_outbuf = encoding toylib
      \<lparr>allocs = [], reads = [], inbox = [], writes = [], sent = []\<rparr>
      (DNSWIRE_ENCODER_INITIALIZER toylib) toy_outbuf"
    using encoding_terminates [OF toylib_ok] by blast
  then show ?thesis by auto
qed

end
