(* ===== verification/Dnstap_Build.thy ===== *)
theory Dnstap_Build
  imports Dnstap_Props Encoder
begin

text \<open>
  Building a message with the macros of \<open>dnstap.h\<close>: whatever is called in whatever order on an
  initialised struct that was not decoded, the struct can be encoded and its enums are known.
\<close>

section \<open>Building\<close>

text \<open>The macros that cannot fail.\<close>

inductive setter :: "('r, 'w) extlib \<Rightarrow> (dnstap \<Rightarrow> dnstap) \<Rightarrow> bool" for L where
  "setter L (dnstap_set_type v)"
| "setter L (dnstap_set_identity bs)"
| "setter L (dnstap_set_version bs)"
| "setter L (dnstap_set_extra bs)"
| "setter L (dnstap_message_set_type v)"
| "setter L (dnstap_message_set_socket_family v)"
| "setter L (dnstap_message_set_socket_protocol v)"
| "setter L (dnstap_message_set_query_address bs)"
| "setter L (dnstap_message_set_response_address bs)"
| "setter L (dnstap_message_set_query_port p)"
| "setter L (dnstap_message_set_response_port p)"
| "setter L (dnstap_message_set_query_time_sec q)"
| "setter L (dnstap_message_set_query_time_nsec p)"
| "setter L (dnstap_message_set_query_message bs)"
| "setter L (dnstap_message_set_query_zone bs)"
| "setter L (dnstap_message_set_response_time_sec q)"
| "setter L (dnstap_message_set_response_time_nsec p)"
| "setter L (dnstap_message_set_response_message bs)"
| "setter L (dnstap_message_policy_set_action v)"
| "setter L (dnstap_message_policy_set_match v)"
| "setter L (dnstap_message_policy_set_rule bs)"
| "setter L (dnstap_message_policy_set_value bs)"
| "setter L (dnstap_message_clear_policy L)"

inductive built :: "('r, 'w) extlib \<Rightarrow> dnstap \<Rightarrow> bool" for L where
  built_init: "built L (DNSTAP_INITIALIZER L)"
| built_set: "built L d \<Longrightarrow> setter L s \<Longrightarrow> built L (s d)"
| built_use_policy: "built L d \<Longrightarrow> dnstap_message_use_policy d = Inr d' \<Longrightarrow> built L d'"
| built_policy_type: "built L d \<Longrightarrow> dnstap_message_policy_set_type v w d = Inr (d', w') \<Longrightarrow> built L d'"

section \<open>No pointer leaves the struct\<close>

definition self_contained :: "dnstap \<Rightarrow> bool" where
  "self_contained d \<longleftrightarrow> d_unpacked d = None \<and> t_message (d_dnstap d) \<in> {Msg_null, Msg_own} \<and>
     m_policy (d_message d) \<in> {Pol_null, Pol_own} \<and>
     \<not> m_query_address_gone (d_message d) \<and> \<not> m_response_address_gone (d_message d) \<and>
     (case p_type (d_policy d) of Str_unpacked a s \<Rightarrow> False | _ \<Rightarrow> True)"

definition enums_known :: "dnstap \<Rightarrow> bool" where
  "enums_known d \<longleftrightarrow> top_enums_ok (d_dnstap d) \<and> message_enums_ok (d_message d) \<and>
     policy_enums_ok (d_policy d)"

text \<open>The defaults \<open>protobuf-c\<close> initialises the embedded messages with are in the tables.\<close>

definition init_enums_ok :: "('r, 'w) extlib \<Rightarrow> bool" where
  "init_enums_ok L \<longleftrightarrow> enums_known (DNSTAP_INITIALIZER L) \<and>
     policy_enums_ok (policy_fields.extend (pb_policy_init L) (Dnstap__Policy.fields Str_null))"

lemmas setter_defs =
  message_setter_defs policy_setter_defs dnstap_set_type_def dnstap_set_identity_def
  dnstap_set_version_def dnstap_set_extra_def

text \<open>Fields of an embedded message as it was initialised.\<close>

lemma extend_selectors:
  "t_type (dnstap_fields.extend f (Dnstap__Dnstap.fields q)) = t_type f"
  "t_message (dnstap_fields.extend f (Dnstap__Dnstap.fields q)) = q"
  by (simp_all add: dnstap_fields.extend_def Dnstap__Dnstap.fields_def)

lemma extend_message_selectors:
  "m_type (message_fields.extend m (Dnstap__Message.fields r g k)) = m_type m"
  "m_has_socket_family (message_fields.extend m (Dnstap__Message.fields r g k)) = m_has_socket_family m"
  "m_socket_family (message_fields.extend m (Dnstap__Message.fields r g k)) = m_socket_family m"
  "m_has_socket_protocol (message_fields.extend m (Dnstap__Message.fields r g k)) = m_has_socket_protocol m"
  "m_socket_protocol (message_fields.extend m (Dnstap__Message.fields r g k)) = m_socket_protocol m"
  "m_policy (message_fields.extend m (Dnstap__Message.fields r g k)) = r"
  "m_query_address_gone (message_fields.extend m (Dnstap__Message.fields r g k)) = g"
  "m_response_address_gone (message_fields.extend m (Dnstap__Message.fields r g k)) = k"
  by (simp_all add: message_fields.extend_def Dnstap__Message.fields_def)

lemma extend_policy_selectors:
  "p_has_action (policy_fields.extend p (Dnstap__Policy.fields s)) = p_has_action p"
  "p_action (policy_fields.extend p (Dnstap__Policy.fields s)) = p_action p"
  "p_has_match (policy_fields.extend p (Dnstap__Policy.fields s)) = p_has_match p"
  "p_match (policy_fields.extend p (Dnstap__Policy.fields s)) = p_match p"
  "p_type (policy_fields.extend p (Dnstap__Policy.fields s)) = s"
  by (simp_all add: policy_fields.extend_def Dnstap__Policy.fields_def)

lemmas embedded_selectors = extend_selectors extend_message_selectors extend_policy_selectors

lemma setter_self_contained:
  assumes "setter L s" and "self_contained d"
  shows "self_contained (s d)"
  using assms
  by cases (simp_all add: self_contained_def setter_defs embedded_selectors)

lemma top_enums_iff: "top_enums_ok t \<longleftrightarrow> 0 \<le> t_type t \<and> t_type t < 2"
  by (auto simp: top_enums_ok_def DNSTAP_TYPE_STRING_def)

lemma message_enums_iff:
  "message_enums_ok m \<longleftrightarrow> 0 \<le> m_type m \<and> m_type m < 15 \<and>
     0 \<le> m_socket_family m \<and> m_socket_family m < 3 \<and>
     (m_has_socket_family m \<longrightarrow> m_socket_family m \<noteq> 0) \<and>
     0 \<le> m_socket_protocol m \<and> m_socket_protocol m < 8 \<and>
     (m_has_socket_protocol m \<longrightarrow> m_socket_protocol m \<noteq> 0)"
proof -
  have "length DNSTAP_MESSAGE_TYPE_STRING = 15" "length DNSTAP_SOCKET_FAMILY_STRING = 3"
    "length DNSTAP_SOCKET_PROTOCOL_STRING = 8"
    by (simp_all add: enum_tables)
  then show ?thesis by (auto simp: message_enums_ok_def)
qed

lemma policy_enums_iff:
  "policy_enums_ok p \<longleftrightarrow> 0 \<le> p_action p \<and> p_action p < 7 \<and> (p_has_action p \<longrightarrow> p_action p \<noteq> 0) \<and>
     0 \<le> p_match p \<and> p_match p < 6 \<and> (p_has_match p \<longrightarrow> p_match p \<noteq> 0)"
proof -
  have "length DNSTAP_POLICY_ACTION_STRING = 7" "length DNSTAP_POLICY_MATCH_STRING = 6"
    by (simp_all add: enum_tables)
  then show ?thesis by (auto simp: policy_enums_ok_def)
qed

lemma settable_range: "v \<in> set settable_message_types \<Longrightarrow> 0 \<le> v \<and> v < 15"
  by (auto simp: settable_message_types_def)

text \<open>Macros that touch no enum field keep them known at once.\<close>

lemma setter_enums_known:
  assumes "setter L s" and "enums_known d" and "init_enums_ok L"
  shows "enums_known (s d)"
  using assms(1)
proof cases
  case (5 v)
  with assms(2) settable_range [of v] show ?thesis
    by (simp add: enums_known_def message_enums_iff dnstap_message_set_type_def)
qed (use assms(2,3) in \<open>simp_all add: enums_known_def init_enums_ok_def top_enums_iff
    message_enums_iff policy_enums_iff setter_defs\<close>)

lemma init_self_contained: "self_contained (DNSTAP_INITIALIZER L)"
  by (simp add: self_contained_def DNSTAP_INITIALIZER_def embedded_selectors)

lemma use_policy_sound:
  assumes "dnstap_message_use_policy d = Inr d'" and "self_contained d"
  shows "self_contained d' \<and> (enums_known d \<longrightarrow> enums_known d')"
proof -
  have "d' = d\<lparr>d_message := (d_message d)\<lparr>m_policy := Pol_own\<rparr>\<rparr>"
    using assms by (auto simp: dnstap_message_use_policy_def self_contained_def)
  with assms(2) show ?thesis
    by (simp add: self_contained_def enums_known_def message_enums_ok_def)
qed

lemma policy_type_sound:
  assumes "dnstap_message_policy_set_type v w d = Inr (d', w')" and "self_contained d"
  shows "self_contained d' \<and> (enums_known d \<longrightarrow> enums_known d')"
proof -
  obtain ok w1 where a: "sys_alloc w = (ok, w1)" by (cases "sys_alloc w")
  with assms(1) have "d' = d\<lparr>d_policy := (d_policy d)\<lparr>p_type := (if ok then Str_heap v else Str_null)\<rparr>,
      d_policy_type_alloced := True\<rparr>"
    by (simp add: dnstap_message_policy_set_type_def split: if_splits)
  with assms(2) show ?thesis
    by (simp add: self_contained_def enums_known_def policy_enums_ok_def)
qed

lemma built_sound:
  assumes "built L d"
  shows "self_contained d \<and> (init_enums_ok L \<longrightarrow> enums_known d)"
  using assms
proof (induction rule: built.induct)
  case built_init
  then show ?case using init_self_contained by (simp add: init_enums_ok_def)
next
  case (built_set d s)
  then show ?case using setter_self_contained setter_enums_known by blast
next
  case (built_use_policy d d')
  then show ?case using use_policy_sound by blast
next
  case (built_policy_type d v w d' w')
  then show ?case using policy_type_sound by blast
qed

lemma self_contained_encodable: "self_contained d \<Longrightarrow> encodable d"
  by (auto simp: self_contained_def encodable_def wire_defs addresses_live_def split: str_ref.splits)

text \<open>
  A message that was built with the macros of \<open>dnstap.h\<close> on an initialised struct, in any
  order, can be encoded, which is what the encoder requires of the message that is set; the only
  macro that faults is \<open>dnstap_message_use_policy\<close> without a message, and setting the policy
  type frees what it may free. Every enum field stays within the tables of printable names when
  the defaults are.
\<close>
theorem built_encodable:
  assumes "built L d"
  shows "encodable d \<and> (init_enums_ok L \<longrightarrow> enums_known d) \<and>
     (dnstap_message_use_policy d = Inl Null_deref \<longleftrightarrow> \<not> dnstap_has_message d) \<and>
     (\<exists>d' w'. dnstap_message_policy_set_type v w d = Inr (d', w')) \<and> dnstap_cleanup d = Inr d"
proof -
  have s: "self_contained d" and e: "init_enums_ok L \<longrightarrow> enums_known d"
    using built_sound [OF assms] by blast+
  have "dnstap_message_use_policy d = Inl Null_deref \<longleftrightarrow> \<not> dnstap_has_message d"
    using s by (auto simp: self_contained_def dnstap_message_use_policy_def dnstap_has_message_def)
  moreover have "\<exists>d' w'. dnstap_message_policy_set_type v w d = Inr (d', w')"
    using s
    by (auto simp: self_contained_def dnstap_message_policy_set_type_def
        split: str_ref.splits prod.splits)
  moreover have "dnstap_cleanup d = Inr d"
    using s by (simp add: self_contained_def dnstap_cleanup_def)
  ultimately show ?thesis
    using self_contained_encodable [OF s] e by blast
qed

lemma toy_inits:
  "pb_dnstap_init toylib = toy_dnstap" "pb_message_init toylib = toy_message"
  "pb_policy_init toylib = toy_policy"
  by (simp_all add: toylib_def)

theorem built_encodable_witness:
  "encodable (dnstap_message_set_query_port 53 (dnstap_set_type 1 (DNSTAP_INITIALIZER toylib))) \<and>
   enums_known (dnstap_message_set_query_port 53 (dnstap_set_type 1 (DNSTAP_INITIALIZER toylib)))"
proof -
  have "built toylib (dnstap_message_set_query_port 53 (dnstap_set_type 1 (DNSTAP_INITIALIZER toylib)))"
    by (rule built_set [OF built_set [OF built_init setter.intros(1)] setter.intros(10)])
  moreover have "init_enums_ok toylib"
    by (simp add: init_enums_ok_def enums_known_def top_enums_iff message_enums_iff
        policy_enums_iff DNSTAP_INITIALIZER_def embedded_selectors toy_inits toy_dnstap_def
        toy_message_def toy_policy_def)
  ultimately show ?thesis
    using built_encodable by blast
qed

end
