(* ===== verification/Trace.thy ===== *)
theory Trace
  imports Prelude
begin

text \<open>
  \<open>trace.c\<close>: \<open>__printable_string\<close>, which renders traced bytes in a static buffer of 512 bytes.
  The buffer is a block, so a byte written behind its end would be a fault. \<open>isprint\<close> is that of
  the C locale.
\<close>

section \<open>The code\<close>

definition printable_size :: nat where
  "printable_size = 512"

definition isprint :: "byte \<Rightarrow> bool" where
  "isprint c \<longleftrightarrow> 32 \<le> unat c \<and> unat c < 127"

definition hex_digit :: "nat \<Rightarrow> byte" where
  "hex_digit n = (if n < 10 then of_nat (48 + n) else of_nat (87 + n))"

text \<open>The four characters of \<open>sprintf\<close> with the format \<open>\x%02x\<close>.\<close>

definition hex_escape :: "byte \<Rightarrow> byte list" where
  "hex_escape c = [92, 120, hex_digit (unat c div 16), hex_digit (unat c mod 16)]"

text \<open>
  The loop: \<open>r\<close> bytes have been read and \<open>n\<close> written; \<open>sprintf\<close> also writes a terminating zero,
  and the loop is left when an escape does not fit.
\<close>

function print_loop :: "byte list \<Rightarrow> nat \<Rightarrow> nat \<Rightarrow> block option \<Rightarrow> fault + nat \<times> block option" where
  "print_loop data r n buf =
     (if r < length data \<and> n < printable_size - 1
      then if isprint (data ! r)
           then bindF (mem_store buf n [data ! r]) (\<lambda>b. print_loop data (r + 1) (n + 1) b)
           else if n + 4 \<ge> printable_size - 1 then Inr (n, buf)
           else bindF (mem_store buf n (hex_escape (data ! r) @ [0])) (\<lambda>b.
                print_loop data (r + 1) (n + 4) b)
      else Inr (n, buf))"
  by pat_completeness auto

termination by (relation "measure (\<lambda>(data, r, n, buf). length data - r)") auto

declare print_loop.simps [simp del]

definition printable_string :: "byte list \<Rightarrow> block \<Rightarrow> fault + block option" where
  "printable_string data buf =
     bindF (print_loop data 0 0 (Some buf)) (\<lambda>(n, b).
     if n \<ge> printable_size then mem_store b (printable_size - 1) [0] else mem_store b n [0])"

section \<open>What it renders\<close>

definition render :: "byte \<Rightarrow> byte list" where
  "render c = (if isprint c then [c] else hex_escape c)"

lemma length_hex_escape [simp]: "length (hex_escape c) = 4"
  by (simp add: hex_escape_def)

lemma hex_digit_print: "n < 16 \<Longrightarrow> isprint (hex_digit n)"
proof -
  assume n: "n < 16"
  define k where "k = (if n < 10 then 48 + n else 87 + n)"
  have k: "32 \<le> k" "k < 127" using n by (auto simp: k_def)
  have "hex_digit n = of_nat k" by (simp add: hex_digit_def k_def)
  moreover have "unat (of_nat k :: byte) = k" using k by (simp add: unat_of_nat)
  ultimately show ?thesis using k by (simp add: isprint_def)
qed

lemma render_print: "\<forall>x \<in> set (render c). isprint x"
proof -
  have "unat c < 256" using unsigned_less [of c] by simp
  then have "unat c div 16 < 16" by simp
  then show ?thesis
    by (simp add: render_def hex_escape_def hex_digit_print) (simp add: isprint_def)
qed

text \<open>The block starts with the text.\<close>

definition starts_with :: "byte list \<Rightarrow> block \<Rightarrow> bool" where
  "starts_with pre m \<longleftrightarrow> length m = printable_size \<and> take (length pre) m = map Some pre"

lemma store_text:
  assumes "starts_with pre m" and "length pre + length bs \<le> printable_size"
  shows "\<exists>m'. mem_store (Some m) (length pre) bs = Inr (Some m') \<and> starts_with (pre @ bs) m'"
  using assms by (auto simp: starts_with_def mem_store_def)

lemma starts_with_prefix: "starts_with (pre @ bs) m \<Longrightarrow> starts_with pre m"
  by (auto simp: starts_with_def dest: arg_cong [of _ _ "take (length pre)"])

text \<open>
  The text as a function of the data, with \<open>n\<close> characters before it: bytes are rendered as long
  as they fit.
\<close>

fun render_upto :: "nat \<Rightarrow> byte list \<Rightarrow> byte list" where
  "render_upto n [] = []"
| "render_upto n (c # cs) =
     (if isprint c \<and> n < printable_size - 1 \<or> n + 4 < printable_size - 1
      then render c @ render_upto (n + length (render c)) cs else [])"

lemma length_render: "length (render c) = (if isprint c then 1 else 4)"
  by (simp add: render_def)

lemma render_upto_length: "n < printable_size \<Longrightarrow> n + length (render_upto n cs) < printable_size"
proof (induction cs arbitrary: n)
  case (Cons c cs)
  then show ?case
    using Cons.IH [of "n + 1"] Cons.IH [of "n + 4"]
    by (cases "isprint c"; simp add: length_render printable_size_def add.assoc)
qed simp

lemma render_upto_prefix:
  "\<exists>k \<le> length cs. render_upto n cs = concat (map render (take k cs)) \<and>
     (k < length cs \<longrightarrow> printable_size - 5 \<le> n + length (render_upto n cs))"
proof (induction cs arbitrary: n)
  case (Cons c cs)
  show ?case
  proof (cases "isprint c \<and> n < printable_size - 1 \<or> n + 4 < printable_size - 1")
    case True
    from Cons.IH [of "n + length (render c)"] obtain k where
      "k \<le> length cs" "render_upto (n + length (render c)) cs = concat (map render (take k cs))"
      "k < length cs \<longrightarrow> printable_size - 5 \<le> n + length (render c) + length (render_upto (n + length (render c)) cs)"
      by blast
    with True show ?thesis by (intro exI [of _ "Suc k"]) auto
  next
    case False
    then have "printable_size - 5 \<le> n" by (auto simp: printable_size_def)
    with False show ?thesis by (intro exI [of _ 0]) auto
  qed
qed simp

lemma render_upto_print: "\<forall>x \<in> set (render_upto n cs). isprint x"
  using render_print by (induction cs arbitrary: n) auto

lemma isprint_not_zero: "\<forall>x \<in> set cs. isprint x \<Longrightarrow> 0 \<notin> set cs"
  by (auto simp: isprint_def)

section \<open>Loops that render\<close>

text \<open>
  What a loop has to do to render: the equation of the loop, whose way to put an escape into the
  buffer is a parameter, and that this way puts the four characters there.
\<close>

locale renderer =
  fixes loop :: "byte list \<Rightarrow> nat \<Rightarrow> nat \<Rightarrow> block option \<Rightarrow> fault + nat \<times> block option"
    and put_escape :: "block option \<Rightarrow> nat \<Rightarrow> byte \<Rightarrow> fault + block option"
  assumes loop_step: "loop data r n buf =
     (if r < length data \<and> n < printable_size - 1
      then if isprint (data ! r)
           then bindF (mem_store buf n [data ! r]) (\<lambda>b. loop data (r + 1) (n + 1) b)
           else if n + 4 \<ge> printable_size - 1 then Inr (n, buf)
           else bindF (put_escape buf n (data ! r)) (\<lambda>b. loop data (r + 1) (n + 4) b)
      else Inr (n, buf))"
    and escape_put: "starts_with pre m \<Longrightarrow> length pre + 4 < printable_size - 1 \<Longrightarrow>
      \<exists>m'. put_escape (Some m) (length pre) c = Inr (Some m') \<and> starts_with (pre @ hex_escape c) m'"
begin

lemma loop_renders:
  assumes "starts_with pre m" and "length pre < printable_size"
  shows "\<exists>m'. loop data r (length pre) (Some m) =
      Inr (length pre + length (render_upto (length pre) (drop r data)), Some m') \<and>
     starts_with (pre @ render_upto (length pre) (drop r data)) m'"
  using assms
proof (induction "length data - r" arbitrary: r pre m)
  case 0
  then show ?case by (auto simp: loop_step [of data r])
next
  case (Suc d)
  then have r: "r < length data" by simp
  then have dr: "drop r data = data ! r # drop (Suc r) data" by (simp add: Cons_nth_drop_Suc)
  show ?case
  proof (cases "isprint (data ! r) \<and> length pre < printable_size - 1 \<or> length pre + 4 < printable_size - 1")
    case fits: True
    let ?t = "pre @ render (data ! r)"
    have len: "length ?t < printable_size" using fits by (auto simp: length_render printable_size_def)
    have "\<exists>m'. loop data r (length pre) (Some m) = loop data (Suc r) (length ?t) (Some m') \<and> starts_with ?t m'"
    proof (cases "isprint (data ! r)")
      case True
      with fits have n: "length pre < printable_size - 1" by auto
      with store_text [OF Suc.prems(1), of "[data ! r]"] obtain m' where
        "mem_store (Some m) (length pre) [data ! r] = Inr (Some m')" "starts_with (pre @ [data ! r]) m'"
        by (auto simp: printable_size_def)
      with True r n show ?thesis by (auto simp: loop_step [of data r] render_def)
    next
      case False
      with fits have n: "length pre + 4 < printable_size - 1" by auto
      from escape_put [OF Suc.prems(1) this] obtain m' where
        "put_escape (Some m) (length pre) (data ! r) = Inr (Some m')"
        "starts_with (pre @ hex_escape (data ! r)) m'" by blast
      with False r n show ?thesis by (auto simp: loop_step [of data r] render_def)
    qed
    then obtain m' where m': "loop data r (length pre) (Some m) = loop data (Suc r) (length ?t) (Some m')"
      "starts_with ?t m'" by blast
    from Suc.hyps(1) [of "Suc r" ?t m'] Suc.hyps(2) m' len fits show ?thesis
      by (auto simp: dr add.assoc)
  next
    case False
    with r Suc.prems show ?thesis by (auto simp: dr loop_step [of data r])
  qed
qed

end

text \<open>\<open>sprintf\<close> writes the four characters and a terminating zero.\<close>

definition put_sprintf :: "block option \<Rightarrow> nat \<Rightarrow> byte \<Rightarrow> fault + block option" where
  "put_sprintf buf n c = mem_store buf n (hex_escape c @ [0])"

interpretation trace_renderer: renderer print_loop put_sprintf
proof unfold_locales
  show "\<exists>m'. put_sprintf (Some m) (length pre) c = Inr (Some m') \<and> starts_with (pre @ hex_escape c) m'"
    if "starts_with pre m" "length pre + 4 < printable_size - 1" for pre m c
    using that store_text [OF that(1), of "hex_escape c @ [0]"]
      starts_with_prefix [of "pre @ hex_escape c" "[0]"]
    by (auto simp: put_sprintf_def printable_size_def)
qed (simp add: print_loop.simps put_sprintf_def)

text \<open>The buffer holds the string: the text, all of it printable, and a zero behind it.\<close>

definition holds_string :: "block \<Rightarrow> byte list \<Rightarrow> bool" where
  "holds_string m s \<longleftrightarrow> length m = printable_size \<and> take (length s + 1) m = map Some (s @ [0]) \<and> 0 \<notin> set s"

lemma terminate_text:
  assumes "starts_with s m" and "length s < printable_size" and "0 \<notin> set s"
  shows "\<exists>m'. mem_store (Some m) (length s) [0] = Inr (Some m') \<and> holds_string m' s"
  using store_text [OF assms(1), of "[0]"] assms(2,3) by (auto simp: starts_with_def holds_string_def)

lemma printable_string_text:
  assumes "length buf = printable_size"
  shows "\<exists>m. printable_string data buf = Inr (Some m) \<and> holds_string m (render_upto 0 data)"
proof -
  have "starts_with [] buf" using assms by (simp add: starts_with_def)
  from trace_renderer.loop_renders [OF this, of data 0] obtain m where
    m: "print_loop data 0 0 (Some buf) = Inr (length (render_upto 0 data), Some m)"
      "starts_with (render_upto 0 data) m" by (auto simp: printable_size_def)
  have lt: "length (render_upto 0 data) < printable_size"
    using render_upto_length [of 0 data] by (simp add: printable_size_def)
  from terminate_text [OF m(2) lt isprint_not_zero [OF render_upto_print]] m(1) lt show ?thesis
    by (auto simp: printable_string_def)
qed

text \<open>
  C35: \<open>__printable_string\<close> never leaves its buffer, whatever and however much it is given: the
  buffer then holds a terminated string that renders the first bytes of the data, every printable
  byte as itself and every other one as an escape, and leaves bytes out only when fewer than five
  characters were free. Every character of the string is printable.
\<close>
theorem printable_string_renders:
  assumes "length buf = printable_size"
  shows "\<exists>m k out. printable_string data buf = Inr (Some m) \<and> holds_string m out \<and>
     k \<le> length data \<and> out = concat (map render (take k data)) \<and>
     (\<forall>x \<in> set out. isprint x) \<and> (k < length data \<longrightarrow> printable_size - 5 \<le> length out)"
proof -
  from printable_string_text [OF assms, of data] obtain m where
    m: "printable_string data buf = Inr (Some m)" "holds_string m (render_upto 0 data)" by blast
  from render_upto_prefix [of data 0] obtain k where k: "k \<le> length data"
    "render_upto 0 data = concat (map render (take k data))"
    "k < length data \<longrightarrow> printable_size - 5 \<le> length (render_upto 0 data)" by auto
  with m render_upto_print [of 0 data] show ?thesis
    by (intro exI [of _ m] exI [of _ k] exI [of _ "render_upto 0 data"]) auto
qed

theorem printable_string_renders_witness:
  "\<exists>m out. printable_string [65, 10] (fresh_block 512) = Inr (Some m) \<and> holds_string m out"
  using printable_string_renders [of "fresh_block 512" "[65, 10]"] by (auto simp: printable_size_def)

end
