(* ===== verification/Print_Dnstap.thy ===== *)
theory Print_Dnstap
  imports Trace Dnstap_Props
begin

text \<open>
  \<open>examples/print_dnstap.c\<close>: how the example programs print a message. The two functions with a
  static buffer return a pointer to it; \<open>printf\<close> then reads a string from the buffer. Looking up a
  name behind the end of its table is a fault. \<open>inet_ntop\<close> is a parameter: the text it writes, or
  nothing when it fails.
\<close>

section \<open>The code\<close>

subsection \<open>printable_string\<close>

definition nibble_char :: "byte \<Rightarrow> byte" where
  "nibble_char h = (if h > 9 then 97 + (h - 10) else 48 + h)"

unbundle bit_operations_syntax

definition high_nibble :: "byte \<Rightarrow> byte" where
  "high_nibble c = drop_bit 4 (c AND 0xf0)"

definition low_nibble :: "byte \<Rightarrow> byte" where
  "low_nibble c = c AND 0xf"

text \<open>The four stores of an escape.\<close>

definition put_nibbles :: "block option \<Rightarrow> nat \<Rightarrow> byte \<Rightarrow> fault + block option" where
  "put_nibbles buf n c =
     bindF (mem_store buf n [92]) (\<lambda>b1.
     bindF (mem_store b1 (n + 1) [120]) (\<lambda>b2.
     bindF (mem_store b2 (n + 2) [nibble_char (high_nibble c)]) (\<lambda>b3.
     mem_store b3 (n + 3) [nibble_char (low_nibble c)])))"

function dnstap_print_loop :: "byte list \<Rightarrow> nat \<Rightarrow> nat \<Rightarrow> block option \<Rightarrow> fault + nat \<times> block option" where
  "dnstap_print_loop data r n buf =
     (if r < length data \<and> n < printable_size - 1
      then if isprint (data ! r)
           then bindF (mem_store buf n [data ! r]) (\<lambda>b. dnstap_print_loop data (r + 1) (n + 1) b)
           else if n + 4 \<ge> printable_size - 1 then Inr (n, buf)
           else bindF (put_nibbles buf n (data ! r)) (\<lambda>b. dnstap_print_loop data (r + 1) (n + 4) b)
      else Inr (n, buf))"
  by pat_completeness auto

termination by (relation "measure (\<lambda>(data, r, n, buf). length data - r)") auto

declare dnstap_print_loop.simps [simp del]

definition dnstap_printable_string :: "byte list \<Rightarrow> block \<Rightarrow> fault + block option" where
  "dnstap_printable_string data buf =
     bindF (dnstap_print_loop data 0 0 (Some buf)) (\<lambda>(n, b).
     if n \<ge> printable_size then mem_store b (printable_size - 1) [0] else mem_store b n [0])"

subsection \<open>printable_ip_address\<close>

datatype address_family = AF_INET | AF_INET6

type_synonym inet_pton = "address_family \<Rightarrow> string \<Rightarrow> byte list option"

type_synonym inet_ntop = "address_family \<Rightarrow> byte list \<Rightarrow> byte list option"

definition INET6_ADDRSTRLEN :: nat where
  "INET6_ADDRSTRLEN = 46"

definition write_address :: "byte list option \<Rightarrow> block option \<Rightarrow> fault + block option" where
  "write_address s buf = (case s of None \<Rightarrow> Inr buf | Some t \<Rightarrow> mem_store buf 0 (t @ [0]))"

definition printable_ip_address :: "inet_ntop \<Rightarrow> byte list \<Rightarrow> block \<Rightarrow> fault + block option" where
  "printable_ip_address ntop data buf =
     bindF (mem_store (Some buf) 0 [0]) (\<lambda>b.
     if length data = 4 then write_address (ntop AF_INET data) b
     else if length data = 16 then write_address (ntop AF_INET6 data) b
     else Inr b)"

subsection \<open>Printing\<close>

text \<open>What has been printed, and the static buffers.\<close>

record printer =
  text_out :: "byte list"
  string_buf :: block
  ip_buf :: block

definition chars :: "string \<Rightarrow> byte list" where
  "chars s = map (\<lambda>c. of_nat (of_char c)) s"

definition newline :: "byte list" where
  "newline = [10]"

text \<open>Reading the argument of \<open>%s\<close>.\<close>

fun c_string :: "block \<Rightarrow> fault + byte list" where
  "c_string [] = Inl Out_of_bounds"
| "c_string (None # m) = Inl Uninitialised"
| "c_string (Some x # m) = (if x = 0 then Inr [] else bindF (c_string m) (\<lambda>s. Inr (x # s)))"

fun decimal :: "nat \<Rightarrow> byte list" where
  "decimal n = (if n < 10 then [of_nat (48 + n)] else decimal (n div 10) @ [of_nat (48 + n mod 10)])"

declare decimal.simps [simp del]

definition print :: "byte list \<Rightarrow> printer \<Rightarrow> fault + printer" where
  "print t p = Inr (p\<lparr>text_out := text_out p @ t\<rparr>)"

definition print_string :: "byte list \<Rightarrow> byte list \<Rightarrow> printer \<Rightarrow> fault + printer" where
  "print_string label data p =
     bindF (dnstap_printable_string data (string_buf p)) (\<lambda>b. case b of
       None \<Rightarrow> Inl Null_deref
     | Some m \<Rightarrow> bindF (c_string m) (\<lambda>s. print (label @ s @ newline) (p\<lparr>string_buf := m\<rparr>)))"

definition print_address :: "inet_ntop \<Rightarrow> byte list \<Rightarrow> byte list \<Rightarrow> printer \<Rightarrow> fault + printer" where
  "print_address ntop label data p =
     bindF (printable_ip_address ntop data (ip_buf p)) (\<lambda>b. case b of
       None \<Rightarrow> Inl Null_deref
     | Some m \<Rightarrow> bindF (c_string m) (\<lambda>s. print (label @ s @ newline) (p\<lparr>ip_buf := m\<rparr>)))"

definition print_name :: "byte list \<Rightarrow> string list \<Rightarrow> int \<Rightarrow> printer \<Rightarrow> fault + printer" where
  "print_name label names v p =
     (if 0 \<le> v \<and> nat v < length names then print (label @ chars (names ! nat v) @ newline) p
      else Inl Out_of_bounds)"

definition print_time :: "byte list \<Rightarrow> 64 word \<Rightarrow> 32 word \<Rightarrow> printer \<Rightarrow> fault + printer" where
  "print_time label sec nsec =
     print (label @ decimal (unat sec) @ chars ''.'' @ decimal (unat nsec) @ newline)"

definition print_number :: "byte list \<Rightarrow> nat \<Rightarrow> printer \<Rightarrow> fault + printer" where
  "print_number label n = print (label @ decimal n @ newline)"

text \<open>Statements in order, and an \<open>if\<close> without \<open>else\<close>.\<close>

fun in_order :: "(printer \<Rightarrow> fault + printer) list \<Rightarrow> printer \<Rightarrow> fault + printer" where
  "in_order [] p = Inr p"
| "in_order (f # fs) p = bindF (f p) (in_order fs)"

definition print_if :: "bool \<Rightarrow> (printer \<Rightarrow> fault + printer) \<Rightarrow> printer \<Rightarrow> fault + printer" where
  "print_if c f p = (if c then f p else Inr p)"

text \<open>Reading a payload whose memory may be gone.\<close>

definition print_payload :: "bool \<Rightarrow> (printer \<Rightarrow> fault + printer) \<Rightarrow> printer \<Rightarrow> fault + printer" where
  "print_payload gone f p = (if gone then Inl Use_after_free else f p)"

definition print_message :: "inet_ntop \<Rightarrow> Dnstap__Message \<Rightarrow> printer \<Rightarrow> fault + printer" where
  "print_message ntop m = in_order
     [print_name (chars ''message:'' @ newline @ chars ''  type: '') DNSTAP_MESSAGE_TYPE_STRING (m_type m),
      print_if (m_has_query_time_sec m \<and> m_has_query_time_nsec m)
        (print_time (chars ''  query_time: '') (m_query_time_sec m) (m_query_time_nsec m)),
      print_if (m_has_response_time_sec m \<and> m_has_response_time_nsec m)
        (print_time (chars ''  response_time: '') (m_response_time_sec m) (m_response_time_nsec m)),
      print_if (m_has_socket_family m)
        (print_name (chars ''  socket_family: '') DNSTAP_SOCKET_FAMILY_STRING (m_socket_family m)),
      print_if (m_has_socket_protocol m)
        (print_name (chars ''  socket_protocol: '') DNSTAP_SOCKET_PROTOCOL_STRING (m_socket_protocol m)),
      print_if (m_has_query_address m) (print_payload (m_query_address_gone m)
        (print_address ntop (chars ''  query_address: '') (m_query_address m))),
      print_if (m_has_query_port m)
        (print_number (chars ''  query_port: '') (unat (m_query_port m))),
      print_if (m_has_response_address m) (print_payload (m_response_address_gone m)
        (print_address ntop (chars ''  response_address: '') (m_response_address m))),
      print_if (m_has_response_port m)
        (print_number (chars ''  response_port: '') (unat (m_response_port m))),
      print_if (m_has_query_zone m)
        (print_string (chars ''  query_zone: '') (m_query_zone m)),
      print_if (m_has_query_message m)
        (print_number (chars ''  query_message_length: '') (length (m_query_message m))),
      print_if (m_has_query_message m)
        (print_string (chars ''  query_message: '') (m_query_message m)),
      print_if (m_has_response_message m)
        (print_number (chars ''  response_message_length: '') (length (m_response_message m))),
      print_if (m_has_response_message m)
        (print_string (chars ''  response_message: '') (m_response_message m))]"

definition print_dnstap :: "inet_ntop \<Rightarrow> dnstap \<Rightarrow> printer \<Rightarrow> fault + printer" where
  "print_dnstap ntop d = in_order
     [print (chars ''---- dnstap'' @ newline),
      print_if (t_has_identity (d_dnstap d))
        (print_string (chars ''identity: '') (t_identity (d_dnstap d))),
      print_if (t_has_version (d_dnstap d))
        (print_string (chars ''version: '') (t_version (d_dnstap d))),
      print_if (t_has_extra (d_dnstap d))
        (print_string (chars ''extra: '') (t_extra (d_dnstap d))),
      print_if (t_type (d_dnstap d) = type_code DNSTAP_TYPE_MESSAGE \<and> dnstap_has_message d)
        (print_message ntop (d_message d)),
      print (chars ''----'' @ newline)]"

section \<open>The escapes of the two functions agree\<close>

lemma unat_high_nibble: "unat (high_nibble c) = unat c div 16"
proof -
  have "high_nibble c = drop_bit 4 c"
  proof (rule bit_word_eqI)
    fix n
    have "bit (15 :: byte) n" if "bit c (4 + n)"
    proof -
      from bit_imp_le_length [OF that] have "n \<in> {0, 1, 2, 3}" by auto
      then show ?thesis by auto
    qed
    then show "bit (high_nibble c) n = bit (drop_bit 4 c) n"
      by (auto simp: high_nibble_def bit_drop_bit_eq bit_and_iff)
  qed
  then show ?thesis by (simp add: drop_bit_eq_div unat_div)
qed

lemma unat_low_nibble: "unat (low_nibble c) = unat c mod 16"
proof -
  have "low_nibble c = take_bit 4 c"
    by (simp add: low_nibble_def take_bit_eq_mask mask_eq_exp_minus_1)
  then show ?thesis by (simp add: take_bit_eq_mod unat_mod)
qed

lemma nibble_char_digit:
  assumes "unat h < 16"
  shows "nibble_char h = hex_digit (unat h)"
proof -
  have h: "h = of_nat (unat h)" by simp
  show ?thesis
  proof (cases "unat h < 10")
    case True
    then have "\<not> h > 9" by (simp add: word_less_nat_alt)
    with True show ?thesis by (simp add: nibble_char_def hex_digit_def)
  next
    case False
    then have g: "h > 9" by (simp add: word_less_nat_alt)
    have "(87 :: byte) + h = 97 + (h - 10)" by simp
    with g False show ?thesis by (simp add: nibble_char_def hex_digit_def)
  qed
qed

lemma nibbles_escape:
  "[92, 120, nibble_char (high_nibble c), nibble_char (low_nibble c)] = hex_escape c"
proof -
  have "unat c < 256" using unsigned_less [of c] by simp
  then have "unat (high_nibble c) < 16" "unat (low_nibble c) < 16"
    by (simp_all add: unat_high_nibble unat_low_nibble)
  then show ?thesis
    by (simp add: hex_escape_def nibble_char_digit unat_high_nibble unat_low_nibble)
qed

interpretation print_renderer: renderer dnstap_print_loop put_nibbles
proof unfold_locales
  show "\<exists>m'. put_nibbles (Some m) (length pre) c = Inr (Some m') \<and> starts_with (pre @ hex_escape c) m'"
    if pre: "starts_with pre m" "length pre + 4 < printable_size - 1" for pre m c
  proof -
    let ?h = "nibble_char (high_nibble c)" and ?l = "nibble_char (low_nibble c)"
    have room: "Suc (length pre) \<le> printable_size" "Suc (Suc (length pre)) \<le> printable_size"
      "Suc (Suc (Suc (length pre))) \<le> printable_size" "Suc (Suc (Suc (Suc (length pre)))) \<le> printable_size"
      "length pre + 2 \<le> printable_size"
      "length pre + 3 \<le> printable_size" "length pre + 4 \<le> printable_size"
      using pre(2) by auto
    from store_text [OF pre(1), of "[92]"] pre(2) obtain m1 where
      m1: "mem_store (Some m) (length pre) [92] = Inr (Some m1)" "starts_with (pre @ [92]) m1" by (auto simp: room)
    from store_text [OF m1(2), of "[120]"] pre(2) obtain m2 where
      m2: "mem_store (Some m1) (length pre + 1) [120] = Inr (Some m2)"
        "starts_with (pre @ [92, 120]) m2" by (auto simp: room)
    from store_text [OF m2(2), of "[?h]"] pre(2) obtain m3 where
      m3: "mem_store (Some m2) (length pre + 2) [?h] = Inr (Some m3)"
        "starts_with (pre @ [92, 120, ?h]) m3" by (auto simp: room)
    from store_text [OF m3(2), of "[?l]"] pre(2) obtain m4 where
      m4: "mem_store (Some m3) (length pre + 3) [?l] = Inr (Some m4)"
        "starts_with (pre @ [92, 120, ?h, ?l]) m4" by (auto simp: room numeral_3_eq_3)
    from m1 m2 m3 m4 show ?thesis
      by (simp add: put_nibbles_def nibbles_escape)
  qed
qed (simp add: dnstap_print_loop.simps)

lemma dnstap_printable_string_text:
  assumes "length buf = printable_size"
  shows "\<exists>m. dnstap_printable_string data buf = Inr (Some m) \<and> holds_string m (render_upto 0 data)"
proof -
  have "starts_with [] buf" using assms by (simp add: starts_with_def)
  from print_renderer.loop_renders [OF this, of data 0] obtain m where
    m: "dnstap_print_loop data 0 0 (Some buf) = Inr (length (render_upto 0 data), Some m)"
      "starts_with (render_upto 0 data) m" by (auto simp: printable_size_def)
  have lt: "length (render_upto 0 data) < printable_size"
    using render_upto_length [of 0 data] by (simp add: printable_size_def)
  from terminate_text [OF m(2) lt isprint_not_zero [OF render_upto_print]] m(1) lt show ?thesis
    by (auto simp: dnstap_printable_string_def)
qed

text \<open>
  C37: The \<open>printable_string\<close> of the examples, which computes the two digits of an escape from the
  nibbles and stores them one by one, and the \<open>__printable_string\<close> of the library, which calls
  \<open>sprintf\<close>, put the same string into their buffers, for every data.
\<close>
theorem printable_strings_agree:
  assumes "length buf = printable_size" and "length buf' = printable_size"
  shows "\<exists>m m' s. dnstap_printable_string data buf = Inr (Some m) \<and>
     printable_string data buf' = Inr (Some m') \<and> holds_string m s \<and> holds_string m' s"
  using dnstap_printable_string_text [OF assms(1), of data] printable_string_text [OF assms(2), of data]
  by blast

theorem printable_strings_agree_witness:
  "\<exists>m m' s. dnstap_printable_string [200] (fresh_block 512) = Inr (Some m) \<and>
     printable_string [200] (fresh_block 512) = Inr (Some m') \<and> holds_string m s \<and> holds_string m' s"
  by (rule printable_strings_agree) (simp_all add: printable_size_def)

section \<open>The report\<close>

text \<open>What is printed, as a function of the message, without buffers.\<close>

definition report_address :: "inet_ntop \<Rightarrow> byte list \<Rightarrow> byte list" where
  "report_address ntop data =
     (if length data = 4 then (case ntop AF_INET data of None \<Rightarrow> [] | Some t \<Rightarrow> t)
      else if length data = 16 then (case ntop AF_INET6 data of None \<Rightarrow> [] | Some t \<Rightarrow> t)
      else [])"

definition line :: "byte list \<Rightarrow> byte list \<Rightarrow> byte list" where
  "line label t = label @ t @ newline"

definition name_of :: "string list \<Rightarrow> int \<Rightarrow> byte list" where
  "name_of names v = chars (names ! nat v)"

definition time_of :: "64 word \<Rightarrow> 32 word \<Rightarrow> byte list" where
  "time_of sec nsec = decimal (unat sec) @ chars ''.'' @ decimal (unat nsec)"

definition only_if :: "bool \<Rightarrow> byte list \<Rightarrow> byte list" where
  "only_if c t = (if c then t else [])"

definition report_message :: "inet_ntop \<Rightarrow> Dnstap__Message \<Rightarrow> byte list" where
  "report_message ntop m = concat
     [line (chars ''message:'' @ newline @ chars ''  type: '') (name_of DNSTAP_MESSAGE_TYPE_STRING (m_type m)),
      only_if (m_has_query_time_sec m \<and> m_has_query_time_nsec m)
        (line (chars ''  query_time: '') (time_of (m_query_time_sec m) (m_query_time_nsec m))),
      only_if (m_has_response_time_sec m \<and> m_has_response_time_nsec m)
        (line (chars ''  response_time: '') (time_of (m_response_time_sec m) (m_response_time_nsec m))),
      only_if (m_has_socket_family m)
        (line (chars ''  socket_family: '') (name_of DNSTAP_SOCKET_FAMILY_STRING (m_socket_family m))),
      only_if (m_has_socket_protocol m)
        (line (chars ''  socket_protocol: '') (name_of DNSTAP_SOCKET_PROTOCOL_STRING (m_socket_protocol m))),
      only_if (m_has_query_address m)
        (line (chars ''  query_address: '') (report_address ntop (m_query_address m))),
      only_if (m_has_query_port m)
        (line (chars ''  query_port: '') (decimal (unat (m_query_port m)))),
      only_if (m_has_response_address m)
        (line (chars ''  response_address: '') (report_address ntop (m_response_address m))),
      only_if (m_has_response_port m)
        (line (chars ''  response_port: '') (decimal (unat (m_response_port m)))),
      only_if (m_has_query_zone m)
        (line (chars ''  query_zone: '') (render_upto 0 (m_query_zone m))),
      only_if (m_has_query_message m)
        (line (chars ''  query_message_length: '') (decimal (length (m_query_message m)))),
      only_if (m_has_query_message m)
        (line (chars ''  query_message: '') (render_upto 0 (m_query_message m))),
      only_if (m_has_response_message m)
        (line (chars ''  response_message_length: '') (decimal (length (m_response_message m)))),
      only_if (m_has_response_message m)
        (line (chars ''  response_message: '') (render_upto 0 (m_response_message m)))]"

definition report :: "inet_ntop \<Rightarrow> dnstap \<Rightarrow> byte list" where
  "report ntop d = concat
     [line (chars ''---- dnstap'') [],
      only_if (t_has_identity (d_dnstap d))
        (line (chars ''identity: '') (render_upto 0 (t_identity (d_dnstap d)))),
      only_if (t_has_version (d_dnstap d))
        (line (chars ''version: '') (render_upto 0 (t_version (d_dnstap d)))),
      only_if (t_has_extra (d_dnstap d))
        (line (chars ''extra: '') (render_upto 0 (t_extra (d_dnstap d)))),
      only_if (t_type (d_dnstap d) = type_code DNSTAP_TYPE_MESSAGE \<and> dnstap_has_message d)
        (report_message ntop (d_message d)),
      line (chars ''----'') []]"

text \<open>
  What the examples rely on: the text of an address fits into the buffer with its terminating
  zero and is printable.
\<close>

definition inet_ntop_ok :: "inet_ntop \<Rightarrow> bool" where
  "inet_ntop_ok ntop \<longleftrightarrow> (\<forall>af data t. ntop af data = Some t \<longrightarrow>
     length t < INET6_ADDRSTRLEN \<and> (\<forall>x \<in> set t. isprint x))"

definition printer_ok :: "printer \<Rightarrow> bool" where
  "printer_ok p \<longleftrightarrow> length (string_buf p) = printable_size \<and> length (ip_buf p) = INET6_ADDRSTRLEN"

definition adds :: "(printer \<Rightarrow> fault + printer) \<Rightarrow> byte list \<Rightarrow> bool" where
  "adds f t \<longleftrightarrow> (\<forall>p. printer_ok p \<longrightarrow>
     (\<exists>p'. f p = Inr p' \<and> printer_ok p' \<and> text_out p' = text_out p @ t))"

named_theorems adds_intros \<open>what a printing step adds\<close>

lemma in_order_adds: "list_all2 adds fs ts \<Longrightarrow> adds (in_order fs) (concat ts)"
proof (induction rule: list_all2_induct)
  case Nil
  then show ?case by (simp add: adds_def)
next
  case (Cons f fs t ts)
  show ?case unfolding adds_def
  proof (intro allI impI)
    fix p
    assume "printer_ok p"
    with Cons.hyps(1) obtain p1 where "f p = Inr p1" "printer_ok p1" "text_out p1 = text_out p @ t"
      by (auto simp: adds_def)
    moreover from this Cons.IH obtain p2 where "in_order fs p1 = Inr p2" "printer_ok p2"
      "text_out p2 = text_out p1 @ concat ts" by (auto simp: adds_def)
    ultimately show "\<exists>p'. in_order (f # fs) p = Inr p' \<and> printer_ok p' \<and>
        text_out p' = text_out p @ concat (t # ts)" by simp
  qed
qed

text \<open>A step at which printing breaks down.\<close>

definition breaks :: "(printer \<Rightarrow> fault + printer) \<Rightarrow> fault \<Rightarrow> bool" where
  "breaks f e \<longleftrightarrow> (\<forall>p. printer_ok p \<longrightarrow> f p = Inl e)"

lemma breaks_here: "breaks f e \<Longrightarrow> breaks (in_order (f # fs)) e"
  by (simp add: breaks_def)

lemma breaks_later: "adds f t \<Longrightarrow> breaks (in_order fs) e \<Longrightarrow> breaks (in_order (f # fs)) e"
  by (fastforce simp: adds_def breaks_def)

lemma print_adds: "adds (print t) t"
  by (simp add: adds_def print_def printer_ok_def)

lemma print_if_adds: "(c \<Longrightarrow> adds f t) \<Longrightarrow> adds (print_if c f) (only_if c t)"
  by (simp add: adds_def print_if_def only_if_def)

lemma c_string_prefix: "0 \<notin> set s \<Longrightarrow> c_string (map Some s @ Some 0 # m) = Inr s"
  by (induction s) auto

lemma c_string_holds:
  assumes "take (length s + 1) m = map Some (s @ [0])" and "0 \<notin> set s"
  shows "c_string m = Inr s"
proof -
  have "m = map Some s @ Some 0 # drop (length s + 1) m"
    using append_take_drop_id [of "length s + 1" m] unfolding assms(1) by simp
  then show ?thesis using c_string_prefix [OF assms(2)] by metis
qed

lemma print_string_adds: "adds (print_string label data) (line label (render_upto 0 data))"
  unfolding adds_def
proof (intro allI impI)
  fix p
  assume p: "printer_ok p"
  from dnstap_printable_string_text [of "string_buf p" data] p obtain m where
    m: "dnstap_printable_string data (string_buf p) = Inr (Some m)" "holds_string m (render_upto 0 data)"
    by (auto simp: printer_ok_def)
  have "c_string m = Inr (render_upto 0 data)"
    by (rule c_string_holds) (use m(2) in \<open>simp_all add: holds_string_def\<close>)
  with m p show "\<exists>p'. print_string label data p = Inr p' \<and> printer_ok p' \<and>
      text_out p' = text_out p @ line label (render_upto 0 data)"
    by (simp add: print_string_def print_def line_def printer_ok_def holds_string_def)
qed

lemma printable_ip_address_text:
  assumes "inet_ntop_ok ntop" and "length buf = INET6_ADDRSTRLEN"
  shows "\<exists>m. printable_ip_address ntop data buf = Inr (Some m) \<and> length m = INET6_ADDRSTRLEN \<and>
     c_string m = Inr (report_address ntop data)"
proof -
  let ?b = "Some 0 # drop 1 buf"
  have b: "mem_store (Some buf) 0 [0] = Inr (Some ?b)" "length ?b = INET6_ADDRSTRLEN"
    "c_string ?b = Inr []"
    using assms(2) by (simp_all add: mem_store_def INET6_ADDRSTRLEN_def)
  have w: "\<exists>m. write_address (ntop af data) (Some ?b) = Inr (Some m) \<and> length m = INET6_ADDRSTRLEN \<and>
      c_string m = Inr (case ntop af data of None \<Rightarrow> [] | Some t \<Rightarrow> t)" for af
  proof (cases "ntop af data")
    case None
    with b show ?thesis by (simp add: write_address_def)
  next
    case (Some t)
    with assms(1) have t: "length t < INET6_ADDRSTRLEN" "0 \<notin> set t"
      using isprint_not_zero by (auto simp: inet_ntop_ok_def)
    let ?m = "map Some (t @ [0]) @ drop (length t + 1) ?b"
    have "mem_store (Some ?b) 0 (t @ [0]) = Inr (Some ?m)"
      using t(1) b(2) by (simp add: mem_store_def)
    moreover have "c_string ?m = Inr t" using c_string_prefix [OF t(2)] by simp
    moreover have "length ?m = INET6_ADDRSTRLEN" using t(1) b(2) by simp
    ultimately show ?thesis using Some by (simp add: write_address_def)
  qed
  show ?thesis
    using b w [of AF_INET] w [of AF_INET6]
    by (simp add: printable_ip_address_def report_address_def)
qed

lemma print_address_adds:
  "inet_ntop_ok ntop \<Longrightarrow> adds (print_address ntop label data) (line label (report_address ntop data))"
  unfolding adds_def
proof (intro allI impI)
  fix p
  assume n: "inet_ntop_ok ntop" and p: "printer_ok p"
  from printable_ip_address_text [OF n, of "ip_buf p" data] p obtain m where
    "printable_ip_address ntop data (ip_buf p) = Inr (Some m)" "length m = INET6_ADDRSTRLEN"
    "c_string m = Inr (report_address ntop data)" by (auto simp: printer_ok_def)
  with p show "\<exists>p'. print_address ntop label data p = Inr p' \<and> printer_ok p' \<and>
      text_out p' = text_out p @ line label (report_address ntop data)"
    by (simp add: print_address_def print_def line_def printer_ok_def)
qed

lemma print_name_adds:
  "0 \<le> v \<Longrightarrow> nat v < length names \<Longrightarrow> adds (print_name label names v) (line label (name_of names v))"
  using print_adds by (simp add: adds_def print_name_def line_def name_of_def)

lemma print_time_adds: "adds (print_time label sec nsec) (line label (time_of sec nsec))"
  using print_adds [of "label @ decimal (unat sec) @ chars ''.'' @ decimal (unat nsec) @ newline"]
  by (simp add: print_time_def line_def time_of_def)

lemma print_number_adds: "adds (print_number label n) (line label (decimal n))"
  using print_adds by (simp add: print_number_def line_def)

lemma print_line_adds: "adds (print (label @ newline)) (line label [])"
  using print_adds by (simp add: line_def)

lemma print_payload_adds: "\<not> gone \<Longrightarrow> adds f t \<Longrightarrow> adds (print_payload gone f) t"
  by (simp add: adds_def print_payload_def)

lemmas step_adds = print_payload_adds print_if_adds print_string_adds print_address_adds print_name_adds print_time_adds
  print_number_adds print_line_adds

lemma print_message_adds:
  assumes "message_enums_ok m" and "addresses_live m" and "inet_ntop_ok ntop"
  shows "adds (print_message ntop m) (report_message ntop m)"
proof -
  have e: "0 \<le> m_type m" "nat (m_type m) < length DNSTAP_MESSAGE_TYPE_STRING"
    "0 \<le> m_socket_family m" "nat (m_socket_family m) < length DNSTAP_SOCKET_FAMILY_STRING"
    "0 \<le> m_socket_protocol m" "nat (m_socket_protocol m) < length DNSTAP_SOCKET_PROTOCOL_STRING"
    using assms(1) by (simp_all add: message_enums_ok_def)
  show ?thesis unfolding print_message_def report_message_def
    by (rule in_order_adds) (use assms(2) in \<open>simp add: step_adds e assms(3) addresses_live_def\<close>)
qed

lemma print_dnstap_adds:
  assumes "dnstap_has_message d \<Longrightarrow> message_enums_ok (d_message d)"
    and "dnstap_has_message d \<Longrightarrow> addresses_live (d_message d)" and "inet_ntop_ok ntop"
  shows "adds (print_dnstap ntop d) (report ntop d)"
  unfolding print_dnstap_def report_def
  by (rule in_order_adds) (simp add: step_adds print_message_adds assms)

text \<open>Only printable characters and line ends.\<close>

definition tame :: "byte list \<Rightarrow> bool" where
  "tame t \<longleftrightarrow> (\<forall>x \<in> set t. isprint x \<or> x = 10)"

lemma tame_simps [simp]:
  "tame []"
  "tame (s @ t) \<longleftrightarrow> tame s \<and> tame t"
  "tame (x # t) \<longleftrightarrow> (isprint x \<or> x = 10) \<and> tame t"
  "tame (line l t) \<longleftrightarrow> tame l \<and> tame t"
  "tame newline"
  "tame (only_if c t) \<longleftrightarrow> (c \<longrightarrow> tame t)"
  by (auto simp: tame_def line_def newline_def only_if_def)

lemma tame_printable: "\<forall>x \<in> set t. isprint x \<Longrightarrow> tame t"
  by (simp add: tame_def)

lemma decimal_digit: "n < 10 \<Longrightarrow> isprint (of_nat (48 + n))"
  using hex_digit_print [of n] by (simp add: hex_digit_def)

lemma tame_decimal: "tame (decimal n)"
proof (induction n rule: decimal.induct)
  case (1 n)
  then show ?case
    using decimal_digit [of n] decimal_digit [of "n mod 10"]
    by (cases "n < 10") (simp_all add: decimal.simps [of n])
qed

lemma tame_address:
  assumes "inet_ntop_ok ntop"
  shows "tame (report_address ntop data)"
proof -
  have "tame (case ntop af data of None \<Rightarrow> [] | Some t \<Rightarrow> t)" for af
  proof (cases "ntop af data")
    case (Some t)
    with assms have "\<forall>x \<in> set t. isprint x" unfolding inet_ntop_ok_def by blast
    with Some show ?thesis by (simp add: tame_def)
  qed simp
  then show ?thesis by (simp add: report_address_def)
qed

lemma tame_render: "tame (render_upto n data)"
  using render_upto_print by (simp add: tame_def)

lemma tame_name:
  assumes "list_all (\<lambda>s. tame (chars s)) names" and "nat v < length names"
  shows "tame (name_of names v)"
  using assms by (simp add: name_of_def list_all_length)

lemma tame_names:
  "list_all (\<lambda>s. tame (chars s)) DNSTAP_MESSAGE_TYPE_STRING"
  "list_all (\<lambda>s. tame (chars s)) DNSTAP_SOCKET_FAMILY_STRING"
  "list_all (\<lambda>s. tame (chars s)) DNSTAP_SOCKET_PROTOCOL_STRING"
  by (simp_all add: enum_tables chars_def isprint_def)

lemma tame_time: "tame (time_of sec nsec)"
  by (simp add: time_of_def tame_decimal chars_def isprint_def)

lemma tame_message:
  assumes "message_enums_ok m" and "inet_ntop_ok ntop"
  shows "tame (report_message ntop m)"
proof -
  have e: "nat (m_type m) < length DNSTAP_MESSAGE_TYPE_STRING"
    "nat (m_socket_family m) < length DNSTAP_SOCKET_FAMILY_STRING"
    "nat (m_socket_protocol m) < length DNSTAP_SOCKET_PROTOCOL_STRING"
    using assms(1) by (simp_all add: message_enums_ok_def)
  note n = tame_name [OF tame_names(1) e(1)] tame_name [OF tame_names(2) e(2)] tame_name [OF tame_names(3) e(3)]
  show ?thesis
    by (simp add: report_message_def n tame_time tame_decimal tame_address [OF assms(2)] tame_render)
      (simp add: chars_def isprint_def)
qed

lemma tame_report:
  assumes "dnstap_has_message d \<Longrightarrow> message_enums_ok (d_message d)" and "inet_ntop_ok ntop"
  shows "tame (report ntop d)"
  by (simp add: report_def tame_render tame_message assms) (simp add: chars_def isprint_def)

lemma decoded_printed:
  assumes "dnstap_decode_protobuf L d0 data = Inr (0, d)" and "inet_ntop_ok ntop" and "printer_ok p"
  shows "\<exists>p'. print_dnstap ntop d p = Inr p' \<and> printer_ok p' \<and>
     text_out p' = text_out p @ report ntop d \<and> tame (report ntop d)"
proof -
  have e: "dnstap_has_message d \<Longrightarrow> message_enums_ok (d_message d)"
    using decode_enums [OF assms(1)] by blast
  have "dnstap_has_message d \<Longrightarrow> addresses_live (d_message d)"
    using decode_addresses [OF assms(1)] by blast
  from print_dnstap_adds [of d, OF e this assms(2)] tame_report [of d, OF e assms(2)] assms(3)
  show ?thesis by (simp add: adds_def)
qed

text \<open>
  C21: Printing a decoded message, whatever its sender put into it, looks up no name behind the end
  of a table, leaves no buffer and reads no byte that was not written. It prints the report, which is
  a function of the message alone: nothing of what the static buffers held before shows. Besides the
  line ends it consists of printable characters, so a peer cannot send control sequences to the
  terminal.
\<close>
theorem decoded_message_printed:
  assumes "dnstap_decode_protobuf L d0 data = Inr (0, d)" and "inet_ntop_ok ntop" and "printer_ok p"
  shows "\<exists>p'. print_dnstap ntop d p = Inr p' \<and> printer_ok p' \<and>
     text_out p' = text_out p @ report ntop d \<and> tame (report ntop d)"
  by (rule decoded_printed [OF assms])

definition toy_ntop :: inet_ntop where
  "toy_ntop af data = Some (chars ''::'')"

definition toy_printer :: printer where
  "toy_printer = \<lparr>text_out = [], string_buf = fresh_block 512, ip_buf = fresh_block 46\<rparr>"

lemma toy_ntop_ok: "inet_ntop_ok toy_ntop"
  by (simp add: inet_ntop_ok_def toy_ntop_def chars_def INET6_ADDRSTRLEN_def isprint_def)

lemma toy_printer_ok: "printer_ok toy_printer"
  by (simp add: printer_ok_def toy_printer_def printable_size_def INET6_ADDRSTRLEN_def)

theorem decoded_message_printed_witness:
  "\<exists>d p. dnstap_decode_protobuf toylib (DNSTAP_INITIALIZER toylib) [10, 77, 99] = Inr (0, d) \<and>
     print_dnstap toy_ntop d toy_printer = Inr p \<and> text_out p = report toy_ntop d"
proof -
  have un: "d_unpacked (DNSTAP_INITIALIZER toylib) = None"
    by (simp add: DNSTAP_INITIALIZER_def)
  have p: "pb_unpack toylib [10, 77, 99] = Some (toy_dnstap\<lparr>t_type := 77\<rparr>,
             Some (toy_message\<lparr>m_type := 99\<rparr>, Some (toy_policy, None)))"
    by (simp add: toylib_def toy_unpack_def)
  from decoded_message_printed [OF decode_policy [OF un p] toy_ntop_ok toy_printer_ok]
    decode_policy [OF un p] show ?thesis by (auto simp: toy_printer_def)
qed

end
