(* ===== verification/Create_Dnstap.thy ===== *)
theory Create_Dnstap
  imports Dnstap_Build Print_Dnstap
begin

text \<open>
  \<open>examples/create_dnstap.c\<close>: the message the example programs send. \<open>inet_pton\<close> (\<open>None\<close> when it
  does not return 1), the clock and the version string of the build are parameters.
\<close>

section \<open>The code\<close>

text \<open>\<open>struct timespec\<close>: both fields are \<open>long\<close>, the nanoseconds are stored in 32 bits.\<close>

type_synonym timespec = "64 word \<times> 64 word"

definition dns_wire_format_placeholder :: "byte list" where
  "dns_wire_format_placeholder = chars ''dns_wire_format_placeholder''"

text \<open>The struct in the frame of the function, when it comes to the \<open>return\<close>.\<close>

definition created_dnstap :: "('r, 'w) extlib \<Rightarrow> inet_pton \<Rightarrow> string \<Rightarrow> timespec \<Rightarrow> timespec \<Rightarrow>
    string \<Rightarrow> dnstap" where
  "created_dnstap L pton version query_time response_time identity =
     (let d = DNSTAP_INITIALIZER L;
          d = dnstap_set_identity (chars identity) d;
          d = dnstap_set_version (chars version) d;
          d = dnstap_set_type (type_code DNSTAP_TYPE_MESSAGE) d;
          d = dnstap_message_set_type (message_type_code DNSTAP_MESSAGE_TYPE_TOOL_QUERY) d;
          d = dnstap_message_set_socket_family (socket_family_code DNSTAP_SOCKET_FAMILY_INET) d;
          d = dnstap_message_set_socket_protocol (socket_protocol_code DNSTAP_SOCKET_PROTOCOL_UDP) d;
          d = (case pton AF_INET ''127.0.0.1'' of
                 None \<Rightarrow> d
               | Some query_address \<Rightarrow> dnstap_message_set_query_address query_address d);
          d = dnstap_message_set_query_port 12345 d;
          d = dnstap_message_set_query_time_sec (fst query_time) d;
          d = dnstap_message_set_query_time_nsec (ucast (snd query_time)) d;
          d = (case pton AF_INET ''127.0.0.1'' of
                 None \<Rightarrow> d
               | Some response_address \<Rightarrow> dnstap_message_set_response_address response_address d);
          d = dnstap_message_set_response_port 53 d;
          d = dnstap_message_set_response_time_sec (fst response_time) d;
          d = dnstap_message_set_response_time_nsec (ucast (snd response_time)) d;
          d = dnstap_message_set_query_message dns_wire_format_placeholder d;
          d = dnstap_message_set_response_message dns_wire_format_placeholder d
      in d)"

text \<open>
  Returning a struct by value copies its fields: pointers to nodes embedded in the struct of the
  frame still lead there, and so do the pointers to its arrays \<open>query_address\<close> and \<open>response_address\<close>,
  and the frame is gone. Its nodes get an address no unpacked tree has. The identity, the version and
  the placeholder lie outside of the frame.
\<close>

definition out_of_frame :: "dnstap \<Rightarrow> dnstap" where
  "out_of_frame d =
     d\<lparr>d_dnstap := (d_dnstap d)\<lparr>t_message :=
          (if t_message (d_dnstap d) = Msg_own then Msg_unpacked (d_next d) else t_message (d_dnstap d))\<rparr>,
       d_message := (d_message d)\<lparr>m_policy :=
          (if m_policy (d_message d) = Pol_own then Pol_unpacked (d_next d) else m_policy (d_message d)),
          m_query_address_gone := True, m_response_address_gone := True\<rparr>,
       d_next := Suc (d_next d)\<rparr>"

definition create_dnstap :: "('r, 'w) extlib \<Rightarrow> inet_pton \<Rightarrow> string \<Rightarrow> timespec \<Rightarrow> timespec \<Rightarrow>
    string \<Rightarrow> dnstap" where
  "create_dnstap L pton version query_time response_time identity =
     out_of_frame (created_dnstap L pton version query_time response_time identity)"

section \<open>What it builds and what it returns\<close>

lemma built_case:
  assumes "built L d" and "\<And>bs. setter L (f bs)"
  shows "built L (case x of None \<Rightarrow> d | Some bs \<Rightarrow> f bs d)"
  using assms built_set by (cases x) auto

lemma created_built: "built L (created_dnstap L pton version t1 t2 identity)"
  unfolding created_dnstap_def Let_def
  by (intro built_init setter.intros built_case
      built_set [where s = "dnstap_set_identity (chars identity)"]
      built_set [where s = "dnstap_set_version (chars version)"]
      built_set [where s = "dnstap_set_type (type_code DNSTAP_TYPE_MESSAGE)"]
      built_set [where s = "dnstap_message_set_type (message_type_code DNSTAP_MESSAGE_TYPE_TOOL_QUERY)"]
      built_set [where s = "dnstap_message_set_socket_family (socket_family_code DNSTAP_SOCKET_FAMILY_INET)"]
      built_set [where s = "dnstap_message_set_socket_protocol (socket_protocol_code DNSTAP_SOCKET_PROTOCOL_UDP)"]
      built_set [where s = "dnstap_message_set_query_port 12345"]
      built_set [where s = "dnstap_message_set_query_time_sec (fst t1)"]
      built_set [where s = "dnstap_message_set_query_time_nsec (ucast (snd t1))"]
      built_set [where s = "dnstap_message_set_response_port 53"]
      built_set [where s = "dnstap_message_set_response_time_sec (fst t2)"]
      built_set [where s = "dnstap_message_set_response_time_nsec (ucast (snd t2))"]
      built_set [where s = "dnstap_message_set_query_message dns_wire_format_placeholder"]
      built_set [where s = "dnstap_message_set_response_message dns_wire_format_placeholder"])

text \<open>What packing sees of a struct without a policy that holds its own message.\<close>

lemma wire_of_own:
  assumes "t_message (d_dnstap d) = Msg_own" and "m_policy (d_message d) = Pol_null"
    and "addresses_live (d_message d)"
  shows "wire_of d = Inr (dnstap_fields.truncate (d_dnstap d),
     Some (message_fields.truncate (d_message d), None))"
  using assms by (simp add: wire_defs)

definition tool_query :: "string \<Rightarrow> string \<Rightarrow> timespec \<Rightarrow> timespec \<Rightarrow> Dnstap__Dnstap \<Rightarrow> Dnstap__Message \<Rightarrow> bool" where
  "tool_query identity version t1 t2 t m \<longleftrightarrow>
     t_has_identity t \<and> t_identity t = chars identity \<and> t_has_version t \<and> t_version t = chars version \<and>
     t_type t = type_code DNSTAP_TYPE_MESSAGE \<and>
     m_type m = message_type_code DNSTAP_MESSAGE_TYPE_TOOL_QUERY \<and>
     m_has_socket_family m \<and> m_socket_family m = socket_family_code DNSTAP_SOCKET_FAMILY_INET \<and>
     m_has_socket_protocol m \<and> m_socket_protocol m = socket_protocol_code DNSTAP_SOCKET_PROTOCOL_UDP \<and>
     m_has_query_port m \<and> m_query_port m = 12345 \<and> m_has_response_port m \<and> m_response_port m = 53 \<and>
     m_has_query_time_sec m \<and> m_query_time_sec m = fst t1 \<and>
     m_has_query_time_nsec m \<and> m_query_time_nsec m = ucast (snd t1) \<and>
     m_has_response_time_sec m \<and> m_response_time_sec m = fst t2 \<and>
     m_has_response_time_nsec m \<and> m_response_time_nsec m = ucast (snd t2) \<and>
     m_has_query_message m \<and> m_query_message m = dns_wire_format_placeholder \<and>
     m_has_response_message m \<and> m_response_message m = dns_wire_format_placeholder"

lemma created_fields:
  fixes L :: "('r, 'w) extlib" and pton :: inet_pton and version identity :: string and t1 t2 :: timespec
  defines "d \<equiv> created_dnstap L pton version t1 t2 identity"
  shows "t_message (d_dnstap d) = Msg_own" and "m_policy (d_message d) = Pol_null"
    and "d_unpacked d = None" and "tool_query identity version t1 t2 (d_dnstap d) (d_message d)"
    and "addresses_live (d_message d)"
    and "pton AF_INET ''127.0.0.1'' = Some a \<Longrightarrow> m_has_query_address (d_message d) \<and>
      m_query_address (d_message d) = a \<and> m_has_response_address (d_message d) \<and>
      m_response_address (d_message d) = a"
proof -
  have i: "m_policy (d_message (DNSTAP_INITIALIZER L)) = Pol_null" "d_unpacked (DNSTAP_INITIALIZER L) = None"
    "\<not> m_query_address_gone (d_message (DNSTAP_INITIALIZER L))"
    "\<not> m_response_address_gone (d_message (DNSTAP_INITIALIZER L))"
    by (simp_all add: DNSTAP_INITIALIZER_def embedded_selectors)
  note eval = d_def created_dnstap_def Let_def setter_defs i
  show "t_message (d_dnstap d) = Msg_own" and "m_policy (d_message d) = Pol_null"
    and "d_unpacked d = None"
    by (cases "pton AF_INET ''127.0.0.1''"; simp add: eval)+
  show "addresses_live (d_message d)"
    by (cases "pton AF_INET ''127.0.0.1''"; simp add: eval addresses_live_def)
  show "pton AF_INET ''127.0.0.1'' = Some a \<Longrightarrow> m_has_query_address (d_message d) \<and>
      m_query_address (d_message d) = a \<and> m_has_response_address (d_message d) \<and>
      m_response_address (d_message d) = a"
    by (simp add: eval)
  show "tool_query identity version t1 t2 (d_dnstap d) (d_message d)"
    unfolding tool_query_def
    by (cases "pton AF_INET ''127.0.0.1''"; simp add: eval settable_message_types_def)
qed

lemma created_enums: "message_enums_ok (d_message (created_dnstap L pton version t1 t2 identity))"
  using created_fields(4) [where L = L and pton = pton and version = version and ?t1.0 = t1 and ?t2.0 = t2
      and identity = identity]
  by (simp add: tool_query_def message_enums_iff)

lemma returned_fields:
  assumes "d_unpacked d = None" and "t_message (d_dnstap d) = Msg_own"
  shows "dnstap_has_message (out_of_frame d)" and "wire_of (out_of_frame d) = Inl Use_after_free"
  using assms by (simp_all add: out_of_frame_def dnstap_has_message_def wire_defs)

lemma create_dnstap_wire: "wire_of (create_dnstap L pton version t1 t2 identity) = Inl Use_after_free"
  unfolding create_dnstap_def by (rule returned_fields(2) [OF created_fields(3,1)])

lemma print_message_gone:
  assumes "message_enums_ok m" and "m_has_query_address m" and "m_query_address_gone m"
  shows "breaks (print_message ntop m) Use_after_free"
proof -
  have e: "0 \<le> m_type m" "nat (m_type m) < length DNSTAP_MESSAGE_TYPE_STRING"
    "0 \<le> m_socket_family m" "nat (m_socket_family m) < length DNSTAP_SOCKET_FAMILY_STRING"
    "0 \<le> m_socket_protocol m" "nat (m_socket_protocol m) < length DNSTAP_SOCKET_PROTOCOL_STRING"
    using assms(1) by (simp_all add: message_enums_ok_def)
  have "breaks (print_if (m_has_query_address m) (print_payload (m_query_address_gone m)
      (print_address ntop l (m_query_address m)))) Use_after_free" for l
    using assms(2,3) by (simp add: breaks_def print_if_def print_payload_def)
  note here = breaks_here [OF this]
  show ?thesis unfolding print_message_def
    by (rule breaks_later [OF print_name_adds [OF e(1,2)]]
        breaks_later [OF print_if_adds [OF print_time_adds]]
        breaks_later [OF print_if_adds [OF print_name_adds [OF e(3,4)]]]
        breaks_later [OF print_if_adds [OF print_name_adds [OF e(5,6)]]] here)+
qed

text \<open>Printing a struct whose message has lost its address.\<close>

lemma print_dnstap_gone:
  assumes "message_enums_ok (d_message d)" and "m_has_query_address (d_message d)"
    and "m_query_address_gone (d_message d)"
    and "t_type (d_dnstap d) = type_code DNSTAP_TYPE_MESSAGE" and "dnstap_has_message d"
  shows "breaks (print_dnstap ntop d) Use_after_free"
proof -
  have "breaks (print_if (t_type (d_dnstap d) = type_code DNSTAP_TYPE_MESSAGE \<and> dnstap_has_message d)
      (print_message ntop (d_message d))) Use_after_free"
    using print_message_gone [OF assms(1-3)] assms(4,5) by (simp add: breaks_def print_if_def)
  note here = breaks_here [OF this]
  show ?thesis unfolding print_dnstap_def
    by (rule breaks_later [OF print_adds] breaks_later [OF print_if_adds [OF print_string_adds]] here)+
qed

text \<open>
  C38: \<open>create_dnstap\<close> fills in, in its own frame, a tool query with the identity, the version of the
  library, the address 127.0.0.1 of both sides, the times of the clock and the placeholder as both DNS
  messages, and that struct can be printed, and encoded as what it says. What the caller gets is a copy
  of it, whose pointers to the message and to the two addresses lead into the frame that is gone: the
  copy still says it has a message, but encoding it uses memory after its lifetime, and so does printing
  it when \<open>inet_pton\<close> has worked.
\<close>
theorem create_dnstap_message:
  assumes "inet_ntop_ok ntop" and "printer_ok p" and "pton AF_INET ''127.0.0.1'' = Some a"
  shows "let d = created_dnstap L pton version t1 t2 identity;
             r = create_dnstap L pton version t1 t2 identity
     in tool_query identity version t1 t2 (d_dnstap d) (d_message d) \<and>
        m_has_query_address (d_message d) \<and> m_query_address (d_message d) = a \<and>
        m_has_response_address (d_message d) \<and> m_response_address (d_message d) = a \<and>
        wire_of d = Inr (dnstap_fields.truncate (d_dnstap d),
          Some (message_fields.truncate (d_message d), None)) \<and>
        (\<exists>p'. print_dnstap ntop d p = Inr p' \<and> text_out p' = text_out p @ report ntop d) \<and>
        dnstap_has_message r \<and> dnstap_encode_protobuf L r = Inl Use_after_free \<and>
        print_dnstap ntop r p = Inl Use_after_free"
proof -
  define d where "d = created_dnstap L pton version t1 t2 identity"
  define r where "r = create_dnstap L pton version t1 t2 identity"
  note f = created_fields [where L = L and pton = pton and version = version and ?t1.0 = t1 and ?t2.0 = t2
      and identity = identity, folded d_def]
  have r: "r = out_of_frame d" by (simp add: r_def d_def create_dnstap_def)
  note rf = returned_fields [OF f(3,1), folded r]
  have m: "message_enums_ok (d_message d)" "message_enums_ok (d_message r)"
    using created_enums [of L pton version t1 t2 identity]
    by (simp_all add: r out_of_frame_def d_def [symmetric] message_enums_iff)
  from print_dnstap_adds [of d, OF m(1) f(5) assms(1)] assms(2) have
    p: "\<exists>p'. print_dnstap ntop d p = Inr p' \<and> text_out p' = text_out p @ report ntop d"
    by (auto simp: adds_def)
  have "breaks (print_dnstap ntop r) Use_after_free"
    by (rule print_dnstap_gone [OF m(2) _ _ _ rf(1)])
      (use f(4) f(6) [OF assms(3)] in \<open>simp_all add: r out_of_frame_def tool_query_def\<close>)
  with f(4) f(6) [OF assms(3)] wire_of_own [OF f(1,2,5)] rf p assms(2) show ?thesis
    unfolding Let_def d_def [symmetric] r_def [symmetric]
    by (simp add: dnstap_encode_protobuf_def breaks_def)
qed

theorem create_dnstap_message_witness:
  "dnstap_encode_protobuf toylib (create_dnstap toylib (\<lambda>af s. Some [127, 0, 0, 1]) ''1'' (0, 0) (0, 0) ''x'') =
     Inl Use_after_free \<and>
   print_dnstap toy_ntop (create_dnstap toylib (\<lambda>af s. Some [127, 0, 0, 1]) ''1'' (0, 0) (0, 0) ''x'') toy_printer =
     Inl Use_after_free"
  using create_dnstap_message [OF toy_ntop_ok toy_printer_ok, where L = toylib
      and pton = "\<lambda>af s. Some [127, 0, 0, 1]" and version = "''1''" and ?t1.0 = "(0, 0)"
      and ?t2.0 = "(0, 0)" and identity = "''x''" and a = "[127, 0, 0, 1]"]
  unfolding Let_def by simp

end
