(* ===== verification/Tf_Stream.thy ===== *)
theory Tf_Stream
  imports Decoder_Traces Writer_Traces
begin

text \<open>
  What \<open>tinyframe\<close> documents of reading a stream it has written: a frame is found once all of its
  bytes are there, with the contents that were written, and before that more is asked for. And
  what follows for the frames of a conversation as they reach the decoder.
\<close>

section \<open>Reading what was written\<close>

text \<open>
  Where a reader of \<open>tinyframe\<close> is in a stream: before a control frame, behind the header of a READY
  or of a START frame (with the content type and the bytes that are to come), or between frames.
  Which readers are where is a parameter \<open>pos\<close>.
\<close>

datatype phase =
    Before_start
  | In_ready "byte list" "byte list"
  | In_start "byte list" "byte list"
  | In_frames

text \<open>
  A reader in phase \<open>p\<close> that is given \<open>bs\<close> and perhaps more finds \<open>tf\<close>, and becomes one that
  satisfies \<open>found\<close>; given some but not all of \<open>bs\<close> it asks for more and stays in the phase.
\<close>

definition piece :: "('r, 'w) extlib \<Rightarrow> ('r \<Rightarrow> phase \<Rightarrow> bool) \<Rightarrow> phase \<Rightarrow> byte list \<Rightarrow> tinyframe_result \<Rightarrow>
    ('r \<Rightarrow> bool) \<Rightarrow> bool" where
  "piece L pos p bs tf found \<longleftrightarrow> bs \<noteq> [] \<and> (\<forall>r. pos r p \<longrightarrow>
     (\<forall>rest. \<exists>r'. tf_read L r (bs @ rest) = (tf, r') \<and> found r') \<and>
     (\<forall>k. 0 < k \<and> k < length bs \<longrightarrow>
        (\<exists>r'. tf_read L r (take k bs) = (tinyframe_need_more, r') \<and> pos r' p)))"

definition start_readable :: "('r, 'w) extlib \<Rightarrow> ('r \<Rightarrow> phase \<Rightarrow> bool) \<Rightarrow> byte list \<Rightarrow> byte list \<Rightarrow> bool" where
  "start_readable L pos ct bs \<longleftrightarrow> (\<exists>hdr fld. bs = hdr @ fld \<and>
     piece L pos Before_start hdr tinyframe_have_control
       (\<lambda>r. tf_control_type L r = TINYFRAME_CONTROL_START \<and> tf_bytes_read L r = length hdr \<and>
          pos r (In_start ct fld)) \<and>
     piece L pos (In_start ct fld) fld tinyframe_have_control_field
       (\<lambda>r. tf_field_type L r = TINYFRAME_CONTROL_FIELD_CONTENT_TYPE \<and> tf_field_data L r = ct \<and>
          tf_bytes_read L r = length fld \<and> pos r In_frames))"

text \<open>A READY frame with one field leads the reader back to where control frames are read.\<close>

definition ready_readable :: "('r, 'w) extlib \<Rightarrow> ('r \<Rightarrow> phase \<Rightarrow> bool) \<Rightarrow> byte list \<Rightarrow> byte list \<Rightarrow> bool" where
  "ready_readable L pos ct bs \<longleftrightarrow> (\<exists>hdr fld. bs = hdr @ fld \<and>
     piece L pos Before_start hdr tinyframe_have_control
       (\<lambda>r. tf_control_type L r = TINYFRAME_CONTROL_READY \<and> tf_bytes_read L r = length hdr \<and>
          pos r (In_ready ct fld)) \<and>
     piece L pos (In_ready ct fld) fld tinyframe_have_control_field
       (\<lambda>r. tf_field_type L r = TINYFRAME_CONTROL_FIELD_CONTENT_TYPE \<and> tf_field_data L r = ct \<and>
          tf_control_length_left L r = 0 \<and> tf_bytes_read L r = length fld \<and> pos r Before_start))"

definition frame_readable :: "('r, 'w) extlib \<Rightarrow> ('r \<Rightarrow> phase \<Rightarrow> bool) \<Rightarrow> byte list \<Rightarrow> byte list \<Rightarrow> bool" where
  "frame_readable L pos fr bs \<longleftrightarrow> piece L pos In_frames bs tinyframe_have_frame
     (\<lambda>r. tf_frame_data L r = fr \<and> tf_bytes_read L r = length bs \<and> pos r In_frames)"

definition stop_readable :: "('r, 'w) extlib \<Rightarrow> ('r \<Rightarrow> phase \<Rightarrow> bool) \<Rightarrow> byte list \<Rightarrow> bool" where
  "stop_readable L pos bs \<longleftrightarrow> piece L pos In_frames bs tinyframe_stopped (\<lambda>r. True)"

definition tinyframe_stream_ok :: "('r, 'w) extlib \<Rightarrow> ('r \<Rightarrow> phase \<Rightarrow> bool) \<Rightarrow> bool" where
  "tinyframe_stream_ok L pos \<longleftrightarrow> pos (tf_reader_init L) Before_start \<and>
     (\<forall>w len ct w' bs. tf_write_control_start L w len ct = (tinyframe_ok, w', bs) \<longrightarrow>
        start_readable L pos ct bs) \<and>
     (\<forall>w len fr w' bs. tf_write_frame L w len fr = (tinyframe_ok, w', bs) \<longrightarrow>
        frame_readable L pos fr bs) \<and>
     (\<forall>w len w' bs. tf_write_control_stop L w len = (tinyframe_ok, w', bs) \<longrightarrow>
        stop_readable L pos bs)"

definition tinyframe_ready_ok :: "('r, 'w) extlib \<Rightarrow> ('r \<Rightarrow> phase \<Rightarrow> bool) \<Rightarrow> bool" where
  "tinyframe_ready_ok L pos \<longleftrightarrow> (\<forall>w len ct w' bs. tf_write_control L w len TINYFRAME_CONTROL_READY
     [(TINYFRAME_CONTROL_FIELD_CONTENT_TYPE, ct)] = (tinyframe_ok, w', bs) \<longrightarrow> ready_readable L pos ct bs)"

text \<open>A message that \<open>protobuf-c\<close> unpacks as it was packed.\<close>

definition unpacks :: "('r, 'w) extlib \<Rightarrow> dnstap \<Rightarrow> bool" where
  "unpacks L d \<longleftrightarrow> (case wire_of d of Inl f \<Rightarrow> False | Inr t \<Rightarrow> pb_unpack L (pb_pack L t) = Some t)"

lemma unpacksE:
  assumes "unpacks L d"
  obtains t where "wire_of d = Inr t" and "pb_unpack L (pb_pack L t) = Some t"
  using assms by (auto simp: unpacks_def split: sum.splits)

text \<open>What was received is what was sent: the same tree, up to an unknown top-level type.\<close>

definition same_message :: "dnstap \<Rightarrow> dnstap \<Rightarrow> bool" where
  "same_message d m \<longleftrightarrow> (\<exists>t. wire_of d = Inr t \<and> wire_of m = Inr (decoded_wire t))"

section \<open>The frames of a sender can be read\<close>

lemma encoder_wrote_advanced:
  assumes "encoder_wrote e nx rs x = (res, e', bs)" and "res \<notin> {dnswire_need_more, dnswire_error}"
  shows "\<exists>w. x = (tinyframe_ok, w, bs)"
  using assms
  by (auto simp: encoder_wrote_def Let_def split: prod.splits tinyframe_result.splits)

lemma written_readable:
  assumes L: "extlib_ok L" and s: "tinyframe_stream_ok L pos" and f: "written L (st, d, bs)"
  shows "st = dnswire_encoder_control_start \<Longrightarrow> start_readable L pos DNSTAP_PROTOBUF_CONTENT_TYPE bs"
    and "st = dnswire_encoder_control_stop \<Longrightarrow> stop_readable L pos bs"
    and "st = dnswire_encoder_frames \<Longrightarrow> d = Some m \<Longrightarrow> wire_of m = Inr t \<Longrightarrow>
      frame_readable L pos (pb_pack L t) bs"
proof -
  from f obtain e :: "'b dnswire_encoder" and len res e' where
    e: "e_state e = st" "e_dnstap e = d" "dnswire_encoder_encode L e len = Inr (res, e', bs)"
      "encoder_next st = Some (e_state e', res)"
    by (auto simp: written_def)
  have len: "0 < len"
    using e(3) by (auto simp: dnswire_encoder_encode_def assertF_def split: if_splits)
  have res: "res \<notin> {dnswire_need_more, dnswire_error}"
    using e(4) by (cases st) auto
  show "start_readable L pos DNSTAP_PROTOBUF_CONTENT_TYPE bs" if "st = dnswire_encoder_control_start"
  proof -
    have "encoder_wrote e dnswire_encoder_frames dnswire_again
        (tf_write_control_start L (e_writer e) len DNSTAP_PROTOBUF_CONTENT_TYPE) = (res, e', bs)"
      using e(1,3) that len by (simp add: dnswire_encoder_encode_def)
    from encoder_wrote_advanced [OF this res] s show ?thesis
      unfolding tinyframe_stream_ok_def by blast
  qed
  show "stop_readable L pos bs" if "st = dnswire_encoder_control_stop"
  proof -
    have "encoder_wrote e dnswire_encoder_done dnswire_endofdata
        (tf_write_control_stop L (e_writer e) len) = (res, e', bs)"
      using e(1,3) that len by (simp add: dnswire_encoder_encode_def)
    from encoder_wrote_advanced [OF this res] s show ?thesis
      unfolding tinyframe_stream_ok_def by blast
  qed
  show "frame_readable L pos (pb_pack L t) bs"
    if st: "st = dnswire_encoder_frames" and d: "d = Some m" and t: "wire_of m = Inr t"
  proof -
    have "encode_frame L e len = Inr (res, e', bs)"
      using e(1,3) st len by (simp add: dnswire_encoder_encode_def)
    then have "encoder_wrote e dnswire_encoder_frames dnswire_ok
        (tf_write_frame L (e_writer e) len (pb_pack L t)) = (res, e', bs)"
      using encode_frame_eq [OF L _ t, of e len] e(2) d res by (auto split: if_splits)
    from encoder_wrote_advanced [OF this res] s show ?thesis
      unfolding tinyframe_stream_ok_def by blast
  qed
qed

lemma written_ready_readable:
  assumes s: "tinyframe_ready_ok L pos" and f: "written L (dnswire_encoder_control_ready, d, bs)"
  shows "ready_readable L pos DNSTAP_PROTOBUF_CONTENT_TYPE bs"
proof -
  from f obtain e :: "'b dnswire_encoder" and len e' where
    e: "e_state e = dnswire_encoder_control_ready"
      "dnswire_encoder_encode L e len = Inr (dnswire_again, e', bs)"
    by (auto simp: written_def)
  have len: "0 < len"
    using e(2) by (auto simp: dnswire_encoder_encode_def assertF_def split: if_splits)
  have "encoder_wrote e dnswire_encoder_control_start dnswire_again
      (tf_write_control L (e_writer e) len TINYFRAME_CONTROL_READY [content_type_field]) =
      (dnswire_again, e', bs)"
    using e len by (simp add: dnswire_encoder_encode_def)
  from encoder_wrote_advanced [OF this] s show ?thesis
    unfolding tinyframe_ready_ok_def content_type_field_def by blast
qed

section \<open>The stream as the decoder meets it\<close>

text \<open>The frames behind START, with the messages they carry, and perhaps STOP.\<close>

inductive frames_tail :: "('r, 'w) extlib \<Rightarrow> ('r \<Rightarrow> phase \<Rightarrow> bool) \<Rightarrow> byte list \<Rightarrow> dnstap list \<Rightarrow> bool"
  for L pos where
  tail_end: "frames_tail L pos [] []"
| tail_stop: "stop_readable L pos bs \<Longrightarrow> frames_tail L pos bs []"
| tail_frame: "wire_of m = Inr t \<Longrightarrow> pb_unpack L (pb_pack L t) = Some t \<Longrightarrow>
     frame_readable L pos (pb_pack L t) bs \<Longrightarrow> frames_tail L pos rst ms \<Longrightarrow>
     frames_tail L pos (bs @ rst) (m # ms)"

text \<open>A decoder that will find the messages \<open>ms\<close> in the bytes \<open>bs\<close>, which start with those buffered.\<close>

definition awaits_start :: "('r, 'w) extlib \<Rightarrow> ('r \<Rightarrow> phase \<Rightarrow> bool) \<Rightarrow> byte list \<Rightarrow> dnstap list \<Rightarrow> bool" where
  "awaits_start L pos bs ms \<longleftrightarrow> bs = [] \<and> ms = [] \<or>
     (\<exists>start rst. bs = start @ rst \<and> start_readable L pos DNSTAP_PROTOBUF_CONTENT_TYPE start \<and>
        frames_tail L pos rst ms)"

definition awaits_field :: "('r, 'w) extlib \<Rightarrow> ('r \<Rightarrow> phase \<Rightarrow> bool) \<Rightarrow> 'r \<Rightarrow> byte list \<Rightarrow> dnstap list \<Rightarrow> bool" where
  "awaits_field L pos r bs ms \<longleftrightarrow> (\<exists>fld rst. bs = fld @ rst \<and>
     pos r (In_start DNSTAP_PROTOBUF_CONTENT_TYPE fld) \<and>
     piece L pos (In_start DNSTAP_PROTOBUF_CONTENT_TYPE fld) fld tinyframe_have_control_field
       (\<lambda>r. tf_field_type L r = TINYFRAME_CONTROL_FIELD_CONTENT_TYPE \<and>
          tf_field_data L r = DNSTAP_PROTOBUF_CONTENT_TYPE \<and>
          tf_bytes_read L r = length fld \<and> pos r In_frames) \<and>
     frames_tail L pos rst ms)"

text \<open>The same with a READY frame in front.\<close>

definition awaits_ready :: "('r, 'w) extlib \<Rightarrow> ('r \<Rightarrow> phase \<Rightarrow> bool) \<Rightarrow> byte list \<Rightarrow> dnstap list \<Rightarrow> bool" where
  "awaits_ready L pos bs ms \<longleftrightarrow> (\<exists>ready rst. bs = ready @ rst \<and>
     ready_readable L pos DNSTAP_PROTOBUF_CONTENT_TYPE ready \<and> awaits_start L pos rst ms)"

definition awaits_ready_field :: "('r, 'w) extlib \<Rightarrow> ('r \<Rightarrow> phase \<Rightarrow> bool) \<Rightarrow> 'r \<Rightarrow> byte list \<Rightarrow>
    dnstap list \<Rightarrow> bool" where
  "awaits_ready_field L pos r bs ms \<longleftrightarrow> (\<exists>fld rst. bs = fld @ rst \<and>
     pos r (In_ready DNSTAP_PROTOBUF_CONTENT_TYPE fld) \<and>
     piece L pos (In_ready DNSTAP_PROTOBUF_CONTENT_TYPE fld) fld tinyframe_have_control_field
       (\<lambda>r. tf_field_type L r = TINYFRAME_CONTROL_FIELD_CONTENT_TYPE \<and>
          tf_field_data L r = DNSTAP_PROTOBUF_CONTENT_TYPE \<and> tf_control_length_left L r = 0 \<and>
          tf_bytes_read L r = length fld \<and> pos r Before_start) \<and>
     awaits_start L pos rst ms)"

definition awaits :: "('r, 'w) extlib \<Rightarrow> ('r \<Rightarrow> phase \<Rightarrow> bool) \<Rightarrow> 'r dnswire_decoder \<Rightarrow> byte list \<Rightarrow>
    dnstap list \<Rightarrow> bool" where
  "awaits L pos d bs ms \<longleftrightarrow> decoder_ok d \<and>
     (case dc_state d of
        dnswire_decoder_reading_control \<Rightarrow>
          pos (dc_reader d) Before_start \<and> (awaits_start L pos bs ms \<or> awaits_ready L pos bs ms)
      | dnswire_decoder_checking_ready \<Rightarrow> awaits_ready_field L pos (dc_reader d) bs ms
      | dnswire_decoder_reading_start \<Rightarrow>
          pos (dc_reader d) Before_start \<and> awaits_start L pos bs ms
      | dnswire_decoder_checking_start \<Rightarrow> awaits_field L pos (dc_reader d) bs ms
      | dnswire_decoder_reading_frames \<Rightarrow>
          pos (dc_reader d) In_frames \<and> frames_tail L pos bs ms
      | dnswire_decoder_done \<Rightarrow> ms = []
      | _ \<Rightarrow> False)"

lemma piece_read:
  assumes p: "piece L pos p bs tf found" and r: "pos r p" and q: "q \<noteq> []" "q @ fut = bs @ rst"
    and rd: "tf_read L r q = (x, r')"
  shows "x = tf \<and> found r' \<and> length bs \<le> length q \<and> drop (length bs) q @ fut = rst \<or>
     x = tinyframe_need_more \<and> pos r' p"
proof (cases "length bs \<le> length q")
  case True
  with q(2) obtain us where "q = bs @ us" "us @ fut = rst"
    by (auto simp: append_eq_append_conv2)
  then have "q = bs @ drop (length bs) q \<and> drop (length bs) q @ fut = rst" by simp
  moreover have "\<exists>r'. tf_read L r (bs @ drop (length bs) q) = (tf, r') \<and> found r'"
    using p r by (simp add: piece_def)
  ultimately show ?thesis using True rd by auto
next
  case False
  then have "q = take (length q) bs"
    using q(2) by (auto simp: append_eq_append_conv_if)
  moreover have "\<exists>r'. tf_read L r (take (length q) bs) = (tinyframe_need_more, r') \<and> pos r' p"
    using p r q(1) False by (simp add: piece_def)
  ultimately show ?thesis using rd by auto
qed

lemma strncmp_eq_refl: "strncmp_eq s s"
  by (induction s) auto

text \<open>What one call of the decoder makes of it.\<close>

definition progress :: "('r, 'w) extlib \<Rightarrow> ('r \<Rightarrow> phase \<Rightarrow> bool) \<Rightarrow> dnswire_result \<Rightarrow> 'r dnswire_decoder \<Rightarrow>
    byte list \<Rightarrow> dnstap list \<Rightarrow> bool" where
  "progress L pos res d bs ms \<longleftrightarrow>
     (if res = dnswire_have_dnstap
      then (\<exists>m ms'. ms = m # ms' \<and> same_message m (dc_dnstap d) \<and> awaits L pos d bs ms')
      else awaits L pos d bs ms)"

text \<open>The header of START, in the two states that wait for it.\<close>

lemma decode_start:
  assumes d: "dnswire_decoder_decode L d q = Inr (res, d')" and ok: "decoder_ok d"
    and r: "pos (dc_reader d) Before_start" and a: "awaits_start L pos (q @ fut) ms"
    and st: "dc_state d \<in> {dnswire_decoder_reading_control, dnswire_decoder_reading_start}"
  shows "progress L pos res d' (drop (taken L res d') q @ fut) ms"
proof -
  have q: "q \<noteq> []" using d by (auto simp: dnswire_decoder_decode_def)
  with a obtain hdr fld rst where s: "q @ fut = hdr @ fld @ rst" "frames_tail L pos rst ms"
    "piece L pos Before_start hdr tinyframe_have_control
       (\<lambda>r. tf_control_type L r = TINYFRAME_CONTROL_START \<and> tf_bytes_read L r = length hdr \<and>
          pos r (In_start DNSTAP_PROTOBUF_CONTENT_TYPE fld))"
    "piece L pos (In_start DNSTAP_PROTOBUF_CONTENT_TYPE fld) fld tinyframe_have_control_field
       (\<lambda>r. tf_field_type L r = TINYFRAME_CONTROL_FIELD_CONTENT_TYPE \<and>
          tf_field_data L r = DNSTAP_PROTOBUF_CONTENT_TYPE \<and>
          tf_bytes_read L r = length fld \<and> pos r In_frames)"
    by (auto simp: awaits_start_def start_readable_def)
  obtain x r' where x: "tf_read L (dc_reader d) q = (x, r')" by (cases "tf_read L (dc_reader d) q")
  note eval = decode_dispatch decode_reading_control_def decode_reading_start_def
  from piece_read [OF s(3) r q s(1) x] show ?thesis
  proof (elim disjE conjE)
    assume h: "x = tinyframe_have_control" "tf_control_type L r' = TINYFRAME_CONTROL_START"
      "tf_bytes_read L r' = length hdr" "pos r' (In_start DNSTAP_PROTOBUF_CONTENT_TYPE fld)"
      "drop (length hdr) q @ fut = fld @ rst"
    then have "res = dnswire_again" "d' = d\<lparr>dc_reader := r', dc_state := dnswire_decoder_checking_start\<rparr>"
      using d x st q by (auto simp: eval)
    moreover have "awaits_field L pos r' (fld @ rst) ms"
      using h(4) s(2,4) by (auto simp: awaits_field_def)
    ultimately show ?thesis
      using h(3,5) ok
      by (simp add: progress_def taken_def dnswire_decoder_decoded_def awaits_def decoder_ok_def)
  next
    assume h: "x = tinyframe_need_more" "pos r' Before_start"
    then have "res = dnswire_need_more" "d' = d\<lparr>dc_reader := r'\<rparr>"
      using d x st q by (auto simp: eval)
    then show ?thesis
      using h ok st a by (auto simp: progress_def taken_def awaits_def decoder_ok_def)
  qed
qed

lemma decode_ready:
  assumes d: "dnswire_decoder_decode L d q = Inr (res, d')" and ok: "decoder_ok d"
    and r: "pos (dc_reader d) Before_start" and a: "awaits_ready L pos (q @ fut) ms"
    and st: "dc_state d = dnswire_decoder_reading_control"
  shows "progress L pos res d' (drop (taken L res d') q @ fut) ms"
proof -
  have q: "q \<noteq> []" using d by (auto simp: dnswire_decoder_decode_def)
  from a obtain hdr fld rst where s: "q @ fut = hdr @ fld @ rst" "awaits_start L pos rst ms"
    "piece L pos Before_start hdr tinyframe_have_control
       (\<lambda>r. tf_control_type L r = TINYFRAME_CONTROL_READY \<and> tf_bytes_read L r = length hdr \<and>
          pos r (In_ready DNSTAP_PROTOBUF_CONTENT_TYPE fld))"
    "piece L pos (In_ready DNSTAP_PROTOBUF_CONTENT_TYPE fld) fld tinyframe_have_control_field
       (\<lambda>r. tf_field_type L r = TINYFRAME_CONTROL_FIELD_CONTENT_TYPE \<and>
          tf_field_data L r = DNSTAP_PROTOBUF_CONTENT_TYPE \<and> tf_control_length_left L r = 0 \<and>
          tf_bytes_read L r = length fld \<and> pos r Before_start)"
    by (auto simp: awaits_ready_def ready_readable_def)
  obtain x r' where x: "tf_read L (dc_reader d) q = (x, r')" by (cases "tf_read L (dc_reader d) q")
  from piece_read [OF s(3) r q s(1) x] show ?thesis
  proof (elim disjE conjE)
    assume h: "x = tinyframe_have_control" "tf_control_type L r' = TINYFRAME_CONTROL_READY"
      "tf_bytes_read L r' = length hdr" "pos r' (In_ready DNSTAP_PROTOBUF_CONTENT_TYPE fld)"
      "drop (length hdr) q @ fut = fld @ rst"
    then have "res = dnswire_again" "d' = d\<lparr>dc_reader := r', dc_state := dnswire_decoder_checking_ready\<rparr>"
      using d x st q by (simp_all add: decode_dispatch decode_reading_control_def)
    moreover have "awaits_ready_field L pos r' (fld @ rst) ms"
      using h(4) s(2,4) by (auto simp: awaits_ready_field_def)
    ultimately show ?thesis
      using h(3,5) ok
      by (simp add: progress_def taken_def dnswire_decoder_decoded_def awaits_def decoder_ok_def)
  next
    assume h: "x = tinyframe_need_more" "pos r' Before_start"
    then have "res = dnswire_need_more" "d' = d\<lparr>dc_reader := r'\<rparr>"
      using d x st q by (simp_all add: decode_dispatch decode_reading_control_def)
    then show ?thesis
      using h ok st a by (simp add: progress_def taken_def awaits_def decoder_ok_def)
  qed
qed

lemma decode_ready_field:
  assumes d: "dnswire_decoder_decode L d q = Inr (res, d')" and a: "awaits L pos d (q @ fut) ms"
    and st: "dc_state d = dnswire_decoder_checking_ready"
  shows "progress L pos res d' (drop (taken L res d') q @ fut) ms"
proof -
  have q: "q \<noteq> []" using d by (auto simp: dnswire_decoder_decode_def)
  from a st have ok: "decoder_ok d" "awaits_ready_field L pos (dc_reader d) (q @ fut) ms"
    by (simp_all add: awaits_def)
  then obtain fld rst where s: "q @ fut = fld @ rst" "awaits_start L pos rst ms"
    "pos (dc_reader d) (In_ready DNSTAP_PROTOBUF_CONTENT_TYPE fld)"
    and p: "piece L pos (In_ready DNSTAP_PROTOBUF_CONTENT_TYPE fld) fld tinyframe_have_control_field
       (\<lambda>r. tf_field_type L r = TINYFRAME_CONTROL_FIELD_CONTENT_TYPE \<and>
          tf_field_data L r = DNSTAP_PROTOBUF_CONTENT_TYPE \<and> tf_control_length_left L r = 0 \<and>
          tf_bytes_read L r = length fld \<and> pos r Before_start)"
    by (auto simp: awaits_ready_field_def)
  obtain x r where x: "tf_read L (dc_reader d) q = (x, r)" by (cases "tf_read L (dc_reader d) q")
  note eval = decode_dispatch decode_checking_ready_def content_type_matches_def strncmp_eq_refl
  from piece_read [OF p s(3) q s(1) x] show ?thesis
  proof (elim disjE conjE)
    assume h: "x = tinyframe_have_control_field" "tf_field_type L r = TINYFRAME_CONTROL_FIELD_CONTENT_TYPE"
      "tf_field_data L r = DNSTAP_PROTOBUF_CONTENT_TYPE" "tf_control_length_left L r = 0"
      "tf_bytes_read L r = length fld" "pos r Before_start" "drop (length fld) q @ fut = rst"
    then have "res = dnswire_bidirectional" "d' = d\<lparr>dc_reader := r,
        dc_ready_support_dnstap_protobuf := True, dc_state := dnswire_decoder_reading_start\<rparr>"
      using d x st q by (simp_all add: eval)
    then show ?thesis
      using h(5-7) ok(1) s(2)
      by (simp add: progress_def taken_def dnswire_decoder_decoded_def awaits_def decoder_ok_def)
  next
    assume h: "x = tinyframe_need_more" "pos r (In_ready DNSTAP_PROTOBUF_CONTENT_TYPE fld)"
    then have "res = dnswire_need_more" "d' = d\<lparr>dc_reader := r\<rparr>"
      using d x st q by (simp_all add: decode_dispatch decode_checking_ready_def)
    moreover have "awaits_ready_field L pos r (q @ fut) ms"
      using h(2) s(1,2) p by (auto simp: awaits_ready_field_def)
    ultimately show ?thesis
      using ok st by (simp add: progress_def taken_def awaits_def decoder_ok_def)
  qed
qed

lemma decode_field:
  assumes d: "dnswire_decoder_decode L d q = Inr (res, d')" and a: "awaits L pos d (q @ fut) ms"
    and st: "dc_state d = dnswire_decoder_checking_start"
  shows "progress L pos res d' (drop (taken L res d') q @ fut) ms"
proof -
  have q: "q \<noteq> []" using d by (auto simp: dnswire_decoder_decode_def)
  from a st have ok: "decoder_ok d" "awaits_field L pos (dc_reader d) (q @ fut) ms"
    by (simp_all add: awaits_def)
  then obtain fld rst where s: "q @ fut = fld @ rst" "frames_tail L pos rst ms"
    "pos (dc_reader d) (In_start DNSTAP_PROTOBUF_CONTENT_TYPE fld)"
    and p: "piece L pos (In_start DNSTAP_PROTOBUF_CONTENT_TYPE fld) fld tinyframe_have_control_field
       (\<lambda>r. tf_field_type L r = TINYFRAME_CONTROL_FIELD_CONTENT_TYPE \<and>
          tf_field_data L r = DNSTAP_PROTOBUF_CONTENT_TYPE \<and>
          tf_bytes_read L r = length fld \<and> pos r In_frames)"
    by (auto simp: awaits_field_def)
  obtain x r where x: "tf_read L (dc_reader d) q = (x, r)" by (cases "tf_read L (dc_reader d) q")
  from piece_read [OF p s(3) q s(1) x] show ?thesis
  proof (elim disjE conjE)
    assume h: "x = tinyframe_have_control_field" "tf_field_type L r = TINYFRAME_CONTROL_FIELD_CONTENT_TYPE"
      "tf_field_data L r = DNSTAP_PROTOBUF_CONTENT_TYPE" "tf_bytes_read L r = length fld"
      "pos r In_frames" "drop (length fld) q @ fut = rst"
    then have "res = dnswire_again" "d' = d\<lparr>dc_reader := r, dc_state := dnswire_decoder_reading_frames\<rparr>"
      using d x st q
      by (simp_all add: decode_dispatch decode_checking_start_def content_type_matches_def strncmp_eq_refl)
    then show ?thesis
      using h(4-6) ok(1) s(2)
      by (simp add: progress_def taken_def dnswire_decoder_decoded_def awaits_def decoder_ok_def)
  next
    assume h: "x = tinyframe_need_more" "pos r (In_start DNSTAP_PROTOBUF_CONTENT_TYPE fld)"
    then have "res = dnswire_need_more" "d' = d\<lparr>dc_reader := r\<rparr>"
      using d x st q by (simp_all add: decode_dispatch decode_checking_start_def)
    moreover have "awaits_field L pos r (q @ fut) ms"
      using h(2) s(1,2) p by (auto simp: awaits_field_def)
    ultimately show ?thesis
      using ok st by (simp add: progress_def taken_def awaits_def decoder_ok_def)
  qed
qed

lemma decode_frame_message:
  assumes ok: "decoder_ok d" and st: "dc_state d = dnswire_decoder_reading_frames"
    and q: "q \<noteq> []" and x: "tf_read L (dc_reader d) q = (tinyframe_have_frame, r)"
    and t: "pb_unpack L (tf_frame_data L r) = Some t"
    and dec: "dnswire_decoder_decode L d q = Inr (res, d')"
  shows "res = dnswire_have_dnstap \<and> dc_reader d' = r \<and> dc_state d' = dnswire_decoder_reading_frames \<and>
     wire_of (dc_dnstap d') = Inr (decoded_wire t)"
proof -
  let ?h = "d\<lparr>dc_reader := r\<rparr>" and ?c = "(dc_dnstap d)\<lparr>d_unpacked := None\<rparr>"
  have "decoder_ok ?h" using ok by (simp add: decoder_ok_def)
  from cleanup_ok [OF this] have c: "dnstap_cleanup (dc_dnstap d) = Inr ?c" by simp
  from decode_wire [of ?c, OF _ t] obtain n where
    n: "dnstap_decode_protobuf L ?c (tf_frame_data L r) = Inr (0, n)" "wire_of n = Inr (decoded_wire t)"
    by auto
  have "decode_reading_frames L d q = Inr (dnswire_have_dnstap, ?h\<lparr>dc_dnstap := n\<rparr>)"
    using x c n(1) by (simp add: decode_reading_frames_def)
  then show ?thesis using dec st q n(2) by (auto simp: decode_dispatch)
qed

lemma decode_frames:
  assumes L: "extlib_ok L" and d: "dnswire_decoder_decode L d q = Inr (res, d')"
    and a: "awaits L pos d (q @ fut) ms" and st: "dc_state d = dnswire_decoder_reading_frames"
  shows "progress L pos res d' (drop (taken L res d') q @ fut) ms"
proof -
  have q: "q \<noteq> []" using d by (auto simp: dnswire_decoder_decode_def)
  from a st have ok: "decoder_ok d" "pos (dc_reader d) In_frames" "frames_tail L pos (q @ fut) ms"
    by (simp_all add: awaits_def)
  have ok': "decoder_ok d'" by (rule decoder_decode_result(1) [OF L ok(1) d])
  obtain x r where x: "tf_read L (dc_reader d) q = (x, r)" by (cases "tf_read L (dc_reader d) q")
  have more: "res = dnswire_need_more \<and> d' = d\<lparr>dc_reader := r\<rparr>" if "x = tinyframe_need_more"
    using d x st q that by (auto simp: decode_dispatch decode_reading_frames_def)
  have waiting: ?thesis if "x = tinyframe_need_more" "pos r In_frames"
    using more [OF that(1)] that ok ok' st by (simp add: progress_def taken_def awaits_def)
  from ok(3) show ?thesis
  proof cases
    case tail_end
    with q show ?thesis by simp
  next
    case tail_stop
    then have s: "piece L pos In_frames (q @ fut) tinyframe_stopped (\<lambda>r. True)"
      by (simp add: stop_readable_def)
    from piece_read [OF s ok(2) q, of fut "[]"] x have
      "x = tinyframe_stopped \<or> x = tinyframe_need_more \<and> pos r In_frames" by auto
    moreover have "res = dnswire_endofdata \<and> d' = d\<lparr>dc_reader := r, dc_state := dnswire_decoder_done\<rparr>"
      if "x = tinyframe_stopped"
      using d x st q that by (auto simp: decode_dispatch decode_reading_frames_def)
    ultimately show ?thesis
      using waiting ok' tail_stop by (auto simp: progress_def awaits_def)
  next
    case (tail_frame m t bs rst ms')
    then have s: "piece L pos In_frames bs tinyframe_have_frame
       (\<lambda>r. tf_frame_data L r = pb_pack L t \<and> tf_bytes_read L r = length bs \<and> pos r In_frames)"
      by (simp add: frame_readable_def)
    from piece_read [OF s ok(2) q tail_frame(1) x] show ?thesis
    proof (elim disjE conjE)
      assume f: "x = tinyframe_have_frame" "tf_frame_data L r = pb_pack L t"
        "tf_bytes_read L r = length bs" "pos r In_frames" "drop (length bs) q @ fut = rst"
      from decode_frame_message [OF ok(1) st q, of L r t res d'] f x tail_frame(4) d have
        m: "res = dnswire_have_dnstap" "dc_reader d' = r" "dc_state d' = dnswire_decoder_reading_frames"
          "wire_of (dc_dnstap d') = Inr (decoded_wire t)" by simp_all
      then show ?thesis
        using f ok' tail_frame
        by (cases t) (simp add: progress_def taken_def dnswire_decoder_decoded_def awaits_def
            same_message_def)
    next
      assume "x = tinyframe_need_more" "pos r In_frames"
      then show ?thesis by (rule waiting)
    qed
  qed
qed

lemma decode_progress:
  assumes L: "extlib_ok L" and d: "dnswire_decoder_decode L d q = Inr (res, d')"
    and a: "awaits L pos d (q @ fut) ms"
  shows "progress L pos res d' (drop (taken L res d') q @ fut) ms"
proof (cases "dc_state d")
  case dnswire_decoder_done
  have "q \<noteq> []" using d by (auto simp: dnswire_decoder_decode_def)
  with d dnswire_decoder_done have "res = dnswire_error" "d' = d"
    by (auto simp: dnswire_decoder_decode_def)
  with a dnswire_decoder_done show ?thesis by (simp add: progress_def awaits_def)
next
  case dnswire_decoder_reading_control
  then show ?thesis
    using a decode_start [OF d] decode_ready [OF d] unfolding awaits_def by (auto 0 3)
next
  case dnswire_decoder_reading_start
  then show ?thesis
    using a decode_start [OF d] unfolding awaits_def by (auto 0 3)
qed (use a decode_ready_field [OF d a] decode_field [OF d a] decode_frames [OF L d a] in
      \<open>auto simp: awaits_def\<close>)

lemma awaits_nothing:
  assumes "awaits L pos d bs ms" and "bs = [] \<or> dc_state d = dnswire_decoder_done"
  shows "ms = []"
proof (cases "dc_state d = dnswire_decoder_done")
  case True
  with assms(1) show ?thesis by (simp add: awaits_def)
next
  case False
  with assms(2) have bs: "bs = []" by simp
  have t: "ms = []" if "frames_tail L pos [] ms"
    using that by cases (auto simp: frame_readable_def piece_def)
  show ?thesis
    using assms(1) bs False t
    by (auto simp: awaits_def awaits_start_def awaits_field_def awaits_ready_def awaits_ready_field_def
        start_readable_def ready_readable_def piece_def split: dnswire_decoder_state.splits)
qed

end
