(* ===== verification/Roundtrip.thy ===== *)
theory Roundtrip
  imports Tf_Stream Reader_Traces
begin

text \<open>
  From a sender to a receiver: what a writer sends, delivered in any pieces, is what a reader
  delivers, for every \<open>tinyframe\<close> that reads what it writes.
\<close>

section \<open>What a receiver gets\<close>

text \<open>A run of a reader in which the messages are collected as they are delivered.\<close>

inductive receives :: "('r, 'w) extlib \<Rightarrow> ('r, 'w) dnswire_reader \<Rightarrow> byte list \<Rightarrow> dnstap list \<Rightarrow>
    ('r, 'w) dnswire_reader \<Rightarrow> bool" for L where
  receives_start: "receives L r [] [] r"
| receives_more: "receives L r inp ms r1 \<Longrightarrow> reader_step L r1 chunk res out r2 \<Longrightarrow>
     receives L r (inp @ chunk)
       (if res = dnswire_have_dnstap then ms @ [dc_dnstap (r_decoder r2)] else ms) r2"

text \<open>The messages delivered so far agree with the first ones of \<open>all\<close>; the decoder awaits the others.\<close>

definition delivered :: "('r, 'w) extlib \<Rightarrow> ('r \<Rightarrow> phase \<Rightarrow> bool) \<Rightarrow> dnstap list \<Rightarrow> dnstap list \<Rightarrow>
    'r dnswire_decoder \<Rightarrow> byte list \<Rightarrow> bool" where
  "delivered L pos all ms d bs \<longleftrightarrow> length ms \<le> length all \<and>
     list_all2 same_message (take (length ms) all) ms \<and> awaits L pos d bs (drop (length ms) all)"

lemma delivered_decode:
  assumes L: "extlib_ok L" and d: "dnswire_decoder_decode L d q = Inr (res, d')"
    and a: "delivered L pos all ms d (q @ fut)"
  shows "delivered L pos all (if res = dnswire_have_dnstap then ms @ [dc_dnstap d'] else ms) d'
     (drop (taken L res d') q @ fut)"
proof -
  from a have aw: "awaits L pos d (q @ fut) (drop (length ms) all)" by (simp add: delivered_def)
  note p = decode_progress [OF L d aw]
  show ?thesis
  proof (cases "res = dnswire_have_dnstap")
    case False
    with p a show ?thesis by (simp add: progress_def delivered_def)
  next
    case True
    with p obtain m ms' where m: "drop (length ms) all = m # ms'" "same_message m (dc_dnstap d')"
      "awaits L pos d' (drop (taken L res d') q @ fut) ms'" by (auto simp: progress_def)
    have len: "length ms < length all"
    proof (rule ccontr)
      assume "\<not> length ms < length all"
      with m(1) show False by simp
    qed
    with m(1) have "all ! length ms = m" "drop (Suc (length ms)) all = ms'"
      by (simp_all add: Cons_nth_drop_Suc [symmetric])
    with True m a len show ?thesis
      by (simp add: delivered_def take_Suc_conv_app_nth list_all2_appendI)
  qed
qed

lemma delivered_fed:
  assumes L: "extlib_ok L" and f: "fed L r chunk res r'"
    and a: "delivered L pos all ms (r_decoder r) (in_live (r_in r) @ chunk @ fut)"
  shows "delivered L pos all (if res = dnswire_have_dnstap then ms @ [dc_dnstap (r_decoder r')] else ms)
     (r_decoder r') (in_live (r_in r') @ fut)"
  using f unfolding fed_def
proof (elim disjE exE conjE)
  fix dres
  assume d: "dnswire_decoder_decode L (r_decoder r) (in_live (r_in r) @ chunk) = Inr (dres, r_decoder r')"
    and s: "in_live (r_in r') = drop (taken L dres (r_decoder r')) (in_live (r_in r) @ chunk)"
      "(res = dnswire_have_dnstap) = (dres = dnswire_have_dnstap)"
  from delivered_decode [OF L d, of pos all ms fut] a show ?thesis
    by (simp add: s)
qed (use a in simp)

lemma receives_run: "receives L r inp ms r' \<Longrightarrow> \<exists>rs outp. reader_run L r inp rs outp r'"
  by (induction rule: receives.induct) (blast intro: reader_start reader_more)+

lemma receives_delivered:
  assumes "receives L r inp ms r'" and "extlib_ok L" and "reader_ok r"
    and "delivered L pos all [] (r_decoder r) (in_live (r_in r) @ inp @ fut)"
  shows "delivered L pos all ms (r_decoder r') (in_live (r_in r') @ fut)"
  using assms
proof (induction arbitrary: fut rule: receives.induct)
  case (receives_more r inp ms r1 chunk res out r2)
  from receives_run [OF receives_more.hyps(1)] receives_more.prems have "reader_ok r1"
    using reader_run_ok by blast
  with reader_step_ok [OF receives_more.hyps(2) receives_more.prems(1)] have f: "fed L r1 chunk res r2"
    by (simp add: step_ok_def)
  have "delivered L pos all ms (r_decoder r1) (in_live (r_in r1) @ chunk @ fut)"
    using receives_more.IH [OF receives_more.prems(1,2), of "chunk @ fut"] receives_more.prems(3)
    by simp
  from delivered_fed [OF receives_more.prems(1) f this] show ?case .
qed simp

section \<open>What a sender sent\<close>

lemma frames_awaited:
  assumes L: "extlib_ok L" and s: "tinyframe_stream_ok L pos" and "list_all (written L) fs"
    and "\<forall>(s, d, bs) \<in> set fs. s = dnswire_encoder_frames \<longrightarrow> (\<exists>m \<in> set ds. d = Some m)"
    and "\<forall>m \<in> set ds. unpacks L m"
    and "map fst fs = replicate n dnswire_encoder_frames @ st"
    and "st \<in> {[], [dnswire_encoder_control_stop]}"
  shows "frames_tail L pos (frame_bytes fs) (sent_messages fs)"
  using assms(3-)
proof (induction fs arbitrary: n)
  case Nil
  then show ?case by (simp add: tail_end)
next
  case (Cons f fs)
  obtain k d bs where f: "f = (k, d, bs)" by (cases f)
  from Cons.prems(1) have w: "written L (k, d, bs)" by (simp add: f)
  show ?case
  proof (cases n)
    case 0
    with Cons.prems(4,5) f have "k = dnswire_encoder_control_stop" "fs = []" by auto
    with written_readable(2) [OF L s w] show ?thesis by (simp add: f tail_stop)
  next
    case (Suc i)
    with Cons.prems(4) f have k: "k = dnswire_encoder_frames" "map fst fs = replicate i dnswire_encoder_frames @ st"
      by auto
    with Cons.prems(2) f obtain m where m: "d = Some m" "m \<in> set ds" by auto
    with Cons.prems(3) have "unpacks L m" by blast
    then obtain t where t: "wire_of m = Inr t" "pb_unpack L (pb_pack L t) = Some t"
      by (rule unpacksE)
    have "frames_tail L pos (frame_bytes fs) (sent_messages fs)"
      by (rule Cons.IH [OF _ _ Cons.prems(3) k(2) Cons.prems(5)]) (use Cons.prems(1,2) in auto)
    from tail_frame [OF t written_readable(3) [OF L s w k(1) m(1) t(1)] this] show ?thesis
      by (simp add: f k(1) m(1))
  qed
qed

lemma sender_trace_shape:
  assumes "sender_trace st (k # ks)"
  shows "k = dnswire_encoder_control_start \<and> (\<exists>n z. ks = replicate n dnswire_encoder_frames @ z \<and>
     z \<in> {[], [dnswire_encoder_control_stop]})"
proof -
  from assms obtain n where "k = dnswire_encoder_control_start"
    "ks = replicate n dnswire_encoder_frames @ [] \<or>
     ks = replicate n dnswire_encoder_frames @ [dnswire_encoder_control_stop]"
    by (cases st) auto
  then show ?thesis by blast
qed

lemma frames_await_start:
  assumes L: "extlib_ok L" and s: "tinyframe_stream_ok L pos" and w: "list_all (written L) fs"
    and d: "\<forall>(s, d, bs) \<in> set fs. s = dnswire_encoder_frames \<longrightarrow> (\<exists>m \<in> set ds. d = Some m)"
    and u: "\<forall>m \<in> set ds. unpacks L m" and tr: "sender_trace st (map fst fs)"
  shows "awaits_start L pos (frame_bytes fs) (sent_messages fs)"
proof (cases fs)
  case Nil
  then show ?thesis by (simp add: awaits_start_def)
next
  case (Cons f gs)
  obtain k dd bs where f: "f = (k, dd, bs)" by (cases f)
  from tr Cons f obtain n z where t: "k = dnswire_encoder_control_start"
    "map fst gs = replicate n dnswire_encoder_frames @ z" "z \<in> {[], [dnswire_encoder_control_stop]}"
    using sender_trace_shape [of st k "map fst gs"] by auto
  have "frames_tail L pos (frame_bytes gs) (sent_messages gs)"
    by (rule frames_awaited [OF L s _ _ u t(2,3)]) (use w d Cons in auto)
  moreover have "start_readable L pos DNSTAP_PROTOBUF_CONTENT_TYPE bs"
    using written_readable(1) [OF L s _ t(1)] w Cons f by auto
  ultimately show ?thesis
    unfolding awaits_start_def using Cons f t(1) by auto
qed

lemma conversation_awaited:
  assumes L: "extlib_ok L" and s: "tinyframe_stream_ok L pos" and w: "list_all (written L) fs"
    and d: "\<forall>(s, d, bs) \<in> set fs. s = dnswire_encoder_frames \<longrightarrow> (\<exists>m \<in> set ds. d = Some m)"
    and u: "\<forall>m \<in> set ds. unpacks L m" and tr: "sender_trace st (map fst fs)"
  shows "awaits L pos (DNSWIRE_DECODER_INITIALIZER L) (frame_bytes fs) (sent_messages fs)"
  using frames_await_start [OF assms] s decoder_init_ok [of L]
  by (simp add: awaits_def tinyframe_stream_ok_def DNSWIRE_DECODER_INITIALIZER_def)

lemma sent_messages_set:
  assumes "\<forall>(s, d, bs) \<in> set fs. s = dnswire_encoder_frames \<longrightarrow> (\<exists>m \<in> set ds. d = Some m)"
  shows "set (sent_messages fs) \<subseteq> set ds"
  using assms
proof (induction fs)
  case (Cons f fs)
  obtain k d bs where f: "f = (k, d, bs)" using prod_cases3 by blast
  have tail: "set (sent_messages fs) \<subseteq> set ds" using Cons by simp
  show ?case
  proof (cases d)
    case None
    then have "sent_messages (f # fs) = sent_messages fs" unfolding f by simp
    with tail show ?thesis by (simp only:)
  next
    case (Some m)
    have "k = dnswire_encoder_frames \<longrightarrow> m \<in> set ds"
      using Cons.prems by (simp add: f Some)
    moreover have "sent_messages (f # fs) = (if k = dnswire_encoder_frames then [m] else []) @ sent_messages fs"
      unfolding f Some by simp
    ultimately show ?thesis using tail by (cases "k = dnswire_encoder_frames") simp_all
  qed
qed simp

text \<open>What a reader delivers of frames its decoder awaits, of which it has got a beginning.\<close>

lemma frames_received:
  assumes L: "extlib_ok L" and ok: "reader_ok r" and e: "in_live (r_in r) = []"
    and a: "awaits L pos (r_decoder r) (frame_bytes fs) (sent_messages fs)"
    and rec: "receives L r inp ms r'" and cut: "frame_bytes fs = inp @ later"
  shows "length ms \<le> length (sent_messages fs) \<and>
     list_all2 same_message (take (length ms) (sent_messages fs)) ms \<and>
     (dc_state (r_decoder r') = dnswire_decoder_done \<or> in_live (r_in r') @ later = [] \<longrightarrow>
        length ms = length (sent_messages fs))"
proof -
  have "delivered L pos (sent_messages fs) [] (r_decoder r) (in_live (r_in r) @ inp @ later)"
    using a e cut by (simp add: delivered_def)
  note d = receives_delivered [OF rec L ok this]
  have "length ms = length (sent_messages fs)"
    if "dc_state (r_decoder r') = dnswire_decoder_done \<or> in_live (r_in r') @ later = []"
  proof -
    have "awaits L pos (r_decoder r') (in_live (r_in r') @ later) (drop (length ms) (sent_messages fs))"
      using d by (simp add: delivered_def)
    from awaits_nothing [OF this] that have "drop (length ms) (sent_messages fs) = []" by blast
    with d show ?thesis by (simp add: delivered_def)
  qed
  with d show ?thesis by (auto simp: delivered_def)
qed

lemma conversation_received:
  assumes L: "extlib_ok L" and s: "tinyframe_stream_ok L pos"
    and i: "dnswire_writer_init L w = (dnswire_ok, h, w1)" and run: "writer_run L h ds outp h'"
    and u: "\<forall>m \<in> set ds. unpacks L m"
    and ri: "dnswire_reader_init L v = (dnswire_ok, r, v1)" and rec: "receives L r inp ms r'"
    and cut: "outp @ out_pending (wr_out h') = inp @ later"
  shows "\<exists>fs. list_all (written L) fs \<and> frame_bytes fs = outp @ out_pending (wr_out h') \<and>
     set (sent_messages fs) \<subseteq> set ds \<and> in_turn ds (sent_messages fs) \<and>
     length ms \<le> length (sent_messages fs) \<and>
     list_all2 same_message (take (length ms) (sent_messages fs)) ms \<and>
     (dc_state (r_decoder r') = dnswire_decoder_done \<or> in_live (r_in r') @ later = [] \<longrightarrow>
        length ms = length (sent_messages fs))"
proof -
  have "conversation L ds outp h'" by (rule writer_conversation [OF i L run])
  then obtain fs where f: "list_all (written L) fs"
    "sender_trace (e_state (wr_encoder h')) (map fst fs)"
    "\<forall>(s, d, bs) \<in> set fs. s = dnswire_encoder_frames \<longrightarrow> (\<exists>m \<in> set ds. d = Some m)"
    "outp @ out_pending (wr_out h') = frame_bytes fs" "in_turn ds (sent_messages fs)"
    by (auto simp: conversation_def conversation_in_def)
  note r0 = reader_init_sound [OF ri]
  have "awaits L pos (r_decoder r) (frame_bytes fs) (sent_messages fs)"
    using conversation_awaited [OF L s f(1,3) u f(2)] r0(3) by simp
  from frames_received [OF L r0(1,2) this rec] cut f sent_messages_set [OF f(3)] show ?thesis
    by (intro exI [of _ fs]) simp
qed

text \<open>
  C1: End to end, for calls that do not fail. A new writer of a unidirectional conversation hands out
  bytes by \<open>write\<close> and \<open>pop\<close> in any mixture, while messages are set and the stream is stopped; excluded is
  only a \<open>pop\<close> after the stop while bytes are pending, which loses them. A new reader gets a beginning
  of these bytes, by any mixture of \<open>push\<close> and \<open>read\<close> and cut in any way. The frames of the writer hold
  the messages that were set, in the order they were set, each as often as it was encoded while it was
  the one that was set. The messages the reader has delivered are the first of them, in this order, none
  missing, doubled or altered; and when its decoder has come to the end of the stream or nothing of what
  was sent is left, they are all of them.
\<close>
theorem sender_to_receiver:
  assumes "extlib_ok L" and "tinyframe_stream_ok L pos"
    and "dnswire_writer_init L w = (dnswire_ok, h, w1)" and "writer_run L h ds outp h'"
    and "\<forall>m \<in> set ds. unpacks L m"
    and "dnswire_reader_init L v = (dnswire_ok, r, v1)" and "receives L r inp ms r'"
    and "outp @ out_pending (wr_out h') = inp @ later"
  shows "\<exists>fs. list_all (written L) fs \<and> frame_bytes fs = outp @ out_pending (wr_out h') \<and>
     set (sent_messages fs) \<subseteq> set ds \<and> in_turn ds (sent_messages fs) \<and>
     length ms \<le> length (sent_messages fs) \<and>
     list_all2 same_message (take (length ms) (sent_messages fs)) ms \<and>
     (dc_state (r_decoder r') = dnswire_decoder_done \<or> in_live (r_in r') @ later = [] \<longrightarrow>
        length ms = length (sent_messages fs))"
  by (rule conversation_received [OF assms])

section \<open>A conversation of one message\<close>

definition toy_pos :: "toy_reader \<Rightarrow> phase \<Rightarrow> bool" where
  "toy_pos r p = (case p of
      In_start ct fld \<Rightarrow> tr_left r = length fld \<and> fld = of_nat (length ct) # ct \<and> length ct < 253
    | In_ready ct fld \<Rightarrow> tr_left r = length fld \<and> fld = of_nat (length ct) # ct \<and> length ct < 253
    | _ \<Rightarrow> tr_left r = 0)"

lemma byte_length: "n < 256 \<Longrightarrow> unat (of_nat n :: byte) = n"
  by (simp add: unat_of_nat)

lemma toy_readers:
  "tf_read toylib = toy_read" "tf_control_type toylib = tr_type" "tf_field_data toylib = tr_field"
  "tf_field_type toylib = (\<lambda>r. TINYFRAME_CONTROL_FIELD_CONTENT_TYPE)" "tf_frame_data toylib = tr_frame"
  "tf_bytes_read toylib = tr_read" "tf_reader_init toylib = \<lparr>tr_type = TINYFRAME_CONTROL_other 0,
     tr_field = [], tr_left = 0, tr_frame = [], tr_read = 0\<rparr>"
  by (simp_all add: toylib_def)

lemma toy_emitted: "toy_emit w len out = (tinyframe_ok, w', bs) \<Longrightarrow> bs = out \<and> length bs \<le> 255"
  by (auto simp: toy_emit_def split: if_splits)

lemma toy_read_one: "tr_left r = 0 \<Longrightarrow> toy_read r (take 1 bs) = (tinyframe_need_more, r)"
  by (cases bs) (simp_all add: toy_read_def)

lemma piece_weaken:
  "piece L pos p bs tf found \<Longrightarrow> (\<And>r. found r \<Longrightarrow> found' r) \<Longrightarrow> piece L pos p bs tf found'"
  unfolding piece_def by blast

text \<open>A control frame with one field, START, READY or ACCEPT: its header and its field.\<close>

definition toy_phase :: "tinyframe_control \<Rightarrow> byte list \<Rightarrow> phase" where
  "toy_phase c ct = (if c = TINYFRAME_CONTROL_READY then In_ready ct (of_nat (length ct) # ct)
     else In_start ct (of_nat (length ct) # ct))"

lemma toy_phase_pos:
  "length ct < 253 \<Longrightarrow> toy_pos r (toy_phase c ct) \<longleftrightarrow> tr_left r = Suc (length ct)"
  by (simp add: toy_phase_def toy_pos_def)

lemma toy_header_piece:
  assumes "length ct < 253" and c: "c \<in> {TINYFRAME_CONTROL_START, TINYFRAME_CONTROL_READY, TINYFRAME_CONTROL_ACCEPT}"
  shows "piece toylib toy_pos Before_start [toy_code c, of_nat (Suc (length ct))] tinyframe_have_control
     (\<lambda>r. tf_control_type toylib r = c \<and> tf_bytes_read toylib r = 2 \<and> toy_pos r (toy_phase c ct))"
  unfolding piece_def toy_readers toy_phase_pos [OF assms(1)]
proof (intro conjI allI impI)
  let ?h = "[toy_code c, of_nat (Suc (length ct))] :: byte list"
  fix r rest
  assume "toy_pos r Before_start"
  moreover have "unat (of_nat (Suc (length ct)) :: byte) = Suc (length ct)"
    using assms(1) byte_length [of "Suc (length ct)"] by simp
  ultimately show "\<exists>r'. toy_read r (?h @ rest) = (tinyframe_have_control, r') \<and>
      tr_type r' = c \<and> tr_read r' = 2 \<and> tr_left r' = Suc (length ct)"
    using c by (auto simp: toy_pos_def toy_read_def toy_header_def)
next
  let ?h = "[toy_code c, of_nat (Suc (length ct))] :: byte list"
  fix r k
  assume r: "toy_pos r Before_start" and k: "0 < k \<and> k < length ?h"
  then have "take k ?h = take 1 ?h" by (cases k) auto
  with r show "\<exists>r'. toy_read r (take k ?h) = (tinyframe_need_more, r') \<and> toy_pos r' Before_start"
    using toy_read_one [of r ?h] by (simp only:) (simp add: toy_pos_def)
qed simp

lemma toy_field_piece:
  assumes "length ct < 253"
  shows "piece toylib toy_pos (toy_phase c ct) (of_nat (length ct) # ct) tinyframe_have_control_field
     (\<lambda>r. tf_field_type toylib r = TINYFRAME_CONTROL_FIELD_CONTENT_TYPE \<and> tf_field_data toylib r = ct \<and>
        tf_bytes_read toylib r = Suc (length ct) \<and> tr_left r = 0)"
  unfolding piece_def toy_readers toy_phase_pos [OF assms]
proof (intro conjI allI impI)
  let ?f = "of_nat (length ct) # ct :: byte list"
  have len: "unat (of_nat (length ct) :: byte) = length ct"
    using assms byte_length [of "length ct"] by simp
  fix r :: toy_reader
  assume r: "tr_left r = Suc (length ct)"
  with len show "\<exists>r'. toy_read r (?f @ rest) = (tinyframe_have_control_field, r') \<and>
      TINYFRAME_CONTROL_FIELD_CONTENT_TYPE = TINYFRAME_CONTROL_FIELD_CONTENT_TYPE \<and>
      tr_field r' = ct \<and> tr_read r' = Suc (length ct) \<and> tr_left r' = 0" for rest
    by (simp add: toy_read_def toy_field_def)
  show "\<exists>r'. toy_read r (take k ?f) = (tinyframe_need_more, r') \<and> tr_left r' = Suc (length ct)"
    if "0 < k \<and> k < length ?f" for k
    using that r len by (cases k) (auto simp: toy_read_def toy_field_def)
qed simp

lemma toy_start_readable:
  assumes "length ct < 253"
  shows "start_readable toylib toy_pos ct (toy_control TINYFRAME_CONTROL_START [ct])"
  unfolding start_readable_def
proof (intro exI conjI)
  show "toy_control TINYFRAME_CONTROL_START [ct] =
      [toy_code TINYFRAME_CONTROL_START, of_nat (Suc (length ct))] @ (of_nat (length ct) # ct)"
    by (simp add: toy_control_def)
qed (rule piece_weaken [OF toy_header_piece [OF assms]] piece_weaken [OF toy_field_piece [OF assms,
      of TINYFRAME_CONTROL_START, unfolded toy_phase_def, simplified]];
      simp add: toy_phase_def toy_pos_def)+

lemma toy_ready_ok: "tinyframe_ready_ok toylib toy_pos"
  unfolding tinyframe_ready_ok_def
proof (intro allI impI)
  fix w len ct w' bs
  assume "tf_write_control toylib w len TINYFRAME_CONTROL_READY
    [(TINYFRAME_CONTROL_FIELD_CONTENT_TYPE, ct)] = (tinyframe_ok, w', bs)"
  then have bs: "bs = toy_control TINYFRAME_CONTROL_READY [ct]" "length ct < 253"
    using toy_emitted by (fastforce simp: toy_control_def toylib_def)+
  show "ready_readable toylib toy_pos ct bs"
    unfolding ready_readable_def
  proof (intro exI conjI)
    show "bs = [toy_code TINYFRAME_CONTROL_READY, of_nat (Suc (length ct))] @ (of_nat (length ct) # ct)"
      by (simp add: bs(1) toy_control_def)
  qed (rule piece_weaken [OF toy_header_piece [OF bs(2)]] piece_weaken [OF toy_field_piece [OF bs(2),
        of TINYFRAME_CONTROL_READY, unfolded toy_phase_def, simplified]];
        simp add: toy_phase_def toy_pos_def toylib_def)+
qed

lemma toy_frame_readable:
  assumes "length fr \<le> 253"
  shows "frame_readable toylib toy_pos fr (6 # of_nat (length fr) # fr)"
  unfolding frame_readable_def piece_def toy_readers
proof (intro conjI allI impI)
  fix r k
  let ?bs = "6 # of_nat (length fr) # fr :: byte list"
  have len: "unat (of_nat (length fr) :: byte) = length fr"
    using assms byte_length [of "length fr"] by simp
  show "\<exists>r'. toy_read r (?bs @ rest) = (tinyframe_have_frame, r') \<and> tr_frame r' = fr \<and>
      tr_read r' = length ?bs \<and> toy_pos r' In_frames" if "toy_pos r In_frames" for rest
    using that len by (simp add: toy_pos_def toy_read_def toy_header_def)
  assume r: "toy_pos r In_frames" and k: "0 < k \<and> k < length ?bs"
  show "\<exists>r'. toy_read r (take k ?bs) = (tinyframe_need_more, r') \<and> toy_pos r' In_frames"
  proof (cases "k = 1")
    case True
    with r toy_read_one [of r ?bs] show ?thesis by (simp only:) (simp add: toy_pos_def)
  next
    case False
    with k obtain j where "k = Suc (Suc j)" "j < length fr" by (cases k; cases "k - 1") auto
    with r len show ?thesis by (simp add: toy_pos_def toy_read_def toy_header_def)
  qed
qed simp

lemma toy_stop_readable: "stop_readable toylib toy_pos [3, 0]"
  unfolding stop_readable_def piece_def toy_readers
proof (intro conjI allI impI)
  fix r k
  assume r: "toy_pos r In_frames" and k: "0 < k \<and> k < length [3, 0 :: byte]"
  then have "k = 1" by simp
  with r toy_read_one [of r "[3, 0]"]
  show "\<exists>r'. toy_read r (take k [3, 0]) = (tinyframe_need_more, r') \<and> toy_pos r' In_frames"
    by (simp only:) (simp add: toy_pos_def)
qed (simp_all add: toy_pos_def toy_read_def toy_header_def)

lemma toy_stream_ok: "tinyframe_stream_ok toylib toy_pos"
proof -
  have w: "tf_write_control_start toylib = (\<lambda>w len ct. toy_emit w len (toy_control TINYFRAME_CONTROL_START [ct]))"
    "tf_write_frame toylib = (\<lambda>w len fr. toy_emit w len (6 # of_nat (length fr) # fr))"
    "tf_write_control_stop toylib = (\<lambda>w len. toy_emit w len (toy_control TINYFRAME_CONTROL_STOP []))"
    by (simp_all add: toylib_def)
  have s: "toy_control TINYFRAME_CONTROL_STOP [] = [3, 0]" by (simp add: toy_control_def)
  show ?thesis
    unfolding tinyframe_stream_ok_def w s
  proof (intro conjI allI impI)
    show "toy_pos (tf_reader_init toylib) Before_start" by (simp add: toy_pos_def toy_readers)
  next
    fix w len ct w' bs
    assume "toy_emit w len (toy_control TINYFRAME_CONTROL_START [ct]) = (tinyframe_ok, w', bs)"
    then have "bs = toy_control TINYFRAME_CONTROL_START [ct]" "length ct < 253"
      using toy_emitted by (fastforce simp: toy_control_def)+
    then show "start_readable toylib toy_pos ct bs" using toy_start_readable by simp
  next
    fix w len fr w' bs
    assume "toy_emit w len (6 # of_nat (length fr) # fr) = (tinyframe_ok, w', bs)"
    then have "bs = 6 # of_nat (length fr) # fr" "length fr \<le> 253"
      using toy_emitted by fastforce+
    then show "frame_readable toylib toy_pos fr bs" using toy_frame_readable by simp
  next
    fix w len w' bs
    assume "toy_emit w len [3, 0] = (tinyframe_ok, w', bs)"
    then have "bs = [3, 0]" using toy_emitted by blast
    then show "stop_readable toylib toy_pos bs" using toy_stop_readable by simp
  qed
qed

definition toy_msg :: dnstap where
  "toy_msg = dnstap_set_type 1 (DNSTAP_INITIALIZER toylib)"

lemma toy_msg_wire: "wire_of toy_msg = Inr (toy_dnstap, Some (toy_message, None))"
proof -
  have i: "pb_dnstap_init toylib = toy_dnstap" "pb_message_init toylib = toy_message"
    by (simp_all add: toylib_def)
  have t: "dnstap_fields.truncate (dnstap_fields.extend f (Dnstap__Dnstap.fields q)) = f"
    "message_fields.truncate (message_fields.extend m (Dnstap__Message.fields p False False)) = m" for f q m p
    by (simp_all add: dnstap_fields.defs message_fields.defs)
  have p: "m_policy (message_fields.extend m (Dnstap__Message.fields p False False)) = p"
    "addresses_live (message_fields.extend m (Dnstap__Message.fields p False False))" for m p
    by (simp_all add: message_fields.extend_def Dnstap__Message.fields_def addresses_live_def)
  have d: "dnstap_fields.truncate ((dnstap_fields.extend toy_dnstap (Dnstap__Dnstap.fields Msg_null))
      \<lparr>t_type := 1, t_message := Msg_own\<rparr>) = toy_dnstap"
    by (simp add: dnstap_fields.defs Dnstap__Dnstap.fields_def toy_dnstap_def)
  show ?thesis
    by (simp add: toy_msg_def dnstap_set_type_def DNSTAP_INITIALIZER_def wire_defs i t p d)
qed

lemma toy_msg_packed:
  "pb_pack toylib (toy_dnstap, Some (toy_message, None)) = [9, 1, 1]"
  "pb_unpack toylib [9, 1, 1] = Some (toy_dnstap, Some (toy_message, None))"
  by (simp_all add: toylib_def toy_pack_def toy_unpack_def toy_dnstap_def toy_message_def)

definition toy_start_hdr :: "byte list" where
  "toy_start_hdr = [2, 23]"

definition toy_content :: "byte list" where
  "toy_content = 22 # DNSTAP_PROTOBUF_CONTENT_TYPE"

lemma toy_sends:
  "\<exists>h. writer_run toylib toy_writer0 [toy_msg] (toy_start_hdr @ toy_content @ [6, 3, 9, 1, 1]) h \<and>
     out_pending (wr_out h) = []"
proof -
  have sz: "o_size (wr_out toy_writer0) = 4096"
    by (simp add: toy_writer0_def dnswire_writer_init_def writer_defaults_def toy_out_def
        sys_alloc_def DNSWIRE_DEFAULT_BUF_SIZE_def Let_def)
  note i = toy_writer0_sound
  have start: "toy_start_hdr @ toy_content = toy_control TINYFRAME_CONTROL_START [DNSTAP_PROTOBUF_CONTENT_TYPE]"
    by (simp add: toy_start_hdr_def toy_content_def toy_control_def DNSTAP_PROTOBUF_CONTENT_TYPE_def)
  have slen: "length (toy_start_hdr @ toy_content) = 25"
    by (simp add: toy_start_hdr_def toy_content_def DNSTAP_PROTOBUF_CONTENT_TYPE_def)
  let ?e = "(wr_encoder toy_writer0)\<lparr>e_writer := 25, e_state := dnswire_encoder_frames\<rparr>"
  have e: "dnswire_encoder_encode toylib (wr_encoder toy_writer0) (o_size (wr_out toy_writer0)) =
      Inr (dnswire_again, ?e, toy_start_hdr @ toy_content)"
    using slen unfolding start
    by (simp add: i(4) sz dnswire_encoder_encode_def encoder_wrote_def toylib_def toy_emit_def
        DNSWIRE_ENCODER_INITIALIZER_def)
  have w1: "sys_write toy_out (toy_start_hdr @ toy_content) = (Some (length (toy_start_hdr @ toy_content)),
      toy_out\<lparr>writes := [100], sent := toy_start_hdr @ toy_content\<rparr>)"
    using slen by (simp add: sys_write_def toy_out_def)
  have "toy_start_hdr @ toy_content \<noteq> []" by (simp add: toy_start_hdr_def)
  from write_whole [OF toylib_ok i(1,3) e _ this w1] obtain b where
    b: "dnswire_writer_write toylib toy_out toy_writer0 = Inr (dnswire_again,
        toy_writer0\<lparr>wr_encoder := ?e, wr_out := b\<rparr>,
        toy_out\<lparr>writes := [100], sent := toy_start_hdr @ toy_content\<rparr>)"
      "o_size b = 4096" "out_ok b" "out_pending b = []"
    by (auto simp: sz)
  let ?h1 = "toy_writer0\<lparr>wr_encoder := ?e, wr_out := b\<rparr>"
  have run1: "writer_run toylib toy_writer0 [] (toy_start_hdr @ toy_content) ?h1"
    using writer_more [OF writer_start step_write [OF b(1), of "toy_start_hdr @ toy_content"]]
    by (simp add: toy_out_def)
  have enc: "encodable toy_msg" by (simp add: encodable_def toy_msg_wire)
  let ?h2 = "dnswire_writer_set_dnstap ?h1 toy_msg"
  from writer_more [OF run1 step_set [OF enc]] have
    run2: "writer_run toylib toy_writer0 [toy_msg] (toy_start_hdr @ toy_content) ?h2" by simp
  have ok2: "writer_ok ?h2"
    by (rule writer_run_ok [OF run2 toylib_ok i(1)])
  let ?e2 = "wr_encoder ?h2"
  have st2: "wr_state ?h2 = dnswire_writer_encoding"
    by (simp add: dnswire_writer_set_dnstap_def i(3))
  have e2: "dnswire_encoder_encode toylib ?e2 (o_size (wr_out ?h2)) =
      Inr (dnswire_ok, ?e2\<lparr>e_writer := 5\<rparr>, [6, 3, 9, 1, 1])"
  proof -
    have f: "e_dnstap ?e2 = Some toy_msg" "e_state ?e2 = dnswire_encoder_frames"
      "o_size (wr_out ?h2) = 4096"
      by (simp_all add: dnswire_writer_set_dnstap_def dnswire_encoder_set_dnstap_def b(2))
    have x: "pb_packed_size toylib t = length (pb_pack toylib t)" "tf_frame_size toylib n = n + 2"
      "tf_write_frame toylib v len fr = toy_emit v len (6 # of_nat (length fr) # fr)" for t n v len fr
      by (simp_all add: toylib_def)
    show ?thesis
      using f encode_frame_eq [OF toylib_ok f(1) toy_msg_wire, of 4096]
      by (simp add: dnswire_encoder_encode_def x toy_msg_packed toy_emit_def encoder_wrote_def)
  qed
  have w2: "sys_write (toy_out\<lparr>writes := [100]\<rparr>) [6, 3, 9, 1, 1] =
      (Some (length [6, 3, 9, 1, 1 :: byte]), toy_out\<lparr>writes := [], sent := [6, 3, 9, 1, 1]\<rparr>)"
    by (simp add: sys_write_def toy_out_def)
  from write_whole [OF toylib_ok ok2 st2 e2 _ _ w2] obtain c where
    c: "dnswire_writer_write toylib (toy_out\<lparr>writes := [100]\<rparr>) ?h2 = Inr (dnswire_ok,
        ?h2\<lparr>wr_encoder := ?e2\<lparr>e_writer := 5\<rparr>, wr_out := c\<rparr>,
        toy_out\<lparr>writes := [], sent := [6, 3, 9, 1, 1]\<rparr>)" "out_pending c = []"
    by auto
  from writer_more [OF run2 step_write [OF c(1), of "[6, 3, 9, 1, 1]"]] c(2) show ?thesis
    by (auto simp: toy_out_def)
qed

text \<open>The decoder on the frames of this conversation, one call per piece.\<close>

lemma toy_decodes:
  "\<exists>d1 d2 d3 d4. dnswire_decoder_decode toylib (DNSWIRE_DECODER_INITIALIZER toylib) toy_start_hdr = Inr (dnswire_again, d1) \<and>
     dnswire_decoder_decoded toylib d1 = length toy_start_hdr \<and>
     dnswire_decoder_decode toylib d1 toy_content = Inr (dnswire_again, d2) \<and>
     dnswire_decoder_decoded toylib d2 = length toy_content \<and>
     dnswire_decoder_decode toylib d2 [6, 3, 9, 1, 1] = Inr (dnswire_have_dnstap, d3) \<and>
     dnswire_decoder_decoded toylib d3 = length [6, 3, 9, 1, 1 :: byte] \<and>
     dnswire_decoder_decode toylib d3 [3, 0] = Inr (dnswire_endofdata, d4)"
proof -
  define d1 where "d1 = (DNSWIRE_DECODER_INITIALIZER toylib)
       \<lparr>dc_reader := (tf_reader_init toylib)
          \<lparr>tr_type := TINYFRAME_CONTROL_START, tr_left := 23, tr_read := 2\<rparr>,
        dc_state := dnswire_decoder_checking_start\<rparr>"
  have s1: "dnswire_decoder_decode toylib (DNSWIRE_DECODER_INITIALIZER toylib) toy_start_hdr = Inr (dnswire_again, d1)"
    using toy_decode_start by (simp add: toy_start_hdr_def d1_def)
  have l1: "dnswire_decoder_decoded toylib d1 = length toy_start_hdr"
    by (simp add: dnswire_decoder_decoded_def toy_readers d1_def toy_start_hdr_def)
  have clen: "length DNSTAP_PROTOBUF_CONTENT_TYPE = 22" by (simp add: DNSTAP_PROTOBUF_CONTENT_TYPE_def)
  define q where "q = (dc_reader d1)\<lparr>tr_field := DNSTAP_PROTOBUF_CONTENT_TYPE, tr_left := 0, tr_read := 23\<rparr>"
  define d2 where "d2 = d1\<lparr>dc_reader := q, dc_state := dnswire_decoder_reading_frames\<rparr>"
  have rd: "tf_read toylib (dc_reader d1) toy_content = (tinyframe_have_control_field, q)"
    by (simp add: toy_readers toy_read_def toy_content_def toy_field_def clen d1_def q_def)
  have s2: "dnswire_decoder_decode toylib d1 toy_content = Inr (dnswire_again, d2)"
  proof -
    have "tf_field_type toylib q = TINYFRAME_CONTROL_FIELD_CONTENT_TYPE" "content_type_matches toylib q"
      by (simp_all add: toy_readers content_type_matches_def q_def strncmp_eq_refl)
    with rd have "decode_checking_start toylib d1 toy_content = (dnswire_again, d2)"
      by (simp add: decode_checking_start_def d2_def)
    moreover have "dc_state d1 = dnswire_decoder_checking_start" "toy_content \<noteq> []"
      by (simp_all add: d1_def toy_content_def)
    ultimately show ?thesis by (simp add: decode_dispatch)
  qed
  have l2: "dnswire_decoder_decoded toylib d2 = length toy_content"
    by (simp add: dnswire_decoder_decoded_def toy_readers d2_def q_def toy_content_def clen)
  let ?fr = "[6, 3, 9, 1, 1] :: byte list"
  have st: "dc_state d2 = dnswire_decoder_reading_frames" by (simp add: d2_def)
  have ok: "decoder_ok d2"
    using decoder_init_ok [of toylib] by (simp add: d2_def d1_def decoder_ok_def)
  have rf: "tf_read toylib (dc_reader d2) ?fr = (tinyframe_have_frame, q\<lparr>tr_frame := [9, 1, 1], tr_read := 5\<rparr>)"
    by (simp add: toy_readers toy_read_def Toylib.toy_header_def d2_def q_def)
  have up: "pb_unpack toylib (tf_frame_data toylib (q\<lparr>tr_frame := [9, 1, 1], tr_read := 5\<rparr>)) =
      Some (toy_dnstap, Some (toy_message, None))"
    by (simp add: toy_readers toy_msg_packed)
  from decoder_decode_returns [OF toylib_ok ok, of ?fr] obtain res d3 where
    d3: "dnswire_decoder_decode toylib d2 ?fr = Inr (res, d3)" by auto
  have "?fr \<noteq> []" by simp
  note m = decode_frame_message [OF ok st this rf up d3]
  have s3: "dnswire_decoder_decode toylib d2 ?fr = Inr (dnswire_have_dnstap, d3)"
    using d3 m by simp
  have l3: "dnswire_decoder_decoded toylib d3 = length ?fr"
    using m by (simp add: dnswire_decoder_decoded_def toy_readers)
  have "\<exists>d4. dnswire_decoder_decode toylib d3 [3, 0] = Inr (dnswire_endofdata, d4)"
    using m by (simp add: decode_dispatch decode_reading_frames_def toy_readers toy_read_def
        Toylib.toy_header_def q_def)
  with s1 l1 s2 l2 s3 l3 show ?thesis by blast
qed

lemma toy_receives:
  "\<exists>m r. receives toylib toy_reader0 (toy_start_hdr @ toy_content @ [6, 3, 9, 1, 1]) [m] r \<and>
     in_live (r_in r) = []"
proof -
  have sz: "i_size (r_in toy_reader0) = 4096"
    by (simp add: toy_reader0_def dnswire_reader_init_def reader_defaults_def toy_world_def
        sys_alloc_def DNSWIRE_DEFAULT_BUF_SIZE_def Let_def)
  obtain d1 d2 d3 d4 where
    d: "dnswire_decoder_decode toylib (r_decoder toy_reader0) toy_start_hdr = Inr (dnswire_again, d1)"
      "dnswire_decoder_decoded toylib d1 = length toy_start_hdr"
      "dnswire_decoder_decode toylib d1 toy_content = Inr (dnswire_again, d2)"
      "dnswire_decoder_decoded toylib d2 = length toy_content"
      "dnswire_decoder_decode toylib d2 [6, 3, 9, 1, 1] = Inr (dnswire_have_dnstap, d3)"
      "dnswire_decoder_decoded toylib d3 = length [6, 3, 9, 1, 1 :: byte]"
    using toy_decodes unfolding toy_reader0_ok(3) by blast
  have clen: "length DNSTAP_PROTOBUF_CONTENT_TYPE = 22" by (simp add: DNSTAP_PROTOBUF_CONTENT_TYPE_def)
  from push_whole_step [OF toylib_ok toy_reader0_ok(1,2,4,6) d(1) _ d(2)] obtain r1 where
    r1: "reader_step toylib toy_reader0 toy_start_hdr dnswire_again [] r1" "reader_ok r1" "r_decoder r1 = d1"
      "in_live (r_in r1) = []" "i_size (r_in r1) = 4096" "\<not> r_allow_bidirectional r1"
      "r_state r1 = dnswire_reader_reading_control"
    by (auto simp: sz toy_start_hdr_def)
  have c2: "toy_content \<noteq> []" "length toy_content \<le> i_size (r_in r1)"
    by (simp_all add: toy_content_def clen r1(5))
  from push_whole_step [OF toylib_ok r1(2,4,6,7) d(3) [folded r1(3)] _ d(4) c2] obtain r2 where
    r2: "reader_step toylib r1 toy_content dnswire_again [] r2" "reader_ok r2" "r_decoder r2 = d2"
      "in_live (r_in r2) = []" "i_size (r_in r2) = 4096" "\<not> r_allow_bidirectional r2"
      "r_state r2 = dnswire_reader_reading_control"
    by (auto simp: r1(5))
  from push_whole_step [OF toylib_ok r2(2,4,6,7) d(5) [folded r2(3)] _ d(6)] obtain r3 where
    r3: "reader_step toylib r2 [6, 3, 9, 1, 1] dnswire_have_dnstap [] r3" "in_live (r_in r3) = []"
    by (auto simp: r2(5))
  from receives_more [OF receives_more [OF receives_more [OF receives_start r1(1)] r2(1)] r3(1)] r3(2)
  show ?thesis by auto
qed

theorem sender_to_receiver_witness:
  "\<exists>outp h m r. writer_run toylib toy_writer0 [toy_msg] outp h \<and> receives toylib toy_reader0 outp [m] r \<and>
     same_message toy_msg m"
proof -
  let ?o = "toy_start_hdr @ toy_content @ [6, 3, 9, 1, 1]"
  from toy_sends obtain h where h: "writer_run toylib toy_writer0 [toy_msg] ?o h"
    "out_pending (wr_out h) = []" by blast
  from toy_receives obtain m r where r: "receives toylib toy_reader0 ?o [m] r" "in_live (r_in r) = []"
    by blast
  have u: "\<forall>m \<in> set [toy_msg]. unpacks toylib m"
    by (simp add: unpacks_def toy_msg_wire toy_msg_packed)
  have cut: "?o @ out_pending (wr_out h) = ?o @ []" by (simp only: h(2))
  from sender_to_receiver [OF toylib_ok toy_stream_ok toy_writer_init h(1) u toy_init r(1) cut]
  obtain fs where fs: "set (sent_messages fs) \<subseteq> {toy_msg}" "length [m] \<le> length (sent_messages fs)"
    "list_all2 same_message (take (length [m]) (sent_messages fs)) [m]"
    by auto
  then obtain x xs where x: "sent_messages fs = x # xs" by (cases "sent_messages fs") auto
  with fs have "same_message toy_msg m" by simp
  with h(1) r(1) show ?thesis by blast
qed

end
