(* ===== verification/Complete_Stream.thy ===== *)
theory Complete_Stream
  imports Roundtrip
begin

text \<open>
  Streams that are complete: cut into pieces each of which the decoder takes in one call, up to the one
  that ends the stream, and none longer than a buffer may become. On such a stream the decoder never
  fails, and it asks for more only when there is more to come.
\<close>

section \<open>Pieces\<close>

text \<open>
  Given \<open>bs\<close> and perhaps more, a decoder that satisfies \<open>G\<close> answers \<open>res\<close>, takes \<open>bs\<close> and satisfies
  \<open>G'\<close>; given some but not all of \<open>bs\<close> it asks for more.
\<close>

definition decoder_piece :: "('r, 'w) extlib \<Rightarrow> nat \<Rightarrow> ('r dnswire_decoder \<Rightarrow> bool) \<Rightarrow> byte list \<Rightarrow>
    dnswire_result \<Rightarrow> ('r dnswire_decoder \<Rightarrow> bool) \<Rightarrow> bool" where
  "decoder_piece L n G bs res G' \<longleftrightarrow> bs \<noteq> [] \<and> length bs \<le> n \<and> (\<forall>d. G d \<longrightarrow>
     (\<forall>rest. \<exists>d'. dnswire_decoder_decode L d (bs @ rest) = Inr (res, d') \<and> G' d' \<and>
        (res = dnswire_endofdata \<or> dnswire_decoder_decoded L d' = length bs)) \<and>
     (\<forall>k. 0 < k \<and> k < length bs \<longrightarrow>
        (\<exists>d'. dnswire_decoder_decode L d (take k bs) = Inr (dnswire_need_more, d') \<and> G d')))"

text \<open>What is left of a stream that is complete, for a decoder that satisfies \<open>G\<close>.\<close>

inductive complete_from :: "('r, 'w) extlib \<Rightarrow> nat \<Rightarrow> ('r dnswire_decoder \<Rightarrow> bool) \<Rightarrow> byte list \<Rightarrow> bool"
  for L n where
  complete_end: "decoder_piece L n G bs dnswire_endofdata G' \<Longrightarrow> complete_from L n G bs"
| complete_more: "decoder_piece L n G bs res G' \<Longrightarrow> res \<in> {dnswire_again, dnswire_have_dnstap} \<Longrightarrow>
     complete_from L n G' rst \<Longrightarrow> complete_from L n G (bs @ rst)"

lemma complete_nonempty: "complete_from L n G bs \<Longrightarrow> bs \<noteq> []"
  by (induction rule: complete_from.induct) (auto simp: decoder_piece_def)

text \<open>One call on what has arrived, \<open>q\<close>, of a piece and what follows it.\<close>

lemma decode_piece:
  assumes p: "decoder_piece L n G bs res G'" and d: "G d" and q: "q \<noteq> []" "q @ fut = bs @ rst"
  shows "(\<exists>d'. dnswire_decoder_decode L d q = Inr (res, d') \<and> G' d' \<and> length bs \<le> length q \<and>
       drop (length bs) q @ fut = rst \<and>
       (res = dnswire_endofdata \<or> dnswire_decoder_decoded L d' = length bs)) \<or>
     (\<exists>d'. dnswire_decoder_decode L d q = Inr (dnswire_need_more, d') \<and> G d' \<and> length q < n \<and> fut \<noteq> [])"
proof (cases "length bs \<le> length q")
  case True
  with q(2) obtain us where us: "q = bs @ us" "us @ fut = rst"
    by (auto simp: append_eq_append_conv2)
  from p d obtain d' where "dnswire_decoder_decode L d (bs @ us) = Inr (res, d')" "G' d'"
    "res = dnswire_endofdata \<or> dnswire_decoder_decoded L d' = length bs"
    unfolding decoder_piece_def by blast
  with us show ?thesis by auto
next
  case False
  then have t: "q = take (length q) bs" and fut: "fut \<noteq> []"
    using q(2) by (auto simp: append_eq_append_conv_if)
  have "0 < length q \<and> length q < length bs" using q(1) False by simp
  with p d have "\<exists>d'. dnswire_decoder_decode L d (take (length q) bs) = Inr (dnswire_need_more, d') \<and> G d'"
    unfolding decoder_piece_def by blast
  moreover have "length q < n" using p False by (simp add: decoder_piece_def)
  ultimately show ?thesis using t fut by simp
qed

lemma decode_complete:
  assumes c: "complete_from L n G (q @ fut)" and d: "G d" and q: "q \<noteq> []"
  obtains (more) d' where "dnswire_decoder_decode L d q = Inr (dnswire_need_more, d')" and "G d'"
      and "length q < n" and "fut \<noteq> []"
    | (over) d' where "dnswire_decoder_decode L d q = Inr (dnswire_endofdata, d')"
    | (step) res d' G' where "dnswire_decoder_decode L d q = Inr (res, d')"
      and "res \<in> {dnswire_again, dnswire_have_dnstap}" and "G' d'"
      and "dnswire_decoder_decoded L d' \<le> length q"
      and "complete_from L n G' (drop (dnswire_decoder_decoded L d') q @ fut)"
proof -
  note result = that
  from c show thesis
  proof cases
    case (complete_end G')
    from decode_piece [OF complete_end d q, of fut "[]"] result(1,2) show thesis by auto
  next
    case (complete_more bs res G' rst)
    from decode_piece [OF complete_more(2) d q complete_more(1)] show thesis
    proof (elim disjE exE conjE)
      fix d'
      assume "dnswire_decoder_decode L d q = Inr (res, d')" "G' d'" "length bs \<le> length q"
        "drop (length bs) q @ fut = rst" "dnswire_decoder_decoded L d' = length bs"
      with complete_more(3,4) result(3) show thesis by auto
    qed (use complete_more(3) result(1) in auto)
  qed
qed

section \<open>The frames of a conversation\<close>

definition before_start :: "('r \<Rightarrow> phase \<Rightarrow> bool) \<Rightarrow> dnswire_decoder_state \<Rightarrow> 'r dnswire_decoder \<Rightarrow> bool" where
  "before_start pos st d \<longleftrightarrow> decoder_ok d \<and> dc_state d = st \<and> pos (dc_reader d) Before_start"

definition in_start :: "('r \<Rightarrow> phase \<Rightarrow> bool) \<Rightarrow> byte list \<Rightarrow> 'r dnswire_decoder \<Rightarrow> bool" where
  "in_start pos fld d \<longleftrightarrow> decoder_ok d \<and> dc_state d = dnswire_decoder_checking_start \<and>
     pos (dc_reader d) (In_start DNSTAP_PROTOBUF_CONTENT_TYPE fld)"

definition in_frames :: "('r \<Rightarrow> phase \<Rightarrow> bool) \<Rightarrow> 'r dnswire_decoder \<Rightarrow> bool" where
  "in_frames pos d \<longleftrightarrow> decoder_ok d \<and> dc_state d = dnswire_decoder_reading_frames \<and>
     pos (dc_reader d) In_frames"

text \<open>A piece that \<open>tinyframe\<close> reads is a piece for the decoder, if the decoder agrees on both answers.\<close>

lemma decoder_pieceI:
  assumes p: "piece L pos ph bs tf found" and n: "length bs \<le> n"
    and G: "\<And>d. G d \<Longrightarrow> pos (dc_reader d) ph"
    and yes: "\<And>d q r. G d \<Longrightarrow> q \<noteq> [] \<Longrightarrow> tf_read L (dc_reader d) q = (tf, r) \<Longrightarrow> found r \<Longrightarrow>
      \<exists>d'. dnswire_decoder_decode L d q = Inr (res, d') \<and> G' d' \<and>
        (res = dnswire_endofdata \<or> dnswire_decoder_decoded L d' = length bs)"
    and no: "\<And>d q r. G d \<Longrightarrow> q \<noteq> [] \<Longrightarrow> tf_read L (dc_reader d) q = (tinyframe_need_more, r) \<Longrightarrow>
      pos r ph \<Longrightarrow> \<exists>d'. dnswire_decoder_decode L d q = Inr (dnswire_need_more, d') \<and> G d'"
  shows "decoder_piece L n G bs res G'"
  unfolding decoder_piece_def
proof (intro conjI allI impI)
  show "bs \<noteq> []" using p by (simp add: piece_def)
  show "length bs \<le> n" by (rule n)
next
  fix d rest
  assume d: "G d"
  from p G [OF d] obtain r where r: "tf_read L (dc_reader d) (bs @ rest) = (tf, r)" "found r"
    unfolding piece_def by blast
  have "bs @ rest \<noteq> []" using p by (simp add: piece_def)
  from yes [OF d this r] show "\<exists>d'. dnswire_decoder_decode L d (bs @ rest) = Inr (res, d') \<and> G' d' \<and>
      (res = dnswire_endofdata \<or> dnswire_decoder_decoded L d' = length bs)" .
next
  fix d k
  assume d: "G d" and k: "0 < k \<and> k < length bs"
  from p G [OF d] k obtain r where r: "tf_read L (dc_reader d) (take k bs) = (tinyframe_need_more, r)" "pos r ph"
    unfolding piece_def by blast
  have "take k bs \<noteq> []" using k by auto
  from no [OF d this r] show "\<exists>d'. dnswire_decoder_decode L d (take k bs) = Inr (dnswire_need_more, d') \<and> G d'" .
qed

lemma start_pieces:
  assumes s: "start_readable L pos DNSTAP_PROTOBUF_CONTENT_TYPE bs" and n: "length bs \<le> n"
    and st: "st \<in> {dnswire_decoder_reading_control, dnswire_decoder_reading_start}"
  obtains hdr fld where "bs = hdr @ fld"
    and "decoder_piece L n (before_start pos st) hdr dnswire_again (in_start pos fld)"
    and "decoder_piece L n (in_start pos fld) fld dnswire_again (in_frames pos)"
proof -
  from s obtain hdr fld where h: "bs = hdr @ fld"
    "piece L pos Before_start hdr tinyframe_have_control
       (\<lambda>r. tf_control_type L r = TINYFRAME_CONTROL_START \<and> tf_bytes_read L r = length hdr \<and>
          pos r (In_start DNSTAP_PROTOBUF_CONTENT_TYPE fld))"
    "piece L pos (In_start DNSTAP_PROTOBUF_CONTENT_TYPE fld) fld tinyframe_have_control_field
       (\<lambda>r. tf_field_type L r = TINYFRAME_CONTROL_FIELD_CONTENT_TYPE \<and>
          tf_field_data L r = DNSTAP_PROTOBUF_CONTENT_TYPE \<and>
          tf_bytes_read L r = length fld \<and> pos r In_frames)"
    by (auto simp: start_readable_def)
  have "decoder_piece L n (before_start pos st) hdr dnswire_again (in_start pos fld)"
    by (rule decoder_pieceI [OF h(2)])
      (use n h(1) st in \<open>auto simp: before_start_def in_start_def decode_dispatch decode_reading_control_def
        decode_reading_start_def dnswire_decoder_decoded_def decoder_ok_def\<close>)
  moreover have "decoder_piece L n (in_start pos fld) fld dnswire_again (in_frames pos)"
    by (rule decoder_pieceI [OF h(3)])
      (use n h(1) in \<open>auto simp: in_start_def in_frames_def decode_dispatch decode_checking_start_def
        content_type_matches_def strncmp_eq_refl dnswire_decoder_decoded_def decoder_ok_def\<close>)
  ultimately show thesis using that h(1) by blast
qed

lemma stop_piece:
  assumes "stop_readable L pos bs" and "length bs \<le> n"
  shows "decoder_piece L n (in_frames pos) bs dnswire_endofdata (\<lambda>d. True)"
  by (rule decoder_pieceI [OF assms(1) [unfolded stop_readable_def] assms(2)])
    (auto simp: in_frames_def decode_dispatch decode_reading_frames_def decoder_ok_def)

lemma frame_piece:
  assumes L: "extlib_ok L" and f: "frame_readable L pos (pb_pack L t) bs" and n: "length bs \<le> n"
    and t: "pb_unpack L (pb_pack L t) = Some t"
  shows "decoder_piece L n (in_frames pos) bs dnswire_have_dnstap (in_frames pos)"
proof (rule decoder_pieceI [OF f [unfolded frame_readable_def] n])
  fix d :: "'a dnswire_decoder" and q r
  assume d: "in_frames pos d" and q: "q \<noteq> []" and r: "tf_read L (dc_reader d) q = (tinyframe_have_frame, r)"
    "tf_frame_data L r = pb_pack L t \<and> tf_bytes_read L r = length bs \<and> pos r In_frames"
  from d have ok: "decoder_ok d" and st: "dc_state d = dnswire_decoder_reading_frames"
    by (simp_all add: in_frames_def)
  from decoder_decode_returns [OF L ok q] obtain res d' where
    x: "dnswire_decoder_decode L d q = Inr (res, d')" "decoder_ok d'"
    by (auto simp: decode_result_ok_def)
  from r(2) t have "pb_unpack L (tf_frame_data L r) = Some t" by simp
  from decode_frame_message [OF ok st q r(1) this x(1)] x r(2)
  show "\<exists>d'. dnswire_decoder_decode L d q = Inr (dnswire_have_dnstap, d') \<and> in_frames pos d' \<and>
      (dnswire_have_dnstap = dnswire_endofdata \<or> dnswire_decoder_decoded L d' = length bs)"
    by (auto simp: in_frames_def dnswire_decoder_decoded_def)
qed (auto simp: in_frames_def decode_dispatch decode_reading_frames_def decoder_ok_def)

text \<open>The frames behind START, up to STOP.\<close>

lemma complete_frames:
  assumes L: "extlib_ok L" and s: "tinyframe_stream_ok L pos" and "list_all (written L) fs"
    and "\<forall>(k, d, bs) \<in> set fs. length bs \<le> n \<and>
      (k = dnswire_encoder_frames \<longrightarrow> (\<exists>m \<in> set ds. d = Some m))"
    and u: "\<forall>m \<in> set ds. unpacks L m"
    and "map fst fs = replicate i dnswire_encoder_frames @ [dnswire_encoder_control_stop]"
  shows "complete_from L n (in_frames pos) (frame_bytes fs)"
  using assms(3,4,6)
proof (induction fs arbitrary: i)
  case (Cons f fs)
  obtain k d bs where f: "f = (k, d, bs)" by (cases f)
  from Cons.prems(1,2) have w: "written L (k, d, bs)" and n: "length bs \<le> n" by (simp_all add: f)
  show ?case
  proof (cases i)
    case 0
    with Cons.prems(3) have st: "k = dnswire_encoder_control_stop" "fs = []" by (simp_all add: f)
    from stop_piece [OF written_readable(2) [OF L s w st(1)] n] st(2) show ?thesis
      by (simp add: f complete_end)
  next
    case (Suc j)
    with Cons.prems(3) have st: "k = dnswire_encoder_frames"
      "map fst fs = replicate j dnswire_encoder_frames @ [dnswire_encoder_control_stop]" by (simp_all add: f)
    with Cons.prems(2) f obtain m where m: "d = Some m" "m \<in> set ds" by auto
    with u obtain t where t: "wire_of m = Inr t" "pb_unpack L (pb_pack L t) = Some t"
      by (blast elim: unpacksE)
    have "complete_from L n (in_frames pos) (frame_bytes fs)"
      by (rule Cons.IH [OF _ _ st(2)]) (use Cons.prems(1,2) in auto)
    from complete_more [OF frame_piece [OF L written_readable(3) [OF L s w st(1) m(1) t(1)] n t(2)] _ this]
    show ?thesis by (simp add: f)
  qed
qed simp

text \<open>A whole conversation of frames that fit into \<open>n\<close> bytes.\<close>

lemma complete_conversation:
  assumes L: "extlib_ok L" and s: "tinyframe_stream_ok L pos" and w: "list_all (written L) fs"
    and d: "\<forall>(k, d, bs) \<in> set fs. length bs \<le> n \<and>
      (k = dnswire_encoder_frames \<longrightarrow> (\<exists>m \<in> set ds. d = Some m))"
    and u: "\<forall>m \<in> set ds. unpacks L m"
    and k: "map fst fs = dnswire_encoder_control_start # replicate i dnswire_encoder_frames @
      [dnswire_encoder_control_stop]"
    and st: "st \<in> {dnswire_decoder_reading_control, dnswire_decoder_reading_start}"
  shows "complete_from L n (before_start pos st) (frame_bytes fs)"
proof -
  from k obtain d0 bs gs where f: "fs = (dnswire_encoder_control_start, d0, bs) # gs"
    "map fst gs = replicate i dnswire_encoder_frames @ [dnswire_encoder_control_stop]"
    by (cases fs) auto
  have "start_readable L pos DNSTAP_PROTOBUF_CONTENT_TYPE bs"
    by (rule written_readable(1) [OF L s, of dnswire_encoder_control_start d0 bs]) (use w f(1) in auto)
  from start_pieces [OF this _ st, of n] d f(1) obtain hdr fld where h: "bs = hdr @ fld"
    "decoder_piece L n (before_start pos st) hdr dnswire_again (in_start pos fld)"
    "decoder_piece L n (in_start pos fld) fld dnswire_again (in_frames pos)" by auto
  have "complete_from L n (in_frames pos) (frame_bytes gs)"
    by (rule complete_frames [OF L s _ _ u f(2)]) (use w d f(1) in auto)
  from complete_more [OF h(2) _ complete_more [OF h(3) _ this]] show ?thesis
    by (simp add: f(1) h(1))
qed

end
