(* ===== verification/Good_World.thy ===== *)
theory Good_World
  imports Progress Writer_Inv
begin

text \<open>
  A world that does its work: no allocation fails, \<open>read\<close> hands out at least a byte as long as there are
  any, and \<open>write\<close> takes at least one. And \<open>tinyframe\<close> writing what it has room for.
\<close>

section \<open>Answers\<close>

definition allocates :: "world \<Rightarrow> bool" where
  "allocates w \<longleftrightarrow> False \<notin> set (allocs w)"

definition delivers :: "world \<Rightarrow> bool" where
  "delivers w \<longleftrightarrow> (\<forall>k \<in> set (reads w). 0 < k) \<and> length (inbox w) \<le> length (reads w)"

definition sends :: "world \<Rightarrow> bool" where
  "sends w \<longleftrightarrow> (\<forall>k \<in> set (writes w). 0 < k)"

lemma allocates_alloc: "allocates w \<Longrightarrow> \<exists>w'. sys_alloc w = (True, w') \<and> allocates w' \<and> same_io w w'"
  by (cases "allocs w") (auto simp: allocates_def sys_alloc_def)

lemma delivers_read:
  assumes "delivers w" and "allocates w" and "0 < n" and "inbox w \<noteq> []"
  shows "\<exists>bs w'. sys_read w n = (Some bs, w') \<and> bs \<noteq> [] \<and> length bs \<le> n \<and> inbox w = bs @ inbox w' \<and>
     delivers w' \<and> allocates w'"
proof -
  from assms obtain k ks where k: "reads w = k # ks" "0 < k"
    by (cases "reads w") (auto simp: delivers_def)
  let ?m = "min (nat k) n"
  have m: "0 < ?m" using k(2) assms(3) by simp
  have "sys_read w n = (Some (take ?m (inbox w)), w\<lparr>reads := ks, inbox := drop ?m (inbox w)\<rparr>)"
    using k by (simp add: sys_read_def Let_def)
  moreover have "delivers (w\<lparr>reads := ks, inbox := drop ?m (inbox w)\<rparr>)"
    using assms(1) k m by (auto simp: delivers_def)
  ultimately show ?thesis
    using m assms(2,4) by (auto simp: allocates_def)
qed

lemma same_io_delivers: "same_io w w' \<Longrightarrow> delivers w' = delivers w"
  by (simp add: same_io_def delivers_def)

lemma sends_write:
  assumes "sends w" and "allocates w" and "writes w \<noteq> []" and "bs \<noteq> []"
  shows "\<exists>n w'. sys_write w bs = (Some n, w') \<and> 0 < n \<and> n \<le> length bs \<and> sends w' \<and> allocates w' \<and>
     length (writes w) = Suc (length (writes w'))"
proof -
  from assms obtain k ks where k: "writes w = k # ks" "0 < k"
    by (cases "writes w") (auto simp: sends_def)
  then have "sys_write w bs = (Some (min (nat k) (length bs)), w\<lparr>writes := ks,
      sent := sent w @ take (min (nat k) (length bs)) bs\<rparr>)"
    by (simp add: sys_write_def Let_def)
  with k assms show ?thesis by (auto simp: sends_def allocates_def)
qed

lemma same_io_sends: "same_io w w' \<Longrightarrow> sends w' = sends w"
  by (simp add: same_io_def sends_def)

section \<open>The bytes of a frame\<close>

text \<open>
  \<open>tinyframe\<close>: a frame has one form, \<open>form s c\<close>, that depends on its kind (the state of the encoder that
  writes it) and for a frame of data on the content \<open>c\<close>, which has at most \<open>m\<close> bytes. A call writes that
  form when there is room for it and asks for more room otherwise.
\<close>

definition writes_form :: "byte list \<Rightarrow> nat \<Rightarrow> tinyframe_result \<times> 'w \<times> byte list \<Rightarrow> bool" where
  "writes_form bs len x \<longleftrightarrow> (case x of (res, w, out) \<Rightarrow>
     res = (if length bs \<le> len then tinyframe_ok else tinyframe_need_more) \<and>
     (res = tinyframe_ok \<longrightarrow> out = bs))"

type_synonym form = "dnswire_encoder_state \<Rightarrow> byte list \<Rightarrow> byte list"

definition tinyframe_forms :: "('r, 'w) extlib \<Rightarrow> form \<Rightarrow> nat \<Rightarrow> bool" where
  "tinyframe_forms L form m \<longleftrightarrow> (\<forall>w len.
     writes_form (form dnswire_encoder_control_ready []) len
       (tf_write_control L w len TINYFRAME_CONTROL_READY [content_type_field]) \<and>
     writes_form (form dnswire_encoder_control_accept []) len
       (tf_write_control L w len TINYFRAME_CONTROL_ACCEPT [content_type_field]) \<and>
     writes_form (form dnswire_encoder_control_finish []) len
       (tf_write_control L w len TINYFRAME_CONTROL_FINISH []) \<and>
     writes_form (form dnswire_encoder_control_start []) len
       (tf_write_control_start L w len DNSTAP_PROTOBUF_CONTENT_TYPE) \<and>
     writes_form (form dnswire_encoder_control_stop []) len (tf_write_control_stop L w len) \<and>
     (\<forall>fr. length fr \<le> m \<longrightarrow> length (form dnswire_encoder_frames fr) = tf_frame_size L (length fr) \<and>
        writes_form (form dnswire_encoder_frames fr) len (tf_write_frame L w len fr)))"

lemma frame_form:
  assumes "tinyframe_forms L form m" and "length fr \<le> m"
  shows "length (form dnswire_encoder_frames fr) = tf_frame_size L (length fr)"
    and "writes_form (form dnswire_encoder_frames fr) len (tf_write_frame L w len fr)"
  using assms by (simp_all add: tinyframe_forms_def)

text \<open>The frame an encoder with the message \<open>dd\<close> writes next.\<close>

definition next_frame :: "('r, 'w) extlib \<Rightarrow> form \<Rightarrow> dnstap option \<Rightarrow> dnswire_encoder_state \<Rightarrow> byte list" where
  "next_frame L form dd s = (if s = dnswire_encoder_frames
     then (case dd of None \<Rightarrow> [] | Some d \<Rightarrow> (case wire_of d of Inl f \<Rightarrow> [] | Inr t \<Rightarrow> form s (pb_pack L t)))
     else form s [])"

text \<open>That frame fits into \<open>n\<close> bytes; a message whose frame, as every control frame, does.\<close>

definition frame_fits :: "('r, 'w) extlib \<Rightarrow> form \<Rightarrow> nat \<Rightarrow> nat \<Rightarrow> dnstap option \<Rightarrow> dnswire_encoder_state \<Rightarrow> bool" where
  "frame_fits L form m n dd s \<longleftrightarrow> s \<noteq> dnswire_encoder_done \<and>
     next_frame L form dd s \<noteq> [] \<and> length (next_frame L form dd s) \<le> n \<and>
     (s = dnswire_encoder_frames \<longrightarrow> (\<exists>d t. dd = Some d \<and> wire_of d = Inr t \<and> pb_packed_size L t \<le> m))"

definition fits :: "('r, 'w) extlib \<Rightarrow> form \<Rightarrow> nat \<Rightarrow> nat \<Rightarrow> dnstap \<Rightarrow> bool" where
  "fits L form m n d \<longleftrightarrow> (\<forall>s. s \<noteq> dnswire_encoder_done \<longrightarrow> frame_fits L form m n (Some d) s)"

lemma fits_frame: "fits L form m n d \<Longrightarrow> s \<noteq> dnswire_encoder_done \<Longrightarrow> frame_fits L form m n (Some d) s"
  by (simp add: fits_def)

lemma fits_control: "fits L form m n d \<Longrightarrow> s \<notin> {dnswire_encoder_frames, dnswire_encoder_done} \<Longrightarrow>
    frame_fits L form m n dd s \<and> next_frame L form dd s = form s []"
  using fits_frame [of L form m n d s] by (simp add: frame_fits_def next_frame_def)

lemma fits_encodable: "fits L form m n d \<Longrightarrow> encodable d"
  using fits_frame [of L form m n d dnswire_encoder_frames] by (auto simp: frame_fits_def encodable_def)

lemma encoder_wrote_form:
  assumes "writes_form bs len x"
  shows "\<exists>w out. encoder_wrote e nx rs x =
     (if length bs \<le> len then (rs, e\<lparr>e_writer := w, e_state := nx\<rparr>, bs) else (dnswire_need_more, e\<lparr>e_writer := w\<rparr>, out))"
  using assms by (cases x) (auto simp: writes_form_def encoder_wrote_def Let_def)

text \<open>What an encoder without or with a message does with a control frame.\<close>

lemma encode_control:
  assumes L: "tinyframe_forms L form m" and s: "e_state e \<notin> {dnswire_encoder_frames, dnswire_encoder_done}"
    and len: "0 < len"
  shows "\<exists>res e' out. dnswire_encoder_encode L e len = Inr (res, e', out) \<and>
     (if length (form (e_state e) []) \<le> len
      then encoder_next (e_state e) = Some (e_state e', res) \<and> out = form (e_state e) []
      else res = dnswire_need_more \<and> e_state e' = e_state e \<and> e_dnstap e' = e_dnstap e)"
proof -
  have c: ?thesis if x: "writes_form (form (e_state e) []) len x" "encoder_next (e_state e) = Some (nx, rs)"
    "dnswire_encoder_encode L e len = Inr (encoder_wrote e nx rs x)" for nx rs x
  proof -
    from encoder_wrote_form [OF x(1), of e nx rs] obtain w out where
      "encoder_wrote e nx rs x = (if length (form (e_state e) []) \<le> len
        then (rs, e\<lparr>e_writer := w, e_state := nx\<rparr>, form (e_state e) [])
        else (dnswire_need_more, e\<lparr>e_writer := w\<rparr>, out))" by blast
    with x(2,3) show ?thesis
      by (cases "length (form (e_state e) []) \<le> len") simp_all
  qed
  have sized: "writes_form (form dnswire_encoder_control_ready []) len
       (tf_write_control L (e_writer e) len TINYFRAME_CONTROL_READY [content_type_field])"
     "writes_form (form dnswire_encoder_control_accept []) len
       (tf_write_control L (e_writer e) len TINYFRAME_CONTROL_ACCEPT [content_type_field])"
     "writes_form (form dnswire_encoder_control_finish []) len
       (tf_write_control L (e_writer e) len TINYFRAME_CONTROL_FINISH [])"
     "writes_form (form dnswire_encoder_control_start []) len
       (tf_write_control_start L (e_writer e) len DNSTAP_PROTOBUF_CONTENT_TYPE)"
     "writes_form (form dnswire_encoder_control_stop []) len (tf_write_control_stop L (e_writer e) len)"
    using L by (simp_all add: tinyframe_forms_def)
  from s have "e_state e \<noteq> dnswire_encoder_frames" "e_state e \<noteq> dnswire_encoder_done" by simp_all
  then show ?thesis
    using len by (cases "e_state e") (rule c; use sized in \<open>simp add: dnswire_encoder_encode_def\<close>)+
qed

lemma encode_fits:
  assumes L: "extlib_ok L" "tinyframe_forms L form m" and f: "frame_fits L form m n (e_dnstap e) (e_state e)"
    and len: "0 < len"
  shows "\<exists>res e' out. dnswire_encoder_encode L e len = Inr (res, e', out) \<and>
     (if length (next_frame L form (e_dnstap e) (e_state e)) \<le> len
      then encoder_next (e_state e) = Some (e_state e', res) \<and> out = next_frame L form (e_dnstap e) (e_state e)
      else res = dnswire_need_more \<and> e_state e' = e_state e \<and> e_dnstap e' = e_dnstap e)"
proof (cases "e_state e = dnswire_encoder_frames")
  case True
  with f obtain d t where t: "e_dnstap e = Some d" "wire_of d = Inr t" "pb_packed_size L t \<le> m"
    by (auto simp: frame_fits_def)
  let ?f = "form dnswire_encoder_frames (pb_pack L t)"
  have f: "length ?f = tf_frame_size L (pb_packed_size L t)"
    "writes_form ?f len (tf_write_frame L (e_writer e) len (pb_pack L t))"
    using frame_form [OF L(2), of "pb_pack L t"] protobuf_length [OF L(1), of t] t(3) by simp_all
  from encoder_wrote_form [OF f(2), of e dnswire_encoder_frames dnswire_ok] obtain w out where
    "encoder_wrote e dnswire_encoder_frames dnswire_ok (tf_write_frame L (e_writer e) len (pb_pack L t)) =
      (if length ?f \<le> len then (dnswire_ok, e\<lparr>e_writer := w, e_state := dnswire_encoder_frames\<rparr>, ?f)
       else (dnswire_need_more, e\<lparr>e_writer := w\<rparr>, out))" by blast
  with True len t(1,2) f(1) show ?thesis
    by (simp add: dnswire_encoder_encode_def encode_frame_eq [OF L(1) t(1,2)] next_frame_def)
next
  case False
  then have n: "next_frame L form (e_dnstap e) (e_state e) = form (e_state e) []" by (simp add: next_frame_def)
  have "e_state e \<notin> {dnswire_encoder_frames, dnswire_encoder_done}" using False f by (simp add: frame_fits_def)
  from encode_control [OF L(2) this len] show ?thesis by (simp only: n)
qed

section \<open>Encoding and sending\<close>

text \<open>The loop \<open>_encoding\<close> expands the buffer until the frame fits.\<close>

lemma encoding_loop_fits:
  assumes L: "extlib_ok L" "tinyframe_forms L form m"
    and "out_ok b" and "o_left b = 0" and "encoder_ok e" and "frame_fits L form m n (e_dnstap e) (e_state e)"
    and "n \<le> o_max b" and "allocates w" and "o_max b - o_size b < fuel"
  shows "\<exists>res e' b' w'. encoding_loop fuel L w e b = Inr (res, e', b', w') \<and>
     encoder_next (e_state e) = Some (e_state e', res) \<and>
     o_left b' = length (next_frame L form (e_dnstap e) (e_state e)) \<and> o_max b' = o_max b \<and> allocates w'"
  using assms(3-)
proof (induction fuel arbitrary: b e w)
  case (Suc fuel)
  note ok = Suc.prems(1) and left = Suc.prems(2) and e = Suc.prems(3,4)
  let ?f = "next_frame L form (e_dnstap e) (e_state e)"
  have at: "o_at b = 0" "0 < o_size b" and lim: "0 < o_inc b" "o_max b + o_inc b < size_limit" "o_size b \<le> o_max b"
    using ok left by (auto elim: out_okD)
  then have room: "o_at b < o_size b" by simp
  from encode_at_props [OF L(1) e(1) ok room] obtain res e' out blk where
    enc: "dnswire_encoder_encode L e (o_size b) = Inr (res, e', out)" and e': "encoder_ok e'"
    and x: "encode_at L e b = Inr (res, e', b\<lparr>o_buf := Some blk\<rparr>)" and len: "length out \<le> o_size b"
    and st: "mem_store (o_buf b) (o_at b) out = Inr (Some blk)"
    unfolding at(1) diff_zero by blast
  from encode_fits [OF L e(2) at(2)] enc have s: "if length ?f \<le> o_size b
      then encoder_next (e_state e) = Some (e_state e', res) \<and> out = ?f
      else res = dnswire_need_more \<and> e_state e' = e_state e \<and> e_dnstap e' = e_dnstap e" by auto
  show ?case
  proof (cases "length ?f \<le> o_size b")
    case True
    with s have nx: "encoder_next (e_state e) = Some (e_state e', res)" "out = ?f" by simp_all
    then have "dnswire_encoder_encoded L e' = length out"
      using encode_contract [OF L(1) e(1) enc] encoder_next_result [OF nx(1)] by auto
    moreover have "length out < size_limit" using len lim by simp
    ultimately show ?thesis
      using x nx left at(1) encoder_next_result [OF nx(1)] Suc.prems(6) by (simp add: sz_add_exact)
  next
    case False
    with s have more: "res = dnswire_need_more" "e_state e' = e_state e" "e_dnstap e' = e_dnstap e" by simp_all
    have "length ?f \<le> n" using e(2) by (simp add: frame_fits_def)
    with False Suc.prems(5) have less: "o_size b < o_max b" by simp
    define k where "k = (if o_size b + o_inc b > o_max b then o_max b else o_size b + o_inc b)"
    have k: "o_size b < k" "k \<le> o_max b" using lim less by (auto simp: k_def)
    let ?b = "b\<lparr>o_buf := map_option (resize_block k) (Some blk), o_size := k\<rparr>"
    have "out_ok (b\<lparr>o_buf := Some blk\<rparr>)"
      using store_behind [OF ok, of out] len at(1) st by auto
    from out_resize_props(1) [OF this, of k] k have okb: "out_ok ?b" by simp
    from allocates_alloc [OF Suc.prems(6)] obtain w1 where w1: "sys_alloc w = (True, w1)" "allocates w1" by blast
    have "encoding_loop (Suc fuel) L w e b = encoding_loop fuel L w1 e' ?b"
      using x more(1) less lim w1(1) by (simp add: Let_def sz_add_exact k_def)
    moreover have "o_max b - k < fuel" using k less Suc.prems(7) by linarith
    moreover from this Suc.IH [OF okb _ e' _ _ w1(2)] obtain res2 e2 b2 w2 where
      "encoding_loop fuel L w1 e' ?b = Inr (res2, e2, b2, w2)"
      "encoder_next (e_state e) = Some (e_state e2, res2)" "o_left b2 = length ?f"
      "o_max b2 = o_max b" "allocates w2"
      using left e(2) more(2,3) Suc.prems(5) by auto
    ultimately show ?thesis by simp
  qed
qed simp

lemma encoding_fits:
  assumes L: "extlib_ok L" "tinyframe_forms L form m"
    and ok: "out_ok b" "o_left b = 0" and e: "encoder_ok e" "frame_fits L form m n (e_dnstap e) (e_state e)"
    and n: "n \<le> o_max b" and w: "allocates w"
  obtains res e' b' w' where "encoding L w e b = Inr (res, e', b', w')"
    and "encoder_next (e_state e) = Some (e_state e', res)" and "res \<noteq> dnswire_error"
    and "e_dnstap e' = e_dnstap e" and "encoder_ok e'" and "out_ok b'" and "o_max b' = o_max b"
    and "out_pending b' = next_frame L form (e_dnstap e) (e_state e)"
    and "0 < o_left b'" and "o_left b' \<le> n" and "allocates w'" and "same_io w w'"
proof -
  have "o_max b - o_size b < Suc (o_max b - o_size b)" by simp
  from encoding_loop_fits [OF L ok e n w this] obtain res e' b' w' where
    r: "encoding L w e b = Inr (res, e', b', w')" "encoder_next (e_state e) = Some (e_state e', res)"
      "o_left b' = length (next_frame L form (e_dnstap e) (e_state e))" "o_max b' = o_max b" "allocates w'"
    by (auto simp: encoding_def)
  have ne: "res \<noteq> dnswire_error" "res \<noteq> dnswire_need_more" using encoder_next_result [OF r(2)] by auto
  note clean = nothing_left [OF ok]
  from encoding_props [OF L(1) e(1) ok(1) conjunct2 [OF clean], of w] r(1) have
    "encoding_post L e b (res, e', b', w')" by simp
  with ne(1) obtain e1 len out where p: "out_ok b'" "encoder_ok e'" "e_dnstap e' = e_dnstap e"
    "e_state e1 = e_state e" "e_dnstap e1 = e_dnstap e" "dnswire_encoder_encode L e1 len = Inr (res, e', out)"
    "out_pending b' = out_pending b @ out" by (auto simp: encoding_post_def)
  have len: "0 < len" using p(6) by (auto simp: dnswire_encoder_encode_def assertF_def split: if_splits)
  from encode_fits [OF L _ len, of n e1] e(2) p(4,5,6) ne(2) have
    "out = next_frame L form (e_dnstap e) (e_state e)" by (auto split: if_splits)
  with p(7) clean have out: "out_pending b' = next_frame L form (e_dnstap e) (e_state e)" by simp
  have "0 < o_left b'" "o_left b' \<le> n" using e(2) r(3) by (simp_all add: frame_fits_def)
  from that [OF r(1,2) ne(1) p(3,2,1) r(4) out this r(5) encoding_io [OF r(1)]] show thesis .
qed

text \<open>A \<open>write\<close> of what is pending.\<close>

lemma drain_on:
  assumes ok: "out_ok b" "0 < o_left b" and w: "sends w" "allocates w" "writes w \<noteq> []"
  obtains k w' where "out_peek b (o_left b) = Inr (out_pending b)"
    and "sys_write w (out_pending b) = (Some k, w')" and "0 < k" and "out_ok (out_drain k b)"
    and "k \<le> o_left b" and "o_left (out_drain k b) = o_left b - k" and "o_max (out_drain k b) = o_max b"
    and "sent w' @ out_pending (out_drain k b) = sent w @ out_pending b"
    and "inbox w' = inbox w" and "reads w' = reads w" and "sends w'" and "allocates w'"
    and "length (writes w) = Suc (length (writes w'))"
proof -
  note len = out_pending_length [OF ok(1)]
  have pk: "out_peek b (o_left b) = Inr (out_pending b)"
    using outq.peek_pending [OF ok(1), of "o_left b"] len by simp
  have "out_pending b \<noteq> []" using ok(2) len by auto
  from sends_write [OF w this] obtain k w' where
    k: "sys_write w (out_pending b) = (Some k, w')" "0 < k" "k \<le> length (out_pending b)"
      "sends w'" "allocates w'" "length (writes w) = Suc (length (writes w'))" by blast
  have b: "out_ok (out_drain k b)" "out_pending (out_drain k b) = drop k (out_pending b)"
    using outq.drain_ok [OF ok(1) k(3)] outq.drain_pending [OF ok(1) k(3)] by simp_all
  have left: "o_left (out_drain k b) = o_left b - k" using out_pending_length [OF b(1)] b(2) len by simp
  have "sent w' @ drop k (out_pending b) = sent w @ out_pending b" "inbox w' = inbox w" "reads w' = reads w"
    using k(1) by (auto simp: sys_write_def Let_def split: list.splits if_splits)
  moreover have "o_max (out_drain k b) = o_max b" by (simp add: out_drain_def Let_def)
  ultimately show thesis using that [OF pk k(1,2) b(1) _ left] k(3-) len b(2) by simp
qed

end
