(* ===== verification/Answer_Stream.thy ===== *)
theory Answer_Stream
  imports Complete_Stream Good_World
begin

text \<open>
  The frames of the handshake, READY, ACCEPT and FINISH, as pieces for the decoder, and a kernel that
  moves a whole frame at once.
\<close>

section \<open>The frames of the handshake\<close>

text \<open>
  Reading an ACCEPT frame with one field is like reading READY with one field; FINISH has only a header.
\<close>

definition accept_readable :: "('r, 'w) extlib \<Rightarrow> ('r \<Rightarrow> phase \<Rightarrow> bool) \<Rightarrow> byte list \<Rightarrow> byte list \<Rightarrow> bool" where
  "accept_readable L pos ct bs \<longleftrightarrow> (\<exists>hdr fld. bs = hdr @ fld \<and>
     piece L pos Before_start hdr tinyframe_have_control
       (\<lambda>r. tf_control_type L r = TINYFRAME_CONTROL_ACCEPT \<and> tf_bytes_read L r = length hdr \<and>
          pos r (In_ready ct fld)) \<and>
     piece L pos (In_ready ct fld) fld tinyframe_have_control_field
       (\<lambda>r. tf_field_type L r = TINYFRAME_CONTROL_FIELD_CONTENT_TYPE \<and> tf_field_data L r = ct \<and>
          tf_control_length_left L r = 0 \<and> tf_bytes_read L r = length fld \<and> pos r Before_start))"

definition tinyframe_answer_ok :: "('r, 'w) extlib \<Rightarrow> ('r \<Rightarrow> phase \<Rightarrow> bool) \<Rightarrow> bool" where
  "tinyframe_answer_ok L pos \<longleftrightarrow>
     (\<forall>w len ct w' bs. tf_write_control L w len TINYFRAME_CONTROL_ACCEPT
        [(TINYFRAME_CONTROL_FIELD_CONTENT_TYPE, ct)] = (tinyframe_ok, w', bs) \<longrightarrow> accept_readable L pos ct bs) \<and>
     (\<forall>w len w' bs. tf_write_control L w len TINYFRAME_CONTROL_FINISH [] = (tinyframe_ok, w', bs) \<longrightarrow>
        piece L pos Before_start bs tinyframe_finished (\<lambda>r. True))"

text \<open>What has the form of a frame can be read as one.\<close>

lemma writes_form_ok: "writes_form bs (length bs) x \<Longrightarrow> \<exists>w. x = (tinyframe_ok, w, bs)"
  by (cases x) (auto simp: writes_form_def)

lemma form_readable:
  assumes L: "tinyframe_forms L form m"
  shows "tinyframe_ready_ok L pos \<Longrightarrow>
      ready_readable L pos DNSTAP_PROTOBUF_CONTENT_TYPE (form dnswire_encoder_control_ready [])"
    and "tinyframe_answer_ok L pos \<Longrightarrow>
      accept_readable L pos DNSTAP_PROTOBUF_CONTENT_TYPE (form dnswire_encoder_control_accept [])"
    and "tinyframe_answer_ok L pos \<Longrightarrow>
      piece L pos Before_start (form dnswire_encoder_control_finish []) tinyframe_finished (\<lambda>r. True)"
proof -
  fix w :: 'b
  have f: "writes_form (form dnswire_encoder_control_ready []) len
      (tf_write_control L w len TINYFRAME_CONTROL_READY [content_type_field])"
    "writes_form (form dnswire_encoder_control_accept []) len
      (tf_write_control L w len TINYFRAME_CONTROL_ACCEPT [content_type_field])"
    "writes_form (form dnswire_encoder_control_finish []) len
      (tf_write_control L w len TINYFRAME_CONTROL_FINISH [])" for len
    using L by (simp_all add: tinyframe_forms_def)
  from writes_form_ok [OF f(1)] show "tinyframe_ready_ok L pos \<Longrightarrow>
      ready_readable L pos DNSTAP_PROTOBUF_CONTENT_TYPE (form dnswire_encoder_control_ready [])"
    unfolding tinyframe_ready_ok_def content_type_field_def by blast
  from writes_form_ok [OF f(2)] show "tinyframe_answer_ok L pos \<Longrightarrow>
      accept_readable L pos DNSTAP_PROTOBUF_CONTENT_TYPE (form dnswire_encoder_control_accept [])"
    unfolding tinyframe_answer_ok_def content_type_field_def by blast
  from writes_form_ok [OF f(3)] show "tinyframe_answer_ok L pos \<Longrightarrow>
      piece L pos Before_start (form dnswire_encoder_control_finish []) tinyframe_finished (\<lambda>r. True)"
    unfolding tinyframe_answer_ok_def by blast
qed

section \<open>Pieces for the decoder\<close>

text \<open>Behind the header of READY or ACCEPT; behind ACCEPT.\<close>

definition in_field :: "('r \<Rightarrow> phase \<Rightarrow> bool) \<Rightarrow> dnswire_decoder_state \<Rightarrow> byte list \<Rightarrow> 'r dnswire_decoder \<Rightarrow> bool" where
  "in_field pos st fld d \<longleftrightarrow> decoder_ok d \<and> dc_state d = st \<and>
     pos (dc_reader d) (In_ready DNSTAP_PROTOBUF_CONTENT_TYPE fld)"

text \<open>The header of a control frame with one field, and the field.\<close>

lemma header_piece:
  assumes h: "piece L pos Before_start hdr tinyframe_have_control (\<lambda>r. tf_control_type L r = c \<and>
      tf_bytes_read L r = length hdr \<and> pos r (In_ready DNSTAP_PROTOBUF_CONTENT_TYPE fld))"
    and n: "length hdr \<le> n"
    and c: "c = TINYFRAME_CONTROL_READY \<and> st = dnswire_decoder_checking_ready \<or>
      c = TINYFRAME_CONTROL_ACCEPT \<and> st = dnswire_decoder_checking_accept"
  shows "decoder_piece L n (before_start pos dnswire_decoder_reading_control) hdr dnswire_again (in_field pos st fld)"
  by (rule decoder_pieceI [OF h n])
    (use c in \<open>auto simp: before_start_def in_field_def decode_dispatch decode_reading_control_def
      dnswire_decoder_decoded_def decoder_ok_def\<close>)

lemma field_piece:
  assumes f: "piece L pos (In_ready DNSTAP_PROTOBUF_CONTENT_TYPE fld) fld tinyframe_have_control_field
       (\<lambda>r. tf_field_type L r = TINYFRAME_CONTROL_FIELD_CONTENT_TYPE \<and>
          tf_field_data L r = DNSTAP_PROTOBUF_CONTENT_TYPE \<and> tf_control_length_left L r = 0 \<and>
          tf_bytes_read L r = length fld \<and> pos r Before_start)"
    and n: "length fld \<le> n"
  shows "decoder_piece L n (in_field pos dnswire_decoder_checking_ready fld) fld dnswire_bidirectional
      (\<lambda>d. before_start pos dnswire_decoder_reading_start d \<and> dc_ready_support_dnstap_protobuf d \<and>
         dnswire_decoder_decoded L d = length fld)"
    and "decoder_piece L n (in_field pos dnswire_decoder_checking_accept fld) fld dnswire_bidirectional
      (\<lambda>d. before_start pos dnswire_decoder_checking_finish d \<and> dc_accept_support_dnstap_protobuf d \<and>
         dnswire_decoder_decoded L d = length fld)"
  by (rule decoder_pieceI [OF f n]; auto simp: in_field_def before_start_def decode_dispatch
      decode_checking_ready_def decode_checking_accept_def content_type_matches_def strncmp_eq_refl
      dnswire_decoder_decoded_def decoder_ok_def Let_def)+

lemma ready_pieces:
  assumes s: "ready_readable L pos DNSTAP_PROTOBUF_CONTENT_TYPE bs" and n: "length bs \<le> n"
  obtains hdr fld where "bs = hdr @ fld"
    and "decoder_piece L n (before_start pos dnswire_decoder_reading_control) hdr dnswire_again
      (in_field pos dnswire_decoder_checking_ready fld)"
    and "decoder_piece L n (in_field pos dnswire_decoder_checking_ready fld) fld dnswire_bidirectional
      (\<lambda>d. before_start pos dnswire_decoder_reading_start d \<and> dc_ready_support_dnstap_protobuf d \<and>
         dnswire_decoder_decoded L d = length fld)"
proof -
  from s obtain hdr fld where "bs = hdr @ fld"
    "decoder_piece L n (before_start pos dnswire_decoder_reading_control) hdr dnswire_again
      (in_field pos dnswire_decoder_checking_ready fld)"
    "decoder_piece L n (in_field pos dnswire_decoder_checking_ready fld) fld dnswire_bidirectional
      (\<lambda>d. before_start pos dnswire_decoder_reading_start d \<and> dc_ready_support_dnstap_protobuf d \<and>
         dnswire_decoder_decoded L d = length fld)"
    unfolding ready_readable_def using header_piece field_piece(1) n by fastforce
  then show thesis by (rule that)
qed

lemma accept_pieces:
  assumes s: "accept_readable L pos DNSTAP_PROTOBUF_CONTENT_TYPE bs" and n: "length bs \<le> n"
  obtains hdr fld where "bs = hdr @ fld"
    and "decoder_piece L n (before_start pos dnswire_decoder_reading_control) hdr dnswire_again
      (in_field pos dnswire_decoder_checking_accept fld)"
    and "decoder_piece L n (in_field pos dnswire_decoder_checking_accept fld) fld dnswire_bidirectional
      (\<lambda>d. before_start pos dnswire_decoder_checking_finish d \<and> dc_accept_support_dnstap_protobuf d \<and>
         dnswire_decoder_decoded L d = length fld)"
proof -
  from s obtain hdr fld where "bs = hdr @ fld"
    "decoder_piece L n (before_start pos dnswire_decoder_reading_control) hdr dnswire_again
      (in_field pos dnswire_decoder_checking_accept fld)"
    "decoder_piece L n (in_field pos dnswire_decoder_checking_accept fld) fld dnswire_bidirectional
      (\<lambda>d. before_start pos dnswire_decoder_checking_finish d \<and> dc_accept_support_dnstap_protobuf d \<and>
         dnswire_decoder_decoded L d = length fld)"
    unfolding accept_readable_def using header_piece field_piece(2) n by fastforce
  then show thesis by (rule that)
qed

lemma finish_piece:
  assumes "piece L pos Before_start bs tinyframe_finished (\<lambda>r. True)" and "length bs \<le> n"
  shows "decoder_piece L n (before_start pos dnswire_decoder_checking_finish) bs dnswire_endofdata (\<lambda>d. True)"
  by (rule decoder_pieceI [OF assms])
    (auto simp: before_start_def decode_dispatch decode_checking_finish_def decoder_ok_def)

lemma piece_whole:
  assumes "decoder_piece L n G bs res G'" and "G d" and "res \<noteq> dnswire_endofdata"
  shows "\<exists>d'. dnswire_decoder_decode L d (bs @ rst) = Inr (res, d') \<and> G' d' \<and>
     dnswire_decoder_decoded L d' = length bs \<and> bs \<noteq> []"
  using assms unfolding decoder_piece_def by blast

lemma piece_last:
  assumes "decoder_piece L n G bs dnswire_endofdata G'" and "G d"
  shows "\<exists>d'. dnswire_decoder_decode L d bs = Inr (dnswire_endofdata, d')"
proof -
  from assms have "\<exists>d'. dnswire_decoder_decode L d (bs @ []) = Inr (dnswire_endofdata, d')"
    unfolding decoder_piece_def by blast
  then show ?thesis by simp
qed

section \<open>Whole frames\<close>

lemma sys_read_frame:
  assumes "reads w = int (length bs) # ks" and "inbox w = bs @ rst" and "length bs \<le> n"
  shows "sys_read w n = (Some bs, w\<lparr>reads := ks, inbox := rst\<rparr>)"
  using assms by (simp add: sys_read_def Let_def)

lemma sys_write_frame:
  assumes "writes w = k # ks" and "length bs \<le> nat k" and "bs \<noteq> []"
  shows "sys_write w bs = (Some (length bs), w\<lparr>writes := ks, sent := sent w @ bs\<rparr>)"
  using assms by (cases "k < 0") (auto simp: sys_write_def Let_def)

lemma take_in_empty:
  assumes ok: "in_ok b" and e: "in_live b = []" and n: "length bs \<le> i_size b"
  obtains b' where "in_append b bs = Inr b'" and "in_ok b'" and "in_live b' = bs" and "i_size b' = i_size b"
    and "i_max b' = i_max b" and "length bs \<le> in_room b"
proof -
  have "in_room b = i_size b"
    using in_room_exact [OF ok] in_live_length [OF ok] e ok by (auto elim: in_okD)
  with n have r: "length bs \<le> in_room b" by simp
  from inq.append_live [OF ok r] obtain b' where
    b: "in_append b bs = Inr b'" "in_ok b'" "in_live b' = in_live b @ bs" by blast
  then have "i_size b' = i_size b" "i_max b' = i_max b" by (auto simp: in_append_def bindF_eq_Inr split: if_splits)
  with that b e r show thesis by simp
qed

lemma consume_empty:
  assumes ok: "in_ok b" and l: "in_live b = bs @ rst"
  shows "in_ok (in_consume (length bs) b)" and "in_live (in_consume (length bs) b) = rst"
    and "i_size (in_consume (length bs) b) = i_size b" and "i_max (in_consume (length bs) b) = i_max b"
    and "i_left (in_consume (length bs) b) = 0 \<longleftrightarrow> rst = []"
proof -
  show k: "in_ok (in_consume (length bs) b)" "in_live (in_consume (length bs) b) = rst"
    using in_consume_props [OF ok, of "length bs"] l by simp_all
  then show "i_left (in_consume (length bs) b) = 0 \<longleftrightarrow> rst = []" using in_left_live by blast
qed (simp_all add: in_consume_def Let_def)

end
