(* ===== verification/Read_Steps.thy ===== *)
theory Read_Steps
  imports Reader_Traces Progress
begin

text \<open>
  One call of \<open>dnswire_reader_read\<close> in detail: what it uses up, so that loops around it come to an
  end, and what holds of the handle even when it fails.
\<close>

definition awaiting_decode :: "dnswire_reader_state \<Rightarrow> nat" where
  "awaiting_decode s =
     (if s \<in> {dnswire_reader_decoding_control, dnswire_reader_decoding} then 1 else 0)"

text \<open>Answers of the kernel, and bytes that can still come in or wait for the decoder.\<close>

definition read_cost :: "world \<Rightarrow> ('r, 'w) dnswire_reader \<Rightarrow> nat" where
  "read_cost w r = 2 * (length (reads w) + length (writes w) + length (inbox w) +
     length (in_live (r_in r))) + awaiting_decode (r_state r)"

definition goes_on :: "dnswire_result \<Rightarrow> bool" where
  "goes_on res \<longleftrightarrow> res \<in> {dnswire_again, dnswire_need_more, dnswire_have_dnstap}"

text \<open>
  A call that is still owed before new bytes are taken in: what is buffered has to be decoded, or room
  has to be made.
\<close>

definition owed :: "('r, 'w) dnswire_reader \<Rightarrow> nat" where
  "owed r = (if r_state r \<in> {dnswire_reader_decoding_control, dnswire_reader_decoding} \<or>
      r_state r \<in> {dnswire_reader_reading_control, dnswire_reader_reading} \<and> in_room (r_in r) = 0
    then 1 else 0)"

lemma owed_awaiting: "awaiting_decode (r_state r) \<le> owed r" "owed r \<le> 1"
  by (simp_all add: awaiting_decode_def owed_def)

text \<open>The end of a bidirectional stream is answered only when the decoder has come to it.\<close>

definition stream_over :: "('r, 'w) dnswire_reader \<Rightarrow> bool" where
  "stream_over r \<longleftrightarrow> (r_state r \<in> {dnswire_reader_encoding_finish, dnswire_reader_writing_finish} \<longrightarrow>
     dc_state (r_decoder r) = dnswire_decoder_done)"

text \<open>Decoding what is buffered.\<close>

definition decoding_uses :: "world \<Rightarrow> ('r, 'w) dnswire_reader \<Rightarrow>
    dnswire_result \<times> ('r, 'w) dnswire_reader \<times> world \<Rightarrow> bool" where
  "decoding_uses w r x = (case x of (res, r', w') \<Rightarrow> same_io w w' \<and> decoder_ok (r_decoder r') \<and>
     (goes_on res \<longrightarrow> 2 * length (in_live (r_in r')) + owed r' < 2 * length (in_live (r_in r)) + 1) \<and>
     (res = dnswire_endofdata \<longrightarrow> dc_state (r_decoder r') = dnswire_decoder_done) \<and>
     (awaiting_decode (r_state r) = 1 \<longrightarrow> stream_over r'))"

lemma decoding_use:
  assumes L: "extlib_ok L" "tinyframe_consumes L" and b: "in_ok (r_in r)" "in_live (r_in r) \<noteq> []"
    and d: "decoder_ok (r_decoder r)"
  shows "push_decoding_control L w len r = Inr x \<Longrightarrow> decoding_uses w r x"
    and "push_decoding L w len r = Inr x \<Longrightarrow> decoding_uses w r x"
proof -
  from decode_buffered [OF L(1) b d] obtain dres d' where
    load: "in_load (r_in r) = Inr (in_live (r_in r))"
    and dec: "dnswire_decoder_decode L (r_decoder r) (in_live (r_in r)) = Inr (dres, d')"
    and d': "decoder_ok d'" and step: "decoder_step_ok (dc_state (r_decoder r)) dres (dc_state d')"
    and con: "dres \<in> {dnswire_again, dnswire_bidirectional, dnswire_have_dnstap} \<Longrightarrow>
      in_live (in_consume (dnswire_decoder_decoded L d') (r_in r)) =
        drop (dnswire_decoder_decoded L d') (in_live (r_in r))"
    by metis
  have less: "length (in_live (in_consume (dnswire_decoder_decoded L d') (r_in r))) < length (in_live (r_in r))"
    if "dres \<in> {dnswire_again, dnswire_bidirectional, dnswire_have_dnstap}"
    using decode_consumes [OF L(2) dec that] con [OF that] b(2) by simp
  have fin: "dres = dnswire_endofdata \<Longrightarrow> dc_state d' = dnswire_decoder_done"
    using step by (cases "dc_state (r_decoder r)") (auto simp: decoder_step_ok_def)
  from inq.make_room [OF b(1), of w] obtain rm b' w' where
    room: "in_need_more w (r_in r) = Inr (rm, b', w')" "in_live b' = in_live (r_in r)" "rm \<longrightarrow> 0 < in_room b'"
    by blast
  note eval = load dec d' fin decoding_uses_def Let_def goes_on_def
  show "push_decoding_control L w len r = Inr x \<Longrightarrow> decoding_uses w r x"
    using less room in_need_more_io [OF room(1)]
    by (cases dres) (auto simp: push_decoding_control_def eval owed_def stream_over_def awaiting_decode_def split: if_splits)
  show "push_decoding L w len r = Inr x \<Longrightarrow> decoding_uses w r x"
    using less room in_need_more_io [OF room(1)]
    by (cases dres) (auto simp: push_decoding_def eval owed_def stream_over_def awaiting_decode_def split: if_splits)
qed

text \<open>What a whole call uses.\<close>

definition read_uses :: "world \<Rightarrow> ('r, 'w) dnswire_reader \<Rightarrow>
    dnswire_result \<times> ('r, 'w) dnswire_reader \<times> world \<Rightarrow> bool" where
  "read_uses w r x = (case x of (res, r', w') \<Rightarrow> decoder_ok (r_decoder r') \<and>
     (goes_on res \<longrightarrow> read_cost w' r' < read_cost w r) \<and>
     (stream_over r \<longrightarrow> stream_over r' \<and>
        (res = dnswire_endofdata \<longrightarrow> dc_state (r_decoder r') = dnswire_decoder_done)))"

lemma decoding_read_uses:
  assumes "decoding_uses w r x" and "awaiting_decode (r_state r) = 1"
  shows "read_uses w r x"
  using assms owed_awaiting(1) [of "fst (snd x)"]
  by (auto simp: decoding_uses_def read_uses_def read_cost_def same_io_def)


lemma read_bytes_uses:
  assumes ok: "in_ok (r_in r)" and r: "read_bytes w r = Inr (Some r1, w1)"
  obtains b bs where "r1 = r\<lparr>r_in := b\<rparr>" and "in_ok b" and "bs \<noteq> []"
    and "in_live b = in_live (r_in r) @ bs" and "inbox w = bs @ inbox w1"
    and "length (reads w) = Suc (length (reads w1))" and "writes w1 = writes w"
proof -
  obtain bs where bs: "sys_read w (in_room (r_in r)) = (Some bs, w1)" "bs \<noteq> []"
    using r by (auto simp: read_bytes_def bindF_eq_Inr split: option.splits prod.splits if_splits)
  from inq.append_live [OF ok sys_read_length [OF bs(1)]] obtain b where
    b: "in_append (r_in r) bs = Inr b" "in_ok b" "in_live b = in_live (r_in r) @ bs" by blast
  with r bs have "r1 = r\<lparr>r_in := b\<rparr>" by (simp add: read_bytes_def)
  with that b bs(2) sys_read_uses [OF bs(1)] show ?thesis by simp
qed


lemma reading_uses:
  assumes L: "extlib_ok L" "tinyframe_consumes L" and ok: "reader_ok r"
  shows "r_state r = dnswire_reader_reading_control \<Longrightarrow> read_reading_control L w r = Inr x \<Longrightarrow> read_uses w r x"
    and "r_state r = dnswire_reader_reading \<Longrightarrow> read_reading L w r = Inr x \<Longrightarrow> read_uses w r x"
proof -
  have failed: "read_uses w r (dnswire_error, r, w')" for w'
    using reader_okD(2) [OF ok] by (simp add: read_uses_def goes_on_def)
  have step: "read_uses w r x" if got: "read_bytes w r = Inr (Some r1, w1)"
    and st: "awaiting_decode (r_state r) = 0"
    and s: "s \<in> {dnswire_reader_decoding_control, dnswire_reader_decoding}"
    and dec: "\<And>b. in_ok b \<Longrightarrow> in_live b \<noteq> [] \<Longrightarrow> r1 = r\<lparr>r_in := b\<rparr> \<Longrightarrow>
      decoding_uses w1 (r1\<lparr>r_state := s\<rparr>) x" for r1 w1 s
    using reader_okD(1) [OF ok] got
  proof (cases rule: read_bytes_uses)
    case (1 b bs)
    from 1(3,4) have live: "in_live b \<noteq> []" by simp
    have "awaiting_decode s = 1" using s by (auto simp: awaiting_decode_def)
    with dec [OF 1(2) live 1(1)] 1 st owed_awaiting(1) [of "fst (snd x)"] show ?thesis
      by (auto simp: decoding_uses_def read_uses_def read_cost_def same_io_def)
  qed
  show "read_uses w r x" if st: "r_state r = dnswire_reader_reading_control"
    and r: "read_reading_control L w r = Inr x"
  proof -
    obtain got w1 where g: "read_bytes w r = Inr (got, w1)"
      using r by (cases "read_bytes w r") (auto simp: read_reading_control_def)
    have aw: "awaiting_decode (r_state r) = 0" by (simp add: st awaiting_decode_def)
    show ?thesis
    proof (cases got)
      case None
      with r g failed show ?thesis by (auto simp: read_reading_control_def)
    next
      case (Some r1)
      with r g have d: "read_decoding_control L w1 (r1\<lparr>r_state := dnswire_reader_decoding_control\<rparr>) = Inr x"
        by (simp add: read_reading_control_def)
      show ?thesis
        by (rule step [OF g [unfolded Some] aw, where s = dnswire_reader_decoding_control], simp,
            rule decoding_use(1) [OF L _ _ _ d [unfolded read_decoding_eq(1)]]) (use reader_okD(2) [OF ok] in simp_all)
    qed
  qed
  show "read_uses w r x" if st: "r_state r = dnswire_reader_reading" and r: "read_reading L w r = Inr x"
  proof -
    obtain got w1 where g: "read_bytes w r = Inr (got, w1)"
      using r by (cases "read_bytes w r") (auto simp: read_reading_def)
    have aw: "awaiting_decode (r_state r) = 0" by (simp add: st awaiting_decode_def)
    show ?thesis
    proof (cases got)
      case None
      with r g failed show ?thesis by (auto simp: read_reading_def)
    next
      case (Some r1)
      with r g have d: "read_decoding L w1 (r1\<lparr>r_state := dnswire_reader_decoding\<rparr>) = Inr x"
        by (simp add: read_reading_def)
      show ?thesis
        by (rule step [OF g [unfolded Some] aw, where s = dnswire_reader_decoding], simp,
            rule decoding_use(2) [OF L _ _ _ d [unfolded read_decoding_eq(2)]]) (use reader_okD(2) [OF ok] in simp_all)
    qed
  qed
qed

lemma read_output_uses:
  assumes "read_output w r = Inr (got, w')"
  shows "case got of None \<Rightarrow> True | Some r1 \<Rightarrow> r_decoder r1 = r_decoder r \<and> r_in r1 = r_in r \<and>
     r_state r1 = r_state r \<and> r_is_bidirectional r1 = r_is_bidirectional r \<and> length (writes w) = Suc (length (writes w')) \<and> reads w' = reads w \<and> inbox w' = inbox w"
proof -
  obtain bs where bs: "out_peek (r_out r) (o_left (r_out r)) = Inr bs"
    using assms by (cases "out_peek (r_out r) (o_left (r_out r))") (auto simp: read_output_def)
  obtain n w1 where n: "sys_write w bs = (n, w1)" by (cases "sys_write w bs")
  show ?thesis
    using assms bs n sys_write_uses [of w bs _ w1]
    by (cases n) (auto simp: read_output_def split: if_splits)
qed

lemma writing_uses:
  assumes ok: "decoder_ok (r_decoder r)" and st: "awaiting_decode (r_state r) = 0"
  shows "read_writing_accept w r = Inr x \<Longrightarrow> read_uses w r x"
    and "r_state r = dnswire_reader_writing_finish \<Longrightarrow> read_writing_finish w r = Inr x \<Longrightarrow> read_uses w r x"
proof -
  show "read_uses w r x" if r: "read_writing_accept w r = Inr x"
  proof -
    obtain got w' where g: "read_output w r = Inr (got, w')"
      using r by (cases "read_output w r") (auto simp: read_writing_accept_def)
    show ?thesis
      using r g read_output_uses [OF g] ok st
      by (cases got) (auto simp: read_writing_accept_def read_uses_def read_cost_def goes_on_def
          awaiting_decode_def stream_over_def)
  qed
  show "read_uses w r x" if fin: "r_state r = dnswire_reader_writing_finish" and r: "read_writing_finish w r = Inr x"
  proof -
    obtain got w' where g: "read_output w r = Inr (got, w')"
      using r by (cases "read_output w r") (auto simp: read_writing_finish_def)
    show ?thesis
      using r g read_output_uses [OF g] ok fin
      by (cases got) (auto simp: read_writing_finish_def read_uses_def read_cost_def goes_on_def
          awaiting_decode_def stream_over_def split: if_splits)
  qed
qed

lemma encoding_uses:
  assumes ok: "decoder_ok (r_decoder r)" and st: "awaiting_decode (r_state r) = 0"
  shows "read_encoding_accept L w r = Inr x \<Longrightarrow> read_uses w r x"
    and "r_state r = dnswire_reader_encoding_finish \<Longrightarrow> read_encoding_finish L w r = Inr x \<Longrightarrow> read_uses w r x"
proof -
  have same: "read_uses w r x" if u: "read_uses w1 (r\<lparr>r_encoder := e, r_out := b, r_state := s\<rparr>) x"
    and w: "same_io w w1" and s: "awaiting_decode s = 0"
      "s = dnswire_reader_writing_accept \<or> r_state r = dnswire_reader_encoding_finish" for w1 e b s
    using u w s st by (auto simp: read_uses_def read_cost_def same_io_def stream_over_def)
  show "read_uses w r x" if r: "read_encoding_accept L w r = Inr x"
  proof -
    obtain res e b w1 where g: "encoding L w (r_encoder r) (r_out r) = Inr (res, e, b, w1)"
      using r by (cases "encoding L w (r_encoder r) (r_out r)") (auto simp: read_encoding_accept_def)
    show ?thesis
    proof (cases "res = dnswire_again")
      case True
      let ?r = "r\<lparr>r_encoder := e, r_out := b, r_state := dnswire_reader_writing_accept\<rparr>"
      have "read_writing_accept w1 ?r = Inr x"
        using r g True by (simp add: read_encoding_accept_def)
      then have "read_uses w1 ?r x"
        by (rule writing_uses(1) [rotated 2]) (simp_all add: ok awaiting_decode_def)
      from same [OF this encoding_io [OF g]] show ?thesis by (simp add: awaiting_decode_def)
    next
      case False
      with r g have "x = (dnswire_error, r\<lparr>r_encoder := e, r_out := b\<rparr>, w1)"
        by (simp add: read_encoding_accept_def)
      with ok show ?thesis by (simp add: read_uses_def goes_on_def stream_over_def)
    qed
  qed
  show "read_uses w r x" if fin: "r_state r = dnswire_reader_encoding_finish" and r: "read_encoding_finish L w r = Inr x"
  proof -
    obtain res e b w1 where g: "encoding L w (r_encoder r) (r_out r) = Inr (res, e, b, w1)"
      using r by (cases "encoding L w (r_encoder r) (r_out r)") (auto simp: read_encoding_finish_def)
    show ?thesis
    proof (cases "res = dnswire_endofdata")
      case True
      let ?r = "r\<lparr>r_encoder := e, r_out := b, r_state := dnswire_reader_writing_finish\<rparr>"
      have "read_writing_finish w1 ?r = Inr x"
        using r g True by (simp add: read_encoding_finish_def)
      then have "read_uses w1 ?r x"
        by (rule writing_uses(2) [rotated 3]) (simp_all add: ok awaiting_decode_def)
      from same [OF this encoding_io [OF g]] show ?thesis by (simp add: awaiting_decode_def fin)
    next
      case False
      with r g have "x = (dnswire_error, r\<lparr>r_encoder := e, r_out := b\<rparr>, w1)"
        by (simp add: read_encoding_finish_def)
      with ok show ?thesis by (simp add: read_uses_def goes_on_def stream_over_def)
    qed
  qed
qed

text \<open>
  Every call that asks to be called again has used something up; even after an error the decoder is
  sound, so that the handle can be destroyed.
\<close>

lemma reader_read_uses:
  assumes L: "extlib_ok L" "tinyframe_consumes L" and ok: "reader_ok r"
    and r: "dnswire_reader_read L w r = Inr x"
  shows "read_uses w r x"
proof -
  have buf: "i_buf (r_in r) \<noteq> None" using in_ok_buf [OF reader_okD(1) [OF ok]] .
  note eval = dnswire_reader_read_def buf
  note dok = reader_okD(2) [OF ok]
  show ?thesis
  proof (cases "r_state r \<in> {dnswire_reader_decoding_control, dnswire_reader_decoding}")
    case True
    note live = reader_okD(3) [OF ok True]
    have "awaiting_decode (r_state r) = 1" using True by (simp add: awaiting_decode_def)
    have "decoding_uses w r x"
      using r True decoding_use [OF L reader_okD(1) [OF ok] live dok, of w 0 x] by (auto simp: eval read_decoding_eq)
    then show ?thesis by (rule decoding_read_uses) fact
  next
    case False
    then have aw: "awaiting_decode (r_state r) = 0" by (simp add: awaiting_decode_def)
    show ?thesis
      using r False reading_uses [OF L ok] writing_uses [OF dok aw] encoding_uses [OF dok aw] dok
      by (cases "r_state r") (auto simp: eval read_uses_def [of w r "(dnswire_error, _)"] goes_on_def)
  qed
qed

text \<open>What is delivered was decoded.\<close>

lemma have_dnstap_decoded:
  assumes "dnswire_decoder_decode L h data = Inr (dnswire_have_dnstap, h')"
  shows "\<exists>d0 bs. dnstap_decode_protobuf L d0 bs = Inr (0, dc_dnstap h')"
proof -
  obtain tf r where t: "tf_read L (dc_reader h) data = (tf, r)"
    by (cases "tf_read L (dc_reader h) data")
  have "\<exists>d0 b. dnstap_decode_protobuf L d0 (tf_frame_data L r) = Inr (0, b) \<and> dc_dnstap h' = b"
    using assms
    by (cases "dc_state h"; cases tf)
      (auto simp: dnswire_decoder_decode_def decode_state_defs decode_reading_frames_def t Let_def
        bindF_eq_Inr split: tinyframe_control.splits if_splits)
  then show ?thesis by blast
qed

lemma delivered_decoded:
  assumes "reader_step L r chunk dnswire_have_dnstap out r'" and "extlib_ok L" and "reader_ok r"
  shows "\<exists>d0 bs. dnstap_decode_protobuf L d0 bs = Inr (0, dc_dnstap (r_decoder r'))"
  using reader_step_ok [OF assms] have_dnstap_decoded unfolding step_ok_def fed_def by blast

end
