(* ===== verification/Reading_Through.thy ===== *)
theory Reading_Through
  imports Complete_Stream Read_Steps Good_World
begin

text \<open>
  Reading a complete stream to its end: with an allocator that does not fail and a kernel that hands out
  at least a byte as long as there are any, no call of \<open>dnswire_reader_read\<close> fails.
\<close>

section \<open>Room for more\<close>

text \<open>Room is made for as long as the block has not reached its maximum.\<close>

lemma need_more_succeeds:
  assumes ok: "in_ok b" and less: "length (in_live b) < i_max b" and a: "allocates w"
  shows "\<exists>b' w'. in_need_more w b = Inr (True, b', w') \<and> in_ok b' \<and> in_live b' = in_live b \<and>
     0 < in_room b' \<and> i_max b' = i_max b \<and> allocates w' \<and> same_io w w'"
proof -
  from inq.make_room [OF ok, of w] obtain rm b' w' where
    r: "in_need_more w b = Inr (rm, b', w')" "in_ok b'" "in_live b' = in_live b" "rm \<longrightarrow> 0 < in_room b'" by blast
  from allocates_alloc [OF a] obtain w1 where w1: "sys_alloc w = (True, w1)" "allocates w1" "same_io w w1" by blast
  have "i_left b < i_max b" "i_left b \<le> i_size b"
    using less in_live_length [OF ok] ok by (auto elim: in_okD)
  with r(1) w1 a have "rm \<and> i_max b' = i_max b \<and> allocates w' \<and> same_io w w'"
    by (auto simp: in_need_more_def Let_def bindF_eq_Inr split: if_splits)
  with r show ?thesis by auto
qed

section \<open>One call\<close>

text \<open>
  A reader in the middle of a complete stream: what is buffered and what is still to come is complete,
  and before a \<open>read\<close> there is room, and something to come. Until the stream is over it leaves alone what
  belongs to its answers, \<open>B\<close>.
\<close>

type_synonym 'w asked_side = "bool \<times> 'w dnswire_encoder \<times> outbuf \<times> int list \<times> byte list"

definition asked_side :: "world \<Rightarrow> ('r, 'w) dnswire_reader \<Rightarrow> 'w asked_side" where
  "asked_side w r = (r_is_bidirectional r, r_encoder r, r_out r, writes w, sent w)"

lemma asked_side_simps [simp]:
  "asked_side w (r\<lparr>r_decoder := d\<rparr>) = asked_side w r" "asked_side w (r\<lparr>r_in := b\<rparr>) = asked_side w r"
  "asked_side w (r\<lparr>r_state := s\<rparr>) = asked_side w r"
  by (simp_all add: asked_side_def)

lemma same_io_asked: "same_io w w' \<Longrightarrow> asked_side w' r = asked_side w r"
  by (simp add: same_io_def asked_side_def)

definition reading_on :: "('r, 'w) extlib \<Rightarrow> nat \<Rightarrow> 'w asked_side \<Rightarrow> world \<Rightarrow> ('r, 'w) dnswire_reader \<Rightarrow> bool" where
  "reading_on L n B w r \<longleftrightarrow> reader_ok r \<and> asked_side w r = B \<and> n \<le> i_max (r_in r) \<and>
     allocates w \<and> delivers w \<and>
     (\<exists>G. G (r_decoder r) \<and> complete_from L n G (in_live (r_in r) @ inbox w)) \<and>
     (r_state r \<in> {dnswire_reader_decoding_control, dnswire_reader_decoding} \<or>
      r_state r \<in> {dnswire_reader_reading_control, dnswire_reader_reading} \<and>
        0 < in_room (r_in r) \<and> inbox w \<noteq> [])"

text \<open>
  A call that does not fail: the stream has ended, or has ended and is to be answered with FINISH, or
  the reader reads on.
\<close>

definition read_on :: "('r, 'w) extlib \<Rightarrow> nat \<Rightarrow> 'w asked_side \<Rightarrow>
    fault + dnswire_result \<times> ('r, 'w) dnswire_reader \<times> world \<Rightarrow> bool" where
  "read_on L n B x \<longleftrightarrow> (\<exists>res r' w'. x = Inr (res, r', w') \<and>
     (res = dnswire_endofdata \<and> \<not> fst B \<or>
      res = dnswire_again \<and> fst B \<and> r_state r' = dnswire_reader_encoding_finish \<and> asked_side w' r' = B \<and>
        allocates w' \<or>
      goes_on res \<and> (reader_ok r' \<longrightarrow> reading_on L n B w' r')))"

lemma consume_max [simp]: "i_max (in_consume n b) = i_max b"
  by (simp add: in_consume_def Let_def)

lemma empty_room: "in_ok b \<Longrightarrow> in_live b = [] \<Longrightarrow> 0 < in_room b"
  using inq.empty_room [of b] by simp

lemma decoding_on:
  assumes L: "extlib_ok L" and b: "in_ok (r_in r)" "in_live (r_in r) \<noteq> []" "n \<le> i_max (r_in r)"
    and uni: "asked_side w r = B" and w: "allocates w" "delivers w"
    and c: "complete_from L n G (in_live (r_in r) @ inbox w)" "G (r_decoder r)"
  shows "r_state r = dnswire_reader_decoding_control \<Longrightarrow> read_on L n B (read_decoding_control L w r)"
    and "r_state r = dnswire_reader_decoding \<Longrightarrow> read_on L n B (read_decoding L w r)"
proof -
  have load: "in_load (r_in r) = Inr (in_live (r_in r))" by (rule in_load_live [OF b(1)])
  have "(r_state r = dnswire_reader_decoding_control \<longrightarrow> read_on L n B (read_decoding_control L w r)) \<and>
      (r_state r = dnswire_reader_decoding \<longrightarrow> read_on L n B (read_decoding L w r))"
  proof (cases rule: decode_complete [OF c b(2)])
    case (1 d')
    note more = 1
    from need_more_succeeds [OF b(1) _ w(1)] more(3) b(3) obtain b' w' where
      m: "in_need_more w (r_in r) = Inr (True, b', w')" "in_ok b'" "in_live b' = in_live (r_in r)"
        "0 < in_room b'" "i_max b' = i_max (r_in r)" "allocates w'" "same_io w w'" by force
    have io: "inbox w' = inbox w" "delivers w'" "asked_side w' r = asked_side w r"
      using m(7) w(2) same_io_delivers [of w w'] same_io_asked [of w w' r] by (simp_all add: same_io_def)
    have "reading_on L n B w' (r\<lparr>r_decoder := d', r_in := b', r_state := s\<rparr>)"
      if "s \<in> {dnswire_reader_reading_control, dnswire_reader_reading}"
        "reader_ok (r\<lparr>r_decoder := d', r_in := b', r_state := s\<rparr>)" for s
      using that m io uni b(3) c(1) more(2,4) unfolding reading_on_def by auto
    with load more(1) m(1) show ?thesis
      by (simp add: read_decoding_control_def read_decoding_def read_on_def goes_on_def)
  next
    case (2 d')
    note over = 2
    have "fst B = r_is_bidirectional r" using uni by (auto simp: asked_side_def)
    with load uni over w(1) show ?thesis
      by (auto simp: read_decoding_control_def read_decoding_def read_on_def)
  next
    case (3 res d' G')
    note step = 3
    let ?b = "in_consume (dnswire_decoder_decoded L d') (r_in r)"
    from inq.consume_ok [OF b(1) step(4)] inq.consume_live [OF b(1) step(4)] have
      k: "in_ok ?b" "in_live ?b = drop (dnswire_decoder_decoded L d') (in_live (r_in r))" .
    have left: "i_left ?b = 0 \<longleftrightarrow> in_live ?b = []" by (rule in_left_live [OF k(1)])
    have co: "complete_from L n G' (in_live ?b @ inbox w)" using step(5) k(2) by simp
    have "reading_on L n B w (r\<lparr>r_decoder := d', r_in := ?b, r_state := s\<rparr>)"
      if "s \<in> {dnswire_reader_reading_control, dnswire_reader_reading} \<and> in_live ?b = [] \<or>
         s \<in> {dnswire_reader_decoding_control, dnswire_reader_decoding}"
        "reader_ok (r\<lparr>r_decoder := d', r_in := ?b, r_state := s\<rparr>)" for s
      using that k(1) w uni b(3) co step(3) empty_room [OF k(1)] complete_nonempty [OF co]
      unfolding reading_on_def by auto
    with load step(1,2) left show ?thesis
      by (auto simp: read_decoding_control_def read_decoding_def read_on_def goes_on_def Let_def)
  qed
  then show "r_state r = dnswire_reader_decoding_control \<Longrightarrow> read_on L n B (read_decoding_control L w r)"
    and "r_state r = dnswire_reader_decoding \<Longrightarrow> read_on L n B (read_decoding L w r)" by blast+
qed

text \<open>The bytes that a \<open>read\<close> finds are decoded in the same call.\<close>

lemma read_bytes_on:
  assumes b: "in_ok (r_in r)" "0 < in_room (r_in r)" and w: "allocates w" "delivers w" "inbox w \<noteq> []"
  shows "\<exists>b' w'. read_bytes w r = Inr (Some (r\<lparr>r_in := b'\<rparr>), w') \<and> in_ok b' \<and> in_live b' \<noteq> [] \<and>
     i_max b' = i_max (r_in r) \<and> in_live b' @ inbox w' = in_live (r_in r) @ inbox w \<and>
     allocates w' \<and> delivers w' \<and> asked_side w' r = asked_side w r"
proof -
  from delivers_read [OF w(2,1) b(2) w(3)] obtain bs w' where
    r: "sys_read w (in_room (r_in r)) = (Some bs, w')" "bs \<noteq> []" "length bs \<le> in_room (r_in r)"
      "inbox w = bs @ inbox w'" "delivers w'" "allocates w'" by blast
  from inq.append_live [OF b(1) r(3)] obtain b' where
    b': "in_append (r_in r) bs = Inr b'" "in_ok b'" "in_live b' = in_live (r_in r) @ bs" by blast
  have "i_max b' = i_max (r_in r)" using b'(1) by (auto simp: in_append_def bindF_eq_Inr)
  moreover have "asked_side w' r = asked_side w r"
    using r(1) by (auto simp: asked_side_def sys_read_def Let_def split: list.splits if_splits)
  ultimately show ?thesis using r b'
    by (intro exI [of _ b'] exI [of _ w']) (simp add: read_bytes_def)
qed

lemma read_goes_on:
  assumes L: "extlib_ok L" and on: "reading_on L n B w r"
  shows "\<exists>res r' w'. dnswire_reader_read L w r = Inr (res, r', w') \<and>
     (res = dnswire_endofdata \<and> \<not> fst B \<or>
      res = dnswire_again \<and> fst B \<and> reader_ok r' \<and> r_state r' = dnswire_reader_encoding_finish \<and>
        asked_side w' r' = B \<and> allocates w' \<or>
      goes_on res \<and> reading_on L n B w' r')"
proof -
  from on obtain G where ok: "reader_ok r" and uni: "asked_side w r = B" and n: "n \<le> i_max (r_in r)"
    and w: "allocates w" "delivers w" and g: "G (r_decoder r)" "complete_from L n G (in_live (r_in r) @ inbox w)"
    and st: "r_state r \<in> {dnswire_reader_decoding_control, dnswire_reader_decoding} \<or>
      r_state r \<in> {dnswire_reader_reading_control, dnswire_reader_reading} \<and>
        0 < in_room (r_in r) \<and> inbox w \<noteq> []" by (auto simp: reading_on_def)
  note b = reader_okD(1) [OF ok]
  have buf: "i_buf (r_in r) \<noteq> None" using in_ok_buf [OF b] .
  note eval = dnswire_reader_read_def buf
  have "read_on L n B (dnswire_reader_read L w r)"
    using st
  proof (elim disjE conjE)
    assume s: "r_state r \<in> {dnswire_reader_decoding_control, dnswire_reader_decoding}"
    then have "in_live (r_in r) \<noteq> []" using reader_okD(3) [OF ok] by blast
    from decoding_on [OF L b this n uni w g(2,1)] s show ?thesis by (auto simp: eval)
  next
    assume s: "r_state r \<in> {dnswire_reader_reading_control, dnswire_reader_reading}"
      and more: "0 < in_room (r_in r)" "inbox w \<noteq> []"
    from read_bytes_on [OF b more(1) w more(2)] obtain b' w' where
      r: "read_bytes w r = Inr (Some (r\<lparr>r_in := b'\<rparr>), w')" "in_ok b'" "in_live b' \<noteq> []"
        "i_max b' = i_max (r_in r)" "in_live b' @ inbox w' = in_live (r_in r) @ inbox w" "allocates w'" "delivers w'"
        "asked_side w' r = asked_side w r" by blast
    have "r_state q = dnswire_reader_decoding_control \<Longrightarrow> read_on L n B (read_decoding_control L w' q)"
      "r_state q = dnswire_reader_decoding \<Longrightarrow> read_on L n B (read_decoding L w' q)"
      if "q = r\<lparr>r_in := b', r_state := t\<rparr>" for q t
      using decoding_on [OF L, of q n w' B G] that r n uni g by simp_all
    with s r(1) show ?thesis by (auto simp: eval read_reading_control_def read_reading_def)
  qed
  then obtain res r' w' where x: "dnswire_reader_read L w r = Inr (res, r', w')"
    "res = dnswire_endofdata \<and> \<not> fst B \<or>
     res = dnswire_again \<and> fst B \<and> r_state r' = dnswire_reader_encoding_finish \<and> asked_side w' r' = B \<and>
       allocates w' \<or>
     goes_on res \<and> (reader_ok r' \<longrightarrow> reading_on L n B w' r')"
    by (auto simp: read_on_def)
  moreover have "reader_ok r'" if "goes_on res \<or> res = dnswire_again"
    using reader_read_returns [OF L ok, of w] x(1) that by (auto simp: read_post_def step_ok_def goes_on_def)
  ultimately show ?thesis by blast
qed

end
