(* ===== verification/Write_Steps.thy ===== *)
theory Write_Steps
  imports Writer_Traces Progress
begin

text \<open>
  One call of \<open>dnswire_writer_write\<close> in detail: which frame it emits and what it uses up. The
  programs that call it in a loop come to an end because every call that asks to be called again
  uses up something.
\<close>

section \<open>What a call uses up\<close>

fun frames_ahead :: "dnswire_encoder_state \<Rightarrow> nat" where
  "frames_ahead dnswire_encoder_control_ready = 4"
| "frames_ahead dnswire_encoder_control_start = 3"
| "frames_ahead dnswire_encoder_frames = 2"
| "frames_ahead dnswire_encoder_control_stop = 1"
| "frames_ahead dnswire_encoder_control_accept = 2"
| "frames_ahead dnswire_encoder_control_finish = 1"
| "frames_ahead dnswire_encoder_done = 0"

text \<open>
  Answers of the kernel, bytes that can still come in or wait for the decoder, frames to send.
\<close>

definition write_cost :: "world \<Rightarrow> ('r, 'w) dnswire_writer \<Rightarrow> nat" where
  "write_cost w h = length (writes w) + length (reads w) + length (inbox w) +
     length (in_live (wr_in h)) + 2 * frames_ahead (e_state (wr_encoder h)) +
     (if wr_state h = dnswire_writer_writing_stop then 1 else 0)"

text \<open>The groups of states between two frames, and the encoder's states in each.\<close>

fun state_group :: "dnswire_writer_state \<Rightarrow> nat" where
  "state_group dnswire_writer_encoding_ready = 0"
| "state_group dnswire_writer_stopping = 2"
| "state_group dnswire_writer_encoding_stop = 2"
| "state_group dnswire_writer_writing_stop = 3"
| "state_group dnswire_writer_reading_finish = 3"
| "state_group dnswire_writer_decoding_finish = 3"
| "state_group dnswire_writer_done = 3"
| "state_group _ = 1"

definition in_phase :: "('r, 'w) dnswire_writer \<Rightarrow> bool" where
  "in_phase h \<longleftrightarrow> e_state (wr_encoder h) \<in>
     (if state_group (wr_state h) = 0 then {dnswire_encoder_control_ready}
      else if state_group (wr_state h) = 1 then {dnswire_encoder_control_start, dnswire_encoder_frames}
      else if state_group (wr_state h) = 2 then {dnswire_encoder_control_stop}
      else {dnswire_encoder_done})"

text \<open>A piece of a call that encodes nothing.\<close>

definition passes :: "nat \<Rightarrow> world \<Rightarrow> ('r, 'w) dnswire_writer \<Rightarrow>
    dnswire_result \<times> ('r, 'w) dnswire_writer \<times> world \<Rightarrow> bool" where
  "passes k w h x = (case x of (res, h', w') \<Rightarrow> res \<noteq> dnswire_error \<longrightarrow>
     wr_encoder h' = wr_encoder h \<and>
     (\<exists>out. sent w' = sent w @ out \<and> out @ out_pending (wr_out h') = out_pending (wr_out h)) \<and>
     (res \<in> {dnswire_ok, dnswire_again} \<longrightarrow> write_cost w' h' + k \<le> write_cost w h) \<and>
     (res \<in> {dnswire_ok, dnswire_again, dnswire_endofdata} \<longrightarrow>
        state_group (wr_state h') = state_group (wr_state h)) \<and>
     (res = dnswire_endofdata \<longrightarrow> wr_state h' = dnswire_writer_done \<and> out_pending (wr_out h') = []))"

text \<open>A call: it emits at most one frame, and a message exactly when it returns \<open>ok\<close>.\<close>

definition moved :: "dnswire_result \<Rightarrow> dnswire_encoder_state \<Rightarrow> wframe list \<Rightarrow> dnswire_encoder_state \<Rightarrow> bool" where
  "moved res s fs s' \<longleftrightarrow> fs = [] \<and> s' = s \<and> res \<noteq> dnswire_ok \<or>
     (\<exists>f r. fs = [f] \<and> fst f = s \<and> encoder_next s = Some (s', r) \<and> (res = dnswire_ok \<longleftrightarrow> r = dnswire_ok))"

definition wrote :: "('r, 'w) extlib \<Rightarrow> world \<Rightarrow> ('r, 'w) dnswire_writer \<Rightarrow>
    dnswire_result \<times> ('r, 'w) dnswire_writer \<times> world \<Rightarrow> bool" where
  "wrote L w h x = (case x of (res, h', w') \<Rightarrow> res \<noteq> dnswire_error \<longrightarrow>
     e_dnstap (wr_encoder h') = e_dnstap (wr_encoder h) \<and>
     (\<exists>fs out. list_all (written L) fs \<and>
        moved res (e_state (wr_encoder h)) fs (e_state (wr_encoder h')) \<and>
        (\<forall>f \<in> set fs. fst (snd f) = e_dnstap (wr_encoder h)) \<and> sent w' = sent w @ out \<and>
        out @ out_pending (wr_out h') = out_pending (wr_out h) @ frame_bytes fs) \<and>
     (res = dnswire_again \<longrightarrow> write_cost w' h' < write_cost w h) \<and>
     (res = dnswire_ok \<longrightarrow> write_cost w' h' \<le> write_cost w h) \<and>
     (res \<in> {dnswire_ok, dnswire_again, dnswire_endofdata} \<longrightarrow> in_phase h') \<and>
     (res = dnswire_endofdata \<longrightarrow> wr_state h' = dnswire_writer_done \<and> out_pending (wr_out h') = []))"

lemma passes_after:
  assumes "passes k w1 h1 x" and "sent w1 = sent w @ out"
    and "out @ out_pending (wr_out h1) = out_pending (wr_out h)" and "wr_encoder h1 = wr_encoder h"
    and "write_cost w1 h1 + j \<le> write_cost w h" and "state_group (wr_state h1) = state_group (wr_state h)"
  shows "passes (k + j) w h x"
  using assms by (auto simp: passes_def split: prod.splits)

lemma passes_wrote:
  assumes "passes k w h (res, h', w')" and "0 < k" and "res \<noteq> dnswire_ok" and "in_phase h"
  shows "wrote L w h (res, h', w')"
proof (cases "res = dnswire_error")
  case False
  with assms(1) obtain out where "sent w' = sent w @ out"
    "out @ out_pending (wr_out h') = out_pending (wr_out h)" by (auto simp: passes_def)
  then have "\<exists>fs out. list_all (written L) fs \<and>
        moved res (e_state (wr_encoder h)) fs (e_state (wr_encoder h)) \<and>
        (\<forall>f \<in> set fs. fst (snd f) = e_dnstap (wr_encoder h)) \<and> sent w' = sent w @ out \<and>
        out @ out_pending (wr_out h') = out_pending (wr_out h) @ frame_bytes fs"
    using assms(3) by (intro exI [of _ "[]"] exI [of _ out]) (simp add: moved_def)
  with assms False show ?thesis by (auto simp: passes_def wrote_def in_phase_def)
qed (simp add: wrote_def)

lemma wrote_after:
  assumes "wrote L w1 h1 x" and "sent w1 = sent w @ out"
    and "out @ out_pending (wr_out h1) = out_pending (wr_out h)" and "wr_encoder h1 = wr_encoder h"
    and "write_cost w1 h1 \<le> write_cost w h"
  shows "wrote L w h x"
proof (cases x)
  case (fields res h' w')
  show ?thesis
  proof (cases "res = dnswire_error")
    case False
    with assms(1) fields obtain fs out' where f: "list_all (written L) fs"
      "moved res (e_state (wr_encoder h1)) fs (e_state (wr_encoder h'))"
      "\<forall>f \<in> set fs. fst (snd f) = e_dnstap (wr_encoder h1)" "sent w' = sent w1 @ out'"
      "out' @ out_pending (wr_out h') = out_pending (wr_out h1) @ frame_bytes fs"
      by (auto simp: wrote_def)
    have "(out @ out') @ out_pending (wr_out h') = out_pending (wr_out h) @ frame_bytes fs"
      using f(5) assms(3) by (metis append_assoc)
    with f assms(2,4) have "\<exists>fs out. list_all (written L) fs \<and>
        moved res (e_state (wr_encoder h)) fs (e_state (wr_encoder h')) \<and>
        (\<forall>f \<in> set fs. fst (snd f) = e_dnstap (wr_encoder h)) \<and> sent w' = sent w @ out \<and>
        out @ out_pending (wr_out h') = out_pending (wr_out h) @ frame_bytes fs"
      by (intro exI [of _ fs] exI [of _ "out @ out'"]) simp
    with assms(1,4,5) False fields show ?thesis by (auto simp: wrote_def)
  qed (simp add: wrote_def fields)
qed

text \<open>The frame comes first, then a piece that encodes nothing.\<close>

lemma wrote_frame:
  assumes f: "written L (e_state (wr_encoder h), e_dnstap (wr_encoder h), bs)"
    and n: "encoder_next (e_state (wr_encoder h)) = Some (e_state (wr_encoder h1), r)"
    and d: "e_dnstap (wr_encoder h1) = e_dnstap (wr_encoder h)"
    and b: "out_pending (wr_out h1) = out_pending (wr_out h) @ bs" "sent w1 = sent w"
    and p: "passes k w1 h1 (res, h', w')" and r: "res = dnswire_ok \<longleftrightarrow> r = dnswire_ok"
    and c: "write_cost w1 h1 \<le> write_cost w h + k"
      "res = dnswire_again \<Longrightarrow> write_cost w1 h1 < write_cost w h + k"
    and l: "in_phase h1"
  shows "wrote L w h (res, h', w')"
proof (cases "res = dnswire_error")
  case False
  with p obtain out where o: "sent w' = sent w1 @ out"
    "out @ out_pending (wr_out h') = out_pending (wr_out h1)" "wr_encoder h' = wr_encoder h1"
    by (auto simp: passes_def)
  have "moved res (e_state (wr_encoder h)) [(e_state (wr_encoder h), e_dnstap (wr_encoder h), bs)]
      (e_state (wr_encoder h'))"
    using n r o(3) by (simp add: moved_def)
  with f o b have "\<exists>fs out. list_all (written L) fs \<and>
      moved res (e_state (wr_encoder h)) fs (e_state (wr_encoder h')) \<and>
      (\<forall>f \<in> set fs. fst (snd f) = e_dnstap (wr_encoder h)) \<and> sent w' = sent w @ out \<and>
      out @ out_pending (wr_out h') = out_pending (wr_out h) @ frame_bytes fs"
    by (intro exI [of _ "[(e_state (wr_encoder h), e_dnstap (wr_encoder h), bs)]"] exI [of _ out]) simp
  note frame = this
  from p False have cost: "res \<in> {dnswire_ok, dnswire_again} \<Longrightarrow> write_cost w' h' + k \<le> write_cost w1 h1"
    and group: "res \<in> {dnswire_ok, dnswire_again, dnswire_endofdata} \<Longrightarrow>
      state_group (wr_state h') = state_group (wr_state h1)"
    and ended: "res = dnswire_endofdata \<Longrightarrow> wr_state h' = dnswire_writer_done \<and> out_pending (wr_out h') = []"
    by (auto simp: passes_def)
  have phase: "in_phase h'" if "res \<in> {dnswire_ok, dnswire_again, dnswire_endofdata}"
    using l unfolding in_phase_def group [OF that] o(3) .
  have "res = dnswire_again \<Longrightarrow> write_cost w' h' < write_cost w h"
    "res = dnswire_ok \<Longrightarrow> write_cost w' h' \<le> write_cost w h"
    using cost c by auto
  with frame phase ended d o(3) show ?thesis by (simp add: wrote_def)
qed (simp add: wrote_def)

section \<open>The pieces\<close>

lemma write_bytes_uses:
  assumes ok: "out_ok (wr_out h)" and r: "write_bytes w h = Inr (Some h1, w1)"
  obtains n where "h1 = h\<lparr>wr_out := out_drain n (wr_out h)\<rparr>" and "n \<le> o_left (wr_out h)"
    and "sent w1 = sent w @ take n (out_pending (wr_out h))"
    and "out_pending (wr_out h1) = drop n (out_pending (wr_out h))"
    and "length (writes w) = Suc (length (writes w1))" and "reads w1 = reads w" and "inbox w1 = inbox w"
proof -
  have pk: "out_peek (wr_out h) (o_left (wr_out h)) = Inr (out_pending (wr_out h))"
    using outq.peek_pending [OF ok, of "o_left (wr_out h)"] out_pending_length [OF ok] by simp
  with r obtain k where k: "sys_write w (out_pending (wr_out h)) = (Some k, w1)"
    "h1 = h\<lparr>wr_out := out_drain k (wr_out h)\<rparr>"
    by (auto simp: write_bytes_def split: option.splits prod.splits if_splits)
  with sys_write_le [OF k(1)] sys_write_uses [OF k(1)] outq.drain_pending [OF ok, of k] show ?thesis
    by (intro that [of k]) (simp_all add: out_pending_length [OF ok])
qed

text \<open>A \<open>write\<close> as the first piece of what passes.\<close>

lemma passes_bytes:
  assumes ok: "out_ok (wr_out h)" and r: "write_bytes w h = Inr (Some h1, w1)"
    and p: "passes k w1 (h1\<lparr>wr_state := s\<rparr>) x" and s: "state_group s = state_group (wr_state h)"
      "s = dnswire_writer_writing_stop \<longrightarrow> wr_state h = s"
  shows "passes (k + 1) w h x"
  using ok r
proof (cases rule: write_bytes_uses)
  case (1 n)
  show ?thesis
    by (rule passes_after [OF p 1(3)]) (use 1 s in \<open>auto simp: write_cost_def \<close>)
qed

lemma passes_same: "res \<in> {dnswire_ok, dnswire_again, dnswire_need_more} \<Longrightarrow> passes 0 w h (res, h, w)"
  by (auto simp: passes_def)

lemma decoding_accept_passes:
  assumes L: "extlib_ok L" "tinyframe_consumes L" and ok: "writer_ok h"
    and st: "wr_state h = dnswire_writer_decoding_accept"
    and r: "pop_decoding_accept L w h = Inr (res, h', w')"
  shows "passes 1 w h (res, h', w') \<and> res \<in> {dnswire_again, dnswire_need_more, dnswire_error}"
proof -
  have bi: "wr_bidirectional h" "in_live (wr_in h) \<noteq> []" using ok st by (auto simp: writer_ok_def)
  note wok = writer_okD [OF ok]
  from decode_buffered [OF L(1) wok(4) [OF bi(1)] bi(2) wok(3)] obtain dres d where
    load: "in_load (wr_in h) = Inr (in_live (wr_in h))"
    and dec: "dnswire_decoder_decode L (wr_decoder h) (in_live (wr_in h)) = Inr (dres, d)"
    and con: "dres \<in> {dnswire_again, dnswire_bidirectional, dnswire_have_dnstap} \<Longrightarrow>
      in_live (in_consume (dnswire_decoder_decoded L d) (wr_in h)) =
        drop (dnswire_decoder_decoded L d) (in_live (wr_in h))"
    by metis
  have less: "length (in_live (in_consume (dnswire_decoder_decoded L d) (wr_in h))) < length (in_live (wr_in h))"
    if "dres \<in> {dnswire_again, dnswire_bidirectional, dnswire_have_dnstap}"
    using decode_consumes [OF L(2) dec that] con [OF that] bi(2) by simp
  note eval = pop_decoding_accept_def load dec Let_def
  show ?thesis
  proof (cases dres)
    case dnswire_need_more
    then show ?thesis
      using r in_need_more_io [of w "wr_in h"]
      by (auto simp: eval bindF_eq_Inr passes_def  st same_io_def split: if_splits)
  qed (use r less in \<open>auto simp: eval passes_def write_cost_def  st split: if_splits\<close>)
qed

lemma decoding_finish_passes:
  assumes L: "extlib_ok L" and ok: "writer_ok h" and st: "wr_state h = dnswire_writer_decoding_finish"
    and r: "pop_decoding_finish L w h = Inr (res, h', w')"
  shows "passes 1 w h (res, h', w') \<and> res \<in> {dnswire_endofdata, dnswire_need_more, dnswire_error}"
proof -
  have bi: "wr_bidirectional h" "in_live (wr_in h) \<noteq> []" "o_left (wr_out h) = 0"
    using ok st by (auto simp: writer_ok_def)
  note wok = writer_okD [OF ok]
  have drained: "out_pending (wr_out h) = []" using nothing_left [OF wok(1) bi(3)] by simp
  from decode_buffered [OF L(1) wok(4) [OF bi(1)] bi(2) wok(3)] obtain dres d where
    load: "in_load (wr_in h) = Inr (in_live (wr_in h))"
    and dec: "dnswire_decoder_decode L (wr_decoder h) (in_live (wr_in h)) = Inr (dres, d)"
    by metis
  note eval = pop_decoding_finish_def load dec Let_def
  show ?thesis
  proof (cases dres)
    case dnswire_need_more
    then show ?thesis
      using r in_need_more_io [of w "wr_in h"]
      by (auto simp: eval bindF_eq_Inr passes_def  st same_io_def split: if_splits)
  next
    case dnswire_endofdata
    with r have "res = dnswire_endofdata" "h' = h\<lparr>wr_decoder := d, wr_state := dnswire_writer_done\<rparr>" "w' = w"
      by (simp_all add: eval)
    then show ?thesis by (simp add: passes_def  st drained)
  qed (use r in \<open>auto simp: eval passes_def\<close>)
qed

lemma take_in_uses:
  assumes ok: "in_ok (wr_in h)" and r: "write_take_in w h = Inr (Some h1, w1)"
  obtains b bs where "h1 = h\<lparr>wr_in := b\<rparr>" and "in_ok b" and "bs \<noteq> []"
    and "in_live b = in_live (wr_in h) @ bs" and "inbox w = bs @ inbox w1" and "sent w1 = sent w"
    and "length (reads w) = Suc (length (reads w1))" and "writes w1 = writes w"
proof -
  obtain bs where bs: "sys_read w (in_room (wr_in h)) = (Some bs, w1)" "bs \<noteq> []"
    using r by (auto simp: write_take_in_def bindF_eq_Inr split: option.splits prod.splits if_splits)
  from inq.append_live [OF ok sys_read_length [OF bs(1)]] obtain b where
    b: "in_append (wr_in h) bs = Inr b" "in_ok b" "in_live b = in_live (wr_in h) @ bs" by blast
  with r bs have "h1 = h\<lparr>wr_in := b\<rparr>" by (simp add: write_take_in_def)
  with that b bs(2) sys_read_uses [OF bs(1)] sys_read_sent [OF bs(1)] show ?thesis by simp
qed

lemma reading_accept_passes:
  assumes L: "extlib_ok L" "tinyframe_consumes L" and ok: "writer_ok h"
    and st: "wr_state h = dnswire_writer_reading_accept"
    and r: "write_reading_accept L w h = Inr (res, h', w')"
  shows "passes 1 w h (res, h', w') \<and> res \<in> {dnswire_again, dnswire_need_more, dnswire_error}"
proof -
  have bi: "wr_bidirectional h" "o_left (wr_out h) = 0" using ok st by (auto simp: writer_ok_def)
  obtain got w1 where t: "write_take_in w h = Inr (got, w1)"
    using r by (cases "write_take_in w h") (auto simp: write_reading_accept_def)
  show ?thesis
  proof (cases got)
    case None
    with r t show ?thesis by (auto simp: write_reading_accept_def passes_def)
  next
    case (Some h1)
    from take_in_uses [OF writer_okD(4) [OF ok bi(1)] t [unfolded Some]] obtain b bs where
      b: "h1 = h\<lparr>wr_in := b\<rparr>" "in_ok b" "bs \<noteq> []" "in_live b = in_live (wr_in h) @ bs"
        "inbox w = bs @ inbox w1" "sent w1 = sent w" "length (reads w) = Suc (length (reads w1))"
        "writes w1 = writes w" by blast
    let ?h = "h\<lparr>wr_in := b, wr_state := dnswire_writer_decoding_accept\<rparr>"
    have "writer_ok ?h" using ok b bi by (simp add: writer_ok_def)
    from decoding_accept_passes [OF L this, of w1 res h' w'] r t Some b(1) have
      p: "passes 1 w1 ?h (res, h', w')" "res \<in> {dnswire_again, dnswire_need_more, dnswire_error}"
      by (simp_all add: write_reading_accept_def write_decoding_accept_def)
    have "passes (1 + 0) w h (res, h', w')"
      by (rule passes_after [OF p(1), of _ "[]"]) (use b st in \<open>auto simp: write_cost_def\<close>)
    with p(2) show ?thesis by simp
  qed
qed

lemma reading_finish_passes:
  assumes L: "extlib_ok L" and ok: "writer_ok h"
    and st: "wr_state h = dnswire_writer_reading_finish"
    and r: "write_reading_finish L w h = Inr (res, h', w')"
  shows "passes 1 w h (res, h', w') \<and> res \<in> {dnswire_endofdata, dnswire_need_more, dnswire_error}"
proof -
  have bi: "wr_bidirectional h" "o_left (wr_out h) = 0" using ok st by (auto simp: writer_ok_def)
  obtain got w1 where t: "write_take_in w h = Inr (got, w1)"
    using r by (cases "write_take_in w h") (auto simp: write_reading_finish_def)
  show ?thesis
  proof (cases got)
    case None
    with r t show ?thesis by (auto simp: write_reading_finish_def passes_def)
  next
    case (Some h1)
    from take_in_uses [OF writer_okD(4) [OF ok bi(1)] t [unfolded Some]] obtain b bs where
      b: "h1 = h\<lparr>wr_in := b\<rparr>" "in_ok b" "bs \<noteq> []" "in_live b = in_live (wr_in h) @ bs"
        "inbox w = bs @ inbox w1" "sent w1 = sent w" "length (reads w) = Suc (length (reads w1))"
        "writes w1 = writes w" by blast
    let ?h = "h\<lparr>wr_in := b, wr_state := dnswire_writer_decoding_finish\<rparr>"
    have "writer_ok ?h" using ok b bi by (simp add: writer_ok_def)
    from decoding_finish_passes [OF L this, of w1 res h' w'] r t Some b(1) have
      p: "passes 1 w1 ?h (res, h', w')" "res \<in> {dnswire_endofdata, dnswire_need_more, dnswire_error}"
      by (simp_all add: write_reading_finish_def write_decoding_finish_def)
    have "passes (1 + 0) w h (res, h', w')"
      by (rule passes_after [OF p(1), of _ "[]"]) (use b st in \<open>auto simp: write_cost_def \<close>)
    with p(2) show ?thesis by simp
  qed
qed

lemma writing_passes:
  assumes ok: "writer_ok h" and st: "wr_state h = dnswire_writer_writing"
    and r: "write_writing w res0 h = Inr (res, h', w')" and res0: "res0 \<in> {dnswire_ok, dnswire_again, dnswire_need_more}"
  shows "passes 1 w h (res, h', w') \<and> res \<in> {res0, dnswire_error}"
proof -
  obtain got w1 where t: "write_bytes w h = Inr (got, w1)"
    using r by (cases "write_bytes w h") (auto simp: write_writing_def)
  show ?thesis
  proof (cases got)
    case None
    with r t show ?thesis by (auto simp: write_writing_def passes_def)
  next
    case (Some h1)
    note t = t [unfolded Some]
    have h1: "wr_state h1 = dnswire_writer_writing"
      using st write_bytes_uses [OF writer_okD(1) [OF ok] t] by force
    define s where "s = (if o_left (wr_out h1) = 0 then dnswire_writer_encoding else dnswire_writer_writing)"
    have x: "res = res0" "h' = h1\<lparr>wr_state := s\<rparr>" "w' = w1"
      using r t h1 by (auto simp: write_writing_def s_def)
    have "passes (0 + 1) w h (res0, h1\<lparr>wr_state := s\<rparr>, w1)"
      by (rule passes_bytes [OF writer_okD(1) [OF ok] t passes_same [OF res0]]) (use st h1 in \<open>simp_all add: s_def\<close>)
    then show ?thesis by (simp add: x)
  qed
qed

lemma writing_ready_passes:
  assumes L: "extlib_ok L" "tinyframe_consumes L" and ok: "writer_ok h" and bi: "wr_bidirectional h"
    and st: "wr_state h \<in> {dnswire_writer_writing_ready, dnswire_writer_writing}"
    and r: "write_writing_ready L w dnswire_again h = Inr (res, h', w')"
  shows "passes 1 w h (res, h', w') \<and> res \<in> {dnswire_again, dnswire_need_more, dnswire_error}"
proof -
  obtain got w1 where t: "write_bytes w h = Inr (got, w1)"
    using r by (cases "write_bytes w h") (auto simp: write_writing_ready_def)
  show ?thesis
  proof (cases got)
    case None
    with r t show ?thesis by (auto simp: write_writing_ready_def passes_def)
  next
    case (Some h1)
    note t = t [unfolded Some]
    from write_bytes_uses [OF writer_okD(1) [OF ok] t] obtain n where
      n: "h1 = h\<lparr>wr_out := out_drain n (wr_out h)\<rparr>" "n \<le> o_left (wr_out h)" by blast
    show ?thesis
    proof (cases "o_left (wr_out h1) = 0")
      case False
      then have x: "res = dnswire_again" "h' = h1" "w' = w1"
        using r t by (auto simp: write_writing_ready_def)
      have "h1 = h1\<lparr>wr_state := wr_state h\<rparr>" using n by simp
      moreover have "passes (0 + 1) w h (dnswire_again, h1\<lparr>wr_state := wr_state h\<rparr>, w1)"
        by (rule passes_bytes [OF writer_okD(1) [OF ok] t passes_same]) simp_all
      ultimately show ?thesis by (simp add: x)
    next
      case True
      let ?h = "h1\<lparr>wr_state := dnswire_writer_reading_accept\<rparr>"
      have okh: "writer_ok ?h" unfolding n(1)
        by (rule writer_ok_drained [OF ok n(2)])
          (use True bi n in \<open>simp_all add: decoding_def stops_def\<close>)
      from reading_accept_passes [OF L okh, of w1 res h' w'] r t True have
        p: "passes 1 w1 ?h (res, h', w')" "res \<in> {dnswire_again, dnswire_need_more, dnswire_error}"
        by (simp_all add: write_writing_ready_def)
      have "passes (1 + 1) w h (res, h', w')"
        by (rule passes_bytes [OF writer_okD(1) [OF ok] t p(1)]) (use st in auto)
      with p(2) show ?thesis by (auto simp: passes_def)
    qed
  qed
qed

text \<open>Writing what is pending before a piece \<open>k\<close>.\<close>

lemma pending_cases:
  assumes ok: "writer_ok h" and st: "wr_state h \<in> {dnswire_writer_stopping, dnswire_writer_writing_stop}"
    and r: "write_pending w h k = Inr (res, h', w')"
  obtains (fails) "res = dnswire_error"
  | (some) "res = dnswire_again" and "passes 1 w h (res, h', w')"
  | (none) "o_left (wr_out h) = 0" and "k h w = Inr (res, h', w')"
  | (all) h1 w1 n where "write_bytes w h = Inr (Some h1, w1)" and "o_left (wr_out h1) = 0"
      and "h1 = h\<lparr>wr_out := out_drain n (wr_out h)\<rparr>" and "n \<le> o_left (wr_out h)"
      and "k h1 w1 = Inr (res, h', w')"
proof (cases "o_left (wr_out h) = 0")
  case True
  with r none show ?thesis by (simp add: write_pending_def)
next
  case False
  obtain got w1 where t: "write_bytes w h = Inr (got, w1)"
    using r False by (cases "write_bytes w h") (auto simp: write_pending_def)
  show ?thesis
  proof (cases got)
    case None
    with r t False fails show ?thesis by (auto simp: write_pending_def)
  next
    case (Some h1)
    note t = t [unfolded Some]
    from write_bytes_uses [OF writer_okD(1) [OF ok] t] obtain n where
      n: "h1 = h\<lparr>wr_out := out_drain n (wr_out h)\<rparr>" "n \<le> o_left (wr_out h)" by blast
    show ?thesis
    proof (cases "o_left (wr_out h1) = 0")
      case True
      with r t False have "k h1 w1 = Inr (res, h', w')" by (simp add: write_pending_def)
      from all [OF t True n this] show ?thesis .
    next
      case left: False
      then have x: "res = dnswire_again" "h' = h1" "w' = w1"
        using r t False by (auto simp: write_pending_def)
      have "h1 = h1\<lparr>wr_state := wr_state h\<rparr>" using n by simp
      moreover have "passes (0 + 1) w h (dnswire_again, h1\<lparr>wr_state := wr_state h\<rparr>, w1)"
        by (rule passes_bytes [OF writer_okD(1) [OF ok] t passes_same]) simp_all
      ultimately show ?thesis using some x by simp
    qed
  qed
qed

lemma writing_stop_passes:
  assumes ok: "writer_ok h" and st: "wr_state h = dnswire_writer_writing_stop"
    and r: "write_writing_stop w h = Inr (res, h', w')"
  shows "passes 1 w h (res, h', w') \<and> res \<in> {dnswire_again, dnswire_endofdata, dnswire_error}"
proof -
  have st2: "wr_state h \<in> {dnswire_writer_stopping, dnswire_writer_writing_stop}" using st by simp
  from ok st2 r [unfolded write_writing_stop_def] show ?thesis
  proof (cases rule: pending_cases)
    case fails
    then show ?thesis by (simp add: passes_def)
  next
    case some
    then show ?thesis by simp
  next
    case none
    have drained: "out_pending (wr_out h) = []"
      using nothing_left [OF writer_okD(1) [OF ok] none(1)] by simp
    show ?thesis
      using none(2) st by (auto simp: passes_def write_cost_def drained split: if_splits)
  next
    case (all h1 w1 n)
    have okd: "out_ok (wr_out h1)"
      using outq.drain_ok [of "wr_out h" n] writer_okD(1) [OF ok] all(3,4)
      by (simp add: out_pending_length)
    have drained: "out_pending (wr_out h1) = []"
      using nothing_left [OF okd all(2)] by simp
    let ?s = "wr_state h"
    have "passes 0 w1 (h1\<lparr>wr_state := ?s\<rparr>) (res, h', w')"
      using all(5) st by (auto simp: passes_def write_cost_def drained split: if_splits)
    from passes_bytes [OF writer_okD(1) [OF ok] all(1) this] all(5) show ?thesis
      by (auto split: if_splits)
  qed
qed

section \<open>The call\<close>

text \<open>One pass of the encoding loop with nothing pending: one frame, or nothing and an error.\<close>

lemma encoding_one:
  assumes L: "extlib_ok L" and ok: "writer_ok h" and left: "o_left (wr_out h) = 0"
    and r: "encoding L w (wr_encoder h) (wr_out h) = Inr (res, e, b, w1)" and res: "res \<noteq> dnswire_error"
  obtains bs e1 len where "written L (e_state (wr_encoder h), e_dnstap (wr_encoder h), bs)"
    and "dnswire_encoder_encode L e1 len = Inr (res, e, bs)" and "e_state e1 = e_state (wr_encoder h)"
    and "encoder_next (e_state (wr_encoder h)) = Some (e_state e, res)"
    and "e_dnstap e = e_dnstap (wr_encoder h)" and "out_pending b = out_pending (wr_out h) @ bs"
    and "same_io w w1" and "out_ok b" and "encoder_ok e"
proof -
  note wok = writer_okD [OF ok]
  have "o_at (wr_out h) < o_size (wr_out h)" using nothing_left [OF wok(1) left] by simp
  from encoding_props [OF L wok(2,1) this, of w] r have
    p: "encoding_post L (wr_encoder h) (wr_out h) (res, e, b, w1)" by auto
  with res obtain e1 len out where e1: "encoder_next (e_state (wr_encoder h)) = Some (e_state e, res)"
    "e_state e1 = e_state (wr_encoder h)" "e_dnstap e1 = e_dnstap (wr_encoder h)"
    "dnswire_encoder_encode L e1 len = Inr (res, e, out)" "out_pending b = out_pending (wr_out h) @ out"
    by (auto simp: encoding_post_def)
  from e1(1-4) have "written L (e_state (wr_encoder h), e_dnstap (wr_encoder h), out)"
    by (auto simp: written_def)
  from that [OF this e1(4,2,1) _ e1(5) encoding_io [OF r]] p show ?thesis
    by (auto simp: encoding_post_def)
qed

lemma next_ahead:
  "encoder_next s = Some (s', dnswire_again) \<Longrightarrow> frames_ahead s' < frames_ahead s"
  "encoder_next s = Some (s', r) \<Longrightarrow> frames_ahead s' \<le> frames_ahead s"
  by (cases s; simp)+

lemma encoding_wrote:
  assumes L: "extlib_ok L" and ok: "writer_ok h" and ph: "in_phase h"
    and st: "wr_state h = dnswire_writer_encoding"
    and r: "write_encoding L w h = Inr (res, h', w')"
  shows "wrote L w h (res, h', w')"
proof -
  have left: "o_left (wr_out h) = 0" using ok st by (auto simp: writer_ok_def)
  have es: "e_state (wr_encoder h) \<in> {dnswire_encoder_control_start, dnswire_encoder_frames}"
    using ph st by (simp add: in_phase_def)
  obtain res0 e b w1 where enc: "encoding L w (wr_encoder h) (wr_out h) = Inr (res0, e, b, w1)"
    using r by (cases "encoding L w (wr_encoder h) (wr_out h)") (auto simp: write_encoding_def)
  show ?thesis
  proof (cases "res0 = dnswire_error")
    case True
    with r enc show ?thesis by (simp add: write_encoding_def wrote_def)
  next
    case False
    from encoding_one [OF L ok left enc False] obtain bs e1 len where
      f: "written L (e_state (wr_encoder h), e_dnstap (wr_encoder h), bs)"
        "dnswire_encoder_encode L e1 len = Inr (res0, e, bs)" "e_state e1 = e_state (wr_encoder h)"
        "encoder_next (e_state (wr_encoder h)) = Some (e_state e, res0)"
        "e_dnstap e = e_dnstap (wr_encoder h)" "out_pending b = out_pending (wr_out h) @ bs"
        "same_io w w1" "out_ok b" "encoder_ok e" by blast
    have res0: "res0 \<in> {dnswire_ok, dnswire_again}" "e_state e = dnswire_encoder_frames"
      using es f(4) by auto
    let ?h = "h\<lparr>wr_encoder := e, wr_out := b\<rparr>"
    have ah: "frames_ahead (e_state e) \<le> frames_ahead (e_state (wr_encoder h))"
      "res0 = dnswire_again \<Longrightarrow> frames_ahead (e_state e) < frames_ahead (e_state (wr_encoder h))"
      using next_ahead f(4) by auto
    show ?thesis
    proof (cases "o_left b = 0")
      case True
      with r enc False have x: "res = res0" "h' = ?h" "w' = w1" by (simp_all add: write_encoding_def)
      have "wrote L w h (res0, ?h, w1)"
        by (rule wrote_frame [where ?h1.0 = ?h and k = 0 and r = res0, OF f(1)])
          (use f res0 ah st in \<open>auto simp: passes_def write_cost_def in_phase_def same_io_def\<close>)
      with x show ?thesis by simp
    next
      case pending: False
      let ?g = "?h\<lparr>wr_state := dnswire_writer_writing\<rparr>"
      have okg: "writer_ok ?g"
        by (rule writer_ok_output [OF ok f(8,9)])
          (simp_all add: decoding_def may_have_pending_def undirected_def stops_def)
      from r enc False pending have w: "write_writing w1 res0 ?g = Inr (res, h', w')"
        by (simp add: write_encoding_def)
      from writing_passes [OF okg _ w] res0 have
        p: "passes 1 w1 ?g (res, h', w')" "res = res0 \<or> res = dnswire_error" by auto
      show ?thesis
      proof (cases "res = dnswire_error")
        case False
        show ?thesis
          by (rule wrote_frame [where ?h1.0 = ?g and r = res0, OF f(1) _ _ _ _ p(1)])
            (use f p(2) False res0 ah st in \<open>auto simp: write_cost_def in_phase_def same_io_def\<close>)
      qed (simp add: wrote_def)
    qed
  qed
qed

lemma encoding_ready_wrote:
  assumes L: "extlib_ok L" "tinyframe_consumes L" and ne: "tinyframe_nonempty L" and ok: "writer_ok h" and ph: "in_phase h"
    and st: "wr_state h = dnswire_writer_encoding_ready"
    and r: "write_encoding_ready L w h = Inr (res, h', w')"
  shows "wrote L w h (res, h', w')"
proof -
  have left: "o_left (wr_out h) = 0" "wr_bidirectional h" using ok st by (auto simp: writer_ok_def)
  have es: "e_state (wr_encoder h) = dnswire_encoder_control_ready"
    using ph st by (simp add: in_phase_def)
  obtain res0 e b w1 where enc: "encoding L w (wr_encoder h) (wr_out h) = Inr (res0, e, b, w1)"
    using r by (cases "encoding L w (wr_encoder h) (wr_out h)") (auto simp: write_encoding_ready_def)
  show ?thesis
  proof (cases "res0 = dnswire_error")
    case True
    with r enc show ?thesis by (simp add: write_encoding_ready_def wrote_def)
  next
    case False
    from encoding_one [OF L(1) ok left(1) enc False] obtain bs e1 len where
      f: "written L (e_state (wr_encoder h), e_dnstap (wr_encoder h), bs)"
        "dnswire_encoder_encode L e1 len = Inr (res0, e, bs)" "e_state e1 = e_state (wr_encoder h)"
        "encoder_next (e_state (wr_encoder h)) = Some (e_state e, res0)"
        "e_dnstap e = e_dnstap (wr_encoder h)" "out_pending b = out_pending (wr_out h) @ bs"
        "same_io w w1" "out_ok b" "encoder_ok e" by blast
    have res0: "res0 = dnswire_again" "e_state e = dnswire_encoder_control_start"
      using es f(4) by auto
    let ?h = "h\<lparr>wr_encoder := e, wr_out := b\<rparr>"
    let ?g = "?h\<lparr>wr_state := dnswire_writer_writing\<rparr>"
    have "bs \<noteq> []" using control_nonempty [OF ne f(2)] f(3) es res0(1) by simp
    then have pending: "o_left b \<noteq> 0"
      using f(6) out_pending_length [OF f(8)] by (cases bs) auto
    have okg: "writer_ok ?g"
      by (rule writer_ok_output [OF ok f(8,9)])
        (simp_all add: decoding_def may_have_pending_def undirected_def stops_def)
    from r enc False pending have w: "write_writing_ready L w1 dnswire_again ?g = Inr (res, h', w')"
      by (simp add: write_encoding_ready_def res0)
    from writing_ready_passes [OF L okg _ _ w] left(2) have
      p: "passes 1 w1 ?g (res, h', w')" "res \<in> {dnswire_again, dnswire_need_more, dnswire_error}" by auto
    show ?thesis
      by (rule wrote_frame [where ?h1.0 = ?g and r = res0, OF f(1) _ _ _ _ p(1)])
        (use f p(2) res0 es st in \<open>auto simp: write_cost_def in_phase_def same_io_def\<close>)
  qed
qed

lemma encoding_stop_wrote:
  assumes L: "extlib_ok L" and ok: "writer_ok h" and ph: "in_phase h"
    and st: "wr_state h = dnswire_writer_encoding_stop"
    and r: "write_encoding_stop L w h = Inr (res, h', w')"
  shows "wrote L w h (res, h', w')"
proof -
  have left: "o_left (wr_out h) = 0" using ok st by (auto simp: writer_ok_def)
  have es: "e_state (wr_encoder h) = dnswire_encoder_control_stop"
    using ph st by (simp add: in_phase_def)
  obtain res0 e b w1 where enc: "encoding L w (wr_encoder h) (wr_out h) = Inr (res0, e, b, w1)"
    using r by (cases "encoding L w (wr_encoder h) (wr_out h)") (auto simp: write_encoding_stop_def)
  show ?thesis
  proof (cases "res0 = dnswire_error")
    case True
    with r enc show ?thesis by (simp add: write_encoding_stop_def wrote_def)
  next
    case False
    from encoding_one [OF L(1) ok left enc False] obtain bs e1 len where
      f: "written L (e_state (wr_encoder h), e_dnstap (wr_encoder h), bs)"
        "dnswire_encoder_encode L e1 len = Inr (res0, e, bs)" "e_state e1 = e_state (wr_encoder h)"
        "encoder_next (e_state (wr_encoder h)) = Some (e_state e, res0)"
        "e_dnstap e = e_dnstap (wr_encoder h)" "out_pending b = out_pending (wr_out h) @ bs"
        "same_io w w1" "out_ok b" "encoder_ok e" by blast
    have res0: "res0 = dnswire_endofdata" "e_state e = dnswire_encoder_done"
      using es f(4) by auto
    let ?g = "h\<lparr>wr_encoder := e, wr_out := b, wr_state := dnswire_writer_writing_stop\<rparr>"
    have okg: "writer_ok ?g"
      by (rule writer_ok_output [OF ok f(8,9)])
        (simp_all add: decoding_def may_have_pending_def undirected_def stops_def)
    from r enc have w: "write_writing_stop w1 ?g = Inr (res, h', w')"
      by (simp add: write_encoding_stop_def res0)
    from writing_stop_passes [OF okg _ w] have
      p: "passes 1 w1 ?g (res, h', w')" "res \<in> {dnswire_again, dnswire_endofdata, dnswire_error}" by auto
    show ?thesis
      by (rule wrote_frame [where ?h1.0 = ?g and r = res0, OF f(1) _ _ _ _ p(1)])
        (use f p(2) res0 es st in \<open>auto simp: write_cost_def in_phase_def same_io_def\<close>)
  qed
qed

lemma stopping_wrote:
  assumes L: "extlib_ok L" and ok: "writer_ok h" and ph: "in_phase h"
    and st: "wr_state h = dnswire_writer_stopping"
    and r: "write_stopping L w h = Inr (res, h', w')"
  shows "wrote L w h (res, h', w')"
proof -
  have st2: "wr_state h \<in> {dnswire_writer_stopping, dnswire_writer_writing_stop}" using st by simp
  from ok st2 r [unfolded write_stopping_def] show ?thesis
  proof (cases rule: pending_cases)
    case fails
    then show ?thesis by (simp add: wrote_def)
  next
    case some
    then show ?thesis using passes_wrote [OF some(2) _ _ ph] by simp
  next
    case none
    let ?g = "h\<lparr>wr_state := dnswire_writer_encoding_stop\<rparr>"
    have "writer_ok ?g" "in_phase ?g"
      using ok none(1) st ph by (simp_all add: writer_ok_def in_phase_def)
    from encoding_stop_wrote [OF L this _ none(2)] have "wrote L w ?g (res, h', w')" by simp
    then show ?thesis
      by (rule wrote_after [where out = "[]"]) (simp_all add: write_cost_def)
  next
    case (all h1 w1 n)
    let ?g = "h1\<lparr>wr_state := dnswire_writer_encoding_stop\<rparr>"
    have okd: "out_ok (wr_out h1)"
      using outq.drain_ok [of "wr_out h" n] writer_okD(1) [OF ok] all(3,4)
      by (simp add: out_pending_length)
    have g: "writer_ok ?g" "in_phase ?g"
      using ok okd all(2,3) st ph by (simp_all add: writer_ok_def in_phase_def)
    from encoding_stop_wrote [OF L g _ all(5)] have w: "wrote L w1 ?g (res, h', w')" by simp
    from write_bytes_uses [OF writer_okD(1) [OF ok] all(1)] obtain k where
      k: "h1 = h\<lparr>wr_out := out_drain k (wr_out h)\<rparr>"
      "sent w1 = sent w @ take k (out_pending (wr_out h))"
      "out_pending (wr_out h1) = drop k (out_pending (wr_out h))"
      "length (writes w) = Suc (length (writes w1))" "reads w1 = reads w" "inbox w1 = inbox w" by blast
    show ?thesis
      by (rule wrote_after [OF w k(2)]) (use k in \<open>simp_all add: write_cost_def\<close>)
  qed
qed

text \<open>
  Every call that does not fail emits at most one frame, exactly then a message when it returns
  \<open>ok\<close>, uses something up when it asks to be called again, and leaves nothing pending when it
  reports the end.
\<close>

lemma write_wrote:
  assumes L: "extlib_ok L" "tinyframe_consumes L" "tinyframe_nonempty L"
    and ok: "writer_ok h" and ph: "in_phase h"
    and r: "dnswire_writer_write L w h = Inr (res, h', w')"
  shows "wrote L w h (res, h', w')"
proof -
  have buf: "o_buf (wr_out h) \<noteq> None"
    using writer_okD(1) [OF ok] by (auto elim: out_okD)
  have bi: "wr_bidirectional h" if "wr_state h \<in> {dnswire_writer_encoding_ready,
      dnswire_writer_writing_ready, dnswire_writer_reading_accept, dnswire_writer_decoding_accept,
      dnswire_writer_reading_finish, dnswire_writer_decoding_finish}"
    using ok that unfolding writer_ok_def by blast
  have p: ?thesis if "passes 1 w h (res, h', w')" "res \<noteq> dnswire_ok"
    using passes_wrote [OF that(1) _ that(2) ph] by simp
  note eval = dnswire_writer_write_def buf
  show ?thesis
  proof (cases "wr_state h")
    case dnswire_writer_encoding_ready
    with r have "write_encoding_ready L w h = Inr (res, h', w')" by (simp add: eval)
    from encoding_ready_wrote [OF L ok ph dnswire_writer_encoding_ready this] show ?thesis .
  next
    case dnswire_writer_writing_ready
    with r have "write_writing_ready L w dnswire_again h = Inr (res, h', w')" by (simp add: eval)
    from writing_ready_passes [OF L(1,2) ok _ _ this] bi dnswire_writer_writing_ready p show ?thesis by auto
  next
    case dnswire_writer_reading_accept
    with r have "write_reading_accept L w h = Inr (res, h', w')" by (simp add: eval)
    from reading_accept_passes [OF L(1,2) ok dnswire_writer_reading_accept this] p show ?thesis by auto
  next
    case dnswire_writer_decoding_accept
    with r have "pop_decoding_accept L w h = Inr (res, h', w')"
      by (simp add: eval write_decoding_accept_def)
    from decoding_accept_passes [OF L(1,2) ok dnswire_writer_decoding_accept this] p show ?thesis by auto
  next
    case dnswire_writer_encoding
    with r have "write_encoding L w h = Inr (res, h', w')" by (simp add: eval)
    from encoding_wrote [OF L(1) ok ph dnswire_writer_encoding this] show ?thesis .
  next
    case dnswire_writer_writing
    with r have "write_writing w dnswire_again h = Inr (res, h', w')" by (simp add: eval)
    from writing_passes [OF ok dnswire_writer_writing this] p show ?thesis by auto
  next
    case dnswire_writer_stopping
    with r have "write_stopping L w h = Inr (res, h', w')" by (simp add: eval)
    from stopping_wrote [OF L(1) ok ph dnswire_writer_stopping this] show ?thesis .
  next
    case dnswire_writer_encoding_stop
    with r have "write_encoding_stop L w h = Inr (res, h', w')" by (simp add: eval)
    from encoding_stop_wrote [OF L(1) ok ph dnswire_writer_encoding_stop this] show ?thesis .
  next
    case dnswire_writer_writing_stop
    with r have "write_writing_stop w h = Inr (res, h', w')" by (simp add: eval)
    from writing_stop_passes [OF ok dnswire_writer_writing_stop this] p show ?thesis by auto
  next
    case dnswire_writer_reading_finish
    with r have "write_reading_finish L w h = Inr (res, h', w')" by (simp add: eval)
    from reading_finish_passes [OF L(1) ok dnswire_writer_reading_finish this] p show ?thesis by auto
  next
    case dnswire_writer_decoding_finish
    with r have "pop_decoding_finish L w h = Inr (res, h', w')"
      by (simp add: eval write_decoding_finish_def)
    from decoding_finish_passes [OF L(1) ok dnswire_writer_decoding_finish this] p show ?thesis by auto
  next
    case dnswire_writer_done
    with r show ?thesis by (simp add: eval wrote_def)
  qed
qed

end
