(* ===== verification/Writing_Through.thy ===== *)
theory Writing_Through
  imports Write_Steps Good_World
begin

text \<open>
  Writing a conversation to its end: with a world that does its work and a message whose frame fits into
  the largest buffer, no call of \<open>dnswire_writer_write\<close> fails.
\<close>

section \<open>One call\<close>

text \<open>
  A writer between START and STOP in a conversation of the message \<open>d\<close>: a call of \<open>write\<close> for each byte
  that is pending or to come would do. Until STOP has gone out it leaves alone what belongs to the
  answers of the peer, \<open>A\<close>.
\<close>

definition to_write :: "nat \<Rightarrow> nat \<Rightarrow> ('r, 'w) dnswire_writer \<Rightarrow> nat" where
  "to_write n k h = o_left (wr_out h) + n * k"

type_synonym 'r answer_side = "bool \<times> 'r dnswire_decoder \<times> inbuf \<times> byte list \<times> int list"

definition answer_side :: "world \<Rightarrow> ('r, 'w) dnswire_writer \<Rightarrow> 'r answer_side" where
  "answer_side w h = (wr_bidirectional h, wr_decoder h, wr_in h, inbox w, reads w)"

definition able :: "nat \<Rightarrow> dnstap \<Rightarrow> 'r answer_side \<Rightarrow> world \<Rightarrow> ('r, 'w) dnswire_writer \<Rightarrow> bool" where
  "able n d A w h \<longleftrightarrow> answer_side w h = A \<and> e_dnstap (wr_encoder h) = Some d \<and> n \<le> o_max (wr_out h) \<and>
     allocates w \<and> sends w"

lemma answer_side_simps [simp]:
  "answer_side w (h\<lparr>wr_out := b\<rparr>) = answer_side w h" "answer_side w (h\<lparr>wr_state := s\<rparr>) = answer_side w h"
  "answer_side w (h\<lparr>wr_encoder := e\<rparr>) = answer_side w h"
  by (simp_all add: answer_side_def)

definition midway :: "('r, 'w) dnswire_writer \<Rightarrow> bool" where
  "midway h \<longleftrightarrow> wr_state h \<in> {dnswire_writer_encoding, dnswire_writer_writing, dnswire_writer_stopping,
     dnswire_writer_encoding_stop, dnswire_writer_writing_stop} \<and>
     (wr_state h = dnswire_writer_writing \<longrightarrow> o_left (wr_out h) \<noteq> 0)"

definition writing_on :: "nat \<Rightarrow> dnstap \<Rightarrow> 'r answer_side \<Rightarrow> world \<Rightarrow> ('r, 'w) dnswire_writer \<Rightarrow> bool" where
  "writing_on n d A w h \<longleftrightarrow> writer_ok h \<and> in_phase h \<and> midway h \<and> able n d A w h \<and>
     to_write n (frames_ahead (e_state (wr_encoder h))) h \<le> length (writes w)"

text \<open>
  A call that does not fail; after \<open>ok\<close> the message is written and only STOP is ahead. When STOP is
  written as well, the stream is over, or FINISH is waited for.
\<close>

definition wrote_on :: "nat \<Rightarrow> dnstap \<Rightarrow> 'r answer_side \<Rightarrow>
    fault + dnswire_result \<times> ('r, 'w) dnswire_writer \<times> world \<Rightarrow> bool" where
  "wrote_on n d A x \<longleftrightarrow> (\<exists>res h' w'. x = Inr (res, h', w') \<and>
     (res = dnswire_endofdata \<and> \<not> fst A \<or>
      res = dnswire_again \<and> fst A \<and> wr_state h' = dnswire_writer_reading_finish \<and> answer_side w' h' = A \<or>
      res \<in> {dnswire_ok, dnswire_again} \<and> able n d A w' h' \<and> midway h' \<and>
        to_write n (if res = dnswire_ok then 1 else frames_ahead (e_state (wr_encoder h'))) h' \<le> length (writes w')))"

text \<open>A \<open>write\<close> of what is pending.\<close>

lemma write_bytes_on:
  assumes ok: "out_ok (wr_out h)" "0 < o_left (wr_out h)" and a: "able n d A w h" and w: "writes w \<noteq> []"
  obtains b w' where "write_bytes w h = Inr (Some (h\<lparr>wr_out := b\<rparr>), w')" and "out_ok b"
    and "o_left b < o_left (wr_out h)" and "length (writes w) = Suc (length (writes w'))"
    and "able n d A w' (h\<lparr>wr_out := b\<rparr>)"
proof -
  have s: "sends w" "allocates w" using a by (simp_all add: able_def)
  show thesis
  proof (cases rule: drain_on [OF ok s w])
    case (1 k w')
    let ?b = "out_drain k (wr_out h)"
    have r: "write_bytes w h = Inr (Some (h\<lparr>wr_out := ?b\<rparr>), w')" using 1 by (simp add: write_bytes_def)
    show thesis
      by (rule that [OF r]) (use 1 ok a in \<open>auto simp: able_def answer_side_def\<close>)
  qed
qed

lemma writing_on_write:
  assumes ok: "out_ok (wr_out h)" "0 < o_left (wr_out h)" and a: "able n d A w h"
    and st: "wr_state h = dnswire_writer_writing" and res: "res \<in> {dnswire_ok, dnswire_again}"
    and budget: "to_write n (if res = dnswire_ok then 1 else frames_ahead (e_state (wr_encoder h))) h \<le> length (writes w)"
  shows "wrote_on n d A (write_writing w res h)"
proof -
  have "writes w \<noteq> []" using budget ok(2) by (auto simp: to_write_def)
  from write_bytes_on [OF ok a this] obtain b w' where
    r: "write_bytes w h = Inr (Some (h\<lparr>wr_out := b\<rparr>), w')" "o_left b < o_left (wr_out h)"
      "length (writes w) = Suc (length (writes w'))" "able n d A w' (h\<lparr>wr_out := b\<rparr>)" by blast
  show ?thesis
    using r res budget st
    by (auto simp: write_writing_def wrote_on_def to_write_def midway_def able_def)
qed

lemma write_encoding_on:
  assumes L: "extlib_ok L" "tinyframe_forms L form m" and d: "fits L form m n d"
    and on: "writing_on n d A w h" and st: "wr_state h = dnswire_writer_encoding"
  shows "wrote_on n d A (write_encoding L w h)"
proof -
  have ok: "writer_ok h" and a: "able n d A w h" and ph: "in_phase h"
    and budget: "to_write n (frames_ahead (e_state (wr_encoder h))) h \<le> length (writes w)"
    using on by (simp_all add: writing_on_def)
  have left: "o_left (wr_out h) = 0" using ok st by (auto simp: writer_ok_def)
  have es: "e_state (wr_encoder h) \<in> {dnswire_encoder_control_start, dnswire_encoder_frames}"
    using ph st by (simp add: in_phase_def)
  have q: "e_dnstap (wr_encoder h) = Some d" "n \<le> o_max (wr_out h)" "allocates w" "sends w"
    "answer_side w h = A" using a by (simp_all add: able_def)
  from es have nd: "e_state (wr_encoder h) \<noteq> dnswire_encoder_done" by auto
  have fr: "frame_fits L form m n (e_dnstap (wr_encoder h)) (e_state (wr_encoder h))"
    using fits_frame [OF d nd] q(1) by simp
  obtain res e b w' where r: "encoding L w (wr_encoder h) (wr_out h) = Inr (res, e, b, w')"
      "encoder_next (e_state (wr_encoder h)) = Some (e_state e, res)" "res \<noteq> dnswire_error"
      "e_dnstap e = e_dnstap (wr_encoder h)" "0 < o_left b" "o_left b \<le> n" "o_max b = o_max (wr_out h)" "out_ok b"
      "allocates w'" "same_io w w'"
    by (rule encoding_fits [OF L writer_okD(1) [OF ok] left writer_okD(2) [OF ok] fr q(2,3)])
  let ?g = "h\<lparr>wr_encoder := e, wr_out := b, wr_state := dnswire_writer_writing\<rparr>"
  have a': "able n d A w' ?g" using r q same_io_sends [OF r(10)] by (simp add: able_def answer_side_def same_io_def)
  have res: "res \<in> {dnswire_ok, dnswire_again}" using r(2) es by auto
  have "writes w' = writes w" using r(10) by (simp add: same_io_def)
  moreover have "Suc (if res = dnswire_ok then 1 else frames_ahead (e_state e)) = frames_ahead (e_state (wr_encoder h))"
    using r(2) es by auto
  ultimately have "to_write n (if res = dnswire_ok then 1 else frames_ahead (e_state (wr_encoder ?g))) ?g \<le> length (writes w')"
    using budget left r(6) es r(2) by (auto simp: to_write_def)
  from writing_on_write [OF _ _ a' _ res this] r(5,8) r(1,3) show ?thesis
    by (simp add: write_encoding_def)
qed

text \<open>Nothing is pending, or a \<open>write\<close> leaves something for the next call, or it leaves nothing.\<close>

lemma write_pending_on:
  assumes ok: "out_ok (wr_out h)" and a: "able n d A w h"
    and st: "wr_state h \<in> {dnswire_writer_stopping, dnswire_writer_writing_stop}"
    and budget: "to_write n (frames_ahead (e_state (wr_encoder h))) h \<le> length (writes w)"
    and k: "\<And>b w'. out_ok b \<Longrightarrow> o_left b = 0 \<Longrightarrow> able n d A w' (h\<lparr>wr_out := b\<rparr>) \<Longrightarrow>
      n * frames_ahead (e_state (wr_encoder h)) \<le> length (writes w') \<Longrightarrow> wrote_on n d A (k (h\<lparr>wr_out := b\<rparr>) w')"
  shows "wrote_on n d A (write_pending w h k)"
proof (cases "o_left (wr_out h) = 0")
  case True
  have "wrote_on n d A (k (h\<lparr>wr_out := wr_out h\<rparr>) w)"
    by (rule k) (use ok True a budget in \<open>auto simp: to_write_def\<close>)
  with True show ?thesis by (simp add: write_pending_def)
next
  case False
  have "writes w \<noteq> []" using budget False by (auto simp: to_write_def)
  from write_bytes_on [OF ok _ a this] False obtain b w' where
    r: "write_bytes w h = Inr (Some (h\<lparr>wr_out := b\<rparr>), w')" "out_ok b" "o_left b < o_left (wr_out h)"
      "length (writes w) = Suc (length (writes w'))" and a': "able n d A w' (h\<lparr>wr_out := b\<rparr>)" by blast
  have less: "to_write n (frames_ahead (e_state (wr_encoder h))) (h\<lparr>wr_out := b\<rparr>) \<le> length (writes w')"
    using r(3,4) budget by (simp add: to_write_def)
  show ?thesis
  proof (cases "o_left b = 0")
    case True
    have "n * frames_ahead (e_state (wr_encoder h)) \<le> length (writes w')"
      using less by (simp add: to_write_def True)
    from k [OF r(2) True a' this] r(1) False True show ?thesis by (simp add: write_pending_def)
  next
    case left: False
    with r(1) False a' less st show ?thesis by (auto simp: write_pending_def wrote_on_def midway_def)
  qed
qed

lemma write_writing_stop_on:
  assumes ok: "out_ok (wr_out h)" and a: "able n d A w h" and st: "wr_state h = dnswire_writer_writing_stop"
    and budget: "to_write n (frames_ahead (e_state (wr_encoder h))) h \<le> length (writes w)"
  shows "wrote_on n d A (write_writing_stop w h)"
  unfolding write_writing_stop_def
  by (rule write_pending_on [OF ok a _ budget]) (use st in \<open>auto simp: wrote_on_def able_def answer_side_def\<close>)

lemma write_encoding_stop_on:
  assumes L: "extlib_ok L" "tinyframe_forms L form m" and d: "fits L form m n d"
    and ok: "writer_ok h" and a: "able n d A w h" and left: "o_left (wr_out h) = 0"
    and st: "wr_state h = dnswire_writer_encoding_stop" and budget: "n \<le> length (writes w)"
  shows "wrote_on n d A (write_encoding_stop L w h)"
proof -
  have es: "e_state (wr_encoder h) = dnswire_encoder_control_stop" using ok st by (simp add: writer_ok_def)
  have q: "e_dnstap (wr_encoder h) = Some d" "n \<le> o_max (wr_out h)" "allocates w" "sends w"
    "answer_side w h = A" using a by (simp_all add: able_def)
  have nd: "e_state (wr_encoder h) \<noteq> dnswire_encoder_done" using es by simp
  have fr: "frame_fits L form m n (e_dnstap (wr_encoder h)) (e_state (wr_encoder h))"
    using fits_frame [OF d nd] q(1) by simp
  obtain res e b w' where r: "encoding L w (wr_encoder h) (wr_out h) = Inr (res, e, b, w')"
      "encoder_next (e_state (wr_encoder h)) = Some (e_state e, res)" "res \<noteq> dnswire_error"
      "e_dnstap e = e_dnstap (wr_encoder h)" "0 < o_left b" "o_left b \<le> n" "o_max b = o_max (wr_out h)" "out_ok b"
      "allocates w'" "same_io w w'"
    by (rule encoding_fits [OF L writer_okD(1) [OF ok] left writer_okD(2) [OF ok] fr q(2,3)])
  let ?g = "h\<lparr>wr_encoder := e, wr_out := b, wr_state := dnswire_writer_writing_stop\<rparr>"
  have a': "able n d A w' ?g" using r q same_io_sends [OF r(10)] by (simp add: able_def answer_side_def same_io_def)
  have e: "res = dnswire_endofdata" "e_state e = dnswire_encoder_done" using r(2) es by auto
  have "writes w' = writes w" using r(10) by (simp add: same_io_def)
  then have "to_write n (frames_ahead (e_state (wr_encoder ?g))) ?g \<le> length (writes w')"
    using budget r(6) by (simp add: to_write_def e)
  from write_writing_stop_on [OF _ a' _ this] r(1,8) e(1) show ?thesis
    by (simp add: write_encoding_stop_def)
qed

lemma write_stopping_on:
  assumes L: "extlib_ok L" "tinyframe_forms L form m" and d: "fits L form m n d"
    and on: "writing_on n d A w h" and st: "wr_state h = dnswire_writer_stopping"
  shows "wrote_on n d A (write_stopping L w h)"
proof -
  have ok: "writer_ok h" and a: "able n d A w h"
    and budget: "to_write n (frames_ahead (e_state (wr_encoder h))) h \<le> length (writes w)"
    using on by (simp_all add: writing_on_def)
  have es: "e_state (wr_encoder h) = dnswire_encoder_control_stop" using ok st by (simp add: writer_ok_def)
  show ?thesis
    unfolding write_stopping_def
  proof (rule write_pending_on [OF writer_okD(1) [OF ok] a _ budget])
    fix b and w' :: world
    assume b: "out_ok b" "o_left b = 0" and a': "able n d A w' (h\<lparr>wr_out := b\<rparr>)"
      and bud: "n * frames_ahead (e_state (wr_encoder h)) \<le> length (writes w')"
    let ?g = "h\<lparr>wr_out := b, wr_state := dnswire_writer_encoding_stop\<rparr>"
    have okg: "writer_ok ?g" using ok b st es by (simp add: writer_ok_def)
    have "able n d A w' ?g" using a' by (simp add: able_def)
    from write_encoding_stop_on [OF L d okg this] b(2) bud es
    show "wrote_on n d A (write_encoding_stop L w' ((h\<lparr>wr_out := b\<rparr>)\<lparr>wr_state := dnswire_writer_encoding_stop\<rparr>))"
      by simp
  qed (use st in simp_all)
qed

lemma write_goes_on:
  assumes L: "extlib_ok L" "tinyframe_forms L form m" and d: "fits L form m n d" and on: "writing_on n d A w h"
  shows "wrote_on n d A (dnswire_writer_write L w h)"
proof -
  have ok: "writer_ok h" and a: "able n d A w h" and nd: "midway h"
    and budget: "to_write n (frames_ahead (e_state (wr_encoder h))) h \<le> length (writes w)"
    using on by (simp_all add: writing_on_def)
  have buf: "o_buf (wr_out h) \<noteq> None" using writer_okD(1) [OF ok] by (auto elim: out_okD)
  note eval = dnswire_writer_write_def buf
  from nd consider "wr_state h = dnswire_writer_encoding" | "wr_state h = dnswire_writer_writing"
    | "wr_state h = dnswire_writer_stopping" | "wr_state h = dnswire_writer_encoding_stop"
    | "wr_state h = dnswire_writer_writing_stop"
    by (auto simp: midway_def)
  then show ?thesis
  proof cases
    case 1
    with write_encoding_on [OF L d on] show ?thesis by (simp add: eval)
  next
    case 2
    have "0 < o_left (wr_out h)" using on 2 by (simp add: writing_on_def midway_def)
    from writing_on_write [OF writer_okD(1) [OF ok] this a 2, of dnswire_again] budget 2
    show ?thesis by (simp add: eval)
  next
    case 3
    with write_stopping_on [OF L d on] show ?thesis by (simp add: eval)
  next
    case 4
    have "o_left (wr_out h) = 0" "n \<le> length (writes w)"
      using ok 4 budget by (auto simp: writer_ok_def to_write_def)
    from write_encoding_stop_on [OF L d ok a this(1) 4 this(2)] 4 show ?thesis by (simp add: eval)
  next
    case 5
    from write_writing_stop_on [OF writer_okD(1) [OF ok] a 5 budget] 5 show ?thesis by (simp add: eval)
  qed
qed

end
