(* ===== verification/Socket_Setup.thy ===== *)
theory Socket_Setup
  imports Print_Dnstap
begin

text \<open>
  The socket addresses the example programs \<open>sender.c\<close>, \<open>receiver.c\<close> and \<open>reader_sender.c\<close> build
  from their command line, and the calls they make with them. The structures have the layout of
  Linux on a 64-bit little endian machine: \<open>sockaddr_in\<close> has 16 bytes (family, port, address at 4,
  padding), \<open>sockaddr_in6\<close> 28 (family, port, flow information at 4, address at 8, scope), both inside
  a \<open>sockaddr_storage\<close> of 128, and \<open>sockaddr_un\<close> 110 (family, path). \<open>inet_pton\<close> is a parameter:
  the bytes it stores, or nothing when it does not return 1. What the kernel answers is a parameter.
\<close>

section \<open>The code\<close>

text \<open>\<open>atoi\<close>, for numbers in the range of \<open>int\<close>.\<close>

fun digits_from :: "int \<Rightarrow> byte list \<Rightarrow> int" where
  "digits_from n [] = n"
| "digits_from n (c # s) =
     (if 48 \<le> c \<and> c \<le> 57 then digits_from (10 * n + int (unat (c - 48))) s else n)"

definition isspace :: "byte \<Rightarrow> bool" where
  "isspace c \<longleftrightarrow> c = 32 \<or> 9 \<le> c \<and> c \<le> 13"

definition atoi :: "byte list \<Rightarrow> int" where
  "atoi s = (case dropWhile isspace s of
       [] \<Rightarrow> 0
     | c # t \<Rightarrow> if c = 45 then - digits_from 0 t
                else if c = 43 then digits_from 0 t else digits_from 0 (c # t))"

text \<open>The 16 bits \<open>ntohs\<close> leaves in memory: the most significant byte first.\<close>

definition port_bytes :: "int \<Rightarrow> byte list" where
  "port_bytes p = (let w = (word_of_int p :: 16 word) in [ucast (drop_bit 8 w), ucast w])"

fun family_bytes :: "address_family \<Rightarrow> byte list" where
  "family_bytes AF_INET = [2, 0]"
| "family_bytes AF_INET6 = [10, 0]"

fun addrlen :: "address_family \<Rightarrow> nat" where
  "addrlen AF_INET = 16"
| "addrlen AF_INET6 = 28"

definition family_of :: "string \<Rightarrow> address_family" where
  "family_of host = (if CHR '':'' \<in> set host then AF_INET6 else AF_INET)"

text \<open>
  The \<open>addrlen\<close> bytes that are passed on. The code stores the address at \<open>sin_addr\<close> for both
  families.
\<close>

definition inet_address :: "inet_pton \<Rightarrow> string \<Rightarrow> string \<Rightarrow> fault + block option" where
  "inet_address pton host port =
     bindF (mem_store (Some (fresh_block 128)) 0 (family_bytes (family_of host))) (\<lambda>b1.
     case pton (family_of host) host of
       None \<Rightarrow> Inr None
     | Some a \<Rightarrow>
         bindF (mem_store b1 4 a) (\<lambda>b2.
         bindF (mem_store b2 2 (port_bytes (atoi (chars port)))) (\<lambda>b3.
         Inr (map_option (take (addrlen (family_of host))) b3))))"

text \<open>\<open>strncpy\<close> into the 108 bytes of \<open>sun_path\<close>, which were set to zero.\<close>

definition unix_address :: "string \<Rightarrow> block" where
  "unix_address path =
     map Some ([1, 0] @ take 107 (chars path) @ replicate (108 - length (take 107 path)) 0)"

text \<open>What the kernel answers to the calls; \<open>bind\<close> and \<open>connect\<close> depend on the address they get.\<close>

record kernel =
  k_socket :: bool
  k_bind :: "block \<Rightarrow> bool"
  k_listen :: bool
  k_accept :: bool
  k_connect :: "block \<Rightarrow> bool"

text \<open>Calls in order, each followed by a line with its name; the first that fails ends the program.\<close>

fun calls :: "(bool \<times> string) list \<Rightarrow> bool \<times> byte list" where
  "calls [] = (True, [])"
| "calls ((answer, name) # cs) =
     (if answer then (case calls cs of (r, t) \<Rightarrow> (r, chars name @ newline @ t)) else (False, []))"

text \<open>\<open>args\<close> is \<open>argv\<close> from the argument with the address on.\<close>

definition sender_socket :: "inet_pton \<Rightarrow> kernel \<Rightarrow> string list \<Rightarrow> fault + bool \<times> byte list" where
  "sender_socket pton k args =
     (if length args = 1
      then Inr (calls [(k_socket k, ''socket''), (k_connect k (unix_address (args ! 0)), ''connect'')])
      else bindF (inet_address pton (args ! 0) (args ! 1)) (\<lambda>addr. case addr of
             None \<Rightarrow> Inr (False, [])
           | Some a \<Rightarrow> Inr (calls [(k_socket k, ''socket''), (k_connect k a, ''connect'')])))"

definition receiver_socket :: "inet_pton \<Rightarrow> kernel \<Rightarrow> string list \<Rightarrow> fault + bool \<times> byte list" where
  "receiver_socket pton k args =
     (let rest = [(k_listen k, ''listen''), (k_accept k, ''accept'')] in
      if length args = 1
      then Inr (calls ([(k_socket k, ''socket''), (k_bind k (unix_address (args ! 0)), ''bind'')] @ rest))
      else bindF (inet_address pton (args ! 0) (args ! 1)) (\<lambda>addr. case addr of
             None \<Rightarrow> Inr (False, [])
           | Some a \<Rightarrow> Inr (calls ([(k_socket k, ''socket''), (k_bind k a, ''bind'')] @ rest))))"

section \<open>The address the kernel sees\<close>

text \<open>\<open>inet_pton\<close> stores 4 bytes for \<open>AF_INET\<close> and 16 for \<open>AF_INET6\<close>.\<close>

definition inet_pton_ok :: "inet_pton \<Rightarrow> bool" where
  "inet_pton_ok pton \<longleftrightarrow> (\<forall>host a. (pton AF_INET host = Some a \<longrightarrow> length a = 4) \<and>
     (pton AF_INET6 host = Some a \<longrightarrow> length a = 16))"

text \<open>The fields of the two structures.\<close>

definition field :: "nat \<Rightarrow> nat \<Rightarrow> block \<Rightarrow> block" where
  "field off n b = take n (drop off b)"

lemma port_bytes_length [simp]: "length (port_bytes p) = 2"
  by (simp add: port_bytes_def Let_def)

lemma length_two:
  assumes "length xs = 2"
  shows "\<exists>x y. xs = [x, y]"
proof (cases xs)
  case (Cons x ys)
  with assms show ?thesis by (cases ys) auto
qed (use assms in simp)

lemma drop_two: "drop (4 + n) (x # y # l) = drop (2 + n) l"
  by (simp add: numeral_eq_Suc)

lemma inet_address_fields:
  assumes "inet_pton_ok pton" and "pton (family_of host) host = Some a"
  shows "inet_address pton host port = Inr (Some (take (addrlen (family_of host))
     (map Some (family_bytes (family_of host) @ port_bytes (atoi (chars port)) @ a) @
      replicate (124 - length a) None)))" and "length a = addrlen (family_of host) - 12"
proof -
  have len: "length a = addrlen (family_of host) - 12"
    using assms by (cases "family_of host") (auto simp: inet_pton_ok_def)
  have fb: "length (family_bytes f) = 2" for f by (cases f) simp_all
  obtain p q where pb: "port_bytes (atoi (chars port)) = [p, q]"
    using length_two [OF port_bytes_length] by blast
  obtain x y where f: "family_bytes (family_of host) = [x, y]"
    using length_two [OF fb] by blast
  have a: "length a \<le> 16" using len by (cases "family_of host") simp_all
  have t: "take 4 (Some x # Some y # replicate 126 None) = [Some x, Some y, None, None]"
    by (simp add: numeral_eq_Suc)
  have d: "drop (4 + length a) (Some x # Some y # replicate 126 None) = replicate (124 - length a) None"
    by (simp only: drop_two drop_replicate) simp
  have "fresh_block 128 = None # None # replicate 126 None"
    by (simp add: fresh_block_def numeral_eq_Suc)
  then show "inet_address pton host port = Inr (Some (take (addrlen (family_of host))
     (map Some (family_bytes (family_of host) @ port_bytes (atoi (chars port)) @ a) @
      replicate (124 - length a) None)))"
    using assms(2) a
    by (simp add: inet_address_def pb f mem_store_def t d)
  show "length a = addrlen (family_of host) - 12" by (rule len)
qed


text \<open>
  C39: The address \<open>connect\<close> and \<open>bind\<close> get. A host and port of IPv4 arrive as they were given, and a
  path of at most 107 bytes arrives whole, followed by a zero. An IPv6 host does not: its first four
  bytes are in the field of the flow information, the other twelve at the beginning of the address
  and the last four bytes of the address were never written.
\<close>
theorem socket_address_passed:
  assumes "inet_pton_ok pton" and "pton (family_of host) host = Some a"
  shows "\<exists>b. inet_address pton host port = Inr (Some b) \<and> length b = addrlen (family_of host) \<and>
     field 2 2 b = map Some (port_bytes (atoi (chars port))) \<and>
     (if family_of host = AF_INET then field 4 4 b = map Some a
      else field 4 4 b = map Some (take 4 a) \<and>
           field 8 16 b = map Some (drop 4 a) @ replicate 4 None) \<and>
     (length path \<le> 107 \<longrightarrow> field 2 108 (unix_address path) =
        map Some (chars path @ replicate (108 - length path) 0))"
proof -
  let ?b = "take (addrlen (family_of host)) (map Some (family_bytes (family_of host) @
     port_bytes (atoi (chars port)) @ a) @ replicate (124 - length a) None)"
  obtain p q where pb: "port_bytes (atoi (chars port)) = [p, q]"
    using length_two [OF port_bytes_length] by blast
  have un: "length path \<le> 107 \<Longrightarrow> field 2 108 (unix_address path) =
      map Some (chars path @ replicate (108 - length path) 0)"
    by (simp add: field_def unix_address_def chars_def)
  note len = inet_address_fields(2) [OF assms]
  show ?thesis
    by (rule exI [of _ ?b])
      (use len un inet_address_fields(1) [OF assms, of port] in
        \<open>cases "family_of host"; simp add: field_def pb drop_map take_map\<close>)
qed

text \<open>Whatever the command line is, setting up the socket faults nowhere.\<close>

lemma inet_address_returns:
  assumes "inet_pton_ok pton"
  shows "\<exists>addr. inet_address pton host port = Inr addr"
proof (cases "pton (family_of host) host")
  case None
  have "length (family_bytes f) = 2" for f by (cases f) simp_all
  with None show ?thesis by (simp add: inet_address_def mem_store_def)
qed (use inet_address_fields [OF assms] in blast)

lemma sender_socket_returns:
  assumes "inet_pton_ok pton"
  shows "\<exists>ok t. sender_socket pton k args = Inr (ok, t)"
proof -
  from inet_address_returns [OF assms] obtain addr where
    a: "inet_address pton (args ! 0) (args ! 1) = Inr addr" by blast
  then have "\<exists>x. sender_socket pton k args = Inr x"
    by (cases addr) (auto simp: sender_socket_def Let_def)
  then show ?thesis by auto
qed

lemma receiver_socket_returns:
  assumes "inet_pton_ok pton"
  shows "\<exists>ok t. receiver_socket pton k args = Inr (ok, t)"
proof -
  from inet_address_returns [OF assms] obtain addr where
    a: "inet_address pton (args ! 0) (args ! 1) = Inr addr" by blast
  then have "\<exists>x. receiver_socket pton k args = Inr x"
    by (cases addr) (auto simp: receiver_socket_def Let_def)
  then show ?thesis by auto
qed

definition toy_pton :: inet_pton where
  "toy_pton f host = Some (case f of AF_INET \<Rightarrow> [127, 0, 0, 1] | AF_INET6 \<Rightarrow> [32, 1] @ replicate 13 0 @ [1])"

lemma toy_pton_ok: "inet_pton_ok toy_pton"
  by (auto simp: inet_pton_ok_def toy_pton_def)

theorem socket_address_passed_witness:
  "\<exists>b. inet_address toy_pton ''2001::1'' ''5353'' = Inr (Some b) \<and>
     field 8 16 b = map Some (replicate 11 0 @ [1]) @ replicate 4 None \<and>
     field 2 2 b = [Some 20, Some 233]"
proof -
  have f: "family_of ''2001::1'' = AF_INET6" by (simp add: family_of_def chars_def)
  have p: "port_bytes (atoi (chars ''5353'')) = [20, 233]"
    by (simp add: atoi_def chars_def isspace_def port_bytes_def Let_def)
  have "toy_pton (family_of ''2001::1'') ''2001::1'' = Some ([32, 1] @ replicate 13 0 @ [1])"
    by (simp add: f toy_pton_def)
  from socket_address_passed [OF toy_pton_ok this, where port = "''5353''"] show ?thesis
    by (simp add: f p numeral_eq_Suc) blast
qed

end
