(* ===== verification/Writer_Programs.thy ===== *)
theory Writer_Programs
  imports Write_Steps Roundtrip Socket_Setup Create_Dnstap
begin

text \<open>
  \<open>examples/writer.c\<close> and \<open>examples/sender.c\<close>: programs that send one message, which they get from
  \<open>create_dnstap\<close>. What \<open>main\<close> does with a message is a function of its own, so that it can be said what
  becomes of a message that can be encoded; the one \<open>create_dnstap\<close> returns cannot. Whether the file was
  opened is a parameter. The loops run with fuel; the number of calls is bounded by what they use up.
\<close>

section \<open>The code\<close>

text \<open>How the loop is left: after \<open>dnswire_endofdata\<close>, or with a message about an error.\<close>

datatype outcome = Stopped | Failed

fun writer_loop :: "nat \<Rightarrow> ('r, 'w) extlib \<Rightarrow> world \<Rightarrow> ('r, 'w) dnswire_writer \<Rightarrow>
    fault + outcome \<times> ('r, 'w) dnswire_writer \<times> world" where
  "writer_loop 0 L w h = Inl Out_of_fuel"
| "writer_loop (Suc fuel) L w h =
     bindF (dnswire_writer_fwrite L w h) (\<lambda>(res, h1, w1). case res of
       dnswire_ok \<Rightarrow> writer_loop fuel L w1 (snd (dnswire_writer_stop h1))
     | dnswire_again \<Rightarrow> writer_loop fuel L w1 h1
     | dnswire_endofdata \<Rightarrow> Inr (Stopped, h1, w1)
     | _ \<Rightarrow> Inr (Failed, h1, w1))"

text \<open>
  \<open>main\<close> of \<open>writer.c\<close> for the message \<open>d\<close>: the exit status and, when it came to the loop, how that was
  left.
\<close>

definition writer_main_with :: "nat \<Rightarrow> ('r, 'w) extlib \<Rightarrow> dnstap \<Rightarrow> nat \<Rightarrow> bool \<Rightarrow> world \<Rightarrow>
    fault + nat \<times> outcome option \<times> world" where
  "writer_main_with fuel L d argc opened w =
     (if argc < 2 then Inr (1, None, w)
      else if \<not> opened then Inr (1, None, w)
      else case dnswire_writer_init L w of (res, h, w1) \<Rightarrow>
        if res \<noteq> dnswire_ok then Inr (1, None, w1)
        else bindF (writer_loop fuel L w1 (dnswire_writer_set_dnstap h d)) (\<lambda>(oc, h2, w2).
             Inr (0, Some oc, w2)))"

fun sender_loop :: "nat \<Rightarrow> ('r, 'w) extlib \<Rightarrow> world \<Rightarrow> ('r, 'w) dnswire_writer \<Rightarrow>
    fault + outcome \<times> ('r, 'w) dnswire_writer \<times> world" where
  "sender_loop 0 L w h = Inl Out_of_fuel"
| "sender_loop (Suc fuel) L w h =
     bindF (dnswire_writer_write L w h) (\<lambda>(res, h1, w1). case res of
       dnswire_ok \<Rightarrow> (case dnswire_writer_stop h1 of (res', h2) \<Rightarrow>
         if res' \<noteq> dnswire_ok then Inr (Failed, h2, w1) else sender_loop fuel L w1 h2)
     | dnswire_again \<Rightarrow> sender_loop fuel L w1 h1
     | dnswire_endofdata \<Rightarrow> Inr (Stopped, h1, w1)
     | _ \<Rightarrow> Inr (Failed, h1, w1))"

text \<open>\<open>main\<close> as it is, with the message \<open>create_dnstap\<close> makes; it does nothing but fill in a struct.\<close>

definition writer_main :: "nat \<Rightarrow> ('r, 'w) extlib \<Rightarrow> inet_pton \<Rightarrow> string \<Rightarrow> timespec \<Rightarrow> timespec \<Rightarrow>
    nat \<Rightarrow> bool \<Rightarrow> world \<Rightarrow> fault + nat \<times> outcome option \<times> world" where
  "writer_main fuel L pton version query_time response_time =
     writer_main_with fuel L (create_dnstap L pton version query_time response_time ''writer'')"

text \<open>
  \<open>main\<close> of \<open>sender.c\<close> for the message \<open>d\<close>; the socket is set up between the settings and the loop.
\<close>

definition sender_main_with :: "nat \<Rightarrow> ('r, 'w) extlib \<Rightarrow> dnstap \<Rightarrow> inet_pton \<Rightarrow> kernel \<Rightarrow> string list \<Rightarrow>
    world \<Rightarrow> fault + nat \<times> outcome option \<times> world" where
  "sender_main_with fuel L d pton k argv w =
     (if length argv < 2 then Inr (1, None, w)
      else case dnswire_writer_init L w of (res, h, w1) \<Rightarrow>
        if res \<noteq> dnswire_ok then Inr (1, None, w1)
        else case dnswire_writer_set_bidirectional w1 h True of (res', h1, w2) \<Rightarrow>
          if res' \<noteq> dnswire_ok then Inr (1, None, w2)
          else bindF (sender_socket pton k (tl argv)) (\<lambda>(connected, printed).
               if \<not> connected then Inr (1, None, w2)
               else bindF (sender_loop fuel L w2 (dnswire_writer_set_dnstap h1 d)) (\<lambda>(oc, h3, w3).
                    Inr (0, Some oc, w3))))"

definition sender_main :: "nat \<Rightarrow> ('r, 'w) extlib \<Rightarrow> inet_pton \<Rightarrow> string \<Rightarrow> timespec \<Rightarrow> timespec \<Rightarrow>
    kernel \<Rightarrow> string list \<Rightarrow> world \<Rightarrow> fault + nat \<times> outcome option \<times> world" where
  "sender_main fuel L pton version query_time response_time =
     sender_main_with fuel L (create_dnstap L pton version query_time response_time ''sender'') pton"

section \<open>The frames sent so far\<close>

definition first_frames :: "bool \<Rightarrow> dnswire_encoder_state list" where
  "first_frames bi = (if bi then [dnswire_encoder_control_ready] else [])"

fun sent_before :: "bool \<Rightarrow> dnswire_encoder_state \<Rightarrow> dnswire_encoder_state list \<Rightarrow> bool" where
  "sent_before bi dnswire_encoder_control_ready ks \<longleftrightarrow> bi \<and> ks = []"
| "sent_before bi dnswire_encoder_control_start ks \<longleftrightarrow> ks = first_frames bi"
| "sent_before bi dnswire_encoder_frames ks \<longleftrightarrow> ks = first_frames bi @ [dnswire_encoder_control_start]"
| "sent_before bi dnswire_encoder_control_stop ks \<longleftrightarrow>
     ks = first_frames bi @ [dnswire_encoder_control_start, dnswire_encoder_frames]"
| "sent_before bi dnswire_encoder_done ks \<longleftrightarrow> ks = first_frames bi @
     [dnswire_encoder_control_start, dnswire_encoder_frames, dnswire_encoder_control_stop]"
| "sent_before bi s ks \<longleftrightarrow> False"

lemma sent_before_next:
  assumes "sent_before bi s ks" and "encoder_next s = Some (s', r)" and "r \<noteq> dnswire_ok"
  shows "sent_before bi s' (ks @ [s])"
  using assms by (cases s) (auto simp: first_frames_def)

lemma sent_before_message:
  assumes "sent_before bi s ks" and "encoder_next s = Some (s', dnswire_ok)"
  shows "s = dnswire_encoder_frames \<and> s' = s \<and> sent_before bi dnswire_encoder_control_stop (ks @ [s])"
  using assms by (cases s) auto

text \<open>What has been sent of a conversation of one message, in the middle of the loop.\<close>

definition sending :: "('r, 'w) extlib \<Rightarrow> bool \<Rightarrow> dnstap \<Rightarrow> byte list \<Rightarrow> dnswire_encoder_state \<Rightarrow>
    ('r, 'w) dnswire_writer \<Rightarrow> world \<Rightarrow> bool" where
  "sending L bi d base s h w \<longleftrightarrow> e_dnstap (wr_encoder h) = Some d \<and>
     (\<exists>fs. list_all (written L) fs \<and> sent_before bi s (map fst fs) \<and>
        (\<forall>f \<in> set fs. fst (snd f) = Some d) \<and>
        sent w @ out_pending (wr_out h) = base @ frame_bytes fs)"

lemma sending_wrote:
  assumes s: "sending L bi d base (e_state (wr_encoder h)) h w"
    and x: "wrote L w h (res, h', w')" and res: "res \<noteq> dnswire_error"
  shows "sending L bi d base (if res = dnswire_ok then dnswire_encoder_control_stop
     else e_state (wr_encoder h')) h' w' \<and>
     (res = dnswire_ok \<longrightarrow> e_state (wr_encoder h') = dnswire_encoder_frames)"
proof -
  let ?e = "e_state (wr_encoder h)" and ?e' = "e_state (wr_encoder h')"
  from s obtain fs where f: "e_dnstap (wr_encoder h) = Some d" "list_all (written L) fs"
    "sent_before bi ?e (map fst fs)" "\<forall>f \<in> set fs. fst (snd f) = Some d"
    "sent w @ out_pending (wr_out h) = base @ frame_bytes fs" by (auto simp: sending_def)
  from x res obtain gs out where g: "list_all (written L) gs" "moved res ?e gs ?e'"
    "\<forall>f \<in> set gs. fst (snd f) = Some d" "sent w' = sent w @ out"
    "out @ out_pending (wr_out h') = out_pending (wr_out h) @ frame_bytes gs"
    and d: "e_dnstap (wr_encoder h') = Some d" by (auto simp: wrote_def f(1))
  have b: "sent w' @ out_pending (wr_out h') = base @ frame_bytes (fs @ gs)"
    using f(5) g(4,5) by (metis append_assoc frame_bytes_simps(3))
  have "sent_before bi (if res = dnswire_ok then dnswire_encoder_control_stop else ?e') (map fst (fs @ gs)) \<and>
      (res = dnswire_ok \<longrightarrow> ?e' = dnswire_encoder_frames)"
    using g(2) unfolding moved_def
  proof (elim disjE exE conjE)
    fix x r
    assume k: "gs = [x]" "fst x = ?e" "encoder_next ?e = Some (?e', r)" "(res = dnswire_ok) = (r = dnswire_ok)"
    show ?thesis
    proof (cases "r = dnswire_ok")
      case True
      with sent_before_message [OF f(3), of ?e'] k show ?thesis by simp
    next
      case False
      with sent_before_next [OF f(3) k(3) False] k show ?thesis by simp
    qed
  qed (use f(3) in simp)
  with b f g d show ?thesis
    unfolding sending_def by (intro conjI exI [of _ "fs @ gs"]) auto
qed

text \<open>Stopping after the message.\<close>

lemma stop_sending:
  assumes ok: "writer_ok h" and ph: "in_phase h" and e: "e_state (wr_encoder h) = dnswire_encoder_frames"
    and s: "sending L bi d base dnswire_encoder_control_stop h w"
  shows "\<exists>h'. dnswire_writer_stop h = (dnswire_ok, h') \<and> writer_ok h' \<and> in_phase h' \<and>
     sending L bi d base (e_state (wr_encoder h')) h' w \<and> write_cost w h' < write_cost w h"
proof -
  let ?h = "h\<lparr>wr_encoder := (wr_encoder h)\<lparr>e_state := dnswire_encoder_control_stop\<rparr>,
           wr_state := dnswire_writer_stopping\<rparr>"
  have st: "dnswire_writer_stop h = (dnswire_ok, ?h)"
    using e by (simp add: dnswire_writer_stop_def dnswire_encoder_stop_def Let_def)
  have "wr_state h \<noteq> dnswire_writer_writing_stop"
    using ph e by (auto simp: in_phase_def)
  then have "write_cost w ?h < write_cost w h" using e by (simp add: write_cost_def)
  moreover have "in_phase ?h" by (simp add: in_phase_def)
  moreover have "sending L bi d base dnswire_encoder_control_stop ?h w"
    using s by (simp add: sending_def)
  ultimately show ?thesis using st writer_stop_ok [OF ok st] by simp
qed

definition one_message :: "('r, 'w) extlib \<Rightarrow> bool \<Rightarrow> dnstap \<Rightarrow> wframe list \<Rightarrow> bool" where
  "one_message L bi d fs \<longleftrightarrow> list_all (written L) fs \<and> (\<forall>f \<in> set fs. fst (snd f) = Some d) \<and>
     map fst fs = first_frames bi @
       [dnswire_encoder_control_start, dnswire_encoder_frames, dnswire_encoder_control_stop]"

lemma sender_loop_ends:
  assumes L: "extlib_ok L" "tinyframe_consumes L" "tinyframe_nonempty L"
    and "writer_ok h" and "in_phase h" and "sending L bi d base (e_state (wr_encoder h)) h w"
    and "write_cost w h < fuel"
  shows "\<exists>oc h' w'. sender_loop fuel L w h = Inr (oc, h', w') \<and> writer_loop fuel L w h = Inr (oc, h', w') \<and>
     (oc = Stopped \<longrightarrow> (\<exists>fs. one_message L bi d fs \<and> sent w' = base @ frame_bytes fs))"
  using assms(4-)
proof (induction fuel arbitrary: w h)
  case (Suc fuel)
  note ok = Suc.prems(1) and ph = Suc.prems(2) and s = Suc.prems(3)
  from writer_write_returns [OF L(1) ok, of w] obtain res h1 w1 where
    r: "dnswire_writer_write L w h = Inr (res, h1, w1)" and p: "write_post L w h (res, h1, w1)"
    by (metis prod_cases3)
  from write_wrote [OF L ok ph r] have x: "wrote L w h (res, h1, w1)" .
  note eval = r dnswire_writer_fwrite_def
  show ?case
  proof (cases "res \<in> {dnswire_ok, dnswire_again, dnswire_endofdata}")
    case False
    then show ?thesis by (cases res) (simp_all add: eval)
  next
    case True
    then have ne: "res \<noteq> dnswire_error" by auto
    have ok1: "writer_ok h1" using p ne by (simp add: write_post_def)
    have ph1: "in_phase h1" using x True ne by (auto simp: wrote_def)
    note s1 = sending_wrote [OF s x ne]
    from True consider "res = dnswire_ok" | "res = dnswire_again" | "res = dnswire_endofdata" by auto
    then show ?thesis
    proof cases
      case 1
      with s1 stop_sending [OF ok1 ph1, of L bi d base w1] obtain h2 where
        h2: "dnswire_writer_stop h1 = (dnswire_ok, h2)" "writer_ok h2" "in_phase h2"
          "sending L bi d base (e_state (wr_encoder h2)) h2 w1" "write_cost w1 h2 < write_cost w1 h1" by auto
      have "write_cost w1 h1 \<le> write_cost w h" using x 1 by (simp add: wrote_def)
      with h2(5) Suc.prems(4) have "write_cost w1 h2 < fuel" by simp
      from Suc.IH [OF h2(2-4) this] 1 h2(1) show ?thesis by (simp add: eval)
    next
      case 2
      have "write_cost w1 h1 < write_cost w h" using x 2 by (simp add: wrote_def)
      with Suc.prems(4) have "write_cost w1 h1 < fuel" by simp
      from Suc.IH [OF ok1 ph1 _ this] s1 2 show ?thesis by (simp add: eval)
    next
      case 3
      have d: "wr_state h1 = dnswire_writer_done" "out_pending (wr_out h1) = []"
        using x 3 by (simp_all add: wrote_def)
      then have "e_state (wr_encoder h1) = dnswire_encoder_done" using ph1 by (simp add: in_phase_def)
      with s1 3 d(2) have "\<exists>fs. one_message L bi d fs \<and> sent w1 = base @ frame_bytes fs"
        by (auto simp: sending_def one_message_def)
      with 3 show ?thesis by (simp add: eval)
    qed
  qed
qed simp

lemma sender_set_up:
  assumes i: "dnswire_writer_init L w = (dnswire_ok, h, w1)" and d: "encodable d"
  shows "writer_ok (dnswire_writer_set_dnstap h d)" and "in_phase (dnswire_writer_set_dnstap h d)"
    and "sending L False d (sent w) dnswire_encoder_control_start (dnswire_writer_set_dnstap h d) w1"
    and "e_state (wr_encoder (dnswire_writer_set_dnstap h d)) = dnswire_encoder_control_start"
    and "write_cost w1 (dnswire_writer_set_dnstap h d) =
      length (writes w) + length (reads w) + length (inbox w) + 6"
proof -
  note s = writer_init_sound [OF i]
  have io: "same_io w w1"
    using i sys_alloc_io [of w] by (auto simp: dnswire_writer_init_def Let_def split: prod.splits if_splits)
  let ?h = "dnswire_writer_set_dnstap h d"
  have e: "e_state (wr_encoder h) = dnswire_encoder_control_start"
    by (simp add: s(4) DNSWIRE_ENCODER_INITIALIZER_def)
  have sel: "wr_out ?h = wr_out h" "wr_in ?h = wr_in h" "wr_state ?h = wr_state h"
    "e_state (wr_encoder ?h) = dnswire_encoder_control_start" "e_dnstap (wr_encoder ?h) = Some d"
    by (simp_all add: dnswire_writer_set_dnstap_def dnswire_encoder_set_dnstap_def e)
  show "writer_ok ?h"
    using s(1) d by (simp add: dnswire_writer_set_dnstap_def dnswire_encoder_set_dnstap_def
        writer_ok_def encoder_ok_def)
  show "in_phase ?h" by (simp add: in_phase_def sel s(3))
  have drained: "out_pending (wr_out h) = []"
    using nothing_left [OF writer_okD(1) [OF s(1)] s(5)] by simp
  show "sending L False d (sent w) dnswire_encoder_control_start ?h w1"
    using io unfolding sending_def
    by (intro conjI exI [of _ "[]"]) (simp_all add: sel first_frames_def same_io_def drained)
  show "e_state (wr_encoder ?h) = dnswire_encoder_control_start" by (rule sel)
  show "write_cost w1 ?h = length (writes w) + length (reads w) + length (inbox w) + 6"
    using io by (simp add: write_cost_def sel s(3,6) same_io_def in_live_def)
qed

lemma bidirectional_set_up:
  assumes i: "dnswire_writer_init L w = (dnswire_ok, h, w1)" and d: "encodable d"
    and b: "dnswire_writer_set_bidirectional w1 h True = (dnswire_ok, h1, w2)"
  shows "writer_ok (dnswire_writer_set_dnstap h1 d)" and "in_phase (dnswire_writer_set_dnstap h1 d)"
    and "sending L True d (sent w) dnswire_encoder_control_ready (dnswire_writer_set_dnstap h1 d) w2"
    and "e_state (wr_encoder (dnswire_writer_set_dnstap h1 d)) = dnswire_encoder_control_ready"
    and "write_cost w2 (dnswire_writer_set_dnstap h1 d) =
      length (writes w) + length (reads w) + length (inbox w) + 8"
proof -
  note s = writer_init_sound [OF i]
  have io1: "same_io w w1"
    using i sys_alloc_io [of w] by (auto simp: dnswire_writer_init_def Let_def split: prod.splits if_splits)
  obtain a w3 where a: "sys_alloc w1 = (a, w3)" by (cases "sys_alloc w1")
  from b a s(6) have w2: "w2 = w3"
    and h1: "h1 = h\<lparr>wr_in := (wr_in h)\<lparr>i_buf := Some (fresh_block (i_size (wr_in h)))\<rparr>,
      wr_encoder := (wr_encoder h)\<lparr>e_state := dnswire_encoder_control_ready\<rparr>,
      wr_state := dnswire_writer_encoding_ready, wr_bidirectional := True\<rparr>"
    by (auto simp: dnswire_writer_set_bidirectional_def split: if_splits)
  have io: "same_io w w2" using io1 sys_alloc_io [OF a] same_io_trans w2 by blast
  let ?h = "dnswire_writer_set_dnstap h1 d"
  have inb: "wr_in h1 = \<lparr>i_buf = Some (fresh_block DNSWIRE_DEFAULT_BUF_SIZE), i_size = DNSWIRE_DEFAULT_BUF_SIZE,
       i_inc = DNSWIRE_DEFAULT_BUF_SIZE, i_max = DNSWIRE_MAXIMUM_BUF_SIZE, i_at = 0, i_left = 0\<rparr>"
    using s(7) by (simp add: h1)
  have sel: "wr_out ?h = wr_out h" "wr_in ?h = wr_in h1" "wr_state ?h = dnswire_writer_encoding_ready"
    "e_state (wr_encoder ?h) = dnswire_encoder_control_ready" "e_dnstap (wr_encoder ?h) = Some d"
    "wr_bidirectional ?h" "wr_decoder ?h = wr_decoder h" "encoder_ok (wr_encoder ?h)"
    using d by (simp_all add: dnswire_writer_set_dnstap_def dnswire_encoder_set_dnstap_def h1 encoder_ok_def)
  show "writer_ok ?h"
    using s(1,5) default_in_ok inb by (simp add: writer_ok_def sel)
  show "in_phase ?h" by (simp add: in_phase_def sel)
  have drained: "out_pending (wr_out h) = []"
    using nothing_left [OF writer_okD(1) [OF s(1)] s(5)] by simp
  show "sending L True d (sent w) dnswire_encoder_control_ready ?h w2"
    using io unfolding sending_def
    by (intro conjI exI [of _ "[]"]) (simp_all add: sel same_io_def drained)
  show "e_state (wr_encoder ?h) = dnswire_encoder_control_ready" by (rule sel)
  show "write_cost w2 ?h = length (writes w) + length (reads w) + length (inbox w) + 8"
    using io by (simp add: write_cost_def sel inb same_io_def in_live_def)
qed

text \<open>What a run of one of the two programs comes to.\<close>

definition sends_one :: "('r, 'w) extlib \<Rightarrow> bool \<Rightarrow> dnstap \<Rightarrow> world \<Rightarrow>
    fault + nat \<times> outcome option \<times> world \<Rightarrow> bool" where
  "sends_one L bi d w x \<longleftrightarrow> (\<exists>status oc w'. x = Inr (status, oc, w') \<and> (status = 0 \<longleftrightarrow> oc \<noteq> None) \<and>
     (oc = Some Stopped \<longrightarrow> (\<exists>fs. one_message L bi d fs \<and> sent w' = sent w @ frame_bytes fs)))"

lemma writer_main_with_sends:
  assumes L: "extlib_ok L" "tinyframe_consumes L" "tinyframe_nonempty L" and d: "encodable d"
    and f: "length (writes w) + length (reads w) + length (inbox w) + 6 < fuel"
  shows "sends_one L False d w (writer_main_with fuel L d argc opened w)"
proof -
  obtain res h w1 where i: "dnswire_writer_init L w = (res, h, w1)" by (cases "dnswire_writer_init L w")
  show ?thesis
  proof (cases "argc < 2 \<or> \<not> opened \<or> res \<noteq> dnswire_ok")
    case True
    with i show ?thesis by (auto simp: writer_main_with_def sends_one_def)
  next
    case False
    with i have i: "dnswire_writer_init L w = (dnswire_ok, h, w1)" by simp
    note u = sender_set_up [OF i d]
    from sender_loop_ends [OF L u(1,2), of False d "sent w" w1 fuel] u(3-5) f False i show ?thesis
      by (auto simp: writer_main_with_def sends_one_def)
  qed
qed

lemma sender_main_with_sends:
  assumes L: "extlib_ok L" "tinyframe_consumes L" "tinyframe_nonempty L" and d: "encodable d"
    and n: "inet_pton_ok pton"
    and f: "length (writes w) + length (reads w) + length (inbox w) + 8 < fuel"
  shows "sends_one L True d w (sender_main_with fuel L d pton k argv w)"
proof -
  obtain res h w1 where i: "dnswire_writer_init L w = (res, h, w1)" by (cases "dnswire_writer_init L w")
  obtain res' h1 w2 where b: "dnswire_writer_set_bidirectional w1 h True = (res', h1, w2)"
    by (cases "dnswire_writer_set_bidirectional w1 h True")
  from sender_socket_returns [OF n] obtain connected t where
    s: "sender_socket pton k (tl argv) = Inr (connected, t)" by blast
  show ?thesis
  proof (cases "length argv < 2 \<or> res \<noteq> dnswire_ok \<or> res' \<noteq> dnswire_ok \<or> \<not> connected")
    case True
    with i b s show ?thesis by (auto simp: sender_main_with_def sends_one_def)
  next
    case False
    with i b have ib: "dnswire_writer_init L w = (dnswire_ok, h, w1)"
      "dnswire_writer_set_bidirectional w1 h True = (dnswire_ok, h1, w2)" by simp_all
    note u = bidirectional_set_up [OF ib(1) d ib(2)]
    from sender_loop_ends [OF L u(1,2), of True d "sent w" w2 fuel] u(3-5) f False ib s show ?thesis
      by (auto simp: sender_main_with_def sends_one_def)
  qed
qed

section \<open>A run\<close>

lemma write_whole_stop:
  assumes L: "extlib_ok L" and ok: "writer_ok h" and st: "wr_state h = dnswire_writer_stopping"
    and left0: "o_left (wr_out h) = 0" and uni: "\<not> wr_bidirectional h"
    and enc: "dnswire_encoder_encode L (wr_encoder h) (o_size (wr_out h)) = Inr (dnswire_endofdata, e, out)"
    and out: "out \<noteq> []" and w: "sys_write w out = (Some (length out), w')"
  shows "\<exists>h'. dnswire_writer_write L w h = Inr (dnswire_endofdata, h', w')"
proof -
  note wok = writer_okD [OF ok]
  from encoding_first [OF L wok(2,1) left0 enc, of w] obtain b where
    b: "encoding L w (wr_encoder h) (wr_out h) = Inr (dnswire_endofdata, e, b, w)"
      "out_pending b = out" "out_ok b" by auto
  have left: "o_left b = length out" using out_pending_length [OF b(3)] b(2) by simp
  have pk: "out_peek b (o_left b) = Inr out"
    using outq.peek_pending [OF b(3), of "o_left b"] b(2) left by simp
  have d: "out_ok (out_drain (length out) b)" "out_pending (out_drain (length out) b) = []"
    using outq.drain_ok [OF b(3), of "length out"] outq.drain_pending [OF b(3), of "length out"] b(2)
    by simp_all
  have left1: "o_left (out_drain (length out) b) = 0" using out_pending_length [OF d(1)] d(2) by simp
  have "o_buf (wr_out h) \<noteq> None" using wok(1) by (auto elim: out_okD)
  then show ?thesis
    using st uni b(1) left out w pk left0 left1
    by (simp add: dnswire_writer_write_def write_stopping_def write_pending_def write_encoding_stop_def
        write_writing_stop_def write_bytes_def)
qed

lemma toy_encodes:
  "e_state e = dnswire_encoder_control_start \<Longrightarrow> dnswire_encoder_encode toylib e 4096 =
     Inr (dnswire_again, e\<lparr>e_writer := 25, e_state := dnswire_encoder_frames\<rparr>, toy_start_hdr @ toy_content)"
  "e_state e = dnswire_encoder_frames \<Longrightarrow> e_dnstap e = Some toy_msg \<Longrightarrow>
     dnswire_encoder_encode toylib e 4096 = Inr (dnswire_ok, e\<lparr>e_writer := 5\<rparr>, [6, 3, 9, 1, 1])"
  "e_state e = dnswire_encoder_control_stop \<Longrightarrow> dnswire_encoder_encode toylib e 4096 =
     Inr (dnswire_endofdata, e\<lparr>e_writer := 2, e_state := dnswire_encoder_done\<rparr>, [3, 0])"
proof -
  have start: "toy_start_hdr @ toy_content = toy_control TINYFRAME_CONTROL_START [DNSTAP_PROTOBUF_CONTENT_TYPE]"
    "length (toy_start_hdr @ toy_content) = 25"
    by (simp_all add: toy_start_hdr_def toy_content_def toy_control_def DNSTAP_PROTOBUF_CONTENT_TYPE_def)
  show "dnswire_encoder_encode toylib e 4096 =
     Inr (dnswire_again, e\<lparr>e_writer := 25, e_state := dnswire_encoder_frames\<rparr>, toy_start_hdr @ toy_content)"
    if "e_state e = dnswire_encoder_control_start"
    using that start(2) unfolding start(1)
    by (simp add: dnswire_encoder_encode_def encoder_wrote_def toylib_def toy_emit_def)
  have x: "pb_packed_size toylib t = length (pb_pack toylib t)" "tf_frame_size toylib n = n + 2"
    "tf_write_frame toylib v len fr = toy_emit v len (6 # of_nat (length fr) # fr)" for t n v len fr
    by (simp_all add: toylib_def)
  show "dnswire_encoder_encode toylib e 4096 = Inr (dnswire_ok, e\<lparr>e_writer := 5\<rparr>, [6, 3, 9, 1, 1])"
    if "e_state e = dnswire_encoder_frames" "e_dnstap e = Some toy_msg"
    using that encode_frame_eq [OF toylib_ok that(2) toy_msg_wire, of 4096]
    by (simp add: dnswire_encoder_encode_def x toy_msg_packed toy_emit_def encoder_wrote_def)
  show "dnswire_encoder_encode toylib e 4096 =
     Inr (dnswire_endofdata, e\<lparr>e_writer := 2, e_state := dnswire_encoder_done\<rparr>, [3, 0])"
    if "e_state e = dnswire_encoder_control_stop"
    using that by (simp add: dnswire_encoder_encode_def encoder_wrote_def toylib_def toy_emit_def toy_control_def)
qed

definition toy_file :: world where
  "toy_file = \<lparr>allocs = [], reads = [], inbox = [], writes = [100, 100, 100], sent = []\<rparr>"

lemma toy_writer_main_with:
  "\<exists>w. writer_main_with 12 toylib toy_msg 2 True toy_file = Inr (0, Some Stopped, w) \<and>
     sent w = toy_start_hdr @ toy_content @ [6, 3, 9, 1, 1, 3, 0]"
proof -
  let ?s = "toy_start_hdr @ toy_content"
  have slen: "length ?s = 25" "?s \<noteq> []"
    by (simp_all add: toy_start_hdr_def toy_content_def DNSTAP_PROTOBUF_CONTENT_TYPE_def)
  have i: "dnswire_writer_init toylib toy_file = (dnswire_ok, toy_writer0, toy_file)"
    using toy_writer_init
    by (simp add: dnswire_writer_init_def Let_def sys_alloc_def toy_file_def toy_out_def)
  have enc: "encodable toy_msg" by (simp add: encodable_def toy_msg_wire)
  let ?h0 = "dnswire_writer_set_dnstap toy_writer0 toy_msg"
  note u = sender_set_up [OF i enc]
  have h0: "wr_state ?h0 = dnswire_writer_encoding" "o_size (wr_out ?h0) = 4096" "\<not> wr_bidirectional ?h0"
    "e_dnstap (wr_encoder ?h0) = Some toy_msg"
    using toy_writer0_sound(2,3)
    by (simp_all add: dnswire_writer_set_dnstap_def dnswire_encoder_set_dnstap_def toy_writer0_def
        dnswire_writer_init_def writer_defaults_def toy_out_def sys_alloc_def
        DNSWIRE_DEFAULT_BUF_SIZE_def Let_def)
  let ?e0 = "wr_encoder ?h0"
  let ?e1 = "?e0\<lparr>e_writer := 25, e_state := dnswire_encoder_frames\<rparr>"
  let ?w1 = "toy_file\<lparr>writes := [100, 100], sent := ?s\<rparr>"
  have w1: "sys_write toy_file ?s = (Some (length ?s), ?w1)"
    using slen by (simp add: sys_write_def toy_file_def)
  from write_whole [OF toylib_ok u(1) h0(1) _ _ slen(2) w1] toy_encodes(1) [OF u(4)] h0(2) obtain b1 where
    b1: "dnswire_writer_write toylib toy_file ?h0 = Inr (dnswire_again, ?h0\<lparr>wr_encoder := ?e1, wr_out := b1\<rparr>, ?w1)"
      "o_size b1 = 4096" by auto
  let ?h1 = "?h0\<lparr>wr_encoder := ?e1, wr_out := b1\<rparr>"
  have ok1: "writer_ok ?h1"
    using writer_write_returns [OF toylib_ok u(1), of toy_file] b1(1) by (auto simp: write_post_def)
  let ?w2 = "?w1\<lparr>writes := [100], sent := ?s @ [6, 3, 9, 1, 1]\<rparr>"
  have w2: "sys_write ?w1 [6, 3, 9, 1, 1] = (Some (length [6, 3, 9, 1, 1 :: byte]), ?w2)"
    by (simp add: sys_write_def toy_file_def)
  let ?e2 = "?e1\<lparr>e_writer := 5\<rparr>"
  have m: "dnswire_encoder_encode toylib (wr_encoder ?h1) (o_size (wr_out ?h1)) =
      Inr (dnswire_ok, ?e2, [6, 3, 9, 1, 1])"
    using toy_encodes(2) [of ?e1] h0(4) b1(2) by simp
  have st1: "wr_state ?h1 = dnswire_writer_encoding" using h0(1) by simp
  from write_whole [OF toylib_ok ok1 st1 m _ _ w2] obtain b2 where
    b2: "dnswire_writer_write toylib ?w1 ?h1 = Inr (dnswire_ok, ?h1\<lparr>wr_encoder := ?e2, wr_out := b2\<rparr>, ?w2)"
      "o_size b2 = 4096" "out_ok b2" "out_pending b2 = []" using b1(2) by auto
  let ?h2 = "?h1\<lparr>wr_encoder := ?e2, wr_out := b2\<rparr>"
  have ok2: "writer_ok ?h2"
    using writer_write_returns [OF toylib_ok ok1, of ?w1] b2(1) by (auto simp: write_post_def)
  let ?e3 = "?e2\<lparr>e_state := dnswire_encoder_control_stop\<rparr>"
  let ?h3 = "?h2\<lparr>wr_encoder := ?e3, wr_state := dnswire_writer_stopping\<rparr>"
  have stop: "dnswire_writer_stop ?h2 = (dnswire_ok, ?h3)"
    by (simp add: dnswire_writer_stop_def dnswire_encoder_stop_def Let_def)
  let ?w3 = "?w2\<lparr>writes := [], sent := ?s @ [6, 3, 9, 1, 1] @ [3, 0]\<rparr>"
  have w3: "sys_write ?w2 [3, 0] = (Some (length [3, 0 :: byte]), ?w3)"
    by (simp add: sys_write_def toy_file_def)
  have "o_left (wr_out ?h3) = 0" using out_pending_length [OF b2(3)] b2(4) by simp
  from write_whole_stop [OF toylib_ok writer_stop_ok [OF ok2 stop] _ this _ _ _ w3] h0(3)
    toy_encodes(3) [of ?e3] b2(2) obtain h4 where
    h4: "dnswire_writer_write toylib ?w2 ?h3 = Inr (dnswire_endofdata, h4, ?w3)" by auto
  have "writer_loop (Suc (Suc (Suc n))) toylib toy_file ?h0 = Inr (Stopped, h4, ?w3)" for n
    by (simp only: writer_loop.simps dnswire_writer_fwrite_def b1(1) b2(1) h4 stop bindF_simps
        prod.case dnswire_result.case snd_conv)
  from this [of 9] show ?thesis by (simp add: writer_main_with_def i)
qed

end
