(* ===== verification/Reader_Programs.thy ===== *)
theory Reader_Programs
  imports Read_Steps Roundtrip Socket_Setup
begin

text \<open>
  \<open>examples/reader.c\<close> and \<open>examples/receiver.c\<close>: programs that print the messages they receive. The
  printer holds what goes to the standard output; the messages about errors, which go to the standard
  error output, are not modelled. The loops run with fuel.
\<close>

section \<open>The code\<close>

text \<open>How the loop is left: after \<open>dnswire_endofdata\<close>, or with a message about an error.\<close>

datatype reading_end = Ended | Broken

fun reader_loop :: "nat \<Rightarrow> ('r, 'w) extlib \<Rightarrow> inet_ntop \<Rightarrow> world \<Rightarrow> ('r, 'w) dnswire_reader \<Rightarrow> printer \<Rightarrow>
    fault + reading_end \<times> ('r, 'w) dnswire_reader \<times> world \<times> printer" where
  "reader_loop 0 L ntop w r p = Inl Out_of_fuel"
| "reader_loop (Suc fuel) L ntop w r p =
     bindF (dnswire_reader_fread L w r) (\<lambda>(res, r1, w1). case res of
       dnswire_have_dnstap \<Rightarrow>
         bindF (print_dnstap ntop (dc_dnstap (r_decoder r1)) p) (\<lambda>p1. reader_loop fuel L ntop w1 r1 p1)
     | dnswire_again \<Rightarrow> reader_loop fuel L ntop w1 r1 p
     | dnswire_need_more \<Rightarrow> reader_loop fuel L ntop w1 r1 p
     | dnswire_endofdata \<Rightarrow> Inr (Ended, r1, w1, p)
     | _ \<Rightarrow> Inr (Broken, r1, w1, p))"

text \<open>\<open>main\<close> of \<open>reader.c\<close>: the exit status and, when it came to the loop, how that was left.\<close>

definition reader_main :: "nat \<Rightarrow> ('r, 'w) extlib \<Rightarrow> inet_ntop \<Rightarrow> nat \<Rightarrow> bool \<Rightarrow> world \<Rightarrow> printer \<Rightarrow>
    fault + nat \<times> reading_end option \<times> world \<times> printer" where
  "reader_main fuel L ntop argc opened w p =
     (if argc < 2 then Inr (1, None, w, p)
      else if \<not> opened then Inr (1, None, w, p)
      else case dnswire_reader_init L w of (res, r, w1) \<Rightarrow>
        if res \<noteq> dnswire_ok then Inr (1, None, w1, p)
        else bindF (reader_loop fuel L ntop w1 r p) (\<lambda>(oc, r2, w2, p2).
             bindF (dnswire_reader_destroy r2) (\<lambda>_. Inr (0, Some oc, w2, p2))))"

fun receiver_loop :: "nat \<Rightarrow> ('r, 'w) extlib \<Rightarrow> inet_ntop \<Rightarrow> world \<Rightarrow> ('r, 'w) dnswire_reader \<Rightarrow> printer \<Rightarrow>
    fault + reading_end \<times> ('r, 'w) dnswire_reader \<times> world \<times> printer" where
  "receiver_loop 0 L ntop w r p = Inl Out_of_fuel"
| "receiver_loop (Suc fuel) L ntop w r p =
     bindF (dnswire_reader_read L w r) (\<lambda>(res, r1, w1). case res of
       dnswire_have_dnstap \<Rightarrow>
         bindF (print_dnstap ntop (dc_dnstap (r_decoder r1)) p) (\<lambda>p1. receiver_loop fuel L ntop w1 r1 p1)
     | dnswire_again \<Rightarrow> receiver_loop fuel L ntop w1 r1 p
     | dnswire_need_more \<Rightarrow> receiver_loop fuel L ntop w1 r1 p
     | dnswire_endofdata \<Rightarrow>
         bindF (print (chars ''stopped'' @ newline) p) (\<lambda>p1. Inr (Ended, r1, w1, p1))
     | _ \<Rightarrow> Inr (Broken, r1, w1, p))"

definition receiver_main :: "nat \<Rightarrow> ('r, 'w) extlib \<Rightarrow> inet_ntop \<Rightarrow> inet_pton \<Rightarrow> kernel \<Rightarrow> string list \<Rightarrow>
    world \<Rightarrow> printer \<Rightarrow> fault + nat \<times> reading_end option \<times> world \<times> printer" where
  "receiver_main fuel L ntop pton k argv w p =
     (if length argv < 2 then Inr (1, None, w, p)
      else case dnswire_reader_init L w of (res, r, w1) \<Rightarrow>
        if res \<noteq> dnswire_ok then Inr (1, None, w1, p)
        else case dnswire_reader_allow_bidirectional w1 r True of (res', r1, w2) \<Rightarrow>
          if res' \<noteq> dnswire_ok then Inr (1, None, w2, p)
          else bindF (receiver_socket pton k (tl argv)) (\<lambda>(accepted, t).
               bindF (print t p) (\<lambda>p1.
               if \<not> accepted then Inr (1, None, w2, p1)
               else bindF (print (chars ''receiving...'' @ newline) p1) (\<lambda>p2.
                    bindF (receiver_loop fuel L ntop w2 r1 p2) (\<lambda>(oc, r3, w3, p3).
                    bindF (dnswire_reader_destroy r3) (\<lambda>_. Inr (0, Some oc, w3, p3)))))))"

section \<open>The loops\<close>

text \<open>The two loops differ in what they print at the end.\<close>

lemma receiver_loop_reader:
  "receiver_loop fuel L ntop w r p =
     bindF (reader_loop fuel L ntop w r p) (\<lambda>(oc, r1, w1, p1).
       if oc = Ended then bindF (print (chars ''stopped'' @ newline) p1) (\<lambda>p2. Inr (Ended, r1, w1, p2))
       else Inr (oc, r1, w1, p1))"
proof (induction fuel arbitrary: w r p)
  case (Suc fuel)
  show ?case
  proof (cases "dnswire_reader_read L w r")
    case (Inr x)
    obtain res r1 w1 where x: "x = (res, r1, w1)" using prod_cases3 by blast
    show ?thesis
    proof (cases "res = dnswire_have_dnstap")
      case True
      with Inr x Suc.IH show ?thesis
        by (cases "print_dnstap ntop (dc_dnstap (r_decoder r1)) p") (simp_all add: dnswire_reader_fread_def)
    next
      case False
      with Inr x Suc.IH show ?thesis by (cases res) (simp_all add: dnswire_reader_fread_def)
    qed
  qed (simp add: dnswire_reader_fread_def)
qed simp

text \<open>What was printed of a file or a connection: the reports of the messages received from it.\<close>

definition reported :: "('r, 'w) extlib \<Rightarrow> inet_ntop \<Rightarrow> ('r, 'w) dnswire_reader \<Rightarrow> byte list \<Rightarrow>
    reading_end \<Rightarrow> byte list \<Rightarrow> bool" where
  "reported L ntop r0 content oc text \<longleftrightarrow> (\<exists>inp ms r rest. receives L r0 inp ms r \<and> content = inp @ rest \<and>
     text = concat (map (report ntop) ms) \<and> tame text \<and>
     (oc = Ended \<longrightarrow> dc_state (r_decoder r) = dnswire_decoder_done))"

text \<open>
  A reader that has delivered \<open>ms\<close> from the part of \<open>content\<close> that has been read, and what one turn of a
  loop that reads does to it.
\<close>

definition received_to :: "('r, 'w) extlib \<Rightarrow> ('r, 'w) dnswire_reader \<Rightarrow> byte list \<Rightarrow> dnstap list \<Rightarrow> world \<Rightarrow>
    ('r, 'w) dnswire_reader \<Rightarrow> bool" where
  "received_to L r0 content ms w r \<longleftrightarrow> reader_ok r \<and> stream_over r \<and>
     (\<exists>inp. receives L r0 inp ms r \<and> content = inp @ inbox w)"

lemma received_start: "reader_ok r \<Longrightarrow> r_state r = dnswire_reader_reading_control \<Longrightarrow>
    content = inbox w \<Longrightarrow> received_to L r content [] w r"
  using receives_start unfolding received_to_def by (fastforce simp: stream_over_def)

lemma loop_read:
  assumes L: "extlib_ok L" "tinyframe_consumes L" and s: "received_to L r0 content ms w r"
  shows "\<exists>res r1 w1. dnswire_reader_fread L w r = Inr (res, r1, w1) \<and> decoder_ok (r_decoder r1) \<and>
     (goes_on res \<longrightarrow> read_cost w1 r1 < read_cost w r) \<and>
     (res = dnswire_endofdata \<longrightarrow> dc_state (r_decoder r1) = dnswire_decoder_done) \<and>
     (res = dnswire_have_dnstap \<longrightarrow> (\<exists>d0 bs. dnstap_decode_protobuf L d0 bs = Inr (0, dc_dnstap (r_decoder r1)))) \<and>
     (res \<noteq> dnswire_error \<longrightarrow> received_to L r0 content
        (if res = dnswire_have_dnstap then ms @ [dc_dnstap (r_decoder r1)] else ms) w1 r1)"
proof -
  from s obtain inp where ok: "reader_ok r" and over: "stream_over r" and rec: "receives L r0 inp ms r" "content = inp @ inbox w"
    by (auto simp: received_to_def)
  from reader_read_returns [OF L(1) ok, of w] obtain res r1 w1 where
    r: "dnswire_reader_read L w r = Inr (res, r1, w1)" and post: "read_post L w r (res, r1, w1)"
    by (metis prod_cases3)
  have uses: "read_uses w r (res, r1, w1)" by (rule reader_read_uses [OF L ok r])
  then have over1: "stream_over r1" using over by (simp add: read_uses_def)
  have "received_to L r0 content (if res = dnswire_have_dnstap then ms @ [dc_dnstap (r_decoder r1)] else ms) w1 r1 \<and>
     (res = dnswire_have_dnstap \<longrightarrow> (\<exists>d0 bs. dnstap_decode_protobuf L d0 bs = Inr (0, dc_dnstap (r_decoder r1))))"
    if ne: "res \<noteq> dnswire_error"
  proof -
    from post ne obtain chunk out where c: "inbox w = chunk @ inbox w1" "sent w1 = sent w @ out"
      "step_ok L r chunk res out r1" by (auto simp: read_post_def)
    note st = step_read [OF r ne c(1,2)]
    have "reader_ok r1" using c(3) by (simp add: step_ok_def)
    then show ?thesis
      using over1 receives_more [OF rec(1) st] rec(2) c(1) delivered_decoded [OF _ L(1) ok] st
      unfolding received_to_def by auto
  qed
  with r uses over show ?thesis by (auto simp: dnswire_reader_fread_def read_uses_def goes_on_def)
qed

lemma reader_loop_ends:
  assumes L: "extlib_ok L" "tinyframe_consumes L" and n: "inet_ntop_ok ntop"
    and "received_to L r0 content ms w r" and "printer_ok p"
    and "text_out p = base @ concat (map (report ntop) ms)" and "tame (concat (map (report ntop) ms))"
    and "read_cost w r < fuel"
  shows "\<exists>oc r' w' p' text. reader_loop fuel L ntop w r p = Inr (oc, r', w', p') \<and>
     decoder_ok (r_decoder r') \<and> printer_ok p' \<and> text_out p' = base @ text \<and> reported L ntop r0 content oc text"
  using assms(4-)
proof (induction fuel arbitrary: w r p ms)
  case (Suc fuel)
  note p = Suc.prems(2) and out = Suc.prems(3) and tm = Suc.prems(4)
  from loop_read [OF L Suc.prems(1)] obtain res r1 w1 where
    r: "dnswire_reader_fread L w r = Inr (res, r1, w1)" "decoder_ok (r_decoder r1)"
      "goes_on res \<longrightarrow> read_cost w1 r1 < read_cost w r"
      "res = dnswire_endofdata \<longrightarrow> dc_state (r_decoder r1) = dnswire_decoder_done"
      "res = dnswire_have_dnstap \<longrightarrow> (\<exists>d0 bs. dnstap_decode_protobuf L d0 bs = Inr (0, dc_dnstap (r_decoder r1)))"
      "res \<noteq> dnswire_error \<longrightarrow> received_to L r0 content
        (if res = dnswire_have_dnstap then ms @ [dc_dnstap (r_decoder r1)] else ms) w1 r1" by blast
  have cost: "goes_on res \<Longrightarrow> read_cost w1 r1 < fuel" using r(3) Suc.prems(5) by simp
  consider (more) "res \<in> {dnswire_again, dnswire_need_more}" | (got) "res = dnswire_have_dnstap"
    | (stop) "res = dnswire_endofdata" | (broken) "res \<in> {dnswire_ok, dnswire_error, dnswire_bidirectional}"
    by (cases res) auto
  then show ?case
  proof cases
    case more
    then have "received_to L r0 content ms w1 r1" "goes_on res" using r(6) by (auto simp: goes_on_def)
    from Suc.IH [OF this(1) p out tm cost [OF this(2)]] more r(1) show ?thesis by auto
  next
    case got
    with r(5) obtain d0 bs where "dnstap_decode_protobuf L d0 bs = Inr (0, dc_dnstap (r_decoder r1))" by blast
    from decoded_printed [OF this n p] obtain p1 where p1:
      "print_dnstap ntop (dc_dnstap (r_decoder r1)) p = Inr p1" "printer_ok p1"
      "text_out p1 = text_out p @ report ntop (dc_dnstap (r_decoder r1))"
      "tame (report ntop (dc_dnstap (r_decoder r1)))" by blast
    have g: "received_to L r0 content (ms @ [dc_dnstap (r_decoder r1)]) w1 r1" "goes_on res"
      using r(6) got by (auto simp: goes_on_def)
    from Suc.IH [OF g(1) p1(2) _ _ cost [OF g(2)]] p1(1,3,4) out tm got r(1) show ?thesis by auto
  next
    case stop
    with r(4,6) have "reported L ntop r0 content Ended (concat (map (report ntop) ms))"
      using tm unfolding reported_def received_to_def by auto
    with stop r(1,2) p out show ?thesis by auto
  next
    case broken
    have "reported L ntop r0 content Broken (concat (map (report ntop) ms))"
      using Suc.prems(1) tm unfolding reported_def received_to_def by auto
    with broken r(1,2) p out show ?thesis by auto
  qed
qed simp

section \<open>The programs\<close>

text \<open>
  What a run comes to: the exit status, and what was printed before, of and after the messages.
\<close>

definition prints :: "('r, 'w) extlib \<Rightarrow> inet_ntop \<Rightarrow> (('r, 'w) dnswire_reader \<Rightarrow> bool) \<Rightarrow> byte list \<Rightarrow>
    byte list \<Rightarrow> world \<Rightarrow> printer \<Rightarrow> fault + nat \<times> reading_end option \<times> world \<times> printer \<Rightarrow> bool" where
  "prints L ntop new before after w p x \<longleftrightarrow> (\<exists>status oc w' p'. x = Inr (status, oc, w', p') \<and>
     (status = 0 \<longleftrightarrow> oc \<noteq> None) \<and> printer_ok p' \<and>
     (\<forall>c. oc = Some c \<longrightarrow> (\<exists>r text. new r \<and> reported L ntop r (inbox w) c text \<and>
        text_out p' = text_out p @ before @ text @ (if c = Ended then after else []))))"

lemma reader_destroyed: "decoder_ok (r_decoder r) \<Longrightarrow> dnswire_reader_destroy r = Inr ()"
  by (simp add: dnswire_reader_destroy_def dnswire_decoder_cleanup_def cleanup_ok)

lemma reader_init_io:
  assumes "dnswire_reader_init L w = (res, r, w1)"
  shows "same_io w w1"
  using assms sys_alloc_io [of w]
  by (cases "sys_alloc w") (auto simp: dnswire_reader_init_def Let_def split: if_splits)

lemma reader_main_prints:
  assumes L: "extlib_ok L" "tinyframe_consumes L" and n: "inet_ntop_ok ntop" and p: "printer_ok p"
    and f: "2 * (length (reads w) + length (writes w) + length (inbox w)) < fuel"
  shows "prints L ntop (\<lambda>r. \<exists>w1. dnswire_reader_init L w = (dnswire_ok, r, w1)) [] [] w p
     (reader_main fuel L ntop argc opened w p)"
proof -
  obtain res r w1 where i: "dnswire_reader_init L w = (res, r, w1)" by (cases "dnswire_reader_init L w")
  show ?thesis
  proof (cases "argc < 2 \<or> \<not> opened \<or> res \<noteq> dnswire_ok")
    case True
    with i p show ?thesis by (auto simp: reader_main_def prints_def)
  next
    case False
    with i have i: "dnswire_reader_init L w = (dnswire_ok, r, w1)" by simp
    note s = reader_init_sound [OF i] and io = reader_init_io [OF i]
    have c: "read_cost w1 r < fuel" "inbox w = inbox w1"
      using io f by (simp_all add: read_cost_def same_io_def s awaiting_decode_def)
    have st0: "r_state r = dnswire_reader_reading_control" by (simp add: s)
    from reader_loop_ends [OF L n received_start [OF s(1) st0 c(2)] p, of "text_out p" fuel] c(1)
    obtain oc r' w' p' lines where
      l: "reader_loop fuel L ntop w1 r p = Inr (oc, r', w', p')" "decoder_ok (r_decoder r')" "printer_ok p'"
        "text_out p' = text_out p @ lines" "reported L ntop r (inbox w) oc lines" by auto
    then show ?thesis
      using False i by (auto simp: reader_main_def prints_def reader_destroyed)
  qed
qed

lemma receiver_main_prints:
  assumes L: "extlib_ok L" "tinyframe_consumes L" and n: "inet_ntop_ok ntop" "inet_pton_ok pton"
    and p: "printer_ok p"
    and f: "2 * (length (reads w) + length (writes w) + length (inbox w)) < fuel"
  shows "prints L ntop (\<lambda>r. \<exists>r0 w1 w2. dnswire_reader_init L w = (dnswire_ok, r0, w1) \<and>
        dnswire_reader_allow_bidirectional w1 r0 True = (dnswire_ok, r, w2))
     (concat (map (\<lambda>s. chars s @ newline) [''socket'', ''bind'', ''listen'', ''accept'', ''receiving...'']))
     (chars ''stopped'' @ newline) w p (receiver_main fuel L ntop pton k argv w p)"
proof -
  obtain res r0 w1 where i: "dnswire_reader_init L w = (res, r0, w1)" by (cases "dnswire_reader_init L w")
  obtain res' r w2 where b: "dnswire_reader_allow_bidirectional w1 r0 True = (res', r, w2)"
    by (cases "dnswire_reader_allow_bidirectional w1 r0 True")
  from receiver_socket_returns [OF n(2)] obtain accepted t where
    s: "receiver_socket pton k (tl argv) = Inr (accepted, t)" by blast
  show ?thesis
  proof (cases "length argv < 2 \<or> res \<noteq> dnswire_ok \<or> res' \<noteq> dnswire_ok \<or> \<not> accepted")
    case True
    with i b s p show ?thesis by (auto simp: receiver_main_def prints_def print_def printer_ok_def)
  next
    case False
    with i b have i: "dnswire_reader_init L w = (dnswire_ok, r0, w1)"
      and b: "dnswire_reader_allow_bidirectional w1 r0 True = (dnswire_ok, r, w2)" by simp_all
    note ok = conjunct1 [OF conjunct2 [OF reader_allow_sound [OF i b]]]
    have same: "same_io w1 w2" "r_in r = r_in r0" "r_state r = r_state r0"
      using b sys_alloc_io [of w1]
      by (auto simp: dnswire_reader_allow_bidirectional_def split: if_splits prod.splits)
    note io = same_io_trans [OF reader_init_io [OF i] same(1)] and s0 = reader_init_sound [OF i]
    have t: "t = concat (map (\<lambda>s. chars s @ newline) [''socket'', ''bind'', ''listen'', ''accept''])"
      using s False by (auto simp: receiver_socket_def Let_def bindF_eq_Inr split: if_splits option.splits)
    let ?p = "p\<lparr>text_out := (text_out p @ t) @ chars ''receiving...'' @ newline\<rparr>"
    have pok: "printer_ok ?p" using p by (simp add: printer_ok_def)
    have c: "read_cost w2 r < fuel" "inbox w = inbox w2"
      using io f by (simp_all add: read_cost_def same_io_def same s0 awaiting_decode_def)
    have st0: "r_state r = dnswire_reader_reading_control" by (simp add: same s0)
    from reader_loop_ends [OF L n(1) received_start [OF ok st0 c(2)] pok, of "text_out ?p" fuel] c(1)
    obtain oc r' w' p' lines where
      l: "reader_loop fuel L ntop w2 r ?p = Inr (oc, r', w', p')" "decoder_ok (r_decoder r')" "printer_ok p'"
        "text_out p' = text_out ?p @ lines" "reported L ntop r (inbox w) oc lines" by auto
    have "printer_ok (p'\<lparr>text_out := x\<rparr>)" for x using l(3) by (simp add: printer_ok_def)
    with l i b s t False show ?thesis
      by (auto simp: receiver_main_def prints_def receiver_loop_reader print_def reader_destroyed)
  qed
qed

text \<open>
  C19: The programs \<open>reader\<close> and \<open>receiver\<close> come to an end, whatever is in the file or comes over the
  connection and whatever the kernel and the allocator answer: the number of calls is bounded by what
  there is to read and the answers of the kernel. Nothing faults, \<open>destroy\<close> at the end included. They print exactly the reports of the
  messages the handle delivered from a beginning of the input, in order and each once, and only
  printable characters and line ends; the end of the stream is reported, and announced by \<open>receiver\<close>,
  only when the decoder has come to it, also in a bidirectional conversation.
\<close>
theorem programs_print_messages:
  assumes "extlib_ok L" and "tinyframe_consumes L" and "inet_ntop_ok ntop" and "inet_pton_ok pton"
    and "printer_ok p" and "2 * (length (reads w) + length (writes w) + length (inbox w)) < fuel"
  shows "prints L ntop (\<lambda>r. \<exists>w1. dnswire_reader_init L w = (dnswire_ok, r, w1)) [] [] w p
       (reader_main fuel L ntop argc opened w p) \<and>
     prints L ntop (\<lambda>r. \<exists>r0 w1 w2. dnswire_reader_init L w = (dnswire_ok, r0, w1) \<and>
          dnswire_reader_allow_bidirectional w1 r0 True = (dnswire_ok, r, w2))
       (concat (map (\<lambda>s. chars s @ newline) [''socket'', ''bind'', ''listen'', ''accept'', ''receiving...'']))
       (chars ''stopped'' @ newline) w p (receiver_main fuel L ntop pton k argv w p)"
  using reader_main_prints [OF assms(1-3,5,6)] receiver_main_prints [OF assms] by blast

section \<open>A run\<close>

lemma in_append_size: "in_append b bs = Inr b' \<Longrightarrow> i_size b' = i_size b"
  by (auto simp: in_append_def bindF_eq_Inr split: if_splits)

lemma read_bytes_whole:
  assumes ok: "reader_ok r" and e: "in_live (r_in r) = []"
    and rd: "sys_read w (i_size (r_in r)) = (Some data, w')" "data \<noteq> []"
  shows "\<exists>b. read_bytes w r = Inr (Some (r\<lparr>r_in := b\<rparr>), w') \<and> in_ok b \<and> in_live b = data \<and>
     i_size b = i_size (r_in r) \<and> in_load b = Inr data"
proof -
  note in0 = reader_okD(1) [OF ok]
  have room: "in_room (r_in r) = i_size (r_in r)"
    using in_room_exact [OF in0] in_live_length [OF in0] e in0 by (auto elim: in_okD)
  with rd have r: "sys_read w (in_room (r_in r)) = (Some data, w')" by simp
  from inq.append_live [OF in0 sys_read_length [OF r]] obtain b where
    b: "in_append (r_in r) data = Inr b" "in_ok b" "in_live b = in_live (r_in r) @ data" by blast
  with rd(2) r e in_append_size [OF b(1)] in_load_live [OF b(2)] show ?thesis
    by (intro exI [of _ b]) (simp add: read_bytes_def)
qed

lemma read_whole:
  assumes L: "extlib_ok L" and ok: "reader_ok r" and e: "in_live (r_in r) = []"
    and st: "r_state r \<in> {dnswire_reader_reading_control, dnswire_reader_reading}"
    and rd: "sys_read w (i_size (r_in r)) = (Some data, w')" "data \<noteq> []"
    and dec: "dnswire_decoder_decode L (r_decoder r) data = Inr (res, d)"
    and uni: "\<not> r_is_bidirectional r"
  shows "res \<in> {dnswire_again, dnswire_have_dnstap} \<Longrightarrow> dnswire_decoder_decoded L d = length data \<Longrightarrow>
       \<exists>r'. dnswire_reader_read L w r = Inr (res, r', w') \<and> reader_ok r' \<and> r_decoder r' = d \<and>
         in_live (r_in r') = [] \<and> i_size (r_in r') = i_size (r_in r) \<and> \<not> r_is_bidirectional r' \<and>
         r_state r' \<in> {dnswire_reader_reading_control, dnswire_reader_reading}"
    and "res = dnswire_endofdata \<Longrightarrow> \<exists>r'. dnswire_reader_read L w r = Inr (dnswire_endofdata, r', w')"
proof -
  from read_bytes_whole [OF ok e rd] obtain b where
    b: "read_bytes w r = Inr (Some (r\<lparr>r_in := b\<rparr>), w')" "in_ok b" "in_live b = data"
      "i_size b = i_size (r_in r)" "in_load b = Inr data" by blast
  have buf: "i_buf (r_in r) \<noteq> None" using in_ok_buf [OF reader_okD(1) [OF ok]] .
  note eval = dnswire_reader_read_def buf read_reading_control_def read_reading_def b(1,5)
    read_decoding_control_def read_decoding_def dec uni Let_def
  show "\<exists>r'. dnswire_reader_read L w r = Inr (dnswire_endofdata, r', w')" if "res = dnswire_endofdata"
    using st that by (auto simp: eval)
  show "\<exists>r'. dnswire_reader_read L w r = Inr (res, r', w') \<and> reader_ok r' \<and> r_decoder r' = d \<and>
         in_live (r_in r') = [] \<and> i_size (r_in r') = i_size (r_in r) \<and> \<not> r_is_bidirectional r' \<and>
         r_state r' \<in> {dnswire_reader_reading_control, dnswire_reader_reading}"
    if res: "res \<in> {dnswire_again, dnswire_have_dnstap}" and all: "dnswire_decoder_decoded L d = length data"
  proof -
    have c: "in_ok (in_consume (length data) b)" "in_live (in_consume (length data) b) = []"
      using in_consume_props [OF b(2), of "length data"] b(3) by simp_all
    then have l: "i_left (in_consume (length data) b) = 0" using in_left_live by blast
    have sz: "i_size (in_consume (length data) b) = i_size (r_in r)"
      using b(4) by (simp add: in_consume_def Let_def)
    have "\<exists>r'. dnswire_reader_read L w r = Inr (res, r', w') \<and> r_decoder r' = d \<and>
         in_live (r_in r') = [] \<and> i_size (r_in r') = i_size (r_in r) \<and> \<not> r_is_bidirectional r' \<and>
         r_state r' \<in> {dnswire_reader_reading_control, dnswire_reader_reading}"
      using st res c(2) l sz all by (auto simp: eval)
    moreover have "reader_ok r'" if "dnswire_reader_read L w r = Inr (res, r', w')" for r'
      using reader_read_returns [OF L ok, of w] that res by (auto simp: read_post_def step_ok_def)
    ultimately show ?thesis by blast
  qed
qed

definition toy_source :: world where
  "toy_source = \<lparr>allocs = [], reads = [2, 23, 5, 2],
     inbox = toy_start_hdr @ toy_content @ [6, 3, 9, 1, 1, 3, 0], writes = [], sent = []\<rparr>"

lemma toy_reader_main:
  "\<exists>w p. reader_main 100 toylib toy_ntop 2 True toy_source toy_printer = Inr (0, Some Ended, w, p)"
proof -
  obtain d1 d2 d3 d4 where
    d: "dnswire_decoder_decode toylib (r_decoder toy_reader0) toy_start_hdr = Inr (dnswire_again, d1)"
      "dnswire_decoder_decoded toylib d1 = length toy_start_hdr"
      "dnswire_decoder_decode toylib d1 toy_content = Inr (dnswire_again, d2)"
      "dnswire_decoder_decoded toylib d2 = length toy_content"
      "dnswire_decoder_decode toylib d2 [6, 3, 9, 1, 1] = Inr (dnswire_have_dnstap, d3)"
      "dnswire_decoder_decoded toylib d3 = length [6, 3, 9, 1, 1 :: byte]"
      "dnswire_decoder_decode toylib d3 [3, 0] = Inr (dnswire_endofdata, d4)"
    using toy_decodes unfolding toy_reader0_ok(3) by blast
  have i: "dnswire_reader_init toylib toy_source = (dnswire_ok, toy_reader0, toy_source)"
    by (simp add: toy_reader0_def dnswire_reader_init_def sys_alloc_def toy_world_def toy_source_def Let_def)
  have sz: "i_size (r_in toy_reader0) = 4096" "\<not> r_is_bidirectional toy_reader0"
    by (simp_all add: toy_reader0_def dnswire_reader_init_def reader_defaults_def toy_world_def
        sys_alloc_def DNSWIRE_DEFAULT_BUF_SIZE_def Let_def)
  have len: "length toy_content = 23" "length toy_start_hdr = 2" "toy_content \<noteq> []" "toy_start_hdr \<noteq> []"
    by (simp_all add: toy_content_def toy_start_hdr_def DNSTAP_PROTOBUF_CONTENT_TYPE_def)
  let ?w1 = "toy_source\<lparr>reads := [23, 5, 2], inbox := toy_content @ [6, 3, 9, 1, 1, 3, 0]\<rparr>"
  let ?w2 = "toy_source\<lparr>reads := [5, 2], inbox := [6, 3, 9, 1, 1, 3, 0]\<rparr>"
  let ?w3 = "toy_source\<lparr>reads := [2], inbox := [3, 0]\<rparr>"
  let ?w4 = "toy_source\<lparr>reads := [], inbox := []\<rparr>"
  have rd: "sys_read toy_source 4096 = (Some toy_start_hdr, ?w1)" "sys_read ?w1 4096 = (Some toy_content, ?w2)"
    "sys_read ?w2 4096 = (Some [6, 3, 9, 1, 1], ?w3)" "sys_read ?w3 4096 = (Some [3, 0], ?w4)"
    using len by (simp_all add: sys_read_def toy_source_def)
  from read_whole(1) [OF toylib_ok toy_reader0_ok(1,2) _ _ len(4) d(1) sz(2)] rd(1) sz(1) toy_reader0_ok(6) d(2)
  obtain r1 where r1: "dnswire_reader_read toylib toy_source toy_reader0 = Inr (dnswire_again, r1, ?w1)"
    "reader_ok r1" "r_decoder r1 = d1" "in_live (r_in r1) = []" "i_size (r_in r1) = 4096" "\<not> r_is_bidirectional r1"
    "r_state r1 \<in> {dnswire_reader_reading_control, dnswire_reader_reading}" by auto
  have rd2: "sys_read ?w1 (i_size (r_in r1)) = (Some toy_content, ?w2)" using rd(2) r1(5) by simp
  from read_whole(1) [OF toylib_ok r1(2,4,7) rd2 len(3) d(3) [folded r1(3)] r1(6)] d(4)
  obtain r2 where r2: "dnswire_reader_read toylib ?w1 r1 = Inr (dnswire_again, r2, ?w2)"
    "reader_ok r2" "r_decoder r2 = d2" "in_live (r_in r2) = []" "i_size (r_in r2) = 4096" "\<not> r_is_bidirectional r2"
    "r_state r2 \<in> {dnswire_reader_reading_control, dnswire_reader_reading}" using r1(5) by auto
  have rd3: "sys_read ?w2 (i_size (r_in r2)) = (Some [6, 3, 9, 1, 1], ?w3)" using rd(3) r2(5) by simp
  from read_whole(1) [OF toylib_ok r2(2,4,7) rd3 _ d(5) [folded r2(3)] r2(6)] d(6)
  obtain r3 where r3: "dnswire_reader_read toylib ?w2 r2 = Inr (dnswire_have_dnstap, r3, ?w3)"
    "reader_ok r3" "r_decoder r3 = d3" "in_live (r_in r3) = []" "i_size (r_in r3) = 4096" "\<not> r_is_bidirectional r3"
    "r_state r3 \<in> {dnswire_reader_reading_control, dnswire_reader_reading}" using r2(5) by auto
  have rd4: "sys_read ?w3 (i_size (r_in r3)) = (Some [3, 0], ?w4)" using rd(4) r3(5) by simp
  from read_whole(2) [OF toylib_ok r3(2,4,7) rd4 _ d(7) [folded r3(3)] r3(6)]
  obtain r4 where r4: "dnswire_reader_read toylib ?w3 r3 = Inr (dnswire_endofdata, r4, ?w4)" by auto
  from have_dnstap_decoded [OF d(5)] obtain d0 bs where
    "dnstap_decode_protobuf toylib d0 bs = Inr (0, dc_dnstap d3)" by blast
  from decoded_printed [OF this toy_ntop_ok toy_printer_ok] obtain p where
    p: "print_dnstap toy_ntop (dc_dnstap d3) toy_printer = Inr p" by blast
  have "decoder_ok (r_decoder r4)"
    using reader_read_uses [OF toylib_ok toylib_consumes r3(2) r4] by (simp add: read_uses_def)
  have "reader_loop (Suc (Suc (Suc (Suc n)))) toylib toy_ntop toy_source toy_reader0 toy_printer =
      Inr (Ended, r4, ?w4, p)" for n
    by (simp only: reader_loop.simps dnswire_reader_fread_def r1(1) r2(1) r3(1) r3(3) r4 p bindF_simps
        prod.case dnswire_result.case)
  from this [of 96] reader_destroyed [OF \<open>decoder_ok (r_decoder r4)\<close>] show ?thesis
    by (simp add: reader_main_def i)
qed

theorem programs_print_messages_witness:
  "\<exists>w p r shown. reader_main 100 toylib toy_ntop 2 True toy_source toy_printer = Inr (0, Some Ended, w, p) \<and>
     reported toylib toy_ntop r (inbox toy_source) Ended shown \<and> text_out p = shown"
proof -
  have f: "2 * (length (reads toy_source) + length (writes toy_source) + length (inbox toy_source)) < 100"
    by (simp add: toy_source_def toy_content_def toy_start_hdr_def DNSTAP_PROTOBUF_CONTENT_TYPE_def)
  from toy_reader_main obtain w p where
    r: "reader_main 100 toylib toy_ntop 2 True toy_source toy_printer = Inr (0, Some Ended, w, p)" by blast
  from conjunct1 [OF programs_print_messages [OF toylib_ok toylib_consumes toy_ntop_ok toy_pton_ok toy_printer_ok f,
      where argc = 2 and opened = True]] r
  show ?thesis by (auto simp: prints_def toy_printer_def)
qed

end
