(* ===== verification/File_Transfer.thy ===== *)
theory File_Transfer
  imports Writer_Programs Reader_Programs Dnstap_Build
begin

text \<open>
  From \<open>examples/writer.c\<close> to \<open>examples/reader.c\<close>: what the reader prints of a file the writer wrote.
\<close>

section \<open>The report of a decoded message\<close>

text \<open>A report depends only on the fields it shows.\<close>

lemma report_message_cong:
  "message_fields.truncate m = message_fields.truncate m' \<Longrightarrow> report_message ntop m = report_message ntop m'"
  by (simp add: message_fields.truncate_def report_message_def)

lemma report_cong:
  assumes "dnstap_fields.truncate (d_dnstap m) = (if t_type (d_dnstap d) = 1 then dnstap_fields.truncate (d_dnstap d)
      else (dnstap_fields.truncate (d_dnstap d))\<lparr>t_type := 0\<rparr>)"
    and "dnstap_has_message m \<longleftrightarrow> dnstap_has_message d"
    and "dnstap_has_message d \<Longrightarrow> message_fields.truncate (d_message m) = message_fields.truncate (d_message d)"
  shows "report ntop m = report ntop d"
proof -
  have f: "t_has_identity (d_dnstap m) = t_has_identity (d_dnstap d)" "t_identity (d_dnstap m) = t_identity (d_dnstap d)"
    "t_has_version (d_dnstap m) = t_has_version (d_dnstap d)" "t_version (d_dnstap m) = t_version (d_dnstap d)"
    "t_has_extra (d_dnstap m) = t_has_extra (d_dnstap d)" "t_extra (d_dnstap m) = t_extra (d_dnstap d)"
    "t_type (d_dnstap m) = 1 \<longleftrightarrow> t_type (d_dnstap d) = 1"
    using assms(1) by (simp_all add: dnstap_fields.truncate_def split: if_splits)
  show ?thesis
    using f(7) report_message_cong [of "d_message m" "d_message d" ntop] assms(2,3)
    by (cases "dnstap_has_message d") (simp_all add: report_def f(1-6) only_if_def)
qed

text \<open>Decoding leaves a message whose codes are known as it is.\<close>

lemma decode_known:
  assumes "message_enums_ok m"
  shows "decode_socket_protocol (decode_socket_family (decode_message_type m)) = m"
proof -
  from assms have e: "0 \<le> m_type m" "m_type m < 15" "0 \<le> m_socket_family m" "m_socket_family m < 3"
    "m_has_socket_family m \<longrightarrow> m_socket_family m \<noteq> 0" "0 \<le> m_socket_protocol m"
    "m_socket_protocol m < 8" "m_has_socket_protocol m \<longrightarrow> m_socket_protocol m \<noteq> 0"
    by (simp_all add: message_enums_iff)
  have t: "m_type m \<in> set [0..14]" and p: "m_socket_protocol m \<in> set [0..7]" and f: "m_socket_family m \<in> set [0..2]"
    using e by simp_all
  have "decode_message_type m = m"
    using t by (auto simp: decode_message_type_def settable_message_types_def upto.simps)
  moreover have "decode_socket_family m = m"
    using f e(5) by (auto simp: decode_socket_family_def upto.simps)
  moreover have "decode_socket_protocol m = m"
    using p e(8) by (auto simp: decode_socket_protocol_def upto.simps)
  ultimately show ?thesis by simp
qed

text \<open>What a decoded message holds, and what packing it would see.\<close>

lemma truncate_extend [simp]:
  "dnstap_fields.truncate (dnstap_fields.extend f x) = f"
  "message_fields.truncate (message_fields.extend g y) = g"
  by (simp_all add: dnstap_fields.defs message_fields.defs)

lemma truncate_type: "dnstap_fields.truncate (decode_type t) =
   (if t_type t = 1 then dnstap_fields.truncate t else (dnstap_fields.truncate t)\<lparr>t_type := 0\<rparr>)"
  by (simp add: decode_type_def dnstap_fields.truncate_def)

lemma extend_type: "t_type (dnstap_fields.extend f x) = t_type f"
  by (simp add: dnstap_fields.extend_def)

lemma decoded_shape:
  assumes "dnstap_decode_protobuf L d0 data = Inr (0, m)"
  obtains f mo where "wire_of m = Inr (decoded_wire (f, mo))"
    and "dnstap_fields.truncate (d_dnstap m) = fst (decoded_wire (f, mo))"
    and "dnstap_has_message m \<longleftrightarrow> mo \<noteq> None"
    and "\<And>mf po. mo = Some (mf, po) \<Longrightarrow> \<exists>q. d_message m = decode_socket_protocol
      (decode_socket_family (decode_message_type (message_fields.extend mf q)))"
proof -
  note result = that
  have un: "d_unpacked d0 = None"
    using assms by (auto simp: dnstap_decode_protobuf_def bindF_eq_Inr)
  have w: "pb_unpack L data = Some t \<Longrightarrow> wire_of m = Inr (decoded_wire t)" for t
    using decode_wire [OF un, of L data t] assms by auto
  have g: thesis if x: "pb_unpack L data = Some (f, mo)"
    and t: "d_dnstap m = decode_type (u_dnstap (tree_at L (d_next d0) (f, mo)))"
    and g: "\<And>mf po. mo = Some (mf, po) \<Longrightarrow> \<exists>q. d_message m = decode_socket_protocol
      (decode_socket_family (decode_message_type (message_fields.extend mf q)))" for f mo
  proof -
    have u: "u_dnstap (tree_at L (d_next d0) (f, mo)) = dnstap_fields.extend f
        (Dnstap__Dnstap.fields (case mo of None \<Rightarrow> Msg_null | Some _ \<Rightarrow> Msg_unpacked (d_next d0)))"
      by (simp add: tree_at_def)
    have f1: "dnstap_fields.truncate (d_dnstap m) = fst (decoded_wire (f, mo))"
      by (simp add: t u truncate_type extend_type decoded_wire_def)
    have "t_message (d_dnstap m) = t_message (u_dnstap (tree_at L (d_next d0) (f, mo)))"
      by (simp add: t decode_type_def)
    then have f2: "dnstap_has_message m \<longleftrightarrow> mo \<noteq> None"
      by (simp add: dnstap_has_message_def tree_at_message split: option.split)
    show thesis by (rule result [OF w [OF x] f1 f2 g])
  qed
  show thesis
  proof (cases rule: unpack_cases [of L data])
    case fails
    with assms un show thesis by (simp add: decode_fails)
  next
    case (no_message f)
    show thesis
      by (rule g [OF no_message]) (use assms decode_no_message [OF un no_message] in auto)
  next
    case (message f mf)
    show thesis
      by (rule g [OF message]) (use assms decode_message [OF un message] in \<open>auto simp: tree_at_def\<close>)
  next
    case (policy f mf p)
    show thesis
      by (rule g [OF policy]) (use assms decode_policy [OF un policy] in \<open>auto simp: tree_at_def\<close>)
  qed
qed

lemma enums_extend:
  "message_fields.truncate m = message_fields.truncate m' \<Longrightarrow> message_enums_ok m \<longleftrightarrow> message_enums_ok m'"
  by (simp add: message_fields.truncate_def message_enums_ok_def)

text \<open>
  A message that was set with the setters and arrives as it was sent is reported as it was set.
\<close>

lemma report_received:
  assumes m: "dnstap_decode_protobuf L d0 data = Inr (0, m)" and same: "same_message d m"
    and d: "self_contained d" "enums_known d"
  shows "report ntop m = report ntop d"
proof -
  from same obtain t where t: "wire_of d = Inr t" "wire_of m = Inr (decoded_wire t)"
    by (auto simp: same_message_def)
  from m obtain f mo where s: "wire_of m = Inr (decoded_wire (f, mo))"
    "dnstap_fields.truncate (d_dnstap m) = fst (decoded_wire (f, mo))"
    "dnstap_has_message m \<longleftrightarrow> mo \<noteq> None"
    "\<And>mf po. mo = Some (mf, po) \<Longrightarrow> \<exists>q. d_message m = decode_socket_protocol
      (decode_socket_family (decode_message_type (message_fields.extend mf q)))"
    using decoded_shape by blast
  obtain g no where tg: "t = (g, no)" by (cases t)
  with t s(1) have eq: "fst (decoded_wire (f, mo)) = (if t_type g = 1 then g else g\<lparr>t_type := 0\<rparr>)" "mo = no"
    by (auto simp: decoded_wire_def)
  from t(1) tg have x: "wire_of_message d (t_message (d_dnstap d)) = Inr no"
    "g = dnstap_fields.truncate (d_dnstap d)"
    by (auto simp: wire_of_def bindF_eq_Inr)
  have type: "t_type (dnstap_fields.truncate (d_dnstap d)) = t_type (d_dnstap d)"
    by (simp add: dnstap_fields.truncate_def)
  show ?thesis
  proof (rule report_cong)
    show "dnstap_fields.truncate (d_dnstap m) = (if t_type (d_dnstap d) = 1 then dnstap_fields.truncate (d_dnstap d)
        else (dnstap_fields.truncate (d_dnstap d))\<lparr>t_type := 0\<rparr>)"
      using s(2) eq(1) x(2) type by simp
    have own: "t_message (d_dnstap d) \<in> {Msg_null, Msg_own}" using d(1) by (simp add: self_contained_def)
    then show "dnstap_has_message m \<longleftrightarrow> dnstap_has_message d"
      using s(3) eq(2) x(1) by (auto simp: dnstap_has_message_def wire_of_message_def bindF_eq_Inr split: if_splits)
    assume "dnstap_has_message d"
    with own x(1) obtain po where "no = Some (message_fields.truncate (d_message d), po)"
      by (auto simp: dnstap_has_message_def wire_of_message_def bindF_eq_Inr split: if_splits)
    with s(4) eq(2) obtain q where
      q: "d_message m = decode_socket_protocol (decode_socket_family (decode_message_type
        (message_fields.extend (message_fields.truncate (d_message d)) q)))" by blast
    have "message_enums_ok (message_fields.extend (message_fields.truncate (d_message d)) q)"
      using d(2) enums_extend [of "message_fields.extend (message_fields.truncate (d_message d)) q" "d_message d"]
      by (simp add: enums_known_def)
    from decode_known [OF this] q show
      "message_fields.truncate (d_message m) = message_fields.truncate (d_message d)" by simp
  qed
qed

section \<open>The file\<close>

lemma receives_decoded:
  assumes "receives L r inp ms r'" and "extlib_ok L" and "reader_ok r"
  shows "\<forall>m \<in> set ms. \<exists>d0 bs. dnstap_decode_protobuf L d0 bs = Inr (0, m)"
  using assms
proof (induction rule: receives.induct)
  case (receives_more r inp ms r1 chunk res out r2)
  from receives_run [OF receives_more.hyps(1)] receives_more.prems have ok: "reader_ok r1"
    using reader_run_ok by blast
  show ?case
  proof (cases "res = dnswire_have_dnstap")
    case True
    with delivered_decoded [OF _ receives_more.prems(1) ok] receives_more.hyps(2) receives_more show ?thesis
      by auto
  next
    case False
    with receives_more show ?thesis by simp
  qed
qed simp

lemma one_message_sent:
  assumes "one_message L False d fs"
  obtains b1 b2 b3 d1 d3 where "fs = [(dnswire_encoder_control_start, d1, b1),
    (dnswire_encoder_frames, Some d, b2), (dnswire_encoder_control_stop, d3, b3)]"
proof -
  obtain x y z where fs: "fs = [x, y, z]" and k: "fst x = dnswire_encoder_control_start"
    "fst y = dnswire_encoder_frames" "fst z = dnswire_encoder_control_stop"
    using assms by (auto simp: one_message_def first_frames_def)
  have "fst (snd y) = Some d" using assms fs by (simp add: one_message_def)
  with fs k that show thesis by (cases x; cases y; cases z) auto
qed

lemma one_message_received:
  assumes L: "extlib_ok L" "tinyframe_stream_ok L pos" and d: "unpacks L d" and fs: "one_message L False d fs"
    and i: "dnswire_reader_init L v = (dnswire_ok, r, v1)" and rec: "receives L r inp ms r'"
    and cut: "frame_bytes fs = inp @ rest"
  shows "ms = [] \<or> (\<exists>m. ms = [m] \<and> same_message d m)"
    and "dc_state (r_decoder r') = dnswire_decoder_done \<Longrightarrow> ms \<noteq> []"
proof -
  from fs obtain b1 b2 b3 d1 d3 where f: "fs = [(dnswire_encoder_control_start, d1, b1),
    (dnswire_encoder_frames, Some d, b2), (dnswire_encoder_control_stop, d3, b3)]"
    by (rule one_message_sent)
  have tr: "sender_trace dnswire_encoder_done (map fst fs)"
    by (simp add: f) (rule exI [of _ "Suc 0"], simp)
  have msgs: "sent_messages fs = [d]" by (simp add: f)
  have mem: "\<forall>(s, x, bs) \<in> set fs. s = dnswire_encoder_frames \<longrightarrow> (\<exists>m \<in> set [d]. x = Some m)"
    by (simp add: f)
  have w: "list_all (written L) fs" using fs by (simp add: one_message_def)
  have u: "\<forall>m \<in> set [d]. unpacks L m" using d by simp
  note r0 = reader_init_sound [OF i]
  have "delivered L pos [d] [] (r_decoder r) (in_live (r_in r) @ inp @ rest)"
    using conversation_awaited [OF L w mem u tr] msgs cut r0 by (simp add: delivered_def)
  from receives_delivered [OF rec L(1) r0(1) this] have
    del: "delivered L pos [d] ms (r_decoder r') (in_live (r_in r') @ rest)" .
  then show "ms = [] \<or> (\<exists>m. ms = [m] \<and> same_message d m)"
    by (cases ms) (auto simp: delivered_def)
  show "ms \<noteq> []" if "dc_state (r_decoder r') = dnswire_decoder_done"
    using del awaits_nothing [of L pos "r_decoder r'" "in_live (r_in r') @ rest" "[d]"] that
    by (auto simp: delivered_def)
qed

lemma file_printed:
  assumes L: "extlib_ok L" "tinyframe_consumes L" "tinyframe_nonempty L" "tinyframe_stream_ok L pos"
    and d: "built L d" "init_enums_ok L" "unpacks L d" and n: "inet_ntop_ok ntop" "printer_ok p"
    and w: "writer_main_with fw L d argc opened w = Inr (0, Some Stopped, w')" "sent w = []"
      "length (writes w) + length (reads w) + length (inbox w) + 6 < fw"
    and v: "reader_main fr L ntop argc' opened' v p = Inr (0, Some c, v', p')" "inbox v = sent w'"
      "2 * (length (reads v) + length (writes v) + length (inbox v)) < fr"
  shows "text_out p' = text_out p @ report ntop d \<or> c = Broken \<and> text_out p' = text_out p"
proof -
  have sound: "self_contained d" "enums_known d" "encodable d"
    using built_sound [OF d(1)] d(2) self_contained_encodable by blast+
  from writer_main_with_sends [OF L(1-3) sound(3) w(3), of argc opened] w(1,2) obtain fs where
    fs: "one_message L False d fs" "sent w' = frame_bytes fs" by (auto simp: sends_one_def)
  from reader_main_prints [OF L(1,2) n v(3), of argc' opened'] v(1) obtain r v1 shown where
    r: "dnswire_reader_init L v = (dnswire_ok, r, v1)" "reported L ntop r (inbox v) c shown"
      "text_out p' = text_out p @ shown" by (auto simp: prints_def split: if_splits)
  from r(2) obtain inp ms r' rest where
    rec: "receives L r inp ms r'" "inbox v = inp @ rest" "shown = concat (map (report ntop) ms)"
      "c = Ended \<longrightarrow> dc_state (r_decoder r') = dnswire_decoder_done"
    by (auto simp: reported_def)
  have cut: "frame_bytes fs = inp @ rest" using fs(2) v(2) rec(2) by simp
  note one = one_message_received [OF L(1,4) d(3) fs(1) r(1) rec(1) cut]
  note r0 = reader_init_sound [OF r(1)]
  from one(1) show ?thesis
  proof (elim disjE exE conjE)
    assume "ms = []"
    moreover from this one(2) rec(4) have "c = Broken" by (cases c) auto
    ultimately show ?thesis using r(3) rec(3) by simp
  next
    fix m
    assume m: "ms = [m]" "same_message d m"
    with receives_decoded [OF rec(1) L(1) r0(1)] obtain d0 bs where
      "dnstap_decode_protobuf L d0 bs = Inr (0, m)" by auto
    from report_received [OF this m(2) sound(1,2)] m(1) r(3) rec(3) show ?thesis by simp
  qed
qed

lemma toy_msg_built: "built toylib toy_msg"
  unfolding toy_msg_def by (rule built_set [OF built_init setter.intros(1)])

lemma toy_enums: "init_enums_ok toylib"
  by (simp add: init_enums_ok_def enums_known_def top_enums_iff message_enums_iff
      policy_enums_iff DNSTAP_INITIALIZER_def embedded_selectors toy_inits toy_dnstap_def
      toy_message_def toy_policy_def)

lemma toy_msg_unpacks: "unpacks toylib toy_msg"
  by (simp add: unpacks_def toy_msg_wire toy_msg_packed)

text \<open>
  C2: From program to program. A file that \<open>main\<close> of \<open>writer.c\<close> wrote to its end, given any message built
  by the macros of \<open>dnstap.h\<close> in place of the one from \<open>create_dnstap\<close>, is printed by \<open>reader\<close> as exactly that message, once, in whatever portions the
  kernel wrote and reads the file; only if the reading fails half-way may nothing be printed.
\<close>
theorem written_file_printed:
  assumes "extlib_ok L" and "tinyframe_consumes L" and "tinyframe_nonempty L" and "tinyframe_stream_ok L pos"
    and "built L d" and "init_enums_ok L" and "unpacks L d" and "inet_ntop_ok ntop" and "printer_ok p"
    and "writer_main_with fw L d argc opened w = Inr (0, Some Stopped, w')" and "sent w = []"
    and "length (writes w) + length (reads w) + length (inbox w) + 6 < fw"
    and "reader_main fr L ntop argc' opened' v p = Inr (0, Some c, v', p')" and "inbox v = sent w'"
    and "2 * (length (reads v) + length (writes v) + length (inbox v)) < fr"
  shows "text_out p' = text_out p @ report ntop d \<or> c = Broken \<and> text_out p' = text_out p"
  by (rule file_printed [OF assms])

theorem written_file_printed_witness:
  "\<exists>w v p. writer_main_with 12 toylib toy_msg 2 True toy_file = Inr (0, Some Stopped, w) \<and>
     reader_main 100 toylib toy_ntop 2 True toy_source toy_printer = Inr (0, Some Ended, v, p) \<and>
     inbox toy_source = sent w \<and> text_out p = report toy_ntop toy_msg"
proof -
  from toy_writer_main_with obtain w where
    w: "writer_main_with 12 toylib toy_msg 2 True toy_file = Inr (0, Some Stopped, w)"
      "sent w = toy_start_hdr @ toy_content @ [6, 3, 9, 1, 1, 3, 0]" by blast
  from toy_reader_main obtain v p where
    v: "reader_main 100 toylib toy_ntop 2 True toy_source toy_printer = Inr (0, Some Ended, v, p)" by blast
  have s: "sent toy_file = []" "inbox toy_source = sent w"
    "length (writes toy_file) + length (reads toy_file) + length (inbox toy_file) + 6 < 12"
    "2 * (length (reads toy_source) + length (writes toy_source) + length (inbox toy_source)) < 100"
    by (simp_all add: toy_file_def toy_source_def w(2) toy_content_def toy_start_hdr_def
        DNSTAP_PROTOBUF_CONTENT_TYPE_def)
  from written_file_printed [OF toylib_ok toylib_consumes toylib_nonempty toy_stream_ok toy_msg_built toy_enums toy_msg_unpacks toy_ntop_ok
      toy_printer_ok w(1) s(1,3) v s(2,4)] w v s(2)
  show ?thesis by (auto simp: toy_printer_def)
qed

end
