(* ===== verification/Delivery.thy ===== *)
theory Delivery
  imports Reading_Through Writing_Through File_Transfer
begin

text \<open>
  From \<open>examples/writer.c\<close> to \<open>examples/reader.c\<close> when nothing is in the way: with a world that does its
  work the writer comes to the end of the stream, and the reader to the end of the file.
\<close>

section \<open>The writer\<close>

lemma encoder_next_ok: "encoder_next s = Some (s', dnswire_ok) \<Longrightarrow> s' = dnswire_encoder_frames"
  by (cases s) auto

lemma stop_goes_on:
  assumes ok: "writer_ok h" and a: "able n d A w h" and e: "e_state (wr_encoder h) = dnswire_encoder_frames"
    and budget: "to_write n 1 h \<le> length (writes w)"
  shows "\<exists>h'. dnswire_writer_stop h = (dnswire_ok, h') \<and> writing_on n d A w h'"
proof -
  let ?h = "h\<lparr>wr_encoder := (wr_encoder h)\<lparr>e_state := dnswire_encoder_control_stop\<rparr>,
           wr_state := dnswire_writer_stopping\<rparr>"
  have st: "dnswire_writer_stop h = (dnswire_ok, ?h)"
    using e by (simp add: dnswire_writer_stop_def dnswire_encoder_stop_def Let_def)
  have "writing_on n d A w ?h"
    using writer_stop_ok [OF ok st] a budget by (simp add: writing_on_def in_phase_def able_def answer_side_def to_write_def midway_def)
  with st show ?thesis by blast
qed

lemma writer_loop_stops:
  assumes L: "extlib_ok L" "tinyframe_consumes L" "tinyframe_nonempty L" "tinyframe_forms L form m"
    and d: "fits L form m n d" and uni: "\<not> fst A" and "writing_on n d A w h" and "writer_loop fuel L w h = Inr (oc, h', w')"
  shows "oc = Stopped"
  using assms(7-)
proof (induction fuel arbitrary: w h)
  case (Suc fuel)
  note on = Suc.prems(1)
  then have ok: "writer_ok h" and ph: "in_phase h" by (simp_all add: writing_on_def)
  from write_goes_on [OF L(1,4) d on] obtain res h1 w1 where
    r: "dnswire_writer_write L w h = Inr (res, h1, w1)" and x: "res = dnswire_endofdata \<or>
       res \<in> {dnswire_ok, dnswire_again} \<and> able n d A w1 h1 \<and> midway h1 \<and>
       to_write n (if res = dnswire_ok then 1 else frames_ahead (e_state (wr_encoder h1))) h1 \<le> length (writes w1)"
    using uni by (auto simp: wrote_on_def)
  note loop = Suc.prems(2) [unfolded writer_loop.simps dnswire_writer_fwrite_def r]
  have wr: "wrote L w h (res, h1, w1)" by (rule write_wrote [OF L(1-3) ok ph r])
  have ok1: "writer_ok h1" if "res \<noteq> dnswire_error"
    using writer_write_returns [OF L(1) ok, of w] r that by (auto simp: write_post_def)
  from x consider "res = dnswire_endofdata" | "res = dnswire_ok" | "res = dnswire_again" by blast
  then show ?case
  proof cases
    case 1
    with loop show ?thesis by simp
  next
    case 2
    have "e_state (wr_encoder h1) = dnswire_encoder_frames"
      using wr 2 encoder_next_ok by (auto simp: wrote_def moved_def)
    from stop_goes_on [OF ok1 _ this, of n d A w1] x 2 obtain h2 where
      "dnswire_writer_stop h1 = (dnswire_ok, h2)" "writing_on n d A w1 h2" by auto
    with loop 2 Suc.IH show ?thesis by simp
  next
    case 3
    have "writing_on n d A w1 h1" using ok1 wr x 3 by (simp add: writing_on_def wrote_def)
    with loop 3 Suc.IH show ?thesis by simp
  qed
qed simp

text \<open>What \<open>writer\<close> needs of its world.\<close>

definition file_writable :: "world \<Rightarrow> bool" where
  "file_writable w \<longleftrightarrow> allocates w \<and> sends w \<and> 3 * DNSWIRE_MAXIMUM_BUF_SIZE \<le> length (writes w)"

lemma writer_main_with_stops:
  assumes L: "extlib_ok L" "tinyframe_consumes L" "tinyframe_nonempty L" "tinyframe_forms L form m"
    and d: "fits L form m DNSWIRE_MAXIMUM_BUF_SIZE d" and w: "file_writable w" and argc: "2 \<le> argc"
    and f: "length (writes w) + length (reads w) + length (inbox w) + 6 < fuel"
  shows "\<exists>w'. writer_main_with fuel L d argc True w = Inr (0, Some Stopped, w')"
proof -
  note enc = fits_encodable [OF d]
  from allocates_alloc [of w] w obtain w1 where
    w1: "sys_alloc w = (True, w1)" "allocates w1" "same_io w w1" by (auto simp: file_writable_def)
  then obtain h where i: "dnswire_writer_init L w = (dnswire_ok, h, w1)"
    by (simp add: dnswire_writer_init_def Let_def)
  note u = sender_set_up [OF i enc] and s = writer_init_sound [OF i]
  let ?h = "dnswire_writer_set_dnstap h d"
  have max: "o_max (wr_out h) = DNSWIRE_MAXIMUM_BUF_SIZE"
    using i w1(1) by (auto simp: dnswire_writer_init_def writer_defaults_def Let_def)
  have sel: "wr_out ?h = wr_out h" "wr_state ?h = wr_state h" "wr_bidirectional ?h = wr_bidirectional h"
    "e_dnstap (wr_encoder ?h) = Some d"
    by (simp_all add: dnswire_writer_set_dnstap_def dnswire_encoder_set_dnstap_def)
  have "writes w1 = writes w" "sends w1"
    using w1(3) w same_io_sends [OF w1(3)] by (simp_all add: same_io_def file_writable_def)
  then have "able DNSWIRE_MAXIMUM_BUF_SIZE d (answer_side w1 ?h) w1 ?h"
    "to_write DNSWIRE_MAXIMUM_BUF_SIZE (frames_ahead (e_state (wr_encoder ?h))) ?h \<le> length (writes w1)"
    using s(2,3,5) w w1(2) max u(4) by (simp_all add: able_def sel to_write_def file_writable_def)
  then have on: "writing_on DNSWIRE_MAXIMUM_BUF_SIZE d (answer_side w1 ?h) w1 ?h"
    using u(1,2) s(3) by (simp add: writing_on_def midway_def sel)
  from sender_loop_ends [OF L(1-3) u(1,2), of False d "sent w" w1 fuel] u(3-5) f obtain oc h' w' where
    l: "writer_loop fuel L w1 ?h = Inr (oc, h', w')" by auto
  have "\<not> fst (answer_side w1 ?h)" using s(2) by (simp add: answer_side_def sel)
  from writer_loop_stops [OF L d this on l] l i argc show ?thesis by (simp add: writer_main_with_def)
qed

section \<open>The reader\<close>

lemma reader_loop_complete:
  assumes L: "extlib_ok L" and uni: "\<not> fst B" and "reading_on L n B w r" and "reader_loop fuel L ntop w r p = Inr (oc, r', w', p')"
  shows "oc = Ended"
  using assms(3-)
proof (induction fuel arbitrary: w r p)
  case (Suc fuel)
  from read_goes_on [OF L Suc.prems(1)] obtain res r1 w1 where
    r: "dnswire_reader_read L w r = Inr (res, r1, w1)"
      "res = dnswire_endofdata \<or> goes_on res \<and> reading_on L n B w1 r1" using uni by blast
  note loop = Suc.prems(2) [unfolded reader_loop.simps dnswire_reader_fread_def r(1)]
  from r(2) loop Suc.IH show ?case by (auto simp: goes_on_def bindF_eq_Inr)
qed simp

lemma reader_main_complete:
  assumes L: "extlib_ok L" "tinyframe_consumes L" "tinyframe_stream_ok L pos" and n: "inet_ntop_ok ntop" "printer_ok p"
    and w: "allocates v" "delivers v" and argc: "2 \<le> argc"
    and c: "complete_from L DNSWIRE_MAXIMUM_BUF_SIZE (before_start pos dnswire_decoder_reading_control) (inbox v)"
    and f: "2 * (length (reads v) + length (writes v) + length (inbox v)) < fuel"
  shows "\<exists>v' p'. reader_main fuel L ntop argc True v p = Inr (0, Some Ended, v', p')"
proof -
  from allocates_alloc [OF w(1)] obtain v1 where
    v1: "sys_alloc v = (True, v1)" "allocates v1" "same_io v v1" by blast
  then obtain r where i: "dnswire_reader_init L v = (dnswire_ok, r, v1)"
    by (simp add: dnswire_reader_init_def Let_def)
  note s = reader_init_sound [OF i]
  have sel: "i_max (r_in r) = DNSWIRE_MAXIMUM_BUF_SIZE" "\<not> r_is_bidirectional r"
    using i v1(1) by (auto simp: dnswire_reader_init_def reader_defaults_def Let_def)
  have io: "inbox v1 = inbox v" "delivers v1"
    using v1(3) w(2) same_io_delivers [OF v1(3)] by (simp_all add: same_io_def)
  have "before_start pos dnswire_decoder_reading_control (r_decoder r)"
    using decoder_init_ok [of L] L(3)
    by (simp add: s(3) before_start_def DNSWIRE_DECODER_INITIALIZER_def tinyframe_stream_ok_def)
  then have on: "reading_on L DNSWIRE_MAXIMUM_BUF_SIZE (asked_side v1 r) v1 r"
    using s c sel v1(2) io empty_room [OF reader_okD(1) [OF s(1)] s(2)] complete_nonempty [OF c]
    unfolding reading_on_def by auto
  from reader_main_prints [OF L(1,2) n f, of argc True] i argc obtain oc v' p' where
    m: "reader_main fuel L ntop argc True v p = Inr (0, Some oc, v', p')"
    unfolding prints_def reader_main_def by (auto simp: bindF_eq_Inr)
  then obtain r' p1 where "reader_loop fuel L ntop v1 r p = Inr (oc, r', v', p1)"
    using i argc by (auto simp: reader_main_def bindF_eq_Inr)
  moreover have "\<not> fst (asked_side v1 r)" using sel(2) by (simp add: asked_side_def)
  ultimately show ?thesis using reader_loop_complete [OF L(1) _ on] m by blast
qed

section \<open>The file\<close>

lemma written_form:
  assumes L: "extlib_ok L" "tinyframe_forms L form m" and d: "fits L form m n d"
    and w: "written L (s, Some d, bs)"
  shows "bs = next_frame L form (Some d) s" and "length bs \<le> n"
proof -
  from w obtain e :: "'b dnswire_encoder" and len res e' where
    e: "e_state e = s" "e_dnstap e = Some d" "dnswire_encoder_encode L e len = Inr (res, e', bs)"
      "encoder_next s = Some (e_state e', res)"
    by (auto simp: written_def)
  have len: "0 < len" using e(3) by (auto simp: dnswire_encoder_encode_def assertF_def split: if_splits)
  have s: "s \<noteq> dnswire_encoder_done" using e(4) by auto
  have "res \<noteq> dnswire_need_more" using encoder_next_result [OF e(4)] by auto
  with encode_fits [OF L _ len, of n e] fits_frame [OF d s] e(1-3) show bs: "bs = next_frame L form (Some d) s"
    by (auto split: if_splits)
  show "length bs \<le> n" using fits_frame [OF d s] by (simp add: frame_fits_def bs)
qed

lemma one_message_complete:
  assumes L: "extlib_ok L" "tinyframe_stream_ok L pos" "tinyframe_forms L form m"
    and d: "fits L form m n d" "unpacks L d" and fs: "one_message L False d fs"
    and st: "st \<in> {dnswire_decoder_reading_control, dnswire_decoder_reading_start}"
  shows "complete_from L n (before_start pos st) (frame_bytes fs)"
proof (rule complete_conversation [OF L(1,2) _ _ _ _ st, where ds = "[d]" and i = 1])
  show w: "list_all (written L) fs" using fs by (simp add: one_message_def)
  show "\<forall>(k, dd, bs) \<in> set fs. length bs \<le> n \<and> (k = dnswire_encoder_frames \<longrightarrow> (\<exists>m \<in> set [d]. dd = Some m))"
  proof (intro ballI, clarify)
    fix k dd bs
    assume f: "(k, dd, bs) \<in> set fs"
    have dd: "dd = Some d" using fs f by (force simp: one_message_def)
    with written_form(2) [OF L(1,3) d(1), of k bs] w f show "length bs \<le> n \<and>
        (k = dnswire_encoder_frames \<longrightarrow> (\<exists>m \<in> set [d]. dd = Some m))"
      by (auto simp: list_all_iff)
  qed
  show "\<forall>m \<in> set [d]. unpacks L m" using d(2) by simp
  show "map fst fs = dnswire_encoder_control_start # replicate 1 dnswire_encoder_frames @ [dnswire_encoder_control_stop]"
    using fs by (simp add: one_message_def first_frames_def)
qed

lemma file_goes_through:
  assumes L: "extlib_ok L" "tinyframe_consumes L" "tinyframe_nonempty L" "tinyframe_stream_ok L pos"
      "tinyframe_forms L form m"
    and d: "built L d" "init_enums_ok L" "unpacks L d" "fits L form m DNSWIRE_MAXIMUM_BUF_SIZE d"
    and n: "inet_ntop_ok ntop" "printer_ok p" and argc: "2 \<le> argc" "2 \<le> argc'"
    and w: "file_writable w" "sent w = []" "length (writes w) + length (reads w) + length (inbox w) + 6 < fw"
    and v: "allocates v" "delivers v" "2 * (length (reads v) + length (writes v) + length (inbox v)) < fr"
  shows "\<exists>w'. writer_main_with fw L d argc True w = Inr (0, Some Stopped, w') \<and> (inbox v = sent w' \<longrightarrow>
     (\<exists>v' p'. reader_main fr L ntop argc' True v p = Inr (0, Some Ended, v', p') \<and>
        text_out p' = text_out p @ report ntop d))"
proof -
  from writer_main_with_stops [OF L(1-3,5) d(4) w(1) argc(1) w(3)] obtain w' where
    w': "writer_main_with fw L d argc True w = Inr (0, Some Stopped, w')" by blast
  from writer_main_with_sends [OF L(1-3) fits_encodable [OF d(4)] w(3), of argc True] w' w(2) obtain fs where
    fs: "one_message L False d fs" "sent w' = frame_bytes fs" by (auto simp: sends_one_def)
  have "\<exists>v' p'. reader_main fr L ntop argc' True v p = Inr (0, Some Ended, v', p') \<and>
        text_out p' = text_out p @ report ntop d" if i: "inbox v = sent w'"
  proof -
    have "complete_from L DNSWIRE_MAXIMUM_BUF_SIZE (before_start pos dnswire_decoder_reading_control) (inbox v)"
      using one_message_complete [OF L(1,4,5) d(4,3) fs(1)] i fs(2) by simp
    from reader_main_complete [OF L(1,2,4) n v(1,2) argc(2) this v(3)] obtain v' p' where
      r: "reader_main fr L ntop argc' True v p = Inr (0, Some Ended, v', p')" by blast
    from file_printed [OF L(1-4) d(1-3) n w' w(2,3) r i v(3)] r show ?thesis by auto
  qed
  with w' show ?thesis by blast
qed

text \<open>
  C3: Nothing is lost when nothing is in the way. If no allocation fails, \<open>write\<close> takes at least a byte
  per call, \<open>read\<close> hands out at least one as long as there are any, and the frame of the message fits
  into the largest buffer, then \<open>main\<close> of \<open>writer.c\<close> comes to the end of the stream, for every message
  built by the macros of \<open>dnstap.h\<close> that it is given in place of the one from \<open>create_dnstap\<close>, and
  \<open>reader\<close> comes to the end of that file and prints the message.
\<close>
theorem file_delivered:
  assumes "extlib_ok L" and "tinyframe_consumes L" and "tinyframe_nonempty L" and "tinyframe_stream_ok L pos"
    and "tinyframe_forms L form m" and "built L d" and "init_enums_ok L" and "unpacks L d"
    and "fits L form m DNSWIRE_MAXIMUM_BUF_SIZE d" and "inet_ntop_ok ntop" and "printer_ok p"
    and "2 \<le> argc" and "2 \<le> argc'" and "file_writable w" and "sent w = []"
    and "length (writes w) + length (reads w) + length (inbox w) + 6 < fw"
    and "allocates v" and "delivers v" and "2 * (length (reads v) + length (writes v) + length (inbox v)) < fr"
  shows "\<exists>w'. writer_main_with fw L d argc True w = Inr (0, Some Stopped, w') \<and> (inbox v = sent w' \<longrightarrow>
     (\<exists>v' p'. reader_main fr L ntop argc' True v p = Inr (0, Some Ended, v', p') \<and>
        text_out p' = text_out p @ report ntop d))"
  by (rule file_goes_through [OF assms])

section \<open>An instance\<close>

text \<open>The control frames of \<open>toylib\<close>, and its frames of data.\<close>

fun toy_form :: form where
  "toy_form dnswire_encoder_control_ready c = toy_control TINYFRAME_CONTROL_READY [DNSTAP_PROTOBUF_CONTENT_TYPE]"
| "toy_form dnswire_encoder_control_accept c = toy_control TINYFRAME_CONTROL_ACCEPT [DNSTAP_PROTOBUF_CONTENT_TYPE]"
| "toy_form dnswire_encoder_control_start c = toy_control TINYFRAME_CONTROL_START [DNSTAP_PROTOBUF_CONTENT_TYPE]"
| "toy_form dnswire_encoder_control_stop c = toy_control TINYFRAME_CONTROL_STOP []"
| "toy_form dnswire_encoder_control_finish c = toy_control TINYFRAME_CONTROL_FINISH []"
| "toy_form s c = 6 # of_nat (length c) # c"

lemma toy_control_length: "length (toy_control c [DNSTAP_PROTOBUF_CONTENT_TYPE]) = 25" "length (toy_control c []) = 2"
  by (simp_all add: toy_control_def Let_def DNSTAP_PROTOBUF_CONTENT_TYPE_def)

lemma toy_emit_form: "length bs \<le> 255 \<Longrightarrow> writes_form bs len (toy_emit w len bs)"
  by (simp add: writes_form_def toy_emit_def)

lemma toylib_forms: "tinyframe_forms toylib toy_form 253"
  by (simp add: tinyframe_forms_def toylib_def content_type_field_def toy_emit_form toy_control_length)

lemma toy_form_control: "s \<noteq> dnswire_encoder_frames \<Longrightarrow> s \<noteq> dnswire_encoder_done \<Longrightarrow>
    toy_form s c \<noteq> [] \<and> length (toy_form s c) \<le> 25"
  by (cases s) (auto simp: toy_control_length simp flip: length_0_conv)

lemma toy_fits: "fits toylib toy_form 253 DNSWIRE_MAXIMUM_BUF_SIZE toy_msg"
proof -
  have "toy_form s [] \<noteq> [] \<and> length (toy_form s []) \<le> DNSWIRE_MAXIMUM_BUF_SIZE"
    if "s \<noteq> dnswire_encoder_frames" "s \<noteq> dnswire_encoder_done" for s
    using toy_form_control [OF that, of "[]"] le_trans [of _ 25 DNSWIRE_MAXIMUM_BUF_SIZE]
    by (simp add: DNSWIRE_MAXIMUM_BUF_SIZE_def)
  moreover have "pb_packed_size toylib t = length (pb_pack toylib t)" for t by (simp add: toylib_def)
  ultimately show ?thesis
    by (auto simp: fits_def frame_fits_def next_frame_def toy_msg_wire toy_msg_packed)
      (simp add: DNSWIRE_MAXIMUM_BUF_SIZE_def)
qed

text \<open>Here the kernel takes and hands out single bytes.\<close>

definition toy_bytewise :: "byte list \<Rightarrow> world" where
  "toy_bytewise bs = \<lparr>allocs = [], reads = replicate (length bs) 1, inbox = bs,
     writes = replicate (3 * DNSWIRE_MAXIMUM_BUF_SIZE) 1, sent = []\<rparr>"

lemma toy_bytewise_ok:
  "file_writable (toy_bytewise bs)" "allocates (toy_bytewise bs)" "delivers (toy_bytewise bs)"
  by (simp_all add: toy_bytewise_def file_writable_def allocates_def sends_def delivers_def)

theorem file_delivered_witness:
  "\<exists>w v p. writer_main_with (10 + 3 * DNSWIRE_MAXIMUM_BUF_SIZE) toylib toy_msg 2 True (toy_bytewise []) =
       Inr (0, Some Stopped, w) \<and>
     reader_main (Suc (2 * (2 * length (sent w) + 3 * DNSWIRE_MAXIMUM_BUF_SIZE))) toylib toy_ntop 2 True
       (toy_bytewise (sent w)) toy_printer = Inr (0, Some Ended, v, p) \<and> text_out p = report toy_ntop toy_msg"
proof -
  have f: "length (writes (toy_bytewise [])) + length (reads (toy_bytewise [])) +
      length (inbox (toy_bytewise [])) + 6 < 10 + 3 * DNSWIRE_MAXIMUM_BUF_SIZE" "sent (toy_bytewise []) = []"
    by (simp_all add: toy_bytewise_def)
  note run = file_delivered [OF toylib_ok toylib_consumes toylib_nonempty toy_stream_ok toylib_forms toy_msg_built
      toy_enums toy_msg_unpacks toy_fits toy_ntop_ok toy_printer_ok le_refl le_refl toy_bytewise_ok(1) f(2,1)
      toy_bytewise_ok(2,3)]
  have one: "2 * (length (reads (toy_bytewise bs)) + length (writes (toy_bytewise bs)) +
      length (inbox (toy_bytewise bs))) < Suc (2 * (2 * length bs + 3 * DNSWIRE_MAXIMUM_BUF_SIZE))" for bs
    by (simp add: toy_bytewise_def)
  from run [OF one, of "[]"] obtain w where
    w: "writer_main_with (10 + 3 * DNSWIRE_MAXIMUM_BUF_SIZE) toylib toy_msg 2 True (toy_bytewise []) = Inr (0, Some Stopped, w)"
    by blast
  with run [OF one, of "sent w"] show ?thesis by (simp add: toy_bytewise_def toy_printer_def)
qed

end
