(* ===== verification/Session_Sender.thy ===== *)
theory Session_Sender
  imports Answer_Stream Delivery
begin

text \<open>
  The loop of \<open>examples/sender.c\<close> in a bidirectional conversation with a peer that answers as it should:
  READY goes out in one piece, ACCEPT and FINISH come in one piece each.
\<close>

section \<open>Stages\<close>

definition talking :: "nat \<Rightarrow> dnstap \<Rightarrow> byte list \<Rightarrow> world \<Rightarrow> ('r, 'w) dnswire_writer \<Rightarrow> bool" where
  "talking n d fin w h \<longleftrightarrow> e_dnstap (wr_encoder h) = Some d \<and> n \<le> o_max (wr_out h) \<and>
     wr_bidirectional h \<and> length fin \<le> i_size (wr_in h) \<and> allocates w \<and> sends w"

text \<open>READY is to be sent, \<open>acc\<close> and \<open>fin\<close> are the answers to come.\<close>

definition offering :: "('r, 'w) extlib \<Rightarrow> form \<Rightarrow> ('r \<Rightarrow> phase \<Rightarrow> bool) \<Rightarrow> nat \<Rightarrow> dnstap \<Rightarrow> byte list \<Rightarrow> byte list \<Rightarrow>
    world \<Rightarrow> ('r, 'w) dnswire_writer \<Rightarrow> bool" where
  "offering L form pos n d acc fin w h \<longleftrightarrow> talking n d fin w h \<and> wr_state h = dnswire_writer_encoding_ready \<and>
     e_state (wr_encoder h) = dnswire_encoder_control_ready \<and>
     before_start pos dnswire_decoder_reading_control (wr_decoder h) \<and> in_live (wr_in h) = [] \<and>
     length acc \<le> i_size (wr_in h) \<and> inbox w = acc @ fin \<and>
     reads w = [int (length acc), int (length fin)] \<and>
     (\<exists>k ks. writes w = k # ks \<and> length (form dnswire_encoder_control_ready []) \<le> nat k \<and> 3 * n \<le> length ks)"

text \<open>The header of ACCEPT is read, and its field is buffered.\<close>

definition accepted :: "('r, 'w) extlib \<Rightarrow> ('r \<Rightarrow> phase \<Rightarrow> bool) \<Rightarrow> nat \<Rightarrow> dnstap \<Rightarrow> byte list \<Rightarrow>
    world \<Rightarrow> ('r, 'w) dnswire_writer \<Rightarrow> bool" where
  "accepted L pos n d fin w h \<longleftrightarrow> talking n d fin w h \<and> wr_state h = dnswire_writer_decoding_accept \<and>
     e_state (wr_encoder h) = dnswire_encoder_control_start \<and> o_left (wr_out h) = 0 \<and>
     in_field pos dnswire_decoder_checking_accept (in_live (wr_in h)) (wr_decoder h) \<and>
     decoder_piece L n (in_field pos dnswire_decoder_checking_accept (in_live (wr_in h))) (in_live (wr_in h))
       dnswire_bidirectional (\<lambda>d. before_start pos dnswire_decoder_checking_finish d \<and>
         dc_accept_support_dnstap_protobuf d \<and> dnswire_decoder_decoded L d = length (in_live (wr_in h))) \<and>
     inbox w = fin \<and> reads w = [int (length fin)] \<and> 3 * n \<le> length (writes w)"

text \<open>From then on, until STOP is sent, the answer side waits for FINISH.\<close>

definition awaits_finish :: "('r \<Rightarrow> phase \<Rightarrow> bool) \<Rightarrow> byte list \<Rightarrow> 'r answer_side \<Rightarrow> bool" where
  "awaits_finish pos fin A \<longleftrightarrow> (case A of (bi, d, b, i, ks) \<Rightarrow> bi \<and>
     before_start pos dnswire_decoder_checking_finish d \<and> in_ok b \<and> in_live b = [] \<and>
     length fin \<le> i_size b \<and> i = fin \<and> ks = [int (length fin)])"

section \<open>The calls\<close>

lemma take_in_frame:
  assumes ok: "in_ok (wr_in h)" "in_live (wr_in h) = []" and n: "length bs \<le> i_size (wr_in h)" "bs \<noteq> []"
    and w: "reads w = int (length bs) # ks" "inbox w = bs @ rst"
  obtains b where "write_take_in w h = Inr (Some (h\<lparr>wr_in := b\<rparr>), w\<lparr>reads := ks, inbox := rst\<rparr>)"
    and "in_ok b" and "in_live b = bs" and "i_size b = i_size (wr_in h)"
proof (cases rule: take_in_empty [OF ok n(1)])
  case (1 b)
  with sys_read_frame [OF w 1(6)] n(2) that show thesis by (simp add: write_take_in_def)
qed

lemma write_frame:
  assumes ok: "out_ok (wr_out h)" "out_pending (wr_out h) = bs" "bs \<noteq> []"
    and w: "writes w = k # ks" "length bs \<le> nat k"
  obtains b where "write_bytes w h = Inr (Some (h\<lparr>wr_out := b\<rparr>), w\<lparr>writes := ks, sent := sent w @ bs\<rparr>)"
    and "out_ok b" and "o_left b = 0" and "o_max b = o_max (wr_out h)"
proof -
  let ?b = "out_drain (length bs) (wr_out h)"
  have left: "o_left (wr_out h) = length bs" using out_pending_length [OF ok(1)] ok(2) by simp
  have pk: "out_peek (wr_out h) (length bs) = Inr bs"
    using outq.peek_pending [OF ok(1), of "length bs"] ok(2) by simp
  have b: "out_ok ?b" "out_pending ?b = []"
    using outq.drain_ok [OF ok(1), of "length bs"] outq.drain_pending [OF ok(1), of "length bs"] ok(2) by simp_all
  have "o_max ?b = o_max (wr_out h)" by (simp add: out_drain_def Let_def)
  with that [of ?b] pk b out_pending_length [OF b(1)] left ok(3) sys_write_frame [OF w ok(3)] show thesis
    by (simp add: write_bytes_def)
qed

text \<open>The first call sends READY, waits for ACCEPT and reads its header.\<close>

lemma ready_sent:
  assumes L: "extlib_ok L" "tinyframe_forms L form m" and d: "fits L form m n d"
    and ok: "writer_ok h" and o: "offering L form pos n d acc fin w h"
  obtains e b w' where "dnswire_writer_write L w h = write_reading_accept L w' (h\<lparr>wr_encoder := e, wr_out := b,
      wr_state := dnswire_writer_reading_accept\<rparr>)"
    and "e_state e = dnswire_encoder_control_start" and "e_dnstap e = Some d" and "out_ok b" and "o_left b = 0"
    and "n \<le> o_max b" and "allocates w'" and "sends w'" and "inbox w' = inbox w" and "reads w' = reads w"
    and "3 * n \<le> length (writes w')"
proof -
  let ?R = "form dnswire_encoder_control_ready []"
  from o have st: "wr_state h = dnswire_writer_encoding_ready" "e_state (wr_encoder h) = dnswire_encoder_control_ready"
    "e_dnstap (wr_encoder h) = Some d" "n \<le> o_max (wr_out h)" "allocates w" "sends w"
    by (simp_all add: offering_def talking_def)
  from o obtain k ks where k: "writes w = k # ks" "length ?R \<le> nat k" "3 * n \<le> length ks"
    by (auto simp: offering_def)
  note wok = writer_okD [OF ok]
  have left: "o_left (wr_out h) = 0" using ok st(1) by (auto simp: writer_ok_def)
  have ctl: "dnswire_encoder_control_ready \<notin> {dnswire_encoder_frames, dnswire_encoder_done}" by simp
  note fr = fits_control [OF d ctl, of "e_dnstap (wr_encoder h)"]
  then have fr1: "frame_fits L form m n (e_dnstap (wr_encoder h)) (e_state (wr_encoder h))" using st(2) by simp
  obtain res e b w1 where r: "encoding L w (wr_encoder h) (wr_out h) = Inr (res, e, b, w1)"
      "encoder_next (e_state (wr_encoder h)) = Some (e_state e, res)" "e_dnstap e = e_dnstap (wr_encoder h)"
      "out_ok b" "o_max b = o_max (wr_out h)"
      "out_pending b = next_frame L form (e_dnstap (wr_encoder h)) (e_state (wr_encoder h))"
      "0 < o_left b" "allocates w1" "same_io w w1"
    by (rule encoding_fits [OF L wok(1) left wok(2) fr1 st(4,5)])
  let ?h = "h\<lparr>wr_encoder := e, wr_out := b, wr_state := dnswire_writer_writing\<rparr>"
  have R: "out_pending (wr_out ?h) = ?R" "?R \<noteq> []" using r(6) st(2) fr unfolding frame_fits_def by auto
  have w1: "writes w1 = k # ks" using r(9) k(1) by (simp add: same_io_def)
  have "out_ok (wr_out ?h)" using r(4) by simp
  from write_frame [OF this R w1 k(2)] obtain b' where
    wb: "write_bytes w1 ?h = Inr (Some (?h\<lparr>wr_out := b'\<rparr>), w1\<lparr>writes := ks, sent := sent w1 @ ?R\<rparr>)"
      "out_ok b'" "o_left b' = 0" "o_max b' = o_max (wr_out ?h)" by blast
  have "o_buf (wr_out h) \<noteq> None" using wok(1) by (auto elim: out_okD)
  then have "dnswire_writer_write L w h = write_reading_accept L (w1\<lparr>writes := ks, sent := sent w1 @ ?R\<rparr>)
      (h\<lparr>wr_encoder := e, wr_out := b', wr_state := dnswire_writer_reading_accept\<rparr>)"
    using st(1,2) r(1,2,7) wb(1,3)
    by (simp add: dnswire_writer_write_def write_encoding_ready_def write_writing_ready_def)
  then show thesis
    by (rule that) (use r st k wb same_io_sends [OF r(9)] in
      \<open>simp_all add: allocates_def sends_def same_io_def\<close>)
qed

lemma offering_call:
  assumes L: "extlib_ok L" "tinyframe_forms L form m" and d: "fits L form m n d"
    and acc: "accept_readable L pos DNSTAP_PROTOBUF_CONTENT_TYPE acc" "length acc \<le> n"
    and ok: "writer_ok h" and o: "offering L form pos n d acc fin w h"
  shows "\<exists>h' w'. dnswire_writer_write L w h = Inr (dnswire_again, h', w') \<and> accepted L pos n d fin w' h'"
proof -
  from o have st: "wr_bidirectional h" "in_live (wr_in h) = []" "length acc \<le> i_size (wr_in h)"
    "length fin \<le> i_size (wr_in h)" "inbox w = acc @ fin" "reads w = [int (length acc), int (length fin)]"
    and dec: "before_start pos dnswire_decoder_reading_control (wr_decoder h)"
    by (simp_all add: offering_def talking_def)
  obtain e b w1 where r: "dnswire_writer_write L w h = write_reading_accept L w1 (h\<lparr>wr_encoder := e, wr_out := b,
      wr_state := dnswire_writer_reading_accept\<rparr>)"
    "e_state e = dnswire_encoder_control_start" "e_dnstap e = Some d" "out_ok b" "o_left b = 0" "n \<le> o_max b"
    "allocates w1" "sends w1" "inbox w1 = inbox w" "reads w1 = reads w" "3 * n \<le> length (writes w1)"
    by (rule ready_sent [OF L d ok o])
  obtain hdr fld where p: "acc = hdr @ fld"
    "decoder_piece L n (before_start pos dnswire_decoder_reading_control) hdr dnswire_again
      (in_field pos dnswire_decoder_checking_accept fld)"
    "decoder_piece L n (in_field pos dnswire_decoder_checking_accept fld) fld dnswire_bidirectional
      (\<lambda>d. before_start pos dnswire_decoder_checking_finish d \<and> dc_accept_support_dnstap_protobuf d \<and>
         dnswire_decoder_decoded L d = length fld)"
    by (rule accept_pieces [OF acc])
  from piece_whole [OF p(2) dec, of fld] obtain d' where
    dd: "dnswire_decoder_decode L (wr_decoder h) acc = Inr (dnswire_again, d')"
      "in_field pos dnswire_decoder_checking_accept fld d'" "dnswire_decoder_decoded L d' = length hdr" "hdr \<noteq> []"
    unfolding p(1) by auto
  have fld: "fld \<noteq> []" using p(3) by (simp add: decoder_piece_def)
  let ?h = "h\<lparr>wr_encoder := e, wr_out := b, wr_state := dnswire_writer_reading_accept\<rparr>"
  let ?w = "w1\<lparr>reads := [int (length fin)], inbox := fin\<rparr>"
  from take_in_frame [of ?h acc w1 "[int (length fin)]" fin] writer_okD(4) [OF ok st(1)] st r(9,10) dd(4) p(1)
  obtain b1 where t: "write_take_in w1 ?h = Inr (Some (?h\<lparr>wr_in := b1\<rparr>), ?w)"
      "in_ok b1" "in_live b1 = acc" "i_size b1 = i_size (wr_in h)" by auto
  note c = consume_empty [OF t(2), of hdr fld]
  let ?h1 = "?h\<lparr>wr_in := in_consume (length hdr) b1, wr_state := dnswire_writer_decoding_accept, wr_decoder := d'\<rparr>"
  have "dnswire_writer_write L w h = Inr (dnswire_again, ?h1, ?w)"
    using r(1) t(1) in_load_live [OF t(2)] t(3) dd(1,3) c(5) p(1) fld
    by (simp add: write_reading_accept_def write_decoding_accept_def pop_decoding_accept_def Let_def)
  moreover have "accepted L pos n d fin ?w ?h1"
    using r st t(3,4) p(1,3) c(2,3) dd(2) by (simp add: accepted_def talking_def allocates_def sends_def)
  ultimately show ?thesis by blast
qed

text \<open>The next one reads the field of ACCEPT; only START and what follows it are left to write.\<close>

lemma accepted_call:
  assumes ok: "writer_ok h" "in_phase h" and a: "accepted L pos n d fin w h"
  shows "\<exists>h' A. dnswire_writer_write L w h = Inr (dnswire_again, h', w) \<and> awaits_finish pos fin A \<and>
     (writer_ok h' \<and> in_phase h' \<longrightarrow> writing_on n d A w h')"
proof -
  let ?fld = "in_live (wr_in h)"
  from a have st: "wr_state h = dnswire_writer_decoding_accept" "wr_bidirectional h"
    "e_state (wr_encoder h) = dnswire_encoder_control_start" "o_left (wr_out h) = 0"
    and dec: "in_field pos dnswire_decoder_checking_accept ?fld (wr_decoder h)"
    and p: "decoder_piece L n (in_field pos dnswire_decoder_checking_accept ?fld) ?fld
       dnswire_bidirectional (\<lambda>d. before_start pos dnswire_decoder_checking_finish d \<and>
         dc_accept_support_dnstap_protobuf d \<and> dnswire_decoder_decoded L d = length ?fld)"
    and h: "e_dnstap (wr_encoder h) = Some d" "n \<le> o_max (wr_out h)" "length fin \<le> i_size (wr_in h)"
    and w: "allocates w" "sends w" "inbox w = fin" "reads w = [int (length fin)]" "3 * n \<le> length (writes w)"
    by (simp_all add: accepted_def talking_def)
  note wok = writer_okD [OF ok(1)]
  have inb: "in_ok (wr_in h)" by (rule wok(4) [OF st(2)])
  from piece_whole [OF p dec, of "[]"] obtain d' where
    dd: "dnswire_decoder_decode L (wr_decoder h) ?fld = Inr (dnswire_bidirectional, d')"
      "before_start pos dnswire_decoder_checking_finish d'" "dc_accept_support_dnstap_protobuf d'"
      "dnswire_decoder_decoded L d' = length ?fld" by auto
  let ?b = "in_consume (length ?fld) (wr_in h)"
  have "?fld = ?fld @ []" by simp
  note c = consume_empty [OF inb this]
  let ?h = "h\<lparr>wr_decoder := d', wr_in := ?b, wr_state := dnswire_writer_encoding\<rparr>"
  let ?A = "(True, d', ?b, fin, [int (length fin)])"
  have "o_buf (wr_out h) \<noteq> None" using wok(1) by (auto elim: out_okD)
  then have "dnswire_writer_write L w h = Inr (dnswire_again, ?h, w)"
    using st(1) in_load_live [OF inb] dd(1,3,4)
    by (simp add: dnswire_writer_write_def write_decoding_accept_def pop_decoding_accept_def Let_def)
  moreover have "awaits_finish pos fin ?A" using dd(2) c h(3) by (simp add: awaits_finish_def)
  moreover have "writer_ok ?h \<and> in_phase ?h \<longrightarrow> writing_on n d ?A w ?h"
    using st h w by (simp add: writing_on_def midway_def able_def answer_side_def to_write_def)
  ultimately show ?thesis by blast
qed

text \<open>FINISH ends the conversation.\<close>

lemma finish_call:
  assumes fin: "piece L pos Before_start fin tinyframe_finished (\<lambda>r. True)"
    and ok: "writer_ok h" and st: "wr_state h = dnswire_writer_reading_finish"
    and a: "awaits_finish pos fin (answer_side w h)"
  shows "\<exists>h' w'. dnswire_writer_write L w h = Inr (dnswire_endofdata, h', w')"
proof -
  have A: "before_start pos dnswire_decoder_checking_finish (wr_decoder h)"
    "in_ok (wr_in h)" "in_live (wr_in h) = []" "length fin \<le> i_size (wr_in h)" "inbox w = fin @ []"
    "reads w = int (length fin) # []"
    using a by (simp_all add: awaits_finish_def answer_side_def)
  from piece_last [OF finish_piece [OF fin le_refl] A(1)] obtain d' where
    d: "dnswire_decoder_decode L (wr_decoder h) fin = Inr (dnswire_endofdata, d')" by blast
  have "fin \<noteq> []" using fin by (simp add: piece_def)
  from take_in_frame [OF A(2-4) this A(6,5)] obtain b where
    t: "write_take_in w h = Inr (Some (h\<lparr>wr_in := b\<rparr>), w\<lparr>reads := [], inbox := []\<rparr>)" "in_ok b" "in_live b = fin"
    by blast
  have "o_buf (wr_out h) \<noteq> None" using writer_okD(1) [OF ok] by (auto elim: out_okD)
  then show ?thesis
    using st t(1,3) in_load_live [OF t(2)] d
    by (simp add: dnswire_writer_write_def write_reading_finish_def write_decoding_finish_def
        pop_decoding_finish_def Let_def)
qed

section \<open>The loop\<close>

definition sender_stage :: "('r, 'w) extlib \<Rightarrow> form \<Rightarrow> ('r \<Rightarrow> phase \<Rightarrow> bool) \<Rightarrow> nat \<Rightarrow> dnstap \<Rightarrow> byte list \<Rightarrow> byte list \<Rightarrow>
    world \<Rightarrow> ('r, 'w) dnswire_writer \<Rightarrow> bool" where
  "sender_stage L form pos n d acc fin w h \<longleftrightarrow> writer_ok h \<and> in_phase h \<and>
     (offering L form pos n d acc fin w h \<or> accepted L pos n d fin w h \<or>
      (\<exists>A. awaits_finish pos fin A \<and> (writing_on n d A w h \<or>
         wr_state h = dnswire_writer_reading_finish \<and> answer_side w h = A)))"

lemma sender_stageI:
  assumes "writer_ok h" and "in_phase h"
  shows "accepted L pos n d fin w h \<Longrightarrow> sender_stage L form pos n d acc fin w h"
    and "awaits_finish pos fin A \<Longrightarrow> writing_on n d A w h \<Longrightarrow> sender_stage L form pos n d acc fin w h"
    and "awaits_finish pos fin A \<Longrightarrow> wr_state h = dnswire_writer_reading_finish \<Longrightarrow> answer_side w h = A \<Longrightarrow>
      sender_stage L form pos n d acc fin w h"
  using assms unfolding sender_stage_def by blast+

text \<open>After the message the program calls \<open>dnswire_writer_stop\<close>.\<close>

lemma sender_call:
  assumes L: "extlib_ok L" "tinyframe_consumes L" "tinyframe_nonempty L" "tinyframe_forms L form m"
    and d: "fits L form m n d"
    and acc: "accept_readable L pos DNSTAP_PROTOBUF_CONTENT_TYPE acc" "length acc \<le> n"
    and fin: "piece L pos Before_start fin tinyframe_finished (\<lambda>r. True)"
    and s: "sender_stage L form pos n d acc fin w h"
  shows "\<exists>res h' w'. dnswire_writer_write L w h = Inr (res, h', w') \<and>
     (res = dnswire_endofdata \<or> res = dnswire_again \<and> sender_stage L form pos n d acc fin w' h' \<or>
      res = dnswire_ok \<and> (\<exists>h2. dnswire_writer_stop h' = (dnswire_ok, h2) \<and> sender_stage L form pos n d acc fin w' h2))"
proof -
  have ok: "writer_ok h" and ph: "in_phase h" using s by (simp_all add: sender_stage_def)
  from writer_write_returns [OF L(1) ok, of w] obtain res h1 w1 where
    r: "dnswire_writer_write L w h = Inr (res, h1, w1)" and post: "write_post L w h (res, h1, w1)"
    by (metis prod_cases3)
  have wr: "wrote L w h (res, h1, w1)" by (rule write_wrote [OF L(1-3) ok ph r])
  have ok1: "writer_ok h1" "in_phase h1" if "res \<in> {dnswire_ok, dnswire_again}"
    using post wr that by (auto simp: write_post_def wrote_def)
  have on: ?thesis if "res = dnswire_again" "sender_stage L form pos n d acc fin w1 h1" using r that by simp
  from s consider "offering L form pos n d acc fin w h" | "accepted L pos n d fin w h"
    | A where "awaits_finish pos fin A" "writing_on n d A w h"
    | "awaits_finish pos fin (answer_side w h)" "wr_state h = dnswire_writer_reading_finish"
    unfolding sender_stage_def by blast
  then show ?thesis
  proof cases
    case 1
    from offering_call [OF L(1,4) d acc ok 1] r have x: "res = dnswire_again" "accepted L pos n d fin w1 h1" by auto
    with on sender_stageI(1) [OF ok1] show ?thesis by simp
  next
    case 2
    from accepted_call [OF ok ph 2] obtain h2 A where a: "dnswire_writer_write L w h = Inr (dnswire_again, h2, w)"
      "awaits_finish pos fin A" "writer_ok h2 \<and> in_phase h2 \<longrightarrow> writing_on n d A w h2" by blast
    then have x: "res = dnswire_again" "h2 = h1" "w1 = w" using r by simp_all
    with a on ok1 sender_stageI(2) [OF ok1 a(2)] show ?thesis by simp
  next
    case (3 A)
    have bi: "fst A" using 3(1) by (auto simp: awaits_finish_def)
    from write_goes_on [OF L(1,4) d 3(2)] r bi consider
        "res = dnswire_again" "wr_state h1 = dnswire_writer_reading_finish" "answer_side w1 h1 = A"
      | "res = dnswire_ok" "able n d A w1 h1" "to_write n 1 h1 \<le> length (writes w1)"
      | "res = dnswire_again" "able n d A w1 h1" "midway h1"
        "to_write n (frames_ahead (e_state (wr_encoder h1))) h1 \<le> length (writes w1)"
      by (auto simp: wrote_on_def split: if_splits)
    then show ?thesis
    proof cases
      case a: 1
      with on sender_stageI(3) [OF ok1 3(1)] show ?thesis by simp
    next
      case b: 2
      have "e_state (wr_encoder h1) = dnswire_encoder_frames"
        using wr b(1) encoder_next_ok by (auto simp: wrote_def moved_def)
      from stop_goes_on [OF ok1(1) b(2) this b(3)] b(1) obtain h2 where
        h2: "dnswire_writer_stop h1 = (dnswire_ok, h2)" "writing_on n d A w1 h2" by auto
      then have "writer_ok h2" "in_phase h2" by (simp_all add: writing_on_def)
      from sender_stageI(2) [OF this 3(1) h2(2)] r b(1) h2(1) show ?thesis by simp
    next
      case c: 3
      then have "writing_on n d A w1 h1" using ok1 by (simp add: writing_on_def)
      with on c(1) sender_stageI(2) [OF ok1 3(1)] show ?thesis by simp
    qed
  next
    case 4
    from finish_call [OF fin ok 4(2,1)] r show ?thesis by auto
  qed
qed

lemma sender_loop_stops:
  assumes L: "extlib_ok L" "tinyframe_consumes L" "tinyframe_nonempty L" "tinyframe_forms L form m"
    and d: "fits L form m n d"
    and acc: "accept_readable L pos DNSTAP_PROTOBUF_CONTENT_TYPE acc" "length acc \<le> n"
    and fin: "piece L pos Before_start fin tinyframe_finished (\<lambda>r. True)"
    and "sender_stage L form pos n d acc fin w h" and "sender_loop fuel L w h = Inr (oc, h', w')"
  shows "oc = Stopped"
  using assms(9-)
proof (induction fuel arbitrary: w h)
  case (Suc fuel)
  from sender_call [OF L d acc fin Suc.prems(1)] obtain res h1 w1 where
    r: "dnswire_writer_write L w h = Inr (res, h1, w1)" and c: "res = dnswire_endofdata \<or>
      res = dnswire_again \<and> sender_stage L form pos n d acc fin w1 h1 \<or>
      res = dnswire_ok \<and> (\<exists>h2. dnswire_writer_stop h1 = (dnswire_ok, h2) \<and>
        sender_stage L form pos n d acc fin w1 h2)" by blast
  note loop = Suc.prems(2) [unfolded sender_loop.simps r]
  from c loop Suc.IH show ?case by auto
qed simp

section \<open>The program\<close>

text \<open>What \<open>sender\<close> needs of its world: READY goes out at once, and the answers come one by one.\<close>

definition sender_served :: "form \<Rightarrow> world \<Rightarrow> bool" where
  "sender_served form w \<longleftrightarrow> allocates w \<and> sends w \<and>
     inbox w = form dnswire_encoder_control_accept [] @ form dnswire_encoder_control_finish [] \<and>
     reads w = [int (length (form dnswire_encoder_control_accept [])),
       int (length (form dnswire_encoder_control_finish []))] \<and>
     (\<exists>k ks. writes w = k # ks \<and> length (form dnswire_encoder_control_ready []) \<le> nat k \<and>
        3 * DNSWIRE_MAXIMUM_BUF_SIZE \<le> length ks)"

definition short_controls :: "form \<Rightarrow> bool" where
  "short_controls form \<longleftrightarrow> length (form dnswire_encoder_control_ready []) \<le> DNSWIRE_DEFAULT_BUF_SIZE \<and>
     length (form dnswire_encoder_control_accept []) \<le> DNSWIRE_DEFAULT_BUF_SIZE \<and>
     length (form dnswire_encoder_control_finish []) \<le> DNSWIRE_DEFAULT_BUF_SIZE"

lemma default_below_maximum: "DNSWIRE_DEFAULT_BUF_SIZE \<le> DNSWIRE_MAXIMUM_BUF_SIZE"
  by (simp add: DNSWIRE_DEFAULT_BUF_SIZE_def DNSWIRE_MAXIMUM_BUF_SIZE_def)

lemma bidirectional_writer:
  assumes L: "tinyframe_stream_ok L pos" and w: "allocates w"
  obtains h0 w1 h w2 where "dnswire_writer_init L w = (dnswire_ok, h0, w1)"
    and "dnswire_writer_set_bidirectional w1 h0 True = (dnswire_ok, h, w2)"
    and "allocates w2" and "same_io w w2" and "o_max (wr_out h) = DNSWIRE_MAXIMUM_BUF_SIZE"
    and "wr_bidirectional h" and "wr_state h = dnswire_writer_encoding_ready"
    and "before_start pos dnswire_decoder_reading_control (wr_decoder h)" and "in_live (wr_in h) = []"
    and "i_size (wr_in h) = DNSWIRE_DEFAULT_BUF_SIZE"
proof -
  from allocates_alloc [OF w] obtain w1 where w1: "sys_alloc w = (True, w1)" "allocates w1" "same_io w w1" by blast
  from allocates_alloc [OF w1(2)] obtain w2 where w2: "sys_alloc w1 = (True, w2)" "allocates w2" "same_io w1 w2" by blast
  from w1(1) obtain h0 where i: "dnswire_writer_init L w = (dnswire_ok, h0, w1)"
    by (simp add: dnswire_writer_init_def Let_def)
  note s = writer_init_sound [OF i]
  from s(6) w2(1) obtain h where b: "dnswire_writer_set_bidirectional w1 h0 True = (dnswire_ok, h, w2)"
    and h: "h = h0\<lparr>wr_in := (wr_in h0)\<lparr>i_buf := Some (fresh_block (i_size (wr_in h0)))\<rparr>,
      wr_encoder := (wr_encoder h0)\<lparr>e_state := dnswire_encoder_control_ready\<rparr>,
      wr_state := dnswire_writer_encoding_ready, wr_bidirectional := True\<rparr>"
    by (simp add: dnswire_writer_set_bidirectional_def)
  have "o_max (wr_out h0) = DNSWIRE_MAXIMUM_BUF_SIZE"
    using i w1(1) by (auto simp: dnswire_writer_init_def writer_defaults_def Let_def)
  then have "o_max (wr_out h) = DNSWIRE_MAXIMUM_BUF_SIZE" by (simp add: h)
  moreover have "wr_in h = \<lparr>i_buf = Some (fresh_block DNSWIRE_DEFAULT_BUF_SIZE), i_size = DNSWIRE_DEFAULT_BUF_SIZE,
       i_inc = DNSWIRE_DEFAULT_BUF_SIZE, i_max = DNSWIRE_MAXIMUM_BUF_SIZE, i_at = 0, i_left = 0\<rparr>"
    using s(7) by (simp add: h)
  then have "in_live (wr_in h) = []" "i_size (wr_in h) = DNSWIRE_DEFAULT_BUF_SIZE" by (simp_all add: in_live_def)
  moreover have "before_start pos dnswire_decoder_reading_control (wr_decoder h)"
    using decoder_init_ok [of L] L
    by (simp add: h s(8) before_start_def DNSWIRE_DECODER_INITIALIZER_def tinyframe_stream_ok_def)
  ultimately show thesis using that [OF i b w2(2) same_io_trans [OF w1(3) w2(3)]] by (simp add: h)
qed

lemma sender_main_with_stops:
  assumes L: "extlib_ok L" "tinyframe_consumes L" "tinyframe_nonempty L" "tinyframe_stream_ok L pos"
      "tinyframe_answer_ok L pos" "tinyframe_forms L form m"
    and d: "fits L form m DNSWIRE_MAXIMUM_BUF_SIZE d" and c: "short_controls form"
    and w: "sender_served form w" and argv: "2 \<le> length argv" "sender_socket pton k (tl argv) = Inr (True, t)"
    and f: "length (writes w) + length (reads w) + length (inbox w) + 8 < fuel"
  shows "\<exists>w'. sender_main_with fuel L d pton k argv w = Inr (0, Some Stopped, w')"
proof -
  have a: "allocates w" using w by (simp add: sender_served_def)
  obtain h0 w1 h w2 where i: "dnswire_writer_init L w = (dnswire_ok, h0, w1)"
    "dnswire_writer_set_bidirectional w1 h0 True = (dnswire_ok, h, w2)" "allocates w2" "same_io w w2"
    and h: "o_max (wr_out h) = DNSWIRE_MAXIMUM_BUF_SIZE" "wr_bidirectional h"
      "wr_state h = dnswire_writer_encoding_ready" "before_start pos dnswire_decoder_reading_control (wr_decoder h)"
      "in_live (wr_in h) = []" "i_size (wr_in h) = DNSWIRE_DEFAULT_BUF_SIZE"
    by (rule bidirectional_writer [OF L(4) a])
  note u = bidirectional_set_up [OF i(1) fits_encodable [OF d] i(2)]
  let ?h = "dnswire_writer_set_dnstap h d"
  have sel: "wr_out ?h = wr_out h" "wr_state ?h = wr_state h" "wr_bidirectional ?h = wr_bidirectional h"
    "e_dnstap (wr_encoder ?h) = Some d" "wr_in ?h = wr_in h" "wr_decoder ?h = wr_decoder h"
    by (simp_all add: dnswire_writer_set_dnstap_def dnswire_encoder_set_dnstap_def)
  let ?A = "form dnswire_encoder_control_accept []" and ?F = "form dnswire_encoder_control_finish []"
  have "talking DNSWIRE_MAXIMUM_BUF_SIZE d ?F w2 ?h"
    using h i(3) w c same_io_sends [OF i(4)] by (simp add: talking_def sel sender_served_def short_controls_def)
  then have "offering L form pos DNSWIRE_MAXIMUM_BUF_SIZE d ?A ?F w2 ?h"
    using h u(4) w c i(4) by (simp add: offering_def sel sender_served_def short_controls_def same_io_def)
  then have stage: "sender_stage L form pos DNSWIRE_MAXIMUM_BUF_SIZE d ?A ?F w2 ?h"
    using u(1,2) by (simp add: sender_stage_def)
  have len: "length ?A \<le> DNSWIRE_MAXIMUM_BUF_SIZE"
    using c default_below_maximum by (simp add: short_controls_def)
  from sender_loop_ends [OF L(1-3) u(1,2), of True d "sent w" w2 fuel] u(3-5) f obtain oc h' w' where
    l: "sender_loop fuel L w2 ?h = Inr (oc, h', w')" by auto
  from sender_loop_stops [OF L(1-3,6) d form_readable(2) [OF L(6,5)] len form_readable(3) [OF L(6,5)] stage l]
  show ?thesis using l i(1,2) argv by (simp add: sender_main_with_def)
qed

end
