(* ===== verification/Session_Receiver.thy ===== *)
theory Session_Receiver
  imports Answer_Stream Reading_Through Reader_Programs
begin

text \<open>
  The loop of \<open>examples/receiver.c\<close> in a bidirectional conversation: READY comes in one piece, and nothing
  else before ACCEPT is answered; the rest comes, and the answers go, in pieces of any size.
\<close>

section \<open>Stages\<close>

text \<open>What is to come after READY is complete, and there are answers of the kernel enough to read it.\<close>

definition serving :: "('r, 'w) extlib \<Rightarrow> ('r \<Rightarrow> phase \<Rightarrow> bool) \<Rightarrow> nat \<Rightarrow> world \<Rightarrow> ('r, 'w) dnswire_reader \<Rightarrow> bool" where
  "serving L pos n w r \<longleftrightarrow> n \<le> i_max (r_in r) \<and> n \<le> o_max (r_out r) \<and> allocates w \<and> delivers w \<and> sends w \<and>
     r_allow_bidirectional r \<and>
     complete_from L n (before_start pos dnswire_decoder_reading_start) (inbox w)"

text \<open>READY, \<open>rdy\<close>, is next; \<open>base\<close> has been sent so far, \<open>k\<close> bytes of answers are to be sent.\<close>

definition hearing :: "('r, 'w) extlib \<Rightarrow> ('r \<Rightarrow> phase \<Rightarrow> bool) \<Rightarrow> nat \<Rightarrow> byte list \<Rightarrow> byte list \<Rightarrow> nat \<Rightarrow> world \<Rightarrow>
    ('r, 'w) dnswire_reader \<Rightarrow> bool" where
  "hearing L pos n rdy base k w r \<longleftrightarrow> r_state r = dnswire_reader_reading_control \<and>
     before_start pos dnswire_decoder_reading_control (r_decoder r) \<and> in_live (r_in r) = [] \<and>
     length rdy \<le> i_size (r_in r) \<and> o_left (r_out r) = 0 \<and> sent w = base \<and> k \<le> length (writes w) \<and>
     (\<exists>ks rst. reads w = int (length rdy) # ks \<and> inbox w = rdy @ rst \<and>
        serving L pos n (w\<lparr>reads := ks, inbox := rst\<rparr>) r)"

text \<open>The header of READY is read, and its field is buffered.\<close>

definition offered :: "('r, 'w) extlib \<Rightarrow> ('r \<Rightarrow> phase \<Rightarrow> bool) \<Rightarrow> nat \<Rightarrow> byte list \<Rightarrow> nat \<Rightarrow> world \<Rightarrow>
    ('r, 'w) dnswire_reader \<Rightarrow> bool" where
  "offered L pos n base k w r \<longleftrightarrow> r_state r = dnswire_reader_decoding_control \<and>
     in_field pos dnswire_decoder_checking_ready (in_live (r_in r)) (r_decoder r) \<and>
     decoder_piece L n (in_field pos dnswire_decoder_checking_ready (in_live (r_in r))) (in_live (r_in r))
       dnswire_bidirectional (\<lambda>d. before_start pos dnswire_decoder_reading_start d \<and>
         dc_ready_support_dnstap_protobuf d \<and> dnswire_decoder_decoded L d = length (in_live (r_in r))) \<and>
     o_left (r_out r) = 0 \<and> sent w = base \<and> k \<le> length (writes w) \<and> serving L pos n w r"

text \<open>ACCEPT, \<open>acc\<close>, is to be encoded, or what is pending is the rest of it.\<close>

definition accepting :: "('r, 'w) extlib \<Rightarrow> ('r \<Rightarrow> phase \<Rightarrow> bool) \<Rightarrow> nat \<Rightarrow> byte list \<Rightarrow> byte list \<Rightarrow> nat \<Rightarrow> world \<Rightarrow>
    ('r, 'w) dnswire_reader \<Rightarrow> bool" where
  "accepting L pos n acc base k w r \<longleftrightarrow> serving L pos n w r \<and>
     before_start pos dnswire_decoder_reading_start (r_decoder r) \<and> in_live (r_in r) = [] \<and>
     (r_state r = dnswire_reader_encoding_accept \<and> o_left (r_out r) = 0 \<and> sent w = base \<and>
        length acc + k \<le> length (writes w) \<or>
      r_state r = dnswire_reader_writing_accept \<and> 0 < o_left (r_out r) \<and>
        sent w @ out_pending (r_out r) = base @ acc \<and> o_left (r_out r) + k \<le> length (writes w))"

text \<open>While the stream is read, FINISH is to be sent in the end.\<close>

definition finish_due :: "nat \<Rightarrow> byte list \<Rightarrow> nat \<Rightarrow> 'w asked_side \<Rightarrow> bool" where
  "finish_due n base k B \<longleftrightarrow> (case B of (bi, e, b, ws, snt) \<Rightarrow> bi \<and> encoder_ok e \<and>
     e_state e = dnswire_encoder_control_finish \<and> out_ok b \<and> o_left b = 0 \<and> n \<le> o_max b \<and>
     (\<forall>j \<in> set ws. 0 < j) \<and> k \<le> length ws \<and> snt = base)"

definition finishing :: "nat \<Rightarrow> byte list \<Rightarrow> byte list \<Rightarrow> world \<Rightarrow> ('r, 'w) dnswire_reader \<Rightarrow> bool" where
  "finishing n fin base w r \<longleftrightarrow> allocates w \<and>
     (r_state r = dnswire_reader_encoding_finish \<and> finish_due n base (length fin) (asked_side w r) \<or>
      r_state r = dnswire_reader_writing_finish \<and> sends w \<and> out_ok (r_out r) \<and> 0 < o_left (r_out r) \<and>
        sent w @ out_pending (r_out r) = base @ fin \<and> o_left (r_out r) \<le> length (writes w))"

section \<open>The calls\<close>

text \<open>READY is read whole, and its header decoded.\<close>

lemma hearing_call:
  assumes rdy: "ready_readable L pos DNSTAP_PROTOBUF_CONTENT_TYPE rdy" "length rdy \<le> n"
    and ok: "reader_ok r" and h: "hearing L pos n rdy base k w r"
  shows "\<exists>r' w'. dnswire_reader_read L w r = Inr (dnswire_again, r', w') \<and> offered L pos n base k w' r'"
proof -
  from h obtain ks rst where st: "r_state r = dnswire_reader_reading_control"
    and dec: "before_start pos dnswire_decoder_reading_control (r_decoder r)"
    and b: "in_live (r_in r) = []" "length rdy \<le> i_size (r_in r)" "o_left (r_out r) = 0"
    and w: "sent w = base" "k \<le> length (writes w)" "reads w = int (length rdy) # ks" "inbox w = rdy @ rst"
    and s: "serving L pos n (w\<lparr>reads := ks, inbox := rst\<rparr>) r" by (auto simp: hearing_def)
  obtain hdr fld where p: "rdy = hdr @ fld"
    "decoder_piece L n (before_start pos dnswire_decoder_reading_control) hdr dnswire_again
      (in_field pos dnswire_decoder_checking_ready fld)"
    "decoder_piece L n (in_field pos dnswire_decoder_checking_ready fld) fld dnswire_bidirectional
      (\<lambda>d. before_start pos dnswire_decoder_reading_start d \<and> dc_ready_support_dnstap_protobuf d \<and>
         dnswire_decoder_decoded L d = length fld)"
    by (rule ready_pieces [OF rdy])
  from piece_whole [OF p(2) dec, of fld] obtain d' where
    d: "dnswire_decoder_decode L (r_decoder r) rdy = Inr (dnswire_again, d')"
      "in_field pos dnswire_decoder_checking_ready fld d'" "dnswire_decoder_decoded L d' = length hdr" "hdr \<noteq> []"
    unfolding p(1) by auto
  have fld: "fld \<noteq> []" using p(3) by (simp add: decoder_piece_def)
  note inb = reader_okD(1) [OF ok]
  show ?thesis
  proof (cases rule: take_in_empty [OF inb b(1,2)])
    case (1 b')
    note c = consume_empty [OF 1(2), of hdr fld]
    let ?w = "w\<lparr>reads := ks, inbox := rst\<rparr>"
    let ?r = "r\<lparr>r_in := in_consume (length hdr) b', r_state := dnswire_reader_decoding_control, r_decoder := d'\<rparr>"
    have "read_bytes w r = Inr (Some (r\<lparr>r_in := b'\<rparr>), ?w)"
      using sys_read_frame [OF w(3,4) 1(6)] 1(1) d(4) p(1) by (simp add: read_bytes_def)
    then have "dnswire_reader_read L w r = Inr (dnswire_again, ?r, ?w)"
      using in_ok_buf [OF inb] st in_load_live [OF 1(2)] 1(3) d(1,3) c(5) p(1) fld
      by (simp add: dnswire_reader_read_def read_reading_control_def read_decoding_control_def Let_def)
    moreover have "offered L pos n base k ?w ?r"
      using c(2,4) 1(3,5) p(1,3) d(2) b(3) w(1,2) s by (simp add: offered_def serving_def)
    ultimately show ?thesis by blast
  qed
qed

text \<open>The field is decoded, and ACCEPT is due.\<close>

lemma offered_call:
  assumes ok: "reader_ok r" and o: "offered L pos n base (length acc + k) w r"
  shows "\<exists>r'. dnswire_reader_read L w r = Inr (dnswire_again, r', w) \<and> accepting L pos n acc base k w r'"
proof -
  let ?fld = "in_live (r_in r)"
  from o have st: "r_state r = dnswire_reader_decoding_control"
    and dec: "in_field pos dnswire_decoder_checking_ready ?fld (r_decoder r)"
    and p: "decoder_piece L n (in_field pos dnswire_decoder_checking_ready ?fld) ?fld
       dnswire_bidirectional (\<lambda>d. before_start pos dnswire_decoder_reading_start d \<and>
         dc_ready_support_dnstap_protobuf d \<and> dnswire_decoder_decoded L d = length ?fld)"
    and b: "o_left (r_out r) = 0" "sent w = base" "length acc + k \<le> length (writes w)" "serving L pos n w r"
    by (simp_all add: offered_def)
  note inb = reader_okD(1) [OF ok]
  from piece_whole [OF p dec, of "[]"] obtain d' where
    d: "dnswire_decoder_decode L (r_decoder r) ?fld = Inr (dnswire_bidirectional, d')"
      "before_start pos dnswire_decoder_reading_start d'" "dc_ready_support_dnstap_protobuf d'"
      "dnswire_decoder_decoded L d' = length ?fld" by auto
  have "?fld = ?fld @ []" by simp
  note c = consume_empty [OF inb this]
  let ?r = "r\<lparr>r_decoder := d', r_in := in_consume (length ?fld) (r_in r), r_is_bidirectional := True,
      r_state := dnswire_reader_encoding_accept\<rparr>"
  have allow: "r_allow_bidirectional r" using b(4) by (simp add: serving_def)
  have "dnswire_reader_read L w r = Inr (dnswire_again, ?r, w)"
    using in_ok_buf [OF inb] st in_load_live [OF inb] d(1,3,4) allow
    by (simp add: dnswire_reader_read_def read_decoding_control_def Let_def)
  moreover have "accepting L pos n acc base k w ?r"
    using c(2,4) d(2) b by (simp add: accepting_def serving_def)
  ultimately show ?thesis by blast
qed

text \<open>Sending what is pending of an answer.\<close>

lemma read_output_on:
  assumes ok: "out_ok (r_out r)" "0 < o_left (r_out r)" and w: "sends w" "allocates w"
    and k: "o_left (r_out r) + k \<le> length (writes w)"
  obtains b w' where "read_output w r = Inr (Some (r\<lparr>r_out := b\<rparr>), w')" and "out_ok b"
    and "o_max b = o_max (r_out r)" and "sent w' @ out_pending b = sent w @ out_pending (r_out r)"
    and "o_left b + k \<le> length (writes w')" and "inbox w' = inbox w" and "reads w' = reads w"
    and "sends w'" and "allocates w'"
proof -
  have ne: "writes w \<noteq> []" using k ok(2) by auto
  show thesis
  proof (cases rule: drain_on [OF ok w ne])
    case (1 j w')
    then have "read_output w r = Inr (Some (r\<lparr>r_out := out_drain j (r_out r)\<rparr>), w')"
      by (simp add: read_output_def)
    moreover have "o_left (out_drain j (r_out r)) + k \<le> length (writes w')" using 1 k ok(2) by simp
    ultimately show thesis using that 1 by blast
  qed
qed

text \<open>Sending a part of ACCEPT; with the last of it the reader goes back to reading.\<close>

lemma writing_accept_on:
  assumes ok: "out_ok (r_out r)" "0 < o_left (r_out r)" and s: "serving L pos n w r"
    and d: "before_start pos dnswire_decoder_reading_start (r_decoder r)" "in_live (r_in r) = []"
    and i: "in_ok (r_in r)" and st: "r_state r = dnswire_reader_writing_accept" "r_is_bidirectional r"
    and out: "sent w @ out_pending (r_out r) = base @ acc" "o_left (r_out r) + k \<le> length (writes w)"
  shows "\<exists>r' w'. read_writing_accept w r = Inr (dnswire_again, r', w') \<and> (reader_ok r' \<longrightarrow>
     accepting L pos n acc base k w' r' \<or>
     (\<exists>B. finish_due n (base @ acc) k B \<and> reading_on L n B w' r'))"
proof -
  have w: "sends w" "allocates w" using s by (simp_all add: serving_def)
  from read_output_on [OF ok w out(2)] obtain b w' where
    r: "read_output w r = Inr (Some (r\<lparr>r_out := b\<rparr>), w')" "out_ok b" "o_max b = o_max (r_out r)"
      "sent w' @ out_pending b = sent w @ out_pending (r_out r)" "o_left b + k \<le> length (writes w')"
      "inbox w' = inbox w" "reads w' = reads w" "sends w'" "allocates w'" by blast
  have s': "serving L pos n w' (r\<lparr>r_out := b\<rparr>)"
    using s r by (simp add: serving_def delivers_def)
  show ?thesis
  proof (cases "o_left b = 0")
    case True
    let ?r = "r\<lparr>r_out := b, r_state := dnswire_reader_reading_control\<rparr>"
    have "sent w' = base @ acc" using r(4) out(1) nothing_left [OF r(2) True] by simp
    have "finish_due n (base @ acc) k (asked_side w' ?r) \<and> reading_on L n (asked_side w' ?r) w' ?r"
      if okr: "reader_ok ?r"
    proof
      have "e_state (r_encoder r) = dnswire_encoder_control_finish" "encoder_ok (r_encoder r)"
        using reader_okD(4) [OF okr] st(2) by (simp_all add: output_ok_def)
      then show "finish_due n (base @ acc) k (asked_side w' ?r)"
        using r s' \<open>sent w' = base @ acc\<close> True st(2)
        by (simp add: finish_due_def asked_side_def serving_def sends_def)
      show "reading_on L n (asked_side w' ?r) w' ?r"
        using okr s' d empty_room [OF i d(2)] complete_nonempty [of L n _ "inbox w'"]
        by (auto simp: reading_on_def serving_def)
    qed
    then have "reader_ok ?r \<longrightarrow> accepting L pos n acc base k w' ?r \<or>
        (\<exists>B. finish_due n (base @ acc) k B \<and> reading_on L n B w' ?r)" by blast
    moreover have "read_writing_accept w r = Inr (dnswire_again, ?r, w')"
      using r(1) True by (simp add: read_writing_accept_def)
    ultimately show ?thesis by blast
  next
    case False
    have "accepting L pos n acc base k w' (r\<lparr>r_out := b\<rparr>)"
      using s' d st r out(1) False by (simp add: accepting_def)
    with r(1) False show ?thesis by (simp add: read_writing_accept_def)
  qed
qed

text \<open>An answer is encoded into the empty output buffer.\<close>

lemma answer_encoded:
  assumes L: "extlib_ok L" "tinyframe_forms L form m" and d: "fits L form m n d"
    and b: "out_ok (r_out r)" "o_left (r_out r) = 0" "n \<le> o_max (r_out r)" "encoder_ok (r_encoder r)"
    and e: "e_state (r_encoder r) \<in> {dnswire_encoder_control_accept, dnswire_encoder_control_finish}"
    and w: "allocates w"
  obtains res e' b' w' where "encoding L w (r_encoder r) (r_out r) = Inr (res, e', b', w')"
    and "encoder_next (e_state (r_encoder r)) = Some (e_state e', res)" and "out_ok b'"
    and "o_max b' = o_max (r_out r)" and "out_pending b' = form (e_state (r_encoder r)) []"
    and "0 < o_left b'" and "o_left b' = length (form (e_state (r_encoder r)) [])"
    and "allocates w'" and "same_io w w'"
proof -
  have "e_state (r_encoder r) \<notin> {dnswire_encoder_frames, dnswire_encoder_done}" using e by auto
  note fr = fits_control [OF d this, of "e_dnstap (r_encoder r)"]
  show thesis
  proof (rule encoding_fits [OF L b(1,2,4) conjunct1 [OF fr] b(3) w])
    fix res e' b' w'
    assume r: "encoding L w (r_encoder r) (r_out r) = Inr (res, e', b', w')"
      "encoder_next (e_state (r_encoder r)) = Some (e_state e', res)" "out_ok b'"
      "o_max b' = o_max (r_out r)" "0 < o_left b'" "allocates w'" "same_io w w'"
      "out_pending b' = next_frame L form (e_dnstap (r_encoder r)) (e_state (r_encoder r))"
    have p: "out_pending b' = form (e_state (r_encoder r)) []" using r(8) fr by simp
    have "o_left b' = length (form (e_state (r_encoder r)) [])" using out_pending_length [OF r(3)] p by simp
    from that [OF r(1-4) p r(5) this r(6,7)] show thesis .
  qed
qed

text \<open>ACCEPT is encoded and sent.\<close>

lemma accepting_call:
  assumes L: "extlib_ok L" "tinyframe_forms L form m" and d: "fits L form m n d"
    and acc: "acc = form dnswire_encoder_control_accept []"
    and ok: "reader_ok r" and a: "accepting L pos n acc base k w r"
  shows "\<exists>r' w'. dnswire_reader_read L w r = Inr (dnswire_again, r', w') \<and> (reader_ok r' \<longrightarrow>
     accepting L pos n acc base k w' r' \<or>
     (\<exists>B. finish_due n (base @ acc) k B \<and> reading_on L n B w' r'))"
proof -
  from a have s: "serving L pos n w r" and dec: "before_start pos dnswire_decoder_reading_start (r_decoder r)"
    "in_live (r_in r) = []" and c: "r_state r = dnswire_reader_encoding_accept \<and> o_left (r_out r) = 0 \<and>
        sent w = base \<and> length acc + k \<le> length (writes w) \<or>
      r_state r = dnswire_reader_writing_accept \<and> 0 < o_left (r_out r) \<and>
        sent w @ out_pending (r_out r) = base @ acc \<and> o_left (r_out r) + k \<le> length (writes w)"
    by (simp_all add: accepting_def)
  note inb = reader_okD(1) [OF ok] and o = reader_okD(4) [OF ok]
  have buf: "i_buf (r_in r) \<noteq> None" by (rule in_ok_buf [OF inb])
  have outb: "out_ok (r_out r)" "encoder_ok (r_encoder r)" "r_is_bidirectional r"
    using o s c by (auto simp: output_ok_def serving_def)
  from c show ?thesis
  proof (elim disjE conjE)
    assume st: "r_state r = dnswire_reader_encoding_accept" "o_left (r_out r) = 0" "sent w = base"
      "length acc + k \<le> length (writes w)"
    have e: "e_state (r_encoder r) = dnswire_encoder_control_accept"
      using o s st(1) by (simp add: output_ok_def serving_def)
    have n: "n \<le> o_max (r_out r)" "allocates w" using s by (simp_all add: serving_def)
    obtain res e' b w1 where r: "encoding L w (r_encoder r) (r_out r) = Inr (res, e', b, w1)"
        "encoder_next (e_state (r_encoder r)) = Some (e_state e', res)"
        "out_ok b" "o_max b = o_max (r_out r)" "out_pending b = form (e_state (r_encoder r)) []"
        "0 < o_left b" "o_left b = length (form (e_state (r_encoder r)) [])" "allocates w1" "same_io w w1"
      by (rule answer_encoded [OF L d outb(1) st(2) n(1) outb(2) _ n(2)]) (use e in auto)
    let ?r = "r\<lparr>r_encoder := e', r_out := b, r_state := dnswire_reader_writing_accept\<rparr>"
    have p: "out_pending b = acc" and left: "o_left b = length acc" using r(5,7) e acc by simp_all
    have "serving L pos n w1 ?r"
      using s r(4,8,9) same_io_delivers [OF r(9)] same_io_sends [OF r(9)] by (simp add: serving_def same_io_def)
    moreover have "sent w1 @ out_pending (r_out ?r) = base @ acc" "o_left (r_out ?r) + k \<le> length (writes w1)"
      using st(3,4) p left r(9) by (simp_all add: same_io_def)
    ultimately have "\<exists>r' w'. read_writing_accept w1 ?r = Inr (dnswire_again, r', w') \<and> (reader_ok r' \<longrightarrow>
       accepting L pos n acc base k w' r' \<or>
       (\<exists>B. finish_due n (base @ acc) k B \<and> reading_on L n B w' r'))"
      using writing_accept_on [of ?r L pos n w1 base acc k] r(3,6) dec inb outb(3) by simp
    moreover have "dnswire_reader_read L w r = read_writing_accept w1 ?r"
      using buf st(1) r(1,2) e by (simp add: dnswire_reader_read_def read_encoding_accept_def)
    ultimately show ?thesis by simp
  next
    assume st: "r_state r = dnswire_reader_writing_accept" "0 < o_left (r_out r)"
      "sent w @ out_pending (r_out r) = base @ acc" "o_left (r_out r) + k \<le> length (writes w)"
    from writing_accept_on [OF outb(1) st(2) s dec inb st(1) outb(3) st(3,4)] buf st(1)
    show ?thesis by (simp add: dnswire_reader_read_def)
  qed
qed

text \<open>FINISH is encoded and sent; with the last of it the conversation is over.\<close>

lemma writing_finish_on:
  assumes ok: "out_ok (r_out r)" "0 < o_left (r_out r)" and w: "sends w" "allocates w"
    and st: "r_state r = dnswire_reader_writing_finish"
    and out: "sent w @ out_pending (r_out r) = base @ fin" "o_left (r_out r) \<le> length (writes w)"
  shows "\<exists>res r' w'. read_writing_finish w r = Inr (res, r', w') \<and>
     (res = dnswire_endofdata \<and> sent w' = base @ fin \<or> res = dnswire_again \<and> finishing n fin base w' r')"
proof -
  have "o_left (r_out r) + 0 \<le> length (writes w)" using out(2) by simp
  from read_output_on [OF ok w this] obtain b w' where
    r: "read_output w r = Inr (Some (r\<lparr>r_out := b\<rparr>), w')" "out_ok b"
      "sent w' @ out_pending b = sent w @ out_pending (r_out r)" "o_left b + 0 \<le> length (writes w')"
      "sends w'" "allocates w'" by blast
  show ?thesis
  proof (cases "o_left b = 0")
    case True
    have "sent w' = base @ fin" using r(3) out(1) nothing_left [OF r(2) True] by simp
    with r(1) True show ?thesis by (simp add: read_writing_finish_def)
  next
    case False
    then have "finishing n fin base w' (r\<lparr>r_out := b\<rparr>)"
      using r out(1) st by (simp add: finishing_def)
    with r(1) False show ?thesis by (simp add: read_writing_finish_def)
  qed
qed

lemma finishing_call:
  assumes L: "extlib_ok L" "tinyframe_forms L form m" and d: "fits L form m n d"
    and fin: "fin = form dnswire_encoder_control_finish []"
    and ok: "reader_ok r" and f: "finishing n fin base w r"
  shows "\<exists>res r' w'. dnswire_reader_read L w r = Inr (res, r', w') \<and>
     (res = dnswire_endofdata \<and> sent w' = base @ fin \<or> res = dnswire_again \<and> finishing n fin base w' r')"
proof -
  have buf: "i_buf (r_in r) \<noteq> None" by (rule in_ok_buf [OF reader_okD(1) [OF ok]])
  from f have a: "allocates w" and c: "r_state r = dnswire_reader_encoding_finish \<and>
        finish_due n base (length fin) (asked_side w r) \<or>
      r_state r = dnswire_reader_writing_finish \<and> sends w \<and> out_ok (r_out r) \<and> 0 < o_left (r_out r) \<and>
        sent w @ out_pending (r_out r) = base @ fin \<and> o_left (r_out r) \<le> length (writes w)"
    by (simp_all add: finishing_def)
  from c show ?thesis
  proof (elim disjE conjE)
    assume st: "r_state r = dnswire_reader_encoding_finish" and due: "finish_due n base (length fin) (asked_side w r)"
    from due have h: "encoder_ok (r_encoder r)" "e_state (r_encoder r) = dnswire_encoder_control_finish"
      "out_ok (r_out r)" "o_left (r_out r) = 0" "n \<le> o_max (r_out r)" "sends w"
      "length fin \<le> length (writes w)" "sent w = base"
      by (simp_all add: finish_due_def asked_side_def sends_def)
    obtain res e' b w1 where r: "encoding L w (r_encoder r) (r_out r) = Inr (res, e', b, w1)"
        "encoder_next (e_state (r_encoder r)) = Some (e_state e', res)" "out_ok b"
        "out_pending b = form (e_state (r_encoder r)) []" "0 < o_left b"
        "o_left b = length (form (e_state (r_encoder r)) [])" "allocates w1" "same_io w w1"
      by (rule answer_encoded [OF L d h(3-5,1) _ a]) (use h(2) in auto)
    let ?r = "r\<lparr>r_encoder := e', r_out := b, r_state := dnswire_reader_writing_finish\<rparr>"
    have p: "out_pending b = fin" and left: "o_left b = length fin" using r(4,6) h(2) fin by simp_all
    have "sent w1 @ out_pending (r_out ?r) = base @ fin" "o_left (r_out ?r) \<le> length (writes w1)" "sends w1"
      using h(6-8) p left r(8) same_io_sends [OF r(8)] by (simp_all add: same_io_def)
    then have "\<exists>res r' w'. read_writing_finish w1 ?r = Inr (res, r', w') \<and>
     (res = dnswire_endofdata \<and> sent w' = base @ fin \<or> res = dnswire_again \<and> finishing n fin base w' r')"
      using writing_finish_on [of ?r w1 base fin n] r(3,5,7) by simp
    moreover have "dnswire_reader_read L w r = read_writing_finish w1 ?r"
      using buf st r(1,2) h(2) by (simp add: dnswire_reader_read_def read_encoding_finish_def)
    ultimately show ?thesis by simp
  next
    assume st: "r_state r = dnswire_reader_writing_finish" "sends w" "out_ok (r_out r)" "0 < o_left (r_out r)"
      "sent w @ out_pending (r_out r) = base @ fin" "o_left (r_out r) \<le> length (writes w)"
    from writing_finish_on [OF st(3,4,2) a st(1,5,6)] buf st(1) show ?thesis by (simp add: dnswire_reader_read_def)
  qed
qed

section \<open>The loop\<close>

definition receiver_stage :: "('r, 'w) extlib \<Rightarrow> form \<Rightarrow> ('r \<Rightarrow> phase \<Rightarrow> bool) \<Rightarrow> nat \<Rightarrow> byte list \<Rightarrow> world \<Rightarrow>
    ('r, 'w) dnswire_reader \<Rightarrow> bool" where
  "receiver_stage L form pos n base w r \<longleftrightarrow> reader_ok r \<and>
     (let acc = form dnswire_encoder_control_accept []; fin = form dnswire_encoder_control_finish [] in
      hearing L pos n (form dnswire_encoder_control_ready []) base (length acc + length fin) w r \<or>
      offered L pos n base (length acc + length fin) w r \<or>
      accepting L pos n acc base (length fin) w r \<or>
      (\<exists>B. finish_due n (base @ acc) (length fin) B \<and> reading_on L n B w r) \<or>
      finishing n fin (base @ acc) w r)"

lemma receiver_stageI:
  assumes "reader_ok r"
  shows "offered L pos n base (length (form dnswire_encoder_control_accept []) +
      length (form dnswire_encoder_control_finish [])) w r \<Longrightarrow> receiver_stage L form pos n base w r"
    and "accepting L pos n (form dnswire_encoder_control_accept []) base
      (length (form dnswire_encoder_control_finish [])) w r \<Longrightarrow> receiver_stage L form pos n base w r"
    and "finish_due n (base @ form dnswire_encoder_control_accept [])
      (length (form dnswire_encoder_control_finish [])) B \<Longrightarrow> reading_on L n B w r \<Longrightarrow>
      receiver_stage L form pos n base w r"
    and "finishing n (form dnswire_encoder_control_finish []) (base @ form dnswire_encoder_control_accept []) w r \<Longrightarrow>
      receiver_stage L form pos n base w r"
  using assms unfolding receiver_stage_def Let_def by blast+

lemma ready_fits:
  assumes "fits L form m n d"
  shows "length (form dnswire_encoder_control_ready []) \<le> n" and "form dnswire_encoder_control_ready [] \<noteq> []"
proof -
  have "frame_fits L form m n None dnswire_encoder_control_ready \<and>
      next_frame L form None dnswire_encoder_control_ready = form dnswire_encoder_control_ready []"
    by (rule fits_control [OF assms]) simp
  then show "length (form dnswire_encoder_control_ready []) \<le> n" "form dnswire_encoder_control_ready [] \<noteq> []"
    unfolding frame_fits_def by auto
qed

lemma stage_call:
  assumes L: "extlib_ok L" "tinyframe_forms L form m" "tinyframe_ready_ok L pos" and d: "fits L form m n d"
    and s: "receiver_stage L form pos n base w r"
  shows "\<exists>res r' w'. dnswire_reader_read L w r = Inr (res, r', w') \<and>
     (goes_on res \<and> receiver_stage L form pos n base w' r' \<or>
      res = dnswire_endofdata \<and>
        sent w' = base @ form dnswire_encoder_control_accept [] @ form dnswire_encoder_control_finish [])"
proof -
  let ?R = "form dnswire_encoder_control_ready []" and ?A = "form dnswire_encoder_control_accept []"
    and ?F = "form dnswire_encoder_control_finish []"
  have ok: "reader_ok r" using s by (simp add: receiver_stage_def)
  from reader_read_returns [OF L(1) ok, of w] obtain res r1 w1 where
    r: "dnswire_reader_read L w r = Inr (res, r1, w1)" and post: "read_post L w r (res, r1, w1)"
    by (metis prod_cases3)
  have ok1: "res = dnswire_again \<Longrightarrow> reader_ok r1" using post by (auto simp: read_post_def step_ok_def)
  have on: ?thesis if "goes_on res" "receiver_stage L form pos n base w1 r1" using r that by simp
  have again: "goes_on dnswire_again" by (simp add: goes_on_def)
  from s consider "hearing L pos n ?R base (length ?A + length ?F) w r"
    | "offered L pos n base (length ?A + length ?F) w r" | "accepting L pos n ?A base (length ?F) w r"
    | B where "finish_due n (base @ ?A) (length ?F) B" "reading_on L n B w r" | "finishing n ?F (base @ ?A) w r"
    unfolding receiver_stage_def Let_def by blast
  then show ?thesis
  proof cases
    case 1
    from hearing_call [OF form_readable(1) [OF L(2,3)] ready_fits(1) [OF d] ok 1] r have
      "res = dnswire_again" "offered L pos n base (length ?A + length ?F) w1 r1" by auto
    with on again ok1 receiver_stageI(1) show ?thesis by blast
  next
    case 2
    from offered_call [OF ok 2] r have "res = dnswire_again" "accepting L pos n ?A base (length ?F) w1 r1" by auto
    with on again ok1 receiver_stageI(2) show ?thesis by blast
  next
    case 3
    from accepting_call [OF L(1,2) d refl ok 3] obtain r2 w2 where
      c: "dnswire_reader_read L w r = Inr (dnswire_again, r2, w2)"
      "reader_ok r2 \<longrightarrow> accepting L pos n ?A base (length ?F) w2 r2 \<or>
         (\<exists>B. finish_due n (base @ ?A) (length ?F) B \<and> reading_on L n B w2 r2)" by blast
    then have "res = dnswire_again" "r2 = r1" "w2 = w1" using r by simp_all
    with on again ok1 c(2) receiver_stageI(2,3) show ?thesis by blast
  next
    case (4 B)
    have bi: "fst B" using 4(1) by (auto simp: finish_due_def)
    from read_goes_on [OF L(1) 4(2)] r bi consider
        "res = dnswire_again" "reader_ok r1" "r_state r1 = dnswire_reader_encoding_finish"
          "asked_side w1 r1 = B" "allocates w1"
      | "goes_on res" "reading_on L n B w1 r1" by auto
    then show ?thesis
    proof cases
      case a: 1
      then have "finishing n ?F (base @ ?A) w1 r1" using 4(1) by (simp add: finishing_def)
      with on again a(1,2) receiver_stageI(4) show ?thesis by blast
    next
      case b: 2
      then have "reader_ok r1" by (simp add: reading_on_def)
      with on b 4(1) receiver_stageI(3) show ?thesis by blast
    qed
  next
    case 5
    from finishing_call [OF L(1,2) d refl ok 5] r have "res = dnswire_endofdata \<and> sent w1 = (base @ ?A) @ ?F \<or>
        res = dnswire_again \<and> finishing n ?F (base @ ?A) w1 r1" by auto
    then show ?thesis using r on again ok1 receiver_stageI(4) by auto
  qed
qed

lemma reader_loop_session:
  assumes L: "extlib_ok L" "tinyframe_forms L form m" "tinyframe_ready_ok L pos" and d: "fits L form m n d"
    and "receiver_stage L form pos n base w r" and "reader_loop fuel L ntop w r p = Inr (oc, r', w', p')"
  shows "oc = Ended \<and>
     sent w' = base @ form dnswire_encoder_control_accept [] @ form dnswire_encoder_control_finish []"
  using assms(5-)
proof (induction fuel arbitrary: w r p)
  case (Suc fuel)
  from stage_call [OF L d Suc.prems(1)] obtain res r1 w1 where
    r: "dnswire_reader_read L w r = Inr (res, r1, w1)"
      "goes_on res \<and> receiver_stage L form pos n base w1 r1 \<or> res = dnswire_endofdata \<and>
        sent w1 = base @ form dnswire_encoder_control_accept [] @ form dnswire_encoder_control_finish []" by blast
  note loop = Suc.prems(2) [unfolded reader_loop.simps dnswire_reader_fread_def r(1)]
  from r(2) loop Suc.IH show ?case by (auto simp: goes_on_def bindF_eq_Inr)
qed simp

section \<open>The program\<close>

text \<open>What \<open>receiver\<close> needs of its world: READY is there at once and is read alone.\<close>

definition receiver_served :: "form \<Rightarrow> world \<Rightarrow> bool" where
  "receiver_served form w \<longleftrightarrow> allocates w \<and> delivers w \<and> sends w \<and>
     hd (reads w) = int (length (form dnswire_encoder_control_ready [])) \<and>
     length (form dnswire_encoder_control_accept []) + length (form dnswire_encoder_control_finish [])
       \<le> length (writes w)"

lemma bidirectional_reader:
  assumes L: "tinyframe_stream_ok L pos" and w: "allocates w"
  obtains r0 w1 r w2 where "dnswire_reader_init L w = (dnswire_ok, r0, w1)"
    and "dnswire_reader_allow_bidirectional w1 r0 True = (dnswire_ok, r, w2)"
    and "reader_ok r" and "allocates w2" and "same_io w w2" and "r_allow_bidirectional r"
    and "r_state r = dnswire_reader_reading_control" and "o_left (r_out r) = 0"
    and "before_start pos dnswire_decoder_reading_control (r_decoder r)" and "in_live (r_in r) = []"
    and "i_size (r_in r) = DNSWIRE_DEFAULT_BUF_SIZE" and "i_max (r_in r) = DNSWIRE_MAXIMUM_BUF_SIZE"
    and "o_max (r_out r) = DNSWIRE_MAXIMUM_BUF_SIZE"
proof -
  from allocates_alloc [OF w] obtain w1 where w1: "sys_alloc w = (True, w1)" "allocates w1" "same_io w w1" by blast
  from allocates_alloc [OF w1(2)] obtain w2 where w2: "sys_alloc w1 = (True, w2)" "allocates w2" "same_io w1 w2" by blast
  from w1(1) obtain r0 where i: "dnswire_reader_init L w = (dnswire_ok, r0, w1)"
    by (simp add: dnswire_reader_init_def Let_def)
  note s = reader_init_sound [OF i]
  from s(5) w2(1) obtain r where a: "dnswire_reader_allow_bidirectional w1 r0 True = (dnswire_ok, r, w2)"
    and r: "r = r0\<lparr>r_out := (r_out r0)\<lparr>o_buf := Some (fresh_block (o_size (r_out r0)))\<rparr>,
      r_encoder := (r_encoder r0)\<lparr>e_state := dnswire_encoder_control_accept\<rparr>, r_allow_bidirectional := True\<rparr>"
    by (simp add: dnswire_reader_allow_bidirectional_def)
  have lim: "i_size (r_in r0) = DNSWIRE_DEFAULT_BUF_SIZE" "i_max (r_in r0) = DNSWIRE_MAXIMUM_BUF_SIZE"
    "o_max (r_out r0) = DNSWIRE_MAXIMUM_BUF_SIZE" "o_left (r_out r0) = 0"
    using i w1(1) by (auto simp: dnswire_reader_init_def reader_defaults_def Let_def)
  have "before_start pos dnswire_decoder_reading_control (r_decoder r)"
    using decoder_init_ok [of L] L
    by (simp add: r s(3) before_start_def DNSWIRE_DECODER_INITIALIZER_def tinyframe_stream_ok_def)
  moreover have "reader_ok r" using reader_allow_sound [OF i a] by simp
  ultimately show thesis
    using that [OF i a _ w2(2) same_io_trans [OF w1(3) w2(3)]] lim s(2,6) by (simp add: r)
qed

lemma receiver_main_ends:
  assumes L: "extlib_ok L" "tinyframe_consumes L" "tinyframe_stream_ok L pos" "tinyframe_ready_ok L pos"
      "tinyframe_forms L form m"
    and d: "fits L form m DNSWIRE_MAXIMUM_BUF_SIZE d"
    and c: "length (form dnswire_encoder_control_ready []) \<le> DNSWIRE_DEFAULT_BUF_SIZE"
    and n: "inet_ntop_ok ntop" "inet_pton_ok pton" "printer_ok p"
    and v: "receiver_served form v" "inbox v = form dnswire_encoder_control_ready [] @ rst"
    and rst: "complete_from L DNSWIRE_MAXIMUM_BUF_SIZE (before_start pos dnswire_decoder_reading_start) rst"
    and argv: "2 \<le> length argv" "receiver_socket pton k (tl argv) = Inr (True, t)"
    and f: "2 * (length (reads v) + length (writes v) + length (inbox v)) < fuel"
  shows "\<exists>v' p'. receiver_main fuel L ntop pton k argv v p = Inr (0, Some Ended, v', p') \<and> sent v' = sent v @
     form dnswire_encoder_control_accept [] @ form dnswire_encoder_control_finish []"
proof -
  let ?R = "form dnswire_encoder_control_ready []"
  have a: "allocates v" using v(1) by (simp add: receiver_served_def)
  obtain r0 v1 r v2 where i: "dnswire_reader_init L v = (dnswire_ok, r0, v1)"
    "dnswire_reader_allow_bidirectional v1 r0 True = (dnswire_ok, r, v2)" and ok: "reader_ok r"
    and io: "allocates v2" "same_io v v2" and r: "r_allow_bidirectional r" "r_state r = dnswire_reader_reading_control"
      "o_left (r_out r) = 0" "before_start pos dnswire_decoder_reading_control (r_decoder r)" "in_live (r_in r) = []"
      "i_size (r_in r) = DNSWIRE_DEFAULT_BUF_SIZE" "i_max (r_in r) = DNSWIRE_MAXIMUM_BUF_SIZE"
      "o_max (r_out r) = DNSWIRE_MAXIMUM_BUF_SIZE"
    by (rule bidirectional_reader [OF L(3) a])
  note ne = ready_fits(2) [OF d]
  from v ne obtain ks where ks: "reads v2 = int (length ?R) # ks" "inbox v2 = ?R @ rst"
    "\<forall>j \<in> set ks. 0 < j" "length rst \<le> length ks"
    using io(2) by (cases "reads v"; cases ?R) (auto simp: receiver_served_def delivers_def same_io_def)
  have "sends v2" using v(1) same_io_sends [OF io(2)] by (simp add: receiver_served_def)
  then have "serving L pos DNSWIRE_MAXIMUM_BUF_SIZE (v2\<lparr>reads := ks, inbox := rst\<rparr>) r"
    using r ks(3,4) io(1) rst by (simp add: serving_def delivers_def allocates_def sends_def)
  with ks(1,2) have "\<exists>ks rst. reads v2 = int (length ?R) # ks \<and> inbox v2 = ?R @ rst \<and>
      serving L pos DNSWIRE_MAXIMUM_BUF_SIZE (v2\<lparr>reads := ks, inbox := rst\<rparr>) r" by blast
  moreover have "sent v2 = sent v" "length (form dnswire_encoder_control_accept []) +
      length (form dnswire_encoder_control_finish []) \<le> length (writes v2)" "length ?R \<le> i_size (r_in r)"
    using v(1) io(2) c r(6) by (simp_all add: same_io_def receiver_served_def)
  ultimately have "hearing L pos DNSWIRE_MAXIMUM_BUF_SIZE ?R (sent v) (length (form dnswire_encoder_control_accept []) +
      length (form dnswire_encoder_control_finish [])) v2 r"
    using r(2-5) unfolding hearing_def by blast
  then have "receiver_stage L form pos DNSWIRE_MAXIMUM_BUF_SIZE (sent v) v2 r"
    using ok unfolding receiver_stage_def Let_def by blast
  note loop = reader_loop_session [OF L(1,5,4) d this]
  from receiver_main_prints [OF L(1,2) n f, of k argv] i argv obtain oc v' p' where
    m: "receiver_main fuel L ntop pton k argv v p = Inr (0, Some oc, v', p')"
    unfolding prints_def receiver_main_def by (auto simp: bindF_eq_Inr print_def)
  then obtain p0 p1 r' w' where l: "reader_loop fuel L ntop v2 r p0 = Inr (oc, r', v', p1)"
    using i argv by (auto simp: receiver_main_def receiver_loop_reader bindF_eq_Inr print_def split: if_splits)
  from loop [OF l] m show ?thesis by blast
qed

end
