(* ===== verification/Dialogue.thy ===== *)
theory Dialogue
  imports Roundtrip Reader_Answers Writer_Limits
begin

text \<open>
  Both sides of a bidirectional conversation at once, as \<open>sender.c\<close> and \<open>receiver.c\<close> hold it: a
  writer and a reader that answer each other over two channels, in any interleaving of their
  calls, with any behaviour of the kernel between them.
\<close>

section \<open>The two parties and the channels\<close>

text \<open>
  The state has both handles, the bytes that are under way in either direction, and as history
  what the writer's user has set, what the reader has delivered, and all that the writer has
  sent and taken in.
\<close>

record ('r, 'w) dialogue =
  dg_writer :: "('r, 'w) dnswire_writer"
  dg_reader :: "('r, 'w) dnswire_reader"
  dg_fwd :: "byte list"
  dg_back :: "byte list"
  dg_set :: "dnstap list"
  dg_sent :: "byte list"
  dg_took :: "byte list"
  dg_got :: "dnstap list"

definition new_dialogue :: "('r, 'w) dnswire_writer \<Rightarrow> ('r, 'w) dnswire_reader \<Rightarrow> ('r, 'w) dialogue" where
  "new_dialogue h r = \<lparr>dg_writer = h, dg_reader = r, dg_fwd = [], dg_back = [], dg_set = [],
     dg_sent = [], dg_took = [], dg_got = []\<rparr>"

text \<open>
  A call of the reader that does not fail: it takes in bytes that have been under way to it and
  hands out an answer, and it may deliver a message. It takes in or writes, so that it is one
  step; \<open>listening\<close> is any number of them.
\<close>

inductive reader_speaks :: "('r, 'w) extlib \<Rightarrow> ('r, 'w) dialogue \<Rightarrow> ('r, 'w) dialogue \<Rightarrow> bool" for L where
  "reader_step L (dg_reader s) chunk res out r \<Longrightarrow> dg_fwd s = chunk @ rst \<Longrightarrow>
     reader_speaks L s (s\<lparr>dg_reader := r, dg_fwd := rst, dg_back := dg_back s @ out,
       dg_got := dg_got s @ (if res = dnswire_have_dnstap then [dc_dnstap (r_decoder r)] else [])\<rparr>)"

inductive listening :: "('r, 'w) extlib \<Rightarrow> ('r, 'w) dialogue \<Rightarrow> ('r, 'w) dialogue \<Rightarrow> bool" for L where
  listening_start: "listening L s s"
| listening_more: "listening L s s1 \<Longrightarrow> reader_speaks L s1 s2 \<Longrightarrow> listening L s s2"

text \<open>
  A call of the writer that does not fail sends before it reads, and the read blocks: what it
  finds to read may be the answer of the reader to what the same call has sent.
\<close>

inductive dialogue_step :: "('r, 'w) extlib \<Rightarrow> ('r, 'w) dialogue \<Rightarrow> ('r, 'w) dialogue \<Rightarrow> bool" for L where
  writer_speaks: "dnswire_writer_write L w (dg_writer s) = Inr (res, h, w') \<Longrightarrow> res \<noteq> dnswire_error \<Longrightarrow>
     sent w' = sent w @ out \<Longrightarrow>
     listening L (s\<lparr>dg_fwd := dg_fwd s @ out, dg_sent := dg_sent s @ out\<rparr>) s1 \<Longrightarrow>
     inbox w = dg_back s1 \<Longrightarrow> inbox w = chunk @ inbox w' \<Longrightarrow>
     dialogue_step L s (s1\<lparr>dg_writer := h, dg_back := inbox w', dg_took := dg_took s1 @ chunk\<rparr>)"
| writer_sets: "encodable d \<Longrightarrow>
     dialogue_step L s (s\<lparr>dg_writer := dnswire_writer_set_dnstap (dg_writer s) d, dg_set := dg_set s @ [d]\<rparr>)"
| writer_stops: "dnswire_writer_stop (dg_writer s) = (res, h) \<Longrightarrow> dialogue_step L s (s\<lparr>dg_writer := h\<rparr>)"
| reader_calls: "reader_speaks L s s' \<Longrightarrow> dialogue_step L s s'"

inductive dialogue_run :: "('r, 'w) extlib \<Rightarrow> ('r, 'w) dialogue \<Rightarrow> ('r, 'w) dialogue \<Rightarrow> bool" for L where
  dialogue_start: "dialogue_run L s s"
| dialogue_more: "dialogue_run L s s1 \<Longrightarrow> dialogue_step L s1 s2 \<Longrightarrow> dialogue_run L s s2"

section \<open>What each side has done\<close>

text \<open>
  Seen from one side a dialogue is a run of its handle, and the channels hold what one side has
  sent and the other has not yet taken.
\<close>

definition writer_side :: "('r, 'w) extlib \<Rightarrow> ('r, 'w) dnswire_writer \<Rightarrow> ('r, 'w) dialogue \<Rightarrow> bool" where
  "writer_side L h s \<longleftrightarrow> writer_run L h (dg_set s) (dg_sent s) (dg_writer s)"

definition reader_side :: "('r, 'w) extlib \<Rightarrow> ('r, 'w) dnswire_reader \<Rightarrow> ('r, 'w) dialogue \<Rightarrow> bool" where
  "reader_side L r s \<longleftrightarrow> (\<exists>inp rs. receives L r inp (dg_got s) (dg_reader s) \<and>
     reader_run L r inp rs (dg_took s @ dg_back s) (dg_reader s) \<and> dg_sent s = inp @ dg_fwd s)"

lemma reader_speaks_side:
  assumes "reader_speaks L s s'" and p: "reader_side L r s"
  shows "reader_side L r s' \<and> dg_writer s' = dg_writer s \<and> dg_set s' = dg_set s \<and> dg_sent s' = dg_sent s"
  using assms(1)
proof cases
  case (1 chunk res out r' rst)
  from p obtain inp rs where i: "receives L r inp (dg_got s) (dg_reader s)"
    "reader_run L r inp rs (dg_took s @ dg_back s) (dg_reader s)" "dg_sent s = inp @ dg_fwd s"
    by (auto simp: reader_side_def)
  have "receives L r (inp @ chunk) (dg_got s @
      (if res = dnswire_have_dnstap then [dc_dnstap (r_decoder r')] else [])) r'"
    using receives_more [OF i(1) 1(2)] by (simp split: if_splits)
  moreover have "reader_run L r (inp @ chunk) (rs @ [res]) (dg_took s @ dg_back s @ out) r'"
    using reader_more [OF i(2) 1(2)] by simp
  ultimately show ?thesis
    using i(3) 1(1,3) unfolding reader_side_def
    by (intro conjI exI [of _ "inp @ chunk"] exI [of _ "rs @ [res]"]) simp_all
qed

lemma listening_side:
  assumes "listening L s s'" and "reader_side L r s"
  shows "reader_side L r s' \<and> dg_writer s' = dg_writer s \<and> dg_set s' = dg_set s \<and> dg_sent s' = dg_sent s"
  using assms
proof (induction rule: listening.induct)
  case (listening_more s s1 s2)
  then show ?case using reader_speaks_side [of L s1 s2 r] by auto
qed simp

lemma reader_side_sent: "reader_side L r s \<Longrightarrow>
    reader_side L r (s\<lparr>dg_fwd := dg_fwd s @ out, dg_sent := dg_sent s @ out\<rparr>)"
  by (auto simp: reader_side_def)

lemma sides_step:
  assumes "dialogue_step L s s'" and w: "writer_side L h s" and r: "reader_side L r s"
  shows "writer_side L h s' \<and> reader_side L r s'"
  using assms(1)
proof cases
  case (writer_speaks w res h' w' out s1 chunk)
  note l = listening_side [OF writer_speaks(5) reader_side_sent [OF r]]
  have bk: "dg_back s1 = chunk @ inbox w'" using writer_speaks(6,7) by simp
  have "writer_run L h (dg_set s) (dg_sent s @ out) h'"
    using writer_more [OF w [unfolded writer_side_def] step_write [OF writer_speaks(2-4)]] by simp
  moreover have "reader_side L r (s1\<lparr>dg_writer := h', dg_back := inbox w', dg_took := dg_took s1 @ chunk\<rparr>)"
    using l bk by (auto simp: reader_side_def)
  ultimately show ?thesis using l writer_speaks(1) by (simp add: writer_side_def)
next
  case (writer_sets d)
  with writer_more [OF w [unfolded writer_side_def] step_set [OF writer_sets(2)]] r
  show ?thesis by (simp add: writer_side_def reader_side_def)
next
  case (writer_stops res h')
  with writer_more [OF w [unfolded writer_side_def] step_stop [OF writer_stops(2)]] r
  show ?thesis by (simp add: writer_side_def reader_side_def)
next
  case reader_calls
  with reader_speaks_side [OF _ r] w show ?thesis by (simp add: writer_side_def)
qed

lemma dialogue_sides:
  assumes "dialogue_run L s0 s" and "s0 = new_dialogue h r"
  shows "writer_side L h s \<and> reader_side L r s"
  using assms
proof (induction rule: dialogue_run.induct)
  case (dialogue_start s)
  then show ?case
    by (auto simp: writer_side_def reader_side_def new_dialogue_def
        intro: writer_start receives_start reader_start)
next
  case (dialogue_more s0 s1 s2)
  then show ?case using sides_step by blast
qed

section \<open>The frames of the writer\<close>

text \<open>READY, and then the frames of a unidirectional conversation.\<close>

definition ready_trace :: "dnswire_encoder_state \<Rightarrow> dnswire_encoder_state list \<Rightarrow> bool" where
  "ready_trace st tr \<longleftrightarrow> st = dnswire_encoder_control_ready \<and> tr = [] \<or>
     (\<exists>ks. tr = dnswire_encoder_control_ready # ks \<and> sender_trace st ks)"

interpretation bidi: frame_order ready_trace
proof
  fix s tr s' res
  assume "ready_trace s tr" and n: "encoder_next s = Some (s', res)"
  then consider "s = dnswire_encoder_control_ready" "tr = []"
    | ks where "tr = dnswire_encoder_control_ready # ks" "sender_trace s ks"
    by (auto simp: ready_trace_def)
  then show "ready_trace s' (tr @ [s])"
    using n by cases (auto simp: ready_trace_def intro: sender_trace_emit)
qed (auto simp: ready_trace_def)

lemma ready_frames_awaited:
  assumes L: "extlib_ok L" and s: "tinyframe_stream_ok L pos" "tinyframe_ready_ok L pos"
    and w: "list_all (written L) fs" and tr: "ready_trace st (map fst fs)"
    and d: "\<forall>(s, d, bs) \<in> set fs. s = dnswire_encoder_frames \<longrightarrow> (\<exists>m \<in> set ds. d = Some m)"
    and u: "\<forall>m \<in> set ds. unpacks L m"
  shows "awaits L pos (DNSWIRE_DECODER_INITIALIZER L) (frame_bytes fs) (sent_messages fs)"
proof -
  have "awaits_start L pos (frame_bytes fs) (sent_messages fs) \<or>
      awaits_ready L pos (frame_bytes fs) (sent_messages fs)"
  proof (cases fs)
    case Nil
    then show ?thesis by (simp add: awaits_start_def)
  next
    case (Cons f gs)
    obtain k dd bs where f: "f = (k, dd, bs)" by (cases f)
    with tr Cons have k: "k = dnswire_encoder_control_ready" "sender_trace st (map fst gs)"
      by (auto simp: ready_trace_def)
    have "awaits_start L pos (frame_bytes gs) (sent_messages gs)"
      by (rule frames_await_start [OF L s(1) _ _ u k(2)]) (use w d Cons in auto)
    moreover have "ready_readable L pos DNSTAP_PROTOBUF_CONTENT_TYPE bs"
      using written_ready_readable [OF s(2)] w Cons f k(1) by auto
    ultimately have "awaits_ready L pos (bs @ frame_bytes gs) (sent_messages gs)"
      by (auto simp: awaits_ready_def)
    then show ?thesis by (simp add: Cons f k(1))
  qed
  then show ?thesis
    using s(1) decoder_init_ok [of L]
    by (simp add: awaits_def tinyframe_stream_ok_def DNSWIRE_DECODER_INITIALIZER_def)
qed

lemma ready_conversation:
  assumes "dnswire_writer_init L w = (dnswire_ok, h0, w1)"
    and "dnswire_writer_set_bidirectional w1 h0 True = (dnswire_ok, h, w2)"
    and L: "extlib_ok L" and run: "writer_run L h ds outp h'"
  shows "conversation_in ready_trace L ds outp h'"
proof -
  note b = set_bidirectional_sound [OF assms(1,2)]
  note i = writer_init_sound [OF assms(1)]
  have h: "wr_out h = wr_out h0" "e_dnstap (wr_encoder h) = None"
    using assms(2) i(4,6) by (auto simp: dnswire_writer_set_bidirectional_def DNSWIRE_ENCODER_INITIALIZER_def
        split: prod.splits if_splits)
  have "out_pending (wr_out h) = []"
    using nothing_left [OF writer_okD(1) [OF i(1)] i(5)] h(1) by simp
  then have "conversation_in ready_trace L [] [] h"
    using b unfolding conversation_in_def by (intro exI [of _ "[]"]) (simp add: ready_trace_def)
  moreover have "message_set [] h" by (simp add: message_set_def h(2))
  ultimately show ?thesis using bidi.run_kept [OF run L] b by blast
qed

section \<open>The conversation\<close>

lemma allowed_reader:
  assumes "dnswire_reader_init L v = (dnswire_ok, r0, v1)"
    and "dnswire_reader_allow_bidirectional v1 r0 True = (dnswire_ok, r, v2)"
  shows "reader_ok r" and "in_live (r_in r) = []" and "r_decoder r = DNSWIRE_DECODER_INITIALIZER L"
    and "e_state (r_encoder r) = dnswire_encoder_control_accept" and "out_pending (r_out r) = []"
proof -
  note i = reader_init_sound [OF assms(1)]
  show "reader_ok r" and "e_state (r_encoder r) = dnswire_encoder_control_accept"
    and "out_pending (r_out r) = []"
    using reader_allow_sound [OF assms] by auto
  have "r_in r = r_in r0" "r_decoder r = r_decoder r0"
    using assms(2) by (auto simp: dnswire_reader_allow_bidirectional_def split: prod.splits if_splits)
  with i show "in_live (r_in r) = []" and "r_decoder r = DNSWIRE_DECODER_INITIALIZER L" by simp_all
qed

lemma dialogue_frames:
  assumes L: "extlib_ok L" "tinyframe_stream_ok L pos" "tinyframe_ready_ok L pos"
    and wi: "dnswire_writer_init L w = (dnswire_ok, h0, w1)"
      "dnswire_writer_set_bidirectional w1 h0 True = (dnswire_ok, h, w2)"
    and ri: "dnswire_reader_init L v = (dnswire_ok, r0, v1)"
      "dnswire_reader_allow_bidirectional v1 r0 True = (dnswire_ok, r, v2)"
    and run: "dialogue_run L (new_dialogue h r) s" and u: "\<forall>m \<in> set (dg_set s). unpacks L m"
  shows "\<exists>fs. list_all (written L) fs \<and> frame_bytes fs = dg_sent s @ out_pending (wr_out (dg_writer s)) \<and>
     ready_trace (e_state (wr_encoder (dg_writer s))) (map fst fs) \<and>
     set (sent_messages fs) \<subseteq> set (dg_set s) \<and> length (dg_got s) \<le> length (sent_messages fs) \<and>
     list_all2 same_message (take (length (dg_got s)) (sent_messages fs)) (dg_got s) \<and>
     (dc_state (r_decoder (dg_reader s)) = dnswire_decoder_done \<or>
        in_live (r_in (dg_reader s)) @ dg_fwd s @ out_pending (wr_out (dg_writer s)) = [] \<longrightarrow>
      length (dg_got s) = length (sent_messages fs))"
proof -
  note sides = dialogue_sides [OF run refl]
  then have wr: "writer_run L h (dg_set s) (dg_sent s) (dg_writer s)" by (simp add: writer_side_def)
  from sides obtain inp where rec: "receives L r inp (dg_got s) (dg_reader s)" "dg_sent s = inp @ dg_fwd s"
    by (auto simp: reader_side_def)
  from ready_conversation [OF wi L(1) wr] obtain fs where f: "list_all (written L) fs"
    "ready_trace (e_state (wr_encoder (dg_writer s))) (map fst fs)"
    "\<forall>(k, d, bs) \<in> set fs. k = dnswire_encoder_frames \<longrightarrow> (\<exists>m \<in> set (dg_set s). d = Some m)"
    "dg_sent s @ out_pending (wr_out (dg_writer s)) = frame_bytes fs"
    by (auto simp: conversation_in_def)
  note a = allowed_reader [OF ri]
  have "awaits L pos (r_decoder r) (frame_bytes fs) (sent_messages fs)"
    using ready_frames_awaited [OF L f(1,2,3) u] a(3) by simp
  moreover have "frame_bytes fs = inp @ dg_fwd s @ out_pending (wr_out (dg_writer s))"
    using f(4) rec(2) by simp
  ultimately show ?thesis
    using frames_received [OF L(1) a(1,2) _ rec(1)] f sent_messages_set [OF f(3)]
    by (intro exI [of _ fs]) simp
qed

lemma dialogue_answers:
  assumes "extlib_ok L" and ri: "dnswire_reader_init L v = (dnswire_ok, r0, v1)"
      "dnswire_reader_allow_bidirectional v1 r0 True = (dnswire_ok, r, v2)"
    and run: "dialogue_run L (new_dialogue h r) s"
  shows "answers L (dg_took s @ dg_back s) (dg_reader s)"
proof -
  from dialogue_sides [OF run refl] obtain inp rs where
    "reader_run L r inp rs (dg_took s @ dg_back s) (dg_reader s)" by (auto simp: reader_side_def)
  from reader_run_answers [OF this assms(1) allowed_reader(1,4,5) [OF ri]] show ?thesis .
qed

end
