(* ===== verification/Session.thy ===== *)
theory Session
  imports Session_Sender Session_Receiver Dialogue
begin

text \<open>
  From \<open>examples/sender.c\<close> to \<open>examples/receiver.c\<close> over a connection on which nothing is in the way: the
  handshake, the message, and the farewell.
\<close>

section \<open>What is printed\<close>

text \<open>The frames of the sender, with READY in front.\<close>

lemma one_message_ready:
  assumes "one_message L True d fs"
  obtains bs gs where "fs = (dnswire_encoder_control_ready, Some d, bs) # gs" and "one_message L False d gs"
    and "written L (dnswire_encoder_control_ready, Some d, bs)"
proof -
  obtain f gs where fs: "fs = f # gs" and k: "fst f = dnswire_encoder_control_ready"
    and gs: "map fst gs = [dnswire_encoder_control_start, dnswire_encoder_frames, dnswire_encoder_control_stop]"
    using assms by (cases fs) (auto simp: one_message_def first_frames_def)
  have d: "fst (snd f) = Some d" and w: "written L f" using assms fs by (auto simp: one_message_def)
  from k d obtain bs where f: "f = (dnswire_encoder_control_ready, Some d, bs)" by (cases f) auto
  have "one_message L False d gs" using assms fs gs by (simp add: one_message_def first_frames_def)
  with that fs f w show thesis by simp
qed

text \<open>A reader that has taken all of it has delivered the message.\<close>

lemma ready_message_received:
  assumes L: "extlib_ok L" "tinyframe_stream_ok L pos" "tinyframe_ready_ok L pos" and d: "unpacks L d"
    and fs: "one_message L True d fs"
    and r: "reader_ok r" "in_live (r_in r) = []" "r_decoder r = DNSWIRE_DECODER_INITIALIZER L"
    and rec: "receives L r inp ms r'" and cut: "frame_bytes fs = inp @ rest"
    and fin: "dc_state (r_decoder r') = dnswire_decoder_done"
  shows "\<exists>m. ms = [m] \<and> same_message d m"
proof -
  from fs obtain bs gs where f: "fs = (dnswire_encoder_control_ready, Some d, bs) # gs" "one_message L False d gs"
    by (rule one_message_ready)
  from f(2) obtain b1 b2 b3 d1 d3 where g: "gs = [(dnswire_encoder_control_start, d1, b1),
    (dnswire_encoder_frames, Some d, b2), (dnswire_encoder_control_stop, d3, b3)]"
    by (rule one_message_sent)
  have tr: "ready_trace dnswire_encoder_done (map fst fs)"
    by (simp add: f(1) g ready_trace_def) (rule exI [of _ "Suc 0"], simp)
  have msgs: "sent_messages fs = [d]" by (simp add: f(1) g)
  have mem: "\<forall>(s, x, bs) \<in> set fs. s = dnswire_encoder_frames \<longrightarrow> (\<exists>m \<in> set [d]. x = Some m)"
    by (simp add: f(1) g)
  have w: "list_all (written L) fs" using fs by (simp add: one_message_def)
  have u: "\<forall>m \<in> set [d]. unpacks L m" using d by simp
  have "awaits L pos (r_decoder r) (frame_bytes fs) (sent_messages fs)"
    unfolding r(3) by (rule ready_frames_awaited [OF L w tr mem u])
  from frames_received [OF L(1) r(1,2) this rec cut] fin msgs show ?thesis
    by (cases ms) auto
qed

text \<open>The lines of \<open>receiver\<close> before and after the message.\<close>

definition announced :: "byte list" where
  "announced = concat (map (\<lambda>s. chars s @ newline) [''socket'', ''bind'', ''listen'', ''accept'', ''receiving...''])"

lemma session_printed:
  assumes L: "extlib_ok L" "tinyframe_consumes L" "tinyframe_stream_ok L pos" "tinyframe_ready_ok L pos"
    and d: "built L d" "init_enums_ok L" "unpacks L d" and n: "inet_ntop_ok ntop" "inet_pton_ok pton" "printer_ok p"
    and fs: "one_message L True d fs" "inbox v = frame_bytes fs"
    and v: "receiver_main fr L ntop pton k argv v p = Inr (0, Some Ended, v', p')"
      "2 * (length (reads v) + length (writes v) + length (inbox v)) < fr"
  shows "text_out p' = text_out p @ announced @ report ntop d @ chars ''stopped'' @ newline"
proof -
  from receiver_main_prints [OF L(1,2) n v(2), of k argv] v(1) obtain r r0 v1 v2 shown where
    i: "dnswire_reader_init L v = (dnswire_ok, r0, v1)"
      "dnswire_reader_allow_bidirectional v1 r0 True = (dnswire_ok, r, v2)"
    and s: "reported L ntop r (inbox v) Ended shown"
      "text_out p' = text_out p @ announced @ shown @ chars ''stopped'' @ newline"
    unfolding prints_def announced_def by auto
  note r = allowed_reader [OF i]
  from s(1) obtain inp ms r' rest where rec: "receives L r inp ms r'" "inbox v = inp @ rest"
    "shown = concat (map (report ntop) ms)" "dc_state (r_decoder r') = dnswire_decoder_done"
    by (auto simp: reported_def)
  have "frame_bytes fs = inp @ rest" using fs(2) rec(2) by simp
  from ready_message_received [OF L(1,3,4) d(3) fs(1) r(1-3) rec(1) this rec(4)] obtain m where
    m: "ms = [m]" "same_message d m" by blast
  with receives_decoded [OF rec(1) L(1) r(1)] obtain d0 bs where
    "dnstap_decode_protobuf L d0 bs = Inr (0, m)" by auto
  moreover have "self_contained d" "enums_known d" using built_sound [OF d(1)] d(2) by blast+
  ultimately have "report ntop m = report ntop d" using report_received m(2) by blast
  with m(1) rec(3) s(2) show ?thesis by simp
qed

section \<open>The session\<close>

lemma session_goes_through:
  assumes L: "extlib_ok L" "tinyframe_consumes L" "tinyframe_nonempty L" "tinyframe_stream_ok L pos"
      "tinyframe_ready_ok L pos" "tinyframe_answer_ok L pos" "tinyframe_forms L form m" "short_controls form"
    and d: "built L d" "init_enums_ok L" "unpacks L d" "fits L form m DNSWIRE_MAXIMUM_BUF_SIZE d"
    and n: "inet_ntop_ok ntop" "inet_pton_ok pton" "printer_ok p"
    and s: "2 \<le> length argv" "sender_socket pton k (tl argv) = Inr (True, t)"
    and w: "sender_served form w" "sent w = []" "length (writes w) + length (reads w) + length (inbox w) + 8 < fw"
    and r: "2 \<le> length argv'" "receiver_socket pton k' (tl argv') = Inr (True, t')"
    and v: "receiver_served form v" "sent v = []" "2 * (length (reads v) + length (writes v) + length (inbox v)) < fr"
  shows "\<exists>w'. sender_main_with fw L d pton k argv w = Inr (0, Some Stopped, w') \<and> (inbox v = sent w' \<longrightarrow>
     (\<exists>v' p'. receiver_main fr L ntop pton k' argv' v p = Inr (0, Some Ended, v', p') \<and> sent v' = inbox w \<and>
        text_out p' = text_out p @ announced @ report ntop d @ chars ''stopped'' @ newline))"
proof -
  from sender_main_with_stops [OF L(1-4,6,7) d(4) L(8) w(1) s w(3)] obtain w' where
    w': "sender_main_with fw L d pton k argv w = Inr (0, Some Stopped, w')" by blast
  from sender_main_with_sends [OF L(1-3) fits_encodable [OF d(4)] n(2) w(3), of k argv] w' w(2) obtain fs where
    fs: "one_message L True d fs" "sent w' = frame_bytes fs" by (auto simp: sends_one_def)
  from fs(1) obtain bs gs where f: "fs = (dnswire_encoder_control_ready, Some d, bs) # gs" "one_message L False d gs"
    "written L (dnswire_encoder_control_ready, Some d, bs)" by (rule one_message_ready)
  have bs: "bs = form dnswire_encoder_control_ready []"
    using written_form(1) [OF L(1,7) d(4) f(3)] by (simp add: next_frame_def)
  have "\<exists>v' p'. receiver_main fr L ntop pton k' argv' v p = Inr (0, Some Ended, v', p') \<and> sent v' = inbox w \<and>
      text_out p' = text_out p @ announced @ report ntop d @ chars ''stopped'' @ newline" if i: "inbox v = sent w'"
  proof -
    have v0: "inbox v = form dnswire_encoder_control_ready [] @ frame_bytes gs" using i fs(2) f(1) bs by simp
    have "complete_from L DNSWIRE_MAXIMUM_BUF_SIZE (before_start pos dnswire_decoder_reading_start) (frame_bytes gs)"
      using one_message_complete [OF L(1,4,7) d(4,3) f(2)] by simp
    moreover have "length (form dnswire_encoder_control_ready []) \<le> DNSWIRE_DEFAULT_BUF_SIZE"
      using L(8) by (simp add: short_controls_def)
    ultimately obtain v' p' where
      x: "receiver_main fr L ntop pton k' argv' v p = Inr (0, Some Ended, v', p')" "sent v' = sent v @
        form dnswire_encoder_control_accept [] @ form dnswire_encoder_control_finish []"
      using receiver_main_ends [OF L(1,2,4,5,7) d(4) _ n v(1) v0 _ r v(3)] by blast
    have "sent v' = inbox w" using x(2) v(2) w(1) by (simp add: sender_served_def)
    moreover have "inbox v = frame_bytes fs" using i fs(2) by simp
    from session_printed [OF L(1,2,4,5) d(1-3) n fs(1) this x(1) v(3)] have
      "text_out p' = text_out p @ announced @ report ntop d @ chars ''stopped'' @ newline" .
    ultimately show ?thesis using x(1) by blast
  qed
  with w' show ?thesis by blast
qed

text \<open>
  C4: A session without obstacles. Suppose that no allocation fails, that the connection is made on both
  sides and that the control frames fit into a buffer of the default size. \<open>main\<close> of \<open>sender.c\<close>, given a
  message built by the macros of \<open>dnstap.h\<close> whose frame fits into the largest buffer in place of the one
  from \<open>create_dnstap\<close>, comes to the end of the conversation when the kernel takes READY in one \<open>write\<close>,
  takes at least a byte in every later one, and hands out ACCEPT with one \<open>read\<close> and FINISH with the next.
  \<open>receiver\<close>, when what was sent comes over the connection, comes to the end as well, prints exactly that
  message, and has answered with just the ACCEPT and FINISH that \<open>sender\<close> got, when its first \<open>read\<close>
  returns exactly READY, nothing less and nothing of what is behind it, every later one at least a byte as
  long as there are any, in pieces of any size, and every \<open>write\<close> takes at least a byte.
\<close>
theorem session_completes:
  assumes "extlib_ok L" and "tinyframe_consumes L" and "tinyframe_nonempty L" and "tinyframe_stream_ok L pos"
    and "tinyframe_ready_ok L pos" and "tinyframe_answer_ok L pos" and "tinyframe_forms L form m"
    and "short_controls form" and "built L d" and "init_enums_ok L" and "unpacks L d"
    and "fits L form m DNSWIRE_MAXIMUM_BUF_SIZE d" and "inet_ntop_ok ntop" and "inet_pton_ok pton"
    and "printer_ok p" and "2 \<le> length argv" and "sender_socket pton k (tl argv) = Inr (True, t)"
    and "sender_served form w" and "sent w = []"
    and "length (writes w) + length (reads w) + length (inbox w) + 8 < fw"
    and "2 \<le> length argv'" and "receiver_socket pton k' (tl argv') = Inr (True, t')"
    and "receiver_served form v" and "sent v = []"
    and "2 * (length (reads v) + length (writes v) + length (inbox v)) < fr"
  shows "\<exists>w'. sender_main_with fw L d pton k argv w = Inr (0, Some Stopped, w') \<and> (inbox v = sent w' \<longrightarrow>
     (\<exists>v' p'. receiver_main fr L ntop pton k' argv' v p = Inr (0, Some Ended, v', p') \<and> sent v' = inbox w \<and>
        text_out p' = text_out p @ announced @ report ntop d @ chars ''stopped'' @ newline))"
  by (rule session_goes_through [OF assms])

section \<open>An instance\<close>

lemma toy_accept_readable:
  assumes "length ct < 253"
  shows "accept_readable toylib toy_pos ct (toy_control TINYFRAME_CONTROL_ACCEPT [ct])"
  unfolding accept_readable_def
proof (intro exI conjI)
  show "toy_control TINYFRAME_CONTROL_ACCEPT [ct] =
      [toy_code TINYFRAME_CONTROL_ACCEPT, of_nat (Suc (length ct))] @ (of_nat (length ct) # ct)"
    by (simp add: toy_control_def)
qed (rule piece_weaken [OF toy_header_piece [OF assms]] piece_weaken [OF toy_field_piece [OF assms,
      of TINYFRAME_CONTROL_READY, unfolded toy_phase_def, simplified]];
      simp add: toy_phase_def toy_pos_def toylib_def)+

lemma toy_finish_readable: "piece toylib toy_pos Before_start [5, 0] tinyframe_finished (\<lambda>r. True)"
  unfolding piece_def toy_readers
proof (intro conjI allI impI)
  fix r k
  assume r: "toy_pos r Before_start" and k: "0 < k \<and> k < length [5, 0 :: byte]"
  then have "take k [5, 0 :: byte] = take 1 [5, 0]" by (cases k) auto
  with r toy_read_one [of r "[5, 0]"] show "\<exists>r'. toy_read r (take k [5, 0]) = (tinyframe_need_more, r') \<and>
      toy_pos r' Before_start"
    by (simp only:) (simp add: toy_pos_def)
qed (simp_all add: toy_pos_def toy_read_def toy_header_def)

lemma toy_answer_ok: "tinyframe_answer_ok toylib toy_pos"
  unfolding tinyframe_answer_ok_def
proof (intro conjI allI impI)
  fix w len ct w' bs
  assume "tf_write_control toylib w len TINYFRAME_CONTROL_ACCEPT
    [(TINYFRAME_CONTROL_FIELD_CONTENT_TYPE, ct)] = (tinyframe_ok, w', bs)"
  then have bs: "bs = toy_control TINYFRAME_CONTROL_ACCEPT [ct]" "length ct < 253"
    using toy_emitted by (fastforce simp: toy_control_def toylib_def)+
  show "accept_readable toylib toy_pos ct bs" using toy_accept_readable [OF bs(2)] bs(1) by simp
next
  fix w len w' bs
  assume "tf_write_control toylib w len TINYFRAME_CONTROL_FINISH [] = (tinyframe_ok, w', bs)"
  then have "bs = [5, 0]" using toy_emitted by (fastforce simp: toy_control_def toylib_def)
  with toy_finish_readable show "piece toylib toy_pos Before_start bs tinyframe_finished (\<lambda>r. True)" by simp
qed

lemma toy_short: "short_controls toy_form"
  by (simp add: short_controls_def toy_control_length DNSWIRE_DEFAULT_BUF_SIZE_def)

text \<open>Both programs on a path, and after READY single bytes.\<close>

definition toy_connected :: kernel where
  "toy_connected = \<lparr>k_socket = True, k_bind = (\<lambda>_. True), k_listen = True, k_accept = True, k_connect = (\<lambda>_. True)\<rparr>"

definition toy_asking :: world where
  "toy_asking = \<lparr>allocs = [], reads = [25, 2],
     inbox = toy_form dnswire_encoder_control_accept [] @ toy_form dnswire_encoder_control_finish [],
     writes = 25 # replicate (3 * DNSWIRE_MAXIMUM_BUF_SIZE) 1, sent = []\<rparr>"

definition toy_answering :: "byte list \<Rightarrow> world" where
  "toy_answering bs = \<lparr>allocs = [], reads = 25 # replicate (length bs) 1, inbox = bs,
     writes = replicate 27 1, sent = []\<rparr>"

lemma toy_served: "sender_served toy_form toy_asking" "receiver_served toy_form (toy_answering bs)"
  by (simp_all add: sender_served_def receiver_served_def toy_asking_def toy_answering_def allocates_def
      sends_def delivers_def toy_control_length)

lemma toy_sockets:
  "\<exists>t. sender_socket toy_pton toy_connected (tl [''sender'', ''s'']) = Inr (True, t)"
  "\<exists>t. receiver_socket toy_pton toy_connected (tl [''receiver'', ''s'']) = Inr (True, t)"
  by (simp_all add: sender_socket_def receiver_socket_def toy_connected_def)

theorem session_completes_witness:
  "\<exists>w v p. sender_main_with (40 + 3 * DNSWIRE_MAXIMUM_BUF_SIZE) toylib toy_msg toy_pton toy_connected
       [''sender'', ''s''] toy_asking = Inr (0, Some Stopped, w) \<and>
     receiver_main (60 + 4 * length (sent w)) toylib toy_ntop toy_pton toy_connected [''receiver'', ''s'']
       (toy_answering (sent w)) toy_printer = Inr (0, Some Ended, v, p) \<and> sent v = inbox toy_asking \<and>
     text_out p = announced @ report toy_ntop toy_msg @ chars ''stopped'' @ newline"
proof -
  have f: "sent toy_asking = []" "length (writes toy_asking) + length (reads toy_asking) +
      length (inbox toy_asking) + 8 < 40 + 3 * DNSWIRE_MAXIMUM_BUF_SIZE" "sent (toy_answering bs) = []"
    "2 * (length (reads (toy_answering bs)) + length (writes (toy_answering bs)) +
      length (inbox (toy_answering bs))) < 60 + 4 * length bs" for bs
    by (simp_all add: toy_asking_def toy_answering_def toy_control_length)
  have two: "2 \<le> length [''sender'', ''s'']" "2 \<le> length [''receiver'', ''s'']" by simp_all
  from toy_sockets obtain t t' where s: "sender_socket toy_pton toy_connected (tl [''sender'', ''s'']) = Inr (True, t)"
    "receiver_socket toy_pton toy_connected (tl [''receiver'', ''s'']) = Inr (True, t')" by blast
  note run = session_completes [OF toylib_ok toylib_consumes toylib_nonempty toy_stream_ok toy_ready_ok toy_answer_ok
      toylib_forms toy_short toy_msg_built toy_enums toy_msg_unpacks toy_fits toy_ntop_ok toy_pton_ok toy_printer_ok
      two(1) s(1) toy_served(1) f(1,2) two(2) s(2) toy_served(2) f(3,4)]
  from run [of "[]"] obtain w where
    w: "sender_main_with (40 + 3 * DNSWIRE_MAXIMUM_BUF_SIZE) toylib toy_msg toy_pton toy_connected
       [''sender'', ''s''] toy_asking = Inr (0, Some Stopped, w)" by blast
  with run [of "sent w"] show ?thesis by (simp add: toy_answering_def toy_printer_def)
qed

end
