(* ===== verification/Client_Receiver.thy ===== *)
theory Client_Receiver
  imports Reader_Programs Socket_Setup
begin

text \<open>
  \<open>examples/client_receiver_uv.c\<close>: a receiver driven by \<open>libuv\<close>. The loop of \<open>libuv\<close> is outside: it
  calls \<open>client_read\<close> for what arrives until the handle is closed.
\<close>

section \<open>The code\<close>

text \<open>
  What \<open>libuv\<close> reports with \<open>nread\<close>: that many bytes (none at all included), \<open>UV_EOF\<close>, or another
  negative code.
\<close>

datatype arrival = Bytes "byte list" | Eof | Read_error

text \<open>
  The loop over the bytes of one report; \<open>data\<close> is what has not been pushed. The first component of
  the result tells whether the handle was closed.
\<close>

fun push_loop :: "nat \<Rightarrow> ('r, 'w) extlib \<Rightarrow> inet_ntop \<Rightarrow> world \<Rightarrow> ('r, 'w) dnswire_reader \<Rightarrow> printer \<Rightarrow>
    byte list \<Rightarrow> fault + bool \<times> ('r, 'w) dnswire_reader \<times> world \<times> printer" where
  "push_loop fuel L ntop w r p [] = Inr (False, r, w, p)"
| "push_loop 0 L ntop w r p (x # xs) = Inl Out_of_fuel"
| "push_loop (Suc fuel) L ntop w r p (x # xs) =
     bindF (dnswire_reader_push L w r (Some (x # xs)) False None) (\<lambda>(res, r1, w1, out).
     let rest = drop (r_pushed r1) (x # xs) in
     (case res of
        dnswire_have_dnstap \<Rightarrow>
          bindF (print_dnstap ntop (dc_dnstap (r_decoder r1)) p) (\<lambda>p1. push_loop fuel L ntop w1 r1 p1 rest)
      | dnswire_again \<Rightarrow> push_loop fuel L ntop w1 r1 p rest
      | dnswire_need_more \<Rightarrow> push_loop fuel L ntop w1 r1 p rest
      | _ \<Rightarrow> Inr (True, r1, w1, p)))"

definition client_read :: "nat \<Rightarrow> ('r, 'w) extlib \<Rightarrow> inet_ntop \<Rightarrow> arrival \<Rightarrow> world \<Rightarrow>
    ('r, 'w) dnswire_reader \<Rightarrow> printer \<Rightarrow> fault + bool \<times> ('r, 'w) dnswire_reader \<times> world \<times> printer" where
  "client_read fuel L ntop a w r p = (case a of
       Bytes bs \<Rightarrow> push_loop fuel L ntop w r p bs
     | Eof \<Rightarrow> bindF (print (chars ''disconnected'' @ newline) p) (\<lambda>p1. Inr (True, r, w, p1))
     | Read_error \<Rightarrow> Inr (True, r, w, p))"

text \<open>Once the handle is closed \<open>libuv\<close> reports nothing any more.\<close>

fun client_run :: "nat \<Rightarrow> ('r, 'w) extlib \<Rightarrow> inet_ntop \<Rightarrow> arrival list \<Rightarrow> world \<Rightarrow>
    ('r, 'w) dnswire_reader \<Rightarrow> printer \<Rightarrow> fault + bool \<times> ('r, 'w) dnswire_reader \<times> world \<times> printer" where
  "client_run fuel L ntop [] w r p = Inr (False, r, w, p)"
| "client_run fuel L ntop (a # as) w r p =
     bindF (client_read fuel L ntop a w r p) (\<lambda>(closed, r1, w1, p1).
     if closed then Inr (True, r1, w1, p1) else client_run fuel L ntop as w1 r1 p1)"

text \<open>
  \<open>uv_ip\<close> is what \<open>uv_ip6_addr\<close> and \<open>uv_ip4_addr\<close> make of the host and the port; their result is not
  looked at.
\<close>

definition client_address :: "(address_family \<Rightarrow> string \<Rightarrow> int \<Rightarrow> 'a) \<Rightarrow> string \<Rightarrow> string \<Rightarrow> 'a" where
  "client_address uv_ip host port = uv_ip (family_of host) host (atoi (chars port))"

text \<open>
  \<open>main\<close> and \<open>on_connect\<close>: \<open>connects\<close> is whether \<open>on_connect\<close> is called for the address, with a
  \<open>status\<close> that is not negative. The result is the exit status when \<open>main\<close> ends before \<open>uv_run\<close>, and
  the printer.
\<close>

definition client_main :: "nat \<Rightarrow> ('r, 'w) extlib \<Rightarrow> inet_ntop \<Rightarrow>
    (address_family \<Rightarrow> string \<Rightarrow> int \<Rightarrow> 'a) \<Rightarrow> ('a \<Rightarrow> bool) \<Rightarrow> string list \<Rightarrow> arrival list \<Rightarrow> world \<Rightarrow>
    printer \<Rightarrow> fault + nat option \<times> printer" where
  "client_main fuel L ntop uv_ip connects argv as w p =
     (if length argv < 3 then Inr (Some 1, p)
      else case dnswire_reader_init L w of (res, r, w1) \<Rightarrow>
        if res \<noteq> dnswire_ok then Inr (Some 1, p)
        else case dnswire_reader_allow_bidirectional w1 r False of (res', r1, w2) \<Rightarrow>
          if res' \<noteq> dnswire_ok then Inr (Some 1, p)
          else if \<not> connects (client_address uv_ip (argv ! 1) (argv ! 2)) then Inr (None, p)
          else bindF (client_run fuel L ntop as w2 r1 p) (\<lambda>(closed, r2, w3, p2). Inr (None, p2)))"

section \<open>Progress of push\<close>

definition push_cost :: "nat \<Rightarrow> ('r, 'w) dnswire_reader \<Rightarrow> nat" where
  "push_cost n r = 3 * n + 2 * length (in_live (r_in r)) + owed r"

lemma push_reading_uses:
  assumes L: "extlib_ok L" "tinyframe_consumes L" and ok: "reader_ok r" and data: "data \<noteq> []"
    and st: "r_state r \<in> {dnswire_reader_reading_control, dnswire_reader_reading}"
    and dec: "\<And>b n. push_bytes data r = Inr (r\<lparr>r_pushed := n, r_in := b\<rparr>) \<Longrightarrow> in_ok b \<Longrightarrow> in_live b \<noteq> [] \<Longrightarrow>
      decoding_uses w (r\<lparr>r_pushed := n, r_in := b, r_state := s\<rparr>) (res, r', w') \<and> r_pushed r' = n"
  shows "goes_on res \<longrightarrow> push_cost (length data - r_pushed r') r' < push_cost (length data) r"
proof -
  from push_bytes_post [OF reader_okD(1) [OF ok] data] obtain n b where
    b: "push_bytes data r = Inr (r\<lparr>r_pushed := n, r_in := b\<rparr>)" "n = min (in_room (r_in r)) (length data)"
      "in_ok b" "in_live b = in_live (r_in r) @ take n data" "in_live b \<noteq> []" by blast
  from dec [OF b(1,3,5)] have d: "decoding_uses w (r\<lparr>r_pushed := n, r_in := b, r_state := s\<rparr>) (res, r', w')"
    "r_pushed r' = n" by blast+
  have n0: "n = 0 \<Longrightarrow> owed r = 1" using st data b(2) by (auto simp: owed_def min_def split: if_splits)
  have le: "n \<le> length data" using b(2) by simp
  have len: "length (in_live b) = length (in_live (r_in r)) + n" using b(4) le by simp
  show ?thesis
  proof
    assume "goes_on res"
    with d have "2 * length (in_live (r_in r')) + owed r' < 2 * length (in_live b) + 1"
      by (simp add: decoding_uses_def)
    with d(2) le len n0 show "push_cost (length data - r_pushed r') r' < push_cost (length data) r"
      by (cases "n = 0") (auto simp: push_cost_def)
  qed
qed

lemma push_decoding_control_pushed:
  assumes run: "push_decoding_control L w len r = Inr (res, r', w')"
  shows "r_pushed r' = r_pushed r"
proof -
  from run obtain bytes where load: "in_load (r_in r) = Inr bytes"
    by (cases "in_load (r_in r)") (simp_all add: push_decoding_control_def)
  from run obtain x where dec: "dnswire_decoder_decode L (r_decoder r) bytes = Inr x"
    by (cases "dnswire_decoder_decode L (r_decoder r) bytes") (simp_all add: push_decoding_control_def load)
  obtain dres d where x: "x = (dres, d)" by (cases x)
  show ?thesis
    using run
    by (cases dres) (auto simp: push_decoding_control_def load dec x Let_def bindF_eq_Inr split: if_splits)
qed

lemma push_decoding_pushed:
  assumes run: "push_decoding L w len r = Inr (res, r', w')"
  shows "r_pushed r' = r_pushed r"
proof -
  from run obtain bytes where load: "in_load (r_in r) = Inr bytes"
    by (cases "in_load (r_in r)") (simp_all add: push_decoding_def)
  from run obtain x where dec: "dnswire_decoder_decode L (r_decoder r) bytes = Inr x"
    by (cases "dnswire_decoder_decode L (r_decoder r) bytes") (simp_all add: push_decoding_def load)
  obtain dres d where x: "x = (dres, d)" by (cases x)
  show ?thesis
    using run
    by (cases dres) (auto simp: push_decoding_def load dec x Let_def bindF_eq_Inr split: if_splits)
qed

lemmas decoding_pushed = push_decoding_control_pushed push_decoding_pushed

text \<open>Taking in and decoding, in either state that takes in, and decoding what is buffered.\<close>

lemma push_takes_in:
  assumes L: "extlib_ok L" "tinyframe_consumes L" and ok: "reader_ok r" and data: "data \<noteq> []"
    and c: "r_state r = dnswire_reader_reading_control \<and> push_reading_control L w data r = Inr (res, r', w') \<or>
      r_state r = dnswire_reader_reading \<and> push_reading L w data r = Inr (res, r', w')"
  shows "goes_on res \<longrightarrow> push_cost (length data - r_pushed r') r' < push_cost (length data) r"
  using c
proof (elim disjE conjE)
  assume st: "r_state r = dnswire_reader_reading_control" and c: "push_reading_control L w data r = Inr (res, r', w')"
  show ?thesis
  proof (rule push_reading_uses [OF L ok data, where s = dnswire_reader_decoding_control])
    fix b n
    assume b: "push_bytes data r = Inr (r\<lparr>r_pushed := n, r_in := b\<rparr>)" "in_ok b" "in_live b \<noteq> []"
    with c data have d: "push_decoding_control L w (length data)
        (r\<lparr>r_pushed := n, r_in := b, r_state := dnswire_reader_decoding_control\<rparr>) = Inr (res, r', w')"
      by (simp add: push_reading_control_def)
    show "decoding_uses w (r\<lparr>r_pushed := n, r_in := b, r_state := dnswire_reader_decoding_control\<rparr>)
        (res, r', w') \<and> r_pushed r' = n"
      using decoding_use(1) [OF L _ _ _ d] decoding_pushed(1) [OF d] b reader_okD(2) [OF ok] by simp
  qed (use st in simp)
next
  assume st: "r_state r = dnswire_reader_reading" and c: "push_reading L w data r = Inr (res, r', w')"
  show ?thesis
  proof (rule push_reading_uses [OF L ok data, where s = dnswire_reader_decoding])
    fix b n
    assume b: "push_bytes data r = Inr (r\<lparr>r_pushed := n, r_in := b\<rparr>)" "in_ok b" "in_live b \<noteq> []"
    with c data have d: "push_decoding L w (length data)
        (r\<lparr>r_pushed := n, r_in := b, r_state := dnswire_reader_decoding\<rparr>) = Inr (res, r', w')"
      by (simp add: push_reading_def)
    show "decoding_uses w (r\<lparr>r_pushed := n, r_in := b, r_state := dnswire_reader_decoding\<rparr>)
        (res, r', w') \<and> r_pushed r' = n"
      using decoding_use(2) [OF L _ _ _ d] decoding_pushed(2) [OF d] b reader_okD(2) [OF ok] by simp
  qed (use st in simp)
qed

lemma push_decodes:
  assumes L: "extlib_ok L" "tinyframe_consumes L" and ok: "reader_ok r" and p: "r_pushed r = 0"
    and st: "r_state r \<in> {dnswire_reader_decoding_control, dnswire_reader_decoding}"
    and c: "push_decoding_control L w len r = Inr (res, r', w') \<or> push_decoding L w len r = Inr (res, r', w')"
  shows "goes_on res \<longrightarrow> push_cost (n - r_pushed r') r' < push_cost n r"
proof -
  have "in_live (r_in r) \<noteq> []" using reader_okD(3) [OF ok] st by auto
  with c have "decoding_uses w r (res, r', w')" "r_pushed r' = 0"
    using decoding_use [OF L, of r w len] decoding_pushed [of L w len r res r' w']
      reader_okD(1,2) [OF ok] p by auto
  moreover have "owed r = 1" using st by (simp add: owed_def)
  ultimately show ?thesis by (auto simp: decoding_uses_def push_cost_def)
qed

lemma push_uses:
  assumes L: "extlib_ok L" "tinyframe_consumes L" and ok: "reader_ok r" and uni: "\<not> r_allow_bidirectional r"
    and data: "data \<noteq> []" and r: "dnswire_reader_push L w r (Some data) False None = Inr (res, r', w', out)"
  shows "goes_on res \<longrightarrow> push_cost (length data - r_pushed r') r' < push_cost (length data) r"
proof -
  let ?r = "r\<lparr>r_pushed := 0\<rparr>"
  have ok0: "reader_ok ?r" using ok by (simp add: reader_ok_pushed)
  have same: "push_cost n ?r = push_cost n r" for n by (simp add: push_cost_def owed_def)
  have buf: "i_buf (r_in r) \<noteq> None" using in_ok_buf [OF reader_okD(1) [OF ok]] .
  have "\<not> r_is_bidirectional r" using reader_okD(4) [OF ok] uni by (simp add: output_ok_def)
  then have nowrite: "r_state r \<notin> {dnswire_reader_encoding_accept, dnswire_reader_writing_accept,
      dnswire_reader_encoding_finish, dnswire_reader_writing_finish}"
    using reader_okD(4) [OF ok] by (auto simp: output_ok_def)
  note eval = dnswire_reader_push_def no_output_def buf uni bindF_eq_Inr
  from nowrite consider
      (takes) "r_state r \<in> {dnswire_reader_reading_control, dnswire_reader_reading}"
    | (decodes) "r_state r \<in> {dnswire_reader_decoding_control, dnswire_reader_decoding}"
    | (over) "r_state r = dnswire_reader_done" by (cases "r_state r") auto
  then have "goes_on res \<longrightarrow> push_cost (length data - r_pushed r') r' < push_cost (length data) ?r"
  proof cases
    case takes
    with r have "r_state ?r = dnswire_reader_reading_control \<and> push_reading_control L w data ?r = Inr (res, r', w') \<or>
        r_state ?r = dnswire_reader_reading \<and> push_reading L w data ?r = Inr (res, r', w')"
      by (auto simp: eval)
    from push_takes_in [OF L ok0 data this] show ?thesis .
  next
    case decodes
    with r have "push_decoding_control L w (length data) ?r = Inr (res, r', w') \<or>
        push_decoding L w (length data) ?r = Inr (res, r', w')" by (auto simp: eval)
    from push_decodes [OF L ok0 _ _ this] decodes show ?thesis by simp
  next
    case over
    with r show ?thesis by (auto simp: eval goes_on_def)
  qed
  then show ?thesis by (simp only: same)
qed

section \<open>The loop\<close>

text \<open>
  The reader and what was printed, after a part of the input: the reports of the messages received from
  it, in order.
\<close>

definition shown :: "('r, 'w) extlib \<Rightarrow> inet_ntop \<Rightarrow> ('r, 'w) dnswire_reader \<Rightarrow> byte list \<Rightarrow>
    ('r, 'w) dnswire_reader \<Rightarrow> byte list \<Rightarrow> bool" where
  "shown L ntop r0 inp r lines \<longleftrightarrow> reader_ok r \<and> \<not> r_allow_bidirectional r \<and>
     (\<exists>ms. receives L r0 inp ms r \<and> lines = concat (map (report ntop) ms) \<and> tame lines)"

lemma push_step_shown:
  assumes L: "extlib_ok L" and n: "inet_ntop_ok ntop" and s: "shown L ntop r0 inp r lines" and p: "printer_ok p"
    and r: "dnswire_reader_push L w r (Some data) False None = Inr (res, r', w', out)" "res \<noteq> dnswire_error"
  shows "if res = dnswire_have_dnstap
     then \<exists>p'. print_dnstap ntop (dc_dnstap (r_decoder r')) p = Inr p' \<and> printer_ok p' \<and>
       text_out p' = text_out p @ report ntop (dc_dnstap (r_decoder r')) \<and>
       shown L ntop r0 (inp @ take (r_pushed r') data) r' (lines @ report ntop (dc_dnstap (r_decoder r')))
     else shown L ntop r0 (inp @ take (r_pushed r') data) r' lines"
proof -
  from s obtain ms where ok: "reader_ok r" "\<not> r_allow_bidirectional r" and
    ms: "receives L r0 inp ms r" "lines = concat (map (report ntop) ms)" "tame lines" by (auto simp: shown_def)
  have st: "reader_step L r (take (r_pushed r') data) res out r'" by (rule step_push [OF r])
  from reader_step_ok [OF st L ok(1)] ok(2) have ok': "reader_ok r'" "\<not> r_allow_bidirectional r'"
    by (auto simp: step_ok_def answered_def)
  note rec = receives_more [OF ms(1) st]
  show ?thesis
  proof (cases "res = dnswire_have_dnstap")
    case True
    with delivered_decoded [OF _ L ok(1)] st obtain d0 bs where
      "dnstap_decode_protobuf L d0 bs = Inr (0, dc_dnstap (r_decoder r'))" by blast
    from decoded_printed [OF this n p] obtain p' where p': "print_dnstap ntop (dc_dnstap (r_decoder r')) p = Inr p'"
      "printer_ok p'" "text_out p' = text_out p @ report ntop (dc_dnstap (r_decoder r'))"
      "tame (report ntop (dc_dnstap (r_decoder r')))" by blast
    have "shown L ntop r0 (inp @ take (r_pushed r') data) r' (lines @ report ntop (dc_dnstap (r_decoder r')))"
      unfolding shown_def using rec True ok' ms(2,3) p'(4)
      by (intro conjI exI [of _ "ms @ [dc_dnstap (r_decoder r')]"]) simp_all
    with p' True show ?thesis by simp
  next
    case False
    have "shown L ntop r0 (inp @ take (r_pushed r') data) r' lines"
      unfolding shown_def using rec False ok' ms(2,3) by (intro conjI exI [of _ ms]) simp_all
    with False show ?thesis by simp
  qed
qed

text \<open>What the loop comes to: it shows the messages of a beginning of \<open>data\<close>, of all of it unless it closes.\<close>

definition pushes :: "('r, 'w) extlib \<Rightarrow> inet_ntop \<Rightarrow> ('r, 'w) dnswire_reader \<Rightarrow> byte list \<Rightarrow> byte list \<Rightarrow> nat \<Rightarrow>
    byte list \<Rightarrow> fault + bool \<times> ('r, 'w) dnswire_reader \<times> world \<times> printer \<Rightarrow> bool" where
  "pushes L ntop r0 base inp cost data x \<longleftrightarrow> (\<exists>closed r' w' p' inp' rest lines' r1.
     x = Inr (closed, r', w', p') \<and> printer_ok p' \<and> text_out p' = base @ lines' \<and> data = inp' @ rest \<and>
     shown L ntop r0 (inp @ inp') r1 lines' \<and>
     (\<not> closed \<longrightarrow> r1 = r' \<and> rest = [] \<and> push_cost 0 r' \<le> cost))"

lemma pushes_closed:
  assumes "shown L ntop r0 inp r lines" and "printer_ok p" and "text_out p = base @ lines"
  shows "pushes L ntop r0 base inp cost data (Inr (True, r', w', p))"
  unfolding pushes_def
  by (rule exI [of _ True], rule exI [of _ r'], rule exI [of _ w'], rule exI [of _ p],
      rule exI [of _ "[]"], rule exI [of _ data], rule exI [of _ lines]) (use assms in auto)

lemma pushes_more:
  assumes "pushes L ntop r0 base (inp @ take n data) cost' (drop n data) x" and "cost' \<le> cost"
  shows "pushes L ntop r0 base inp cost data x"
proof -
  from assms(1) obtain closed r' w' p' inp' rest lines' r1 where
    x: "x = Inr (closed, r', w', p')" "printer_ok p'" "text_out p' = base @ lines'" "drop n data = inp' @ rest"
      "shown L ntop r0 ((inp @ take n data) @ inp') r1 lines'"
      "\<not> closed \<longrightarrow> r1 = r' \<and> rest = [] \<and> push_cost 0 r' \<le> cost'" unfolding pushes_def by blast
  have d: "data = (take n data @ inp') @ rest" using append_take_drop_id [of n data] x(4) by simp
  show ?thesis
    unfolding pushes_def
    by (rule exI [of _ closed], rule exI [of _ r'], rule exI [of _ w'], rule exI [of _ p'],
        rule exI [of _ "take n data @ inp'"], rule exI [of _ rest], rule exI [of _ lines'], rule exI [of _ r1])
      (use x d assms(2) in auto)
qed

lemma push_loop_ends:
  assumes L: "extlib_ok L" "tinyframe_consumes L" and n: "inet_ntop_ok ntop"
    and "shown L ntop r0 inp r lines" and "printer_ok p" and "push_cost (length data) r < fuel"
    and "text_out p = base @ lines"
  shows "pushes L ntop r0 base inp (push_cost (length data) r) data (push_loop fuel L ntop w r p data)"
  using assms(4-)
proof (induction fuel arbitrary: r p data w inp lines)
  case (Suc fuel)
  note s = Suc.prems(1) and p = Suc.prems(2) and out = Suc.prems(4)
  have ok: "reader_ok r" "\<not> r_allow_bidirectional r" using s by (auto simp: shown_def)
  show ?case
  proof (cases data)
    case Nil
    with s p out show ?thesis by (auto simp: push_cost_def pushes_def)
  next
    case (Cons x xs)
    then have ne: "data \<noteq> []" by simp
    have room: "room_for r False None" using ok(2) by (simp add: room_for_def)
    from reader_push_returns [OF L(1) ok(1) room, of w data] obtain res r1 w1 o1 where
      r: "dnswire_reader_push L w r (Some data) False None = Inr (res, r1, w1, o1)" by (metis prod_cases4)
    note cost = push_uses [OF L ok ne r]
    let ?d = "drop (r_pushed r1) data"
    have less: "push_cost (length ?d) r1 < fuel \<and> push_cost (length ?d) r1 \<le> push_cost (length data) r" if "goes_on res"
      using cost that Suc.prems(3) by simp
    show ?thesis
    proof (cases "goes_on res")
      case True
      then have ne': "res \<noteq> dnswire_error" by (auto simp: goes_on_def)
      note st = push_step_shown [OF L(1) n s p r ne']
      show ?thesis
      proof (cases "res = dnswire_have_dnstap")
        case got: True
        with st obtain p' where p': "print_dnstap ntop (dc_dnstap (r_decoder r1)) p = Inr p'" "printer_ok p'"
          "text_out p' = text_out p @ report ntop (dc_dnstap (r_decoder r1))"
          "shown L ntop r0 (inp @ take (r_pushed r1) data) r1 (lines @ report ntop (dc_dnstap (r_decoder r1)))" by auto
        from pushes_more [OF Suc.IH [OF p'(4,2), where data = ?d and w = w1]] less [OF True] p'(1,3) out got r Cons
        show ?thesis by simp
      next
        case no: False
        with st have "shown L ntop r0 (inp @ take (r_pushed r1) data) r1 lines" by simp
        from pushes_more [OF Suc.IH [OF this p, where data = ?d and w = w1]] less [OF True] out r Cons True no
        show ?thesis by (auto simp: goes_on_def)
      qed
    next
      case False
      with r Cons have "push_loop (Suc fuel) L ntop w r p data = Inr (True, r1, w1, p)"
        by (cases res) (auto simp: goes_on_def)
      with pushes_closed [OF s p out] show ?thesis by simp
    qed
  qed
qed (auto simp: push_cost_def)

section \<open>The program\<close>

text \<open>The bytes that arrive before the end.\<close>

fun arrived :: "arrival list \<Rightarrow> byte list" where
  "arrived (Bytes bs # as) = bs @ arrived as"
| "arrived as = []"

definition bye :: "byte list" where
  "bye = chars ''disconnected'' @ newline"

text \<open>
  What a run over the arrivals \<open>as\<close> answers, when \<open>inp\<close> came before: the reports of the messages in a
  part of the bytes, and the farewell only where the other end closed.
\<close>

definition client_ran :: "('r, 'w) extlib \<Rightarrow> inet_ntop \<Rightarrow> ('r, 'w) dnswire_reader \<Rightarrow> byte list \<Rightarrow> byte list \<Rightarrow>
    arrival list \<Rightarrow> fault + bool \<times> ('r, 'w) dnswire_reader \<times> world \<times> printer \<Rightarrow> bool" where
  "client_ran L ntop r0 base inp as x \<longleftrightarrow> (\<exists>closed r' w' p' inp' rest lines' b.
     x = Inr (closed, r', w', p') \<and> printer_ok p' \<and> text_out p' = base @ lines' @ (if b then bye else []) \<and>
     (b \<longrightarrow> Eof \<in> set as) \<and> arrived as = inp' @ rest \<and> (\<exists>r1. shown L ntop r0 (inp @ inp') r1 lines'))"

lemma client_ran_ends:
  assumes "shown L ntop r0 (inp @ inp') r1 lines" and "printer_ok p"
    and "text_out p = base @ lines @ (if b then bye else [])" and "b \<longrightarrow> Eof \<in> set as"
    and "arrived as = inp' @ rest"
  shows "client_ran L ntop r0 base inp as (Inr (closed, r, w, p))"
  unfolding client_ran_def
  by (rule exI [of _ closed], rule exI [of _ r], rule exI [of _ w], rule exI [of _ p], rule exI [of _ inp'],
      rule exI [of _ rest], rule exI [of _ lines], rule exI [of _ b]) (use assms in auto)

lemma client_ran_after:
  assumes "client_ran L ntop r0 base (inp @ bs) as x"
  shows "client_ran L ntop r0 base inp (Bytes bs # as) x"
proof -
  from assms obtain closed r' w' p' inp' rest lines' b r1 where
    x: "x = Inr (closed, r', w', p')" "printer_ok p'" "text_out p' = base @ lines' @ (if b then bye else [])"
      "b \<longrightarrow> Eof \<in> set as" "arrived as = inp' @ rest" "shown L ntop r0 ((inp @ bs) @ inp') r1 lines'"
    unfolding client_ran_def by blast
  show ?thesis
    unfolding x(1) by (rule client_ran_ends [of L ntop r0 inp "bs @ inp'" r1 lines' _ base b _ rest]) (use x in auto)
qed

lemma client_run_ends:
  assumes L: "extlib_ok L" "tinyframe_consumes L" and n: "inet_ntop_ok ntop"
    and "shown L ntop r0 inp r lines" and "printer_ok p" and "push_cost (length (arrived as)) r < fuel"
    and "text_out p = base @ lines"
  shows "client_ran L ntop r0 base inp as (client_run fuel L ntop as w r p)"
  using assms(4-)
proof (induction as arbitrary: r p w inp lines)
  case Nil
  then show ?case using client_ran_ends [of L ntop r0 inp "[]" r lines p base False] by simp
next
  case (Cons a as)
  note s = Cons.prems(1) and p = Cons.prems(2) and out = Cons.prems(4)
  show ?case
  proof (cases a)
    case (Bytes bs)
    then have "push_cost (length bs) r < fuel" using Cons.prems(3) by (simp add: push_cost_def)
    from push_loop_ends [OF L n s p this out, of w] obtain closed r' w' p' inp' rest lines' r1 where
      l: "push_loop fuel L ntop w r p bs = Inr (closed, r', w', p')" "printer_ok p'" "text_out p' = base @ lines'"
        "bs = inp' @ rest" "shown L ntop r0 (inp @ inp') r1 lines'"
        "\<not> closed \<longrightarrow> r1 = r' \<and> rest = [] \<and> push_cost 0 r' \<le> push_cost (length bs) r"
      unfolding pushes_def by blast
    show ?thesis
    proof (cases closed)
      case True
      with client_ran_ends [OF l(5,2), of base False "a # as" "rest @ arrived as"] l(1,3,4) Bytes
      show ?thesis by (simp add: client_read_def)
    next
      case False
      with l have f: "r1 = r'" "inp' = bs" "push_cost 0 r' \<le> push_cost (length bs) r" by auto
      with Cons.prems(3) Bytes have "push_cost (length (arrived as)) r' < fuel" by (simp add: push_cost_def)
      from client_ran_after [OF Cons.IH [OF l(5) [unfolded f] l(2) this l(3), of w']] l(1) False Bytes
      show ?thesis by (simp add: client_read_def)
    qed
  next
    case Eof
    have "printer_ok (p\<lparr>text_out := text_out p @ bye\<rparr>)" using p by (simp add: printer_ok_def)
    with client_ran_ends [of L ntop r0 inp "[]" r lines _ base True] s out Eof
    show ?thesis by (simp add: client_read_def print_def bye_def)
  next
    case Read_error
    with client_ran_ends [of L ntop r0 inp "[]" r lines p base False] s p out
    show ?thesis by (simp add: client_read_def)
  qed
qed

text \<open>What a run with these arrivals adds to the output.\<close>

definition client_shows :: "('r, 'w) extlib \<Rightarrow> inet_ntop \<Rightarrow> arrival list \<Rightarrow> world \<Rightarrow> byte list \<Rightarrow> bool" where
  "client_shows L ntop as w added \<longleftrightarrow> (\<exists>r w1 r0 w2 inp rest r1 lines b.
     dnswire_reader_init L w = (dnswire_ok, r, w1) \<and>
     dnswire_reader_allow_bidirectional w1 r False = (dnswire_ok, r0, w2) \<and> arrived as = inp @ rest \<and>
     shown L ntop r0 inp r1 lines \<and> added = lines @ (if b then bye else []) \<and> (b \<longrightarrow> Eof \<in> set as))"

lemma client_main_shows:
  assumes L: "extlib_ok L" "tinyframe_consumes L" and n: "inet_ntop_ok ntop" and p: "printer_ok p"
    and f: "3 * length (arrived as) + 1 < fuel" and argc: "\<not> length argv < 3"
    and i: "dnswire_reader_init L w = (dnswire_ok, r, w1)"
  shows "\<exists>p' added. client_main fuel L ntop uv_ip connects argv as w p = Inr (None, p') \<and> printer_ok p' \<and>
     text_out p' = text_out p @ added \<and> client_shows L ntop as w added"
proof -
  let ?r = "r\<lparr>r_encoder := (r_encoder r)\<lparr>e_state := dnswire_encoder_control_start\<rparr>,
    r_allow_bidirectional := False\<rparr>"
  have a: "dnswire_reader_allow_bidirectional w1 r False = (dnswire_ok, ?r, w1)"
    by (simp add: dnswire_reader_allow_bidirectional_def)
  note ok = conjunct1 [OF conjunct2 [OF reader_allow_sound [OF i a]]] and s0 = reader_init_sound [OF i]
  have s: "shown L ntop ?r [] ?r []"
    using ok by (auto simp: shown_def intro: receives_start)
  have shows_by: "client_shows L ntop as w (lines @ (if b then bye else []))"
    if "arrived as = inp @ rest" "shown L ntop ?r inp r1 lines" "b \<longrightarrow> Eof \<in> set as" for inp rest r1 lines b
    unfolding client_shows_def
    by (rule exI [of _ r], rule exI [of _ w1], rule exI [of _ ?r], rule exI [of _ w1], rule exI [of _ inp],
        rule exI [of _ rest], rule exI [of _ r1], rule exI [of _ lines], rule exI [of _ b])
      (intro conjI i a that refl)
  have "in_room (r_in r) \<noteq> 0" using inq.empty_room [OF reader_okD(1) [OF s0(1)]] s0(2) by simp
  then have c: "push_cost (length (arrived as)) ?r < fuel"
    using f s0(2,6) by (simp add: push_cost_def owed_def)
  have t: "text_out p = text_out p @ []" by simp
  show ?thesis
  proof (cases "connects (client_address uv_ip (argv ! 1) (argv ! 2))")
    case True
    from client_run_ends [OF L n s p c t, of w1] obtain cl r' w' p' inp rest lines b r1 where
      run: "client_run fuel L ntop as w1 ?r p = Inr (cl, r', w', p')" "printer_ok p'"
        "text_out p' = text_out p @ lines @ (if b then bye else [])" "b \<longrightarrow> Eof \<in> set as"
        "arrived as = inp @ rest" "shown L ntop ?r ([] @ inp) r1 lines"
      unfolding client_ran_def by blast
    have "client_main fuel L ntop uv_ip connects argv as w p = Inr (None, p')"
      using argc i a True run(1) by (simp add: client_main_def)
    with run shows_by [OF run(5) _ run(4), of r1 lines] show ?thesis
      by (intro exI [of _ p'] exI [of _ "lines @ (if b then bye else [])"]) simp
  next
    case no: False
    have "client_main fuel L ntop uv_ip connects argv as w p = Inr (None, p)"
      using argc i a no by (simp add: client_main_def)
    with p shows_by [of "[]" "arrived as" ?r "[]" False] s show ?thesis
      by (intro exI [of _ p] exI [of _ "[]"]) simp
  qed
qed

text \<open>
  C27: \<open>client_receiver_uv\<close>, whatever arrives over the connection in whatever portions: no call faults,
  the loop over the bytes of a portion comes to an end, and what is printed are the reports of messages
  that were received from a beginning of the stream, in order and each once, followed by
  \<open>disconnected\<close> only when the peer closed the connection.
\<close>
theorem client_receiver_prints:
  assumes "extlib_ok L" and "tinyframe_consumes L" and "inet_ntop_ok ntop" and "printer_ok p"
    and "3 * length (arrived as) + 1 < fuel"
  shows "\<exists>status p'. client_main fuel L ntop uv_ip connects argv as w p = Inr (status, p') \<and> printer_ok p' \<and>
     (status = Some 1 \<and> p' = p \<or>
      status = None \<and> (\<exists>added. text_out p' = text_out p @ added \<and> client_shows L ntop as w added))"
proof -
  obtain res r w1 where i: "dnswire_reader_init L w = (res, r, w1)" by (cases "dnswire_reader_init L w")
  show ?thesis
  proof (cases "length argv < 3 \<or> res \<noteq> dnswire_ok")
    case True
    with i assms(4) show ?thesis by (auto simp: client_main_def)
  next
    case False
    with i client_main_shows [OF assms, of argv w r w1 uv_ip connects] show ?thesis by blast
  qed
qed

section \<open>The portions matter\<close>

text \<open>
  C28: The handle decodes one thing per call and the program calls it only while there are bytes to push.
  The first portion, which always fits into the buffer of the handle, is pushed whole by the first call,
  which decodes the header of the first frame and nothing else: everything behind it, messages that are
  complete included, stays in the buffer until more bytes arrive, and is never printed when the peer
  closes the connection instead.
\<close>
theorem client_first_portion_waits:
  assumes "dnswire_reader_init L w = (dnswire_ok, r, w1)" and "data \<noteq> []"
    and "length data \<le> DNSWIRE_DEFAULT_BUF_SIZE"
    and "dnswire_decoder_decode L (DNSWIRE_DECODER_INITIALIZER L) data = Inr (dnswire_again, d)"
    and "extlib_ok L" and "0 < fuel" and "connects (client_address uv_ip host port)"
  shows "client_main fuel L ntop uv_ip connects [prog, host, port] [Bytes data, Eof] w p = Inr (None, p\<lparr>text_out := text_out p @ bye\<rparr>)"
proof -
  let ?r = "r\<lparr>r_encoder := (r_encoder r)\<lparr>e_state := dnswire_encoder_control_start\<rparr>,
    r_allow_bidirectional := False\<rparr>"
  have a: "dnswire_reader_allow_bidirectional w1 r False = (dnswire_ok, ?r, w1)"
    by (simp add: dnswire_reader_allow_bidirectional_def)
  note s0 = reader_init_sound [OF assms(1)]
  let ?p = "?r\<lparr>r_pushed := 0\<rparr>"
  have size: "i_size (r_in r) = DNSWIRE_DEFAULT_BUF_SIZE"
    using assms(1) by (cases "sys_alloc w")
      (auto simp: dnswire_reader_init_def reader_defaults_def Let_def split: if_splits)
  have room: "in_room (r_in ?p) = DNSWIRE_DEFAULT_BUF_SIZE"
    using in_room_exact [OF reader_okD(1) [OF s0(1)]] in_live_length [OF reader_okD(1) [OF s0(1)]] s0(2) size
      reader_okD(1) [OF s0(1)] by (auto elim: in_okD)
  have "in_ok (r_in ?p)" using reader_okD(1) [OF s0(1)] by simp
  from push_bytes_post [OF this assms(2)] obtain n b where
    n: "push_bytes data ?p = Inr (?p\<lparr>r_pushed := n, r_in := b\<rparr>)" "n = min (in_room (r_in ?p)) (length data)"
      "in_ok b" "in_live b = in_live (r_in ?p) @ take n data" by blast
  have "n = length data" unfolding n(2) room using assms(3) by simp
  with n s0(2) have b: "push_bytes data ?p = Inr (?p\<lparr>r_pushed := length data, r_in := b\<rparr>)" "in_ok b"
    "in_live b = data" by simp_all
  have "\<exists>r'. push_reading_control L w1 data ?p = Inr (dnswire_again, r', w1) \<and> r_pushed r' = length data"
    using assms(2,4) in_load_live [OF b(2)] s0(3)
    by (simp add: push_reading_control_def b push_decoding_control_def Let_def)
  then obtain r' where r': "dnswire_reader_push L w1 ?r (Some data) False None = Inr (dnswire_again, r', w1, [])"
    "r_pushed r' = length data"
    using s0(6) in_ok_buf [OF reader_okD(1) [OF s0(1)]] by (auto simp: dnswire_reader_push_def no_output_def)
  obtain k x xs where k: "fuel = Suc k" "data = x # xs" using assms(2,6) by (cases fuel; cases data) auto
  have "push_loop fuel L ntop w1 ?r p data = Inr (False, r', w1, p)"
    using r' by (simp add: k Let_def)
  then show ?thesis
    using assms(1,7) a by (simp add: client_main_def client_read_def print_def bye_def)
qed

lemma toy_client_address [simp]: "client_address (\<lambda>f h n. n) ''::1'' ''53'' = 53"
  by code_simp

text \<open>Here a whole conversation arrives at once and nothing of it is printed.\<close>

theorem client_first_portion_waits_witness:
  "client_main 9 toylib toy_ntop (\<lambda>f h n. n) (\<lambda>n. n = 53) [''p'', ''::1'', ''53''] [Bytes ([2, 23] @ toy_content @ [6, 3, 9, 1, 1, 3, 0]), Eof] toy_world toy_printer =
     Inr (None, toy_printer\<lparr>text_out := bye\<rparr>)"
proof -
  let ?data = "[2, 23] @ toy_content @ [6, 3, 9, 1, 1, 3, 0]"
  have len: "length ?data \<le> DNSWIRE_DEFAULT_BUF_SIZE" "?data \<noteq> []"
    by (simp_all add: toy_content_def DNSTAP_PROTOBUF_CONTENT_TYPE_def DNSWIRE_DEFAULT_BUF_SIZE_def)
  obtain d where d: "dnswire_decoder_decode toylib (DNSWIRE_DECODER_INITIALIZER toylib) ?data = Inr (dnswire_again, d)"
    by (simp add: dnswire_decoder_decode_def decode_reading_control_def DNSWIRE_DECODER_INITIALIZER_def
        toylib_def toy_read_def Toylib.toy_header_def)
  from client_first_portion_waits [OF toy_init len(2,1) d toylib_ok, of 9 "\<lambda>n. n = 53" "\<lambda>f h n. n" "''::1''" "''53''" toy_ntop "''p''" toy_printer]
  show ?thesis by (simp add: toy_printer_def)
qed

theorem client_receiver_prints_witness:
  "\<exists>p' added. client_main 99 toylib toy_ntop (\<lambda>f h n. n) (\<lambda>n. n = 53) [''p'', ''::1'', ''53''] [Bytes [2, 1], Bytes [0, 6], Eof] toy_world toy_printer =
     Inr (None, p') \<and> text_out p' = added \<and>
     client_shows toylib toy_ntop [Bytes [2, 1], Bytes [0, 6], Eof] toy_world added"
proof -
  let ?as = "[Bytes [2, 1], Bytes [0, 6], Eof]"
  have f: "3 * length (arrived ?as) + 1 < 99" by simp
  from client_receiver_prints [OF toylib_ok toylib_consumes toy_ntop_ok toy_printer_ok f,
      of "\<lambda>f h n. n" "\<lambda>n. n = 53" "[''p'', ''::1'', ''53'']" toy_world]
  obtain st p' where st: "client_main 99 toylib toy_ntop (\<lambda>f h n. n) (\<lambda>n. n = 53) [''p'', ''::1'', ''53''] ?as toy_world toy_printer = Inr (st, p')"
    "st = Some 1 \<or> st = None \<and> (\<exists>added. text_out p' = text_out toy_printer @ added \<and>
      client_shows toylib toy_ntop ?as toy_world added)" by blast
  have "st \<noteq> Some 1"
    using st(1) toy_init
    by (auto simp: client_main_def dnswire_reader_allow_bidirectional_def bindF_eq_Inr)
  with st show ?thesis by (auto simp: toy_printer_def)
qed

end
