(* ===== verification/Daemon_Sender.thy ===== *)
theory Daemon_Sender
  imports Create_Dnstap
begin

text \<open>
  \<open>examples/daemon_sender_uv.c\<close>: a server that sends a message to all connected clients every second.
  The clients are structs on the heap, linked by \<open>next\<close>; the loop of \<open>libuv\<close> is outside and calls the
  handlers below. What \<open>libuv\<close> keeps about a handle (it is reading, a write is in flight, it is being
  closed) is kept with the client. Progress messages are not modelled.
\<close>

section \<open>State\<close>

type_synonym addr = nat

datatype client_state = no_state | writing_start | started | writing_frame

text \<open>
  \<open>c_len\<close> is \<open>wbuf.len\<close>; \<open>wbuf.base\<close> always points to the buffer. \<open>c_flight\<close> is the length of a write
  \<open>libuv\<close> has not finished, \<open>c_sent\<close> what the peer got.
\<close>

record client =
  c_next :: "addr option"
  c_id :: nat
  c_state :: client_state
  c_len :: nat
  c_buf :: block
  c_reading :: bool
  c_flight :: "nat option"
  c_closing :: bool
  c_sent :: "byte list"

record daemon =
  heap :: "addr \<rightharpoonup> client"
  clients :: "addr option"
  client_id :: nat

definition BUF_SIZE :: nat where
  "BUF_SIZE = 4096"

definition daemon_start :: daemon where
  "daemon_start = \<lparr>heap = Map.empty, clients = None, client_id = 1\<rparr>"

definition get_client :: "addr \<Rightarrow> daemon \<Rightarrow> fault + client" where
  "get_client a d = (case heap d a of None \<Rightarrow> Inl Use_after_free | Some c \<Rightarrow> Inr c)"

definition put_client :: "addr \<Rightarrow> client \<Rightarrow> daemon \<Rightarrow> daemon" where
  "put_client a c d = d\<lparr>heap := (heap d)(a \<mapsto> c)\<rparr>"

definition change_client :: "addr \<Rightarrow> (client \<Rightarrow> client) \<Rightarrow> daemon \<Rightarrow> fault + daemon" where
  "change_client a f d = bindF (get_client a d) (\<lambda>c. Inr (put_client a (f c) d))"

section \<open>What libuv does\<close>

text \<open>
  What \<open>uv_close\<close> and \<open>uv_write\<close> do with a handle, which may be being closed: parameters of the model.
  Documented is that an open handle can be closed, that its writes then end with an error, and that a write
  can be started on an open one. What a second \<open>uv_close\<close> does is not documented: a fault, whichever it
  is, or nothing.
\<close>

record libuv =
  uv_closes :: "bool \<Rightarrow> fault + unit"
  uv_writes :: "bool \<Rightarrow> bool"

definition libuv_ok :: "libuv \<Rightarrow> bool" where
  "libuv_ok U \<longleftrightarrow> uv_closes U False = Inr () \<and> uv_writes U False \<and> \<not> uv_writes U True"

text \<open>A write request that is in use must not be used again.\<close>

definition uv_close :: "libuv \<Rightarrow> addr \<Rightarrow> daemon \<Rightarrow> fault + daemon" where
  "uv_close U a d = bindF (get_client a d) (\<lambda>c.
     bindF (uv_closes U (c_closing c)) (\<lambda>_. Inr (put_client a (c\<lparr>c_closing := True\<rparr>) d)))"

definition uv_write :: "libuv \<Rightarrow> addr \<Rightarrow> daemon \<Rightarrow> fault + daemon" where
  "uv_write U a d = bindF (get_client a d) (\<lambda>c.
     if uv_writes U (c_closing c)
     then bindF (assertF (c_flight c = None)) (\<lambda>_.
          Inr (put_client a (c\<lparr>c_flight := Some (c_len c)\<rparr>) d))
     else Inr d)"

text \<open>
  The end of a write: the bytes are taken from the buffer, all of them or, when the write failed or the
  handle is being closed, the first \<open>k\<close>.
\<close>

definition uv_written :: "addr \<Rightarrow> nat option \<Rightarrow> daemon \<Rightarrow> fault + daemon" where
  "uv_written a failed d = bindF (get_client a d) (\<lambda>c.
     case c_flight c of
       None \<Rightarrow> Inl Null_deref
     | Some n \<Rightarrow>
         bindF (mem_load (Some (c_buf c)) 0 (case failed of None \<Rightarrow> n | Some k \<Rightarrow> min k n)) (\<lambda>bs.
         Inr (put_client a (c\<lparr>c_flight := None, c_sent := c_sent c @ bs\<rparr>) d)))"

section \<open>The code\<close>

definition client_new :: "addr \<Rightarrow> daemon \<Rightarrow> daemon" where
  "client_new a d =
     d\<lparr>heap := (heap d)(a \<mapsto>
          \<lparr>c_next = clients d, c_id = client_id d, c_state = no_state, c_len = 0,
           c_buf = fresh_block BUF_SIZE, c_reading = False, c_flight = None, c_closing = False, c_sent = []\<rparr>),
       client_id := sz_add (client_id d) 1,
       clients := Some a\<rparr>"

text \<open>The search for the predecessor of \<open>c\<close>, whose \<open>next\<close> is \<open>nx\<close>.\<close>

fun unlink :: "nat \<Rightarrow> addr \<Rightarrow> addr option \<Rightarrow> addr option \<Rightarrow> daemon \<Rightarrow> fault + daemon" where
  "unlink fuel c nx None d = Inr d"
| "unlink 0 c nx (Some prev) d = Inl Out_of_fuel"
| "unlink (Suc fuel) c nx (Some prev) d =
     bindF (get_client prev d) (\<lambda>p.
     if c_next p = Some c then Inr (put_client prev (p\<lparr>c_next := nx\<rparr>) d)
     else unlink fuel c nx (c_next p) d)"

definition client_close :: "nat \<Rightarrow> addr \<Rightarrow> daemon \<Rightarrow> fault + daemon" where
  "client_close fuel a d =
     bindF (get_client a d) (\<lambda>c.
     bindF (if clients d = Some a then Inr (d\<lparr>clients := c_next c\<rparr>)
            else unlink fuel a (c_next c) (clients d) d) (\<lambda>d1.
     Inr (d1\<lparr>heap := (heap d1)(a := None)\<rparr>)))"

text \<open>\<open>nread < 0\<close> closes the connection; what arrives is discarded.\<close>

definition daemon_read :: "libuv \<Rightarrow> addr \<Rightarrow> bool \<Rightarrow> daemon \<Rightarrow> fault + daemon" where
  "daemon_read U a negative d = (if negative then uv_close U a d else Inr d)"

definition client_write :: "libuv \<Rightarrow> addr \<Rightarrow> bool \<Rightarrow> daemon \<Rightarrow> fault + daemon" where
  "client_write U a failed d =
     (if failed then uv_close U a d else change_client a (\<lambda>c. c\<lparr>c_state := started\<rparr>) d)"

definition fill_buffer :: "addr \<Rightarrow> byte list \<Rightarrow> daemon \<Rightarrow> fault + daemon" where
  "fill_buffer a bs d = bindF (get_client a d) (\<lambda>c.
     bindF (mem_store (Some (c_buf c)) 0 bs) (\<lambda>b. case b of
       None \<Rightarrow> Inl Null_deref
     | Some m \<Rightarrow> Inr (put_client a (c\<lparr>c_buf := m\<rparr>) d)))"

text \<open>Setting \<open>wbuf.len\<close>, starting the write, and the new state of the client.\<close>

definition send_buffer :: "libuv \<Rightarrow> addr \<Rightarrow> nat \<Rightarrow> client_state \<Rightarrow> daemon \<Rightarrow> fault + daemon" where
  "send_buffer U a n s d =
     bindF (change_client a (\<lambda>c. c\<lparr>c_len := n\<rparr>) d) (\<lambda>d1.
     bindF (uv_write U a d1) (\<lambda>d2.
     change_client a (\<lambda>c. c\<lparr>c_state := s\<rparr>) d2))"

text \<open>\<open>ok\<close>: \<open>status\<close> is not negative; \<open>room\<close>: what \<open>malloc\<close> returned; \<open>accepted\<close>: \<open>uv_accept\<close> returned 0.\<close>

definition on_new_connection :: "libuv \<Rightarrow> ('r, 'w) extlib \<Rightarrow> bool \<Rightarrow> addr option \<Rightarrow> bool \<Rightarrow> daemon \<Rightarrow> fault + daemon" where
  "on_new_connection U L ok room accepted d =
     (if \<not> ok then Inr d
      else case room of
        None \<Rightarrow> Inr d
      | Some a \<Rightarrow>
          let d1 = client_new a d in
          if accepted
          then bindF (change_client a (\<lambda>c. c\<lparr>c_reading := True\<rparr>) d1) (\<lambda>d2.
               case tf_write_control_start L (tf_writer_init L) BUF_SIZE DNSTAP_PROTOBUF_CONTENT_TYPE of
                 (res, wr, out) \<Rightarrow>
                   bindF (fill_buffer a out d2) (\<lambda>d3.
                   if res \<noteq> tinyframe_ok then uv_close U a d3
                   else send_buffer U a (tf_bytes_wrote L wr) writing_start d3))
          else uv_close U a d1)"

text \<open>
  The frame of a message: \<open>header\<close> is what \<open>tinyframe_set_header\<close> writes for a length.
\<close>

definition frame_of :: "('r, 'w) extlib \<Rightarrow> (nat \<Rightarrow> byte list) \<Rightarrow> dnstap \<Rightarrow> fault + byte list" where
  "frame_of L header m =
     bindF (dnstap_encode_protobuf_size L m) (\<lambda>frame_len.
     bindF (dnstap_encode_protobuf L m) (\<lambda>bs.
     bindF (mem_store (Some (fresh_block (length (header frame_len) + frame_len))) (length (header frame_len)) bs) (\<lambda>b.
     bindF (mem_store b 0 (header frame_len)) (\<lambda>b1.
     mem_load b1 0 (length (header frame_len) + frame_len)))))"

fun tick_loop :: "libuv \<Rightarrow> nat \<Rightarrow> byte list \<Rightarrow> addr option \<Rightarrow> daemon \<Rightarrow> fault + daemon" where
  "tick_loop U fuel frame None d = Inr d"
| "tick_loop U 0 frame (Some a) d = Inl Out_of_fuel"
| "tick_loop U (Suc fuel) frame (Some a) d =
     bindF (get_client a d) (\<lambda>c.
     bindF (if c_state c = started
            then bindF (fill_buffer a frame d) (send_buffer U a (length frame) writing_frame)
            else Inr d) (\<lambda>d1.
     bindF (get_client a d1) (\<lambda>c1. tick_loop U fuel frame (c_next c1) d1)))"

text \<open>What \<open>tick\<close> does with a message \<open>m\<close>. \<open>None\<close>: the program exits.\<close>

definition tick_message :: "libuv \<Rightarrow> nat \<Rightarrow> ('r, 'w) extlib \<Rightarrow> (nat \<Rightarrow> byte list) \<Rightarrow> dnstap \<Rightarrow> daemon \<Rightarrow> fault + daemon option" where
  "tick_message U fuel L header m d =
     bindF (frame_of L header m) (\<lambda>frame.
     if length frame > BUF_SIZE then Inr None
     else bindF (tick_loop U fuel frame (clients d) d) (\<lambda>d1. Inr (Some d1)))"

text \<open>\<open>tick\<close> as it is, with the message \<open>create_dnstap\<close> makes.\<close>

definition tick :: "libuv \<Rightarrow> nat \<Rightarrow> ('r, 'w) extlib \<Rightarrow> (nat \<Rightarrow> byte list) \<Rightarrow> inet_pton \<Rightarrow> string \<Rightarrow>
    timespec \<Rightarrow> timespec \<Rightarrow> daemon \<Rightarrow> fault + daemon option" where
  "tick U fuel L header pton version query_time response_time =
     tick_message U fuel L header
       (create_dnstap L pton version query_time response_time ''daemon_sender_uv'')"

section \<open>Runs\<close>

text \<open>
  The calls of \<open>libuv\<close>. A read is reported while the handle is reading and not being closed; the end of a
  write while one is in flight, and never as a success when the handle is being closed; the end of closing
  after all else. The event of the timer has the message that is sent.
\<close>

datatype uv_event =
    Connection bool "addr option" bool
  | Read addr bool
  | Written addr "nat option"
  | Closed addr
  | Tick dnstap

fun uv_may :: "uv_event \<Rightarrow> daemon \<Rightarrow> bool" where
  "uv_may (Connection ok room accepted) d \<longleftrightarrow> (case room of None \<Rightarrow> True | Some a \<Rightarrow> heap d a = None)"
| "uv_may (Read a negative) d \<longleftrightarrow>
     (case heap d a of None \<Rightarrow> False | Some c \<Rightarrow> c_reading c \<and> \<not> c_closing c)"
| "uv_may (Written a failed) d \<longleftrightarrow>
     (case heap d a of None \<Rightarrow> False | Some c \<Rightarrow> c_flight c \<noteq> None \<and> (c_closing c \<longrightarrow> failed \<noteq> None))"
| "uv_may (Closed a) d \<longleftrightarrow>
     (case heap d a of None \<Rightarrow> False | Some c \<Rightarrow> c_closing c \<and> c_flight c = None)"
| "uv_may (Tick m) d \<longleftrightarrow> True"

fun uv_handle :: "libuv \<Rightarrow> nat \<Rightarrow> ('r, 'w) extlib \<Rightarrow> (nat \<Rightarrow> byte list) \<Rightarrow> uv_event \<Rightarrow> daemon \<Rightarrow> fault + daemon option" where
  "uv_handle U fuel L header (Connection ok room accepted) d =
     bindF (on_new_connection U L ok room accepted d) (\<lambda>d1. Inr (Some d1))"
| "uv_handle U fuel L header (Read a negative) d = bindF (daemon_read U a negative d) (\<lambda>d1. Inr (Some d1))"
| "uv_handle U fuel L header (Written a failed) d =
     bindF (uv_written a failed d) (\<lambda>d1.
     bindF (client_write U a (failed \<noteq> None) d1) (\<lambda>d2. Inr (Some d2)))"
| "uv_handle U fuel L header (Closed a) d = bindF (client_close fuel a d) (\<lambda>d1. Inr (Some d1))"
| "uv_handle U fuel L header (Tick m) d = tick_message U fuel L header m d"

inductive daemon_run :: "libuv \<Rightarrow> nat \<Rightarrow> ('r, 'w) extlib \<Rightarrow> (nat \<Rightarrow> byte list) \<Rightarrow> uv_event list \<Rightarrow> daemon \<Rightarrow> bool"
  for U fuel L header where
  daemon_idle: "daemon_run U fuel L header [] daemon_start"
| daemon_event: "daemon_run U fuel L header evs d \<Longrightarrow> uv_may ev d \<Longrightarrow>
     uv_handle U fuel L header ev d = Inr (Some d') \<Longrightarrow> daemon_run U fuel L header (evs @ [ev]) d'"

end
