(* ===== verification/Daemon_Props.thy ===== *)
theory Daemon_Props
  imports Daemon_Sender Roundtrip "HOL-Library.Sublist"
begin

text \<open>
  What the server of \<open>examples/daemon_sender_uv.c\<close> guarantees in every run: its heap holds one linked
  list of exactly the connected clients, and every client gets the start of a stream and then whole
  frames, in order, that no later tick overwrites. And what it does not: the handle of a client that
  leaves while a message is on its way to it is closed twice.
\<close>

section \<open>The list on the heap\<close>

fun linked :: "(addr \<rightharpoonup> client) \<Rightarrow> addr option \<Rightarrow> addr list \<Rightarrow> bool" where
  "linked h p [] \<longleftrightarrow> p = None"
| "linked h p (a # as) \<longleftrightarrow> p = Some a \<and> (case h a of None \<Rightarrow> False | Some c \<Rightarrow> linked h (c_next c) as)"

definition clients_are :: "daemon \<Rightarrow> addr list \<Rightarrow> bool" where
  "clients_are d as \<longleftrightarrow> linked (heap d) (clients d) as \<and> distinct as \<and> dom (heap d) = set as"

text \<open>What an event makes of the list of clients.\<close>

fun list_step :: "uv_event \<Rightarrow> addr list \<Rightarrow> addr list" where
  "list_step (Connection True (Some a) accepted) as = a # as"
| "list_step (Closed a) as = remove1 a as"
| "list_step ev as = as"

definition connected :: "uv_event list \<Rightarrow> addr list" where
  "connected evs = fold list_step evs []"

lemma connected_snoc: "connected (evs @ [ev]) = list_step ev (connected evs)"
  by (simp add: connected_def)

lemma list_step_length: "length (list_step ev as) \<le> Suc (length as)"
  by (cases "(ev, as)" rule: list_step.cases) (auto simp: length_remove1)

lemma connected_length: "length (connected evs) \<le> length evs"
proof (induction evs rule: rev_induct)
  case (snoc ev evs)
  then show ?case
    using list_step_length [of ev "connected evs"] by (simp add: connected_snoc)
qed (simp add: connected_def)

text \<open>Two heaps with the same clients, but for what \<open>f\<close> forgets.\<close>

definition same_but :: "(client \<Rightarrow> 'a) \<Rightarrow> (addr \<rightharpoonup> client) \<Rightarrow> (addr \<rightharpoonup> client) \<Rightarrow> bool" where
  "same_but f h h' \<longleftrightarrow> (\<forall>a. map_option f (h a) = map_option f (h' a))"

lemma same_but_upd: "h a = Some c \<Longrightarrow> f c' = f c \<Longrightarrow> same_but f h (h(a \<mapsto> c'))"
  by (simp add: same_but_def)

lemma same_but_trans: "same_but f h h1 \<Longrightarrow> same_but f h1 h2 \<Longrightarrow> same_but f h h2"
  by (simp add: same_but_def)

lemma same_but_refl [simp]: "same_but f h h"
  by (simp add: same_but_def)

lemma same_butD: "same_but f h h' \<Longrightarrow> h' a = Some c' \<Longrightarrow> \<exists>c. h a = Some c \<and> f c = f c'"
  unfolding same_but_def by (drule spec [of _ a]) (auto simp: map_option_case split: option.splits)

lemma same_but_dom: "same_but f h h' \<Longrightarrow> dom h' = dom h"
  unfolding same_but_def dom_def by (metis (no_types, lifting) map_option_is_None)

lemma linked_same: "same_but c_next h h' \<Longrightarrow> linked h' p as = linked h p as"
proof (induction as arbitrary: p)
  case (Cons a as)
  then have "map_option c_next (h a) = map_option c_next (h' a)"
    by (simp add: same_but_def)
  with Cons show ?case
    by (cases "h a"; cases "h' a") auto
qed simp

lemma linked_other: "a \<notin> set as \<Longrightarrow> linked (h(a := x)) p as = linked h p as"
  by (induction as arbitrary: p) (auto split: option.splits)

lemma clients_are_same:
  "clients_are d as \<Longrightarrow> same_but c_next (heap d) (heap d') \<Longrightarrow> clients d' = clients d \<Longrightarrow> clients_are d' as"
  using same_but_dom [of c_next "heap d" "heap d'"] by (simp add: clients_are_def linked_same)

section \<open>The state of a client\<close>

text \<open>
  A client is given \<open>start\<close> and then some of the frames \<open>fs\<close>, in their order; it got them all but for
  what is in flight, which lies at the start of the buffer. Only a client that is being closed may have
  got less.
\<close>

definition on_way :: "client \<Rightarrow> byte list \<Rightarrow> bool" where
  "on_way c bs \<longleftrightarrow> (case c_flight c of
      None \<Rightarrow> bs = []
    | Some n \<Rightarrow> length bs = n \<and> n \<le> length (c_buf c) \<and> take n (c_buf c) = map Some bs)"

definition given :: "byte list \<Rightarrow> byte list list \<Rightarrow> client \<Rightarrow> byte list \<Rightarrow> bool" where
  "given start gs c bs \<longleftrightarrow> on_way c bs \<and>
     (if c_closing c \<and> c_flight c = None then prefix (c_sent c) (start @ concat gs)
      else c_sent c @ bs = start @ concat gs)"

definition client_inv :: "byte list \<Rightarrow> byte list list \<Rightarrow> client \<Rightarrow> bool" where
  "client_inv start fs c \<longleftrightarrow> length (c_buf c) = BUF_SIZE \<and>
     (c_state c = started \<longrightarrow> c_flight c = None) \<and>
     (\<exists>gs bs. subseq gs fs \<and> given start gs c bs)"

lemma client_invI:
  "length (c_buf c) = BUF_SIZE \<Longrightarrow> (c_state c = started \<Longrightarrow> c_flight c = None) \<Longrightarrow>
   subseq gs fs \<Longrightarrow> given start gs c bs \<Longrightarrow> client_inv start fs c"
  unfolding client_inv_def by blast

lemma client_invE:
  assumes "client_inv start fs c"
  obtains gs bs where "length (c_buf c) = BUF_SIZE" and "c_state c = started \<Longrightarrow> c_flight c = None"
    and "subseq gs fs" and "given start gs c bs"
  using assms unfolding client_inv_def by blast

lemma client_inv_more:
  assumes "client_inv start fs c"
  shows "client_inv start (fs @ fs') c"
  using assms
proof (rule client_invE)
  fix gs bs
  assume c: "length (c_buf c) = BUF_SIZE" "c_state c = started \<Longrightarrow> c_flight c = None"
    "subseq gs fs" "given start gs c bs"
  have "subseq gs (fs @ fs')"
    using c(3) by (rule list_emb_prefix)
  with c show ?thesis by (blast intro: client_invI)
qed

lemma client_inv_next [simp]: "client_inv start fs (c\<lparr>c_next := p\<rparr>) = client_inv start fs c"
  by (cases "c_flight c") (simp_all add: client_inv_def given_def on_way_def)

section \<open>Every handler keeps it\<close>

lemma get_client_simp [simp]: "heap d a = Some c \<Longrightarrow> get_client a d = Inr c"
  by (simp add: get_client_def)

lemma put_client_simps [simp]:
  "heap (put_client a c d) = (heap d)(a \<mapsto> c)"
  "clients (put_client a c d) = clients d"
  "put_client a c' (put_client a c d) = put_client a c' d"
  by (simp_all add: put_client_def)

lemma fill_buffer_eq:
  assumes "heap d a = Some c" and "length bs \<le> length (c_buf c)"
  shows "fill_buffer a bs d =
    Inr (put_client a (c\<lparr>c_buf := map Some bs @ drop (length bs) (c_buf c)\<rparr>) d)"
  using assms by (simp add: fill_buffer_def mem_store_def)

lemma uv_close_eq:
  assumes "libuv_ok U"
  shows "uv_close U a d = bindF (get_client a d) (\<lambda>c.
    bindF (if c_closing c then uv_closes U True else Inr ())
      (\<lambda>_. Inr (put_client a (c\<lparr>c_closing := True\<rparr>) d)))"
proof (cases "heap d a")
  case (Some c)
  with assms show ?thesis
    by (cases "c_closing c") (simp_all add: uv_close_def get_client_def libuv_ok_def)
qed (simp add: uv_close_def get_client_def)

lemma send_buffer_eq:
  assumes U: "libuv_ok U" and "heap d a = Some c" and "c_closing c \<or> c_flight c = None"
  shows "send_buffer U a n s d = Inr (put_client a
    (c\<lparr>c_len := n, c_flight := if c_closing c then c_flight c else Some n, c_state := s\<rparr>) d)"
  using assms by (auto simp: send_buffer_def change_client_def uv_write_def libuv_ok_def)

definition tick_client :: "byte list \<Rightarrow> client \<Rightarrow> client" where
  "tick_client frame c =
     (if c_state c = started
      then c\<lparr>c_buf := map Some frame @ drop (length frame) (c_buf c), c_len := length frame,
             c_flight := if c_closing c then c_flight c else Some (length frame), c_state := writing_frame\<rparr>
      else c)"

lemma tick_client_inv:
  assumes "client_inv start fs c" and "length frame \<le> BUF_SIZE"
  shows "client_inv start (fs @ [frame]) (tick_client frame c)"
proof (cases "c_state c = started")
  case True
  from assms(1) show ?thesis
  proof (rule client_invE)
    fix gs bs
    assume c: "length (c_buf c) = BUF_SIZE" "c_state c = started \<Longrightarrow> c_flight c = None"
      "subseq gs fs" "given start gs c bs"
    have s: "subseq (gs @ [frame]) (fs @ [frame])"
      using c(3) by simp
    have g: "given start (if c_closing c then gs else gs @ [frame]) (tick_client frame c)
        (if c_closing c then [] else frame)"
      using c True assms(2) by (auto simp: given_def on_way_def tick_client_def)
    show ?thesis
      by (rule client_invI [OF _ _ _ g])
        (use c s True assms(2) in \<open>auto simp: tick_client_def intro: list_emb_prefix\<close>)
  qed
next
  case False
  then show ?thesis
    using client_inv_more [OF assms(1)] by (simp add: tick_client_def)
qed

lemma tick_client_next [simp]: "c_next (tick_client frame c) = c_next c"
  by (simp add: tick_client_def)

lemma tick_loop_runs:
  assumes U: "libuv_ok U" and "linked (heap d) p as" and "distinct as" and "length as \<le> fuel"
    and "\<forall>a\<in>set as. \<forall>c. heap d a = Some c \<longrightarrow> client_inv start fs c" and "length frame \<le> BUF_SIZE"
  shows "\<exists>d'. tick_loop U fuel frame p d = Inr d' \<and> clients d' = clients d \<and>
    (\<forall>a. heap d' a = (if a \<in> set as then map_option (tick_client frame) (heap d a) else heap d a))"
  using assms(2-)
proof (induction as arbitrary: p d fuel)
  case Nil
  then show ?case by simp
next
  case (Cons a as)
  then obtain c k where p: "p = Some a" and c: "heap d a = Some c" and l: "linked (heap d) (c_next c) as"
    and k: "fuel = Suc k"
    by (cases fuel) (auto split: option.splits)
  have inv: "client_inv start fs c"
    using Cons.prems(4) c by simp
  define d1 where "d1 = put_client a (tick_client frame c) d"
  have one: "(if c_state c = started
      then bindF (fill_buffer a frame d) (send_buffer U a (length frame) writing_frame) else Inr d) = Inr d1"
    using inv c Cons.prems(5)
    by (auto simp: fill_buffer_eq send_buffer_eq [OF U] client_inv_def d1_def tick_client_def put_client_def
        fun_upd_idem)
  have "\<exists>d'. tick_loop U k frame (c_next c) d1 = Inr d' \<and> clients d' = clients d1 \<and>
      (\<forall>x. heap d' x = (if x \<in> set as then map_option (tick_client frame) (heap d1 x) else heap d1 x))"
  proof (rule Cons.IH)
    show "linked (heap d1) (c_next c) as"
      using l Cons.prems(2) by (simp add: d1_def linked_other)
    show "\<forall>x\<in>set as. \<forall>c. heap d1 x = Some c \<longrightarrow> client_inv start fs c"
      using Cons.prems(2,4) by (auto simp: d1_def)
  qed (use Cons.prems k in auto)
  then obtain d' where d': "tick_loop U k frame (c_next c) d1 = Inr d'" "clients d' = clients d1"
    "\<forall>x. heap d' x = (if x \<in> set as then map_option (tick_client frame) (heap d1 x) else heap d1 x)"
    by blast
  have "tick_loop U fuel frame p d = Inr d'"
    unfolding p k using c one d'(1) by (simp add: d1_def)
  with d' c Cons.prems(2) show ?case
    by (auto simp: d1_def)
qed

lemma tick_loop_inv:
  assumes U: "libuv_ok U" and d: "clients_are d as" and "length as \<le> fuel"
    and inv: "\<forall>c\<in>ran (heap d). client_inv start fs c" and f: "length frame \<le> BUF_SIZE"
  shows "\<exists>d'. tick_loop U fuel frame (clients d) d = Inr d' \<and> clients_are d' as \<and>
    (\<forall>c\<in>ran (heap d'). client_inv start (fs @ [frame]) c)"
proof -
  have l: "linked (heap d) (clients d) as" "distinct as" "dom (heap d) = set as"
    using d by (simp_all add: clients_are_def)
  from tick_loop_runs [OF U l(1,2) assms(3) _ f, of start fs]
  obtain d' where d': "tick_loop U fuel frame (clients d) d = Inr d'" "clients d' = clients d"
    "\<forall>a. heap d' a = (if a \<in> set as then map_option (tick_client frame) (heap d a) else heap d a)"
    using inv by (auto simp: ran_def)
  have h: "heap d' a = map_option (tick_client frame) (heap d a)" for a
    using d'(3) l(3) by (cases "heap d a") (auto simp: dom_def)
  have "same_but c_next (heap d) (heap d')"
    by (simp add: same_but_def h option.map_comp comp_def)
  then have "clients_are d' as"
    using clients_are_same [OF d] d'(2) by simp
  moreover have "\<forall>c\<in>ran (heap d'). client_inv start (fs @ [frame]) c"
    using inv tick_client_inv [OF _ f] by (auto simp: ran_def h)
  ultimately show ?thesis
    using d'(1) by blast
qed

lemma unlink_runs:
  assumes "linked (heap d) p as" and "distinct as" and "length as \<le> fuel"
    and "p \<noteq> Some a" and "heap d a = Some c"
  shows "\<exists>d'. unlink fuel a (c_next c) p d = Inr d' \<and> clients d' = clients d \<and>
    linked (heap d') p (remove1 a as) \<and> same_but (\<lambda>c. c\<lparr>c_next := None\<rparr>) (heap d) (heap d') \<and>
    (\<forall>x. x \<notin> set as \<longrightarrow> heap d' x = heap d x)"
  using assms
proof (induction as arbitrary: p fuel)
  case Nil
  then show ?case by simp
next
  case (Cons b as)
  then obtain q k where p: "p = Some b" and q: "heap d b = Some q" and l: "linked (heap d) (c_next q) as"
    and k: "fuel = Suc k" and ba: "b \<noteq> a"
    by (cases fuel) (auto split: option.splits)
  show ?case
  proof (cases "c_next q = Some a")
    case True
    then obtain as' where as: "as = a # as'" "linked (heap d) (c_next c) as'"
      using l Cons.prems(5) by (cases as) auto
    define d' where "d' = put_client b (q\<lparr>c_next := c_next c\<rparr>) d"
    have "linked (heap d') p (remove1 a (b # as))"
      using as Cons.prems(2) ba by (simp add: p d'_def linked_other)
    moreover have "same_but (\<lambda>c. c\<lparr>c_next := None\<rparr>) (heap d) (heap d')"
      using q by (simp add: same_but_def d'_def)
    moreover have "unlink fuel a (c_next c) p d = Inr d'"
      using True q by (simp add: p k d'_def)
    ultimately show ?thesis
      using p by (auto simp: d'_def)
  next
    case False
    with Cons.IH [OF l, of k] Cons.prems k obtain d' where d':
      "unlink k a (c_next c) (c_next q) d = Inr d'" "clients d' = clients d"
      "linked (heap d') (c_next q) (remove1 a as)"
      "same_but (\<lambda>c. c\<lparr>c_next := None\<rparr>) (heap d) (heap d')"
      "\<forall>x. x \<notin> set as \<longrightarrow> heap d' x = heap d x"
      by auto
    have "heap d' b = Some q"
      using d'(5) q Cons.prems(2) by simp
    then show ?thesis
      using d' q ba False by (auto simp: p k)
  qed
qed

lemma client_close_runs:
  assumes d: "clients_are d as" and "length as \<le> fuel" and c: "heap d a = Some c"
  shows "\<exists>d'. client_close fuel a d = Inr d' \<and> clients_are d' (remove1 a as) \<and>
    (\<forall>c'\<in>ran (heap d'). \<exists>c\<in>ran (heap d). c'\<lparr>c_next := None\<rparr> = c\<lparr>c_next := None\<rparr>)"
proof -
  have l: "linked (heap d) (clients d) as" "distinct as" "dom (heap d) = set as"
    using d by (simp_all add: clients_are_def)
  have "\<exists>d1. (if clients d = Some a then Inr (d\<lparr>clients := c_next c\<rparr>)
        else unlink fuel a (c_next c) (clients d) d) = Inr d1 \<and>
      linked (heap d1) (clients d1) (remove1 a as) \<and> same_but (\<lambda>c. c\<lparr>c_next := None\<rparr>) (heap d) (heap d1)"
  proof (cases "clients d = Some a")
    case True
    then have "linked (heap d) (c_next c) (remove1 a as)"
      using l(1) c by (cases as) auto
    with True show ?thesis by simp
  next
    case False
    from unlink_runs [OF l(1,2) assms(2) False c] False show ?thesis
      by auto
  qed
  then obtain d1 where d1: "(if clients d = Some a then Inr (d\<lparr>clients := c_next c\<rparr>)
        else unlink fuel a (c_next c) (clients d) d) = Inr d1"
      "linked (heap d1) (clients d1) (remove1 a as)"
      "same_but (\<lambda>c. c\<lparr>c_next := None\<rparr>) (heap d) (heap d1)"
    by blast
  define d' where "d' = d1\<lparr>heap := (heap d1)(a := None)\<rparr>"
  have "linked (heap d') (clients d') (remove1 a as)"
    using d1(2) l(2) by (simp add: d'_def linked_other)
  moreover have "dom (heap d') = set (remove1 a as)"
    using same_but_dom [OF d1(3)] l(2,3) by (simp add: d'_def)
  ultimately have "clients_are d' (remove1 a as)"
    using l(2) by (simp add: clients_are_def)
  moreover have "\<forall>c'\<in>ran (heap d'). \<exists>c\<in>ran (heap d). c'\<lparr>c_next := None\<rparr> = c\<lparr>c_next := None\<rparr>"
  proof
    fix c'
    assume "c' \<in> ran (heap d')"
    then obtain x where "heap d1 x = Some c'"
      by (auto simp: ran_def d'_def split: if_splits)
    from same_butD [OF d1(3) this]
    show "\<exists>c\<in>ran (heap d). c'\<lparr>c_next := None\<rparr> = c\<lparr>c_next := None\<rparr>"
      by (metis ranI)
  qed
  moreover have "client_close fuel a d = Inr d'"
    using c d1(1) by (simp add: client_close_def d'_def)
  ultimately show ?thesis
    by blast
qed

lemma client_inv_close:
  assumes "client_inv start fs c"
  shows "client_inv start fs (c\<lparr>c_closing := True\<rparr>)"
  using assms
proof (rule client_invE)
  fix gs bs
  assume c: "length (c_buf c) = BUF_SIZE" "c_state c = started \<Longrightarrow> c_flight c = None"
    "subseq gs fs" "given start gs c bs"
  have "given start gs (c\<lparr>c_closing := True\<rparr>) bs"
    using c(4) by (cases "c_flight c"; cases "c_closing c") (auto simp: given_def on_way_def)
  then show ?thesis
    by (rule client_invI [OF _ _ c(3), rotated 2]) (use c in auto)
qed

lemma client_inv_taken:
  assumes "client_inv start fs c" and "c_flight c = Some n" and "k \<le> n"
    and "c_closing c' \<or> k = n \<and> \<not> c_closing c" and "c_closing c' = c_closing c"
    and "c_buf c' = c_buf c" and "c_flight c' = None"
    and "map Some bs' = take k (c_buf c)" and "c_sent c' = c_sent c @ bs'"
  shows "client_inv start fs c'"
  using assms(1)
proof (rule client_invE)
  fix gs bs
  assume c: "length (c_buf c) = BUF_SIZE" "c_state c = started \<Longrightarrow> c_flight c = None"
    "subseq gs fs" "given start gs c bs"
  have bs: "length bs = n" "take n (c_buf c) = map Some bs" "c_sent c @ bs = start @ concat gs"
    using c(4) assms(2) by (auto simp: given_def on_way_def)
  have "map Some bs' = map Some (take k bs)"
    using assms(3,8) arg_cong [OF bs(2), of "take k"] by (simp add: take_map min_def)
  then have "bs' = take k bs"
    by (simp add: inj_map_eq_map inj_def)
  then have "given start gs c' []"
    using assms bs by (auto simp: given_def on_way_def take_is_prefix simp flip: bs(3))
  then show ?thesis
    by (rule client_invI [OF _ _ c(3), rotated 2]) (use c assms in auto)
qed

section \<open>Runs\<close>

definition start_bytes :: "('r, 'w) extlib \<Rightarrow> byte list" where
  "start_bytes L = (case tf_write_control_start L (tf_writer_init L) BUF_SIZE DNSTAP_PROTOBUF_CONTENT_TYPE of
     (res, wr, out) \<Rightarrow> out)"

text \<open>The frames of the messages that were ticked.\<close>

fun ticked :: "('r, 'w) extlib \<Rightarrow> (nat \<Rightarrow> byte list) \<Rightarrow> uv_event list \<Rightarrow> byte list list" where
  "ticked L header [] = []"
| "ticked L header (Tick m # evs) =
     (case frame_of L header m of Inl e \<Rightarrow> [] | Inr f \<Rightarrow> [f]) @ ticked L header evs"
| "ticked L header (ev # evs) = ticked L header evs"

lemma ticked_append: "ticked L header (evs @ evs') = ticked L header evs @ ticked L header evs'"
  by (induction L header evs rule: ticked.induct) auto

lemma frame_of_eq:
  assumes "extlib_ok L" and "wire_of m = Inr t"
  shows "frame_of L header m = Inr (header (pb_packed_size L t) @ pb_pack L t)"
  using assms protobuf_length [of L t]
  by (simp add: frame_of_def dnstap_encode_protobuf_size_def dnstap_encode_protobuf_def mem_store_def
      mem_load_def fresh_block_def flip: map_append)

definition daemon_inv :: "('r, 'w) extlib \<Rightarrow> (nat \<Rightarrow> byte list) \<Rightarrow> uv_event list \<Rightarrow> daemon \<Rightarrow> bool" where
  "daemon_inv L header evs d \<longleftrightarrow> clients_are d (connected evs) \<and>
     (\<forall>c\<in>ran (heap d). client_inv (start_bytes L) (ticked L header evs) c)"

lemma daemon_invD:
  assumes "daemon_inv L header evs d" and "heap d a = Some c"
  shows "client_inv (start_bytes L) (ticked L header evs) c"
  using assms by (auto simp: daemon_inv_def intro: ranI)

lemma daemon_inv_put:
  assumes "daemon_inv L header evs d" and "list_step ev (connected evs) = connected evs"
    and "heap d a = Some c" and "c_next c' = c_next c"
    and "client_inv (start_bytes L) (ticked L header evs) c'"
  shows "daemon_inv L header (evs @ [ev]) (put_client a c' d)"
proof -
  have "clients_are (put_client a c' d) (connected evs)"
    by (rule clients_are_same [where d = d])
      (use assms in \<open>auto simp: daemon_inv_def same_but_def\<close>)
  moreover have "\<forall>c\<in>ran (heap (put_client a c' d)). client_inv (start_bytes L) (ticked L header evs) c"
    using assms(1,5) by (auto simp: daemon_inv_def ran_def)
  ultimately show ?thesis
    using assms(2) client_inv_more by (auto simp: daemon_inv_def connected_snoc ticked_append)
qed

lemma daemon_inv_same:
  assumes "daemon_inv L header evs d" and "list_step ev (connected evs) = connected evs"
  shows "daemon_inv L header (evs @ [ev]) d"
  using assms client_inv_more by (auto simp: daemon_inv_def connected_snoc ticked_append)

lemma connection_keeps:
  assumes U: "libuv_ok U" and L: "extlib_ok L" and d: "daemon_inv L header evs d"
    and may: "uv_may (Connection ok room accepted) d"
  shows "\<exists>d'. on_new_connection U L ok room accepted d = Inr d' \<and>
    daemon_inv L header (evs @ [Connection ok room accepted]) d'"
proof (cases "ok \<and> room \<noteq> None")
  case False
  then show ?thesis
    using d by (cases ok; cases accepted; cases room)
      (auto simp: on_new_connection_def daemon_inv_same)
next
  case True
  then obtain a where room: "room = Some a" and a: "heap d a = None"
    using may by auto
  obtain res wr out where st:
    "tf_write_control_start L (tf_writer_init L) BUF_SIZE DNSTAP_PROTOBUF_CONTENT_TYPE = (res, wr, out)"
    by (metis prod_cases3)
  have out: "length out \<le> BUF_SIZE" "res = tinyframe_ok \<Longrightarrow> tf_bytes_wrote L wr = length out"
    using write_resultD(2) [OF L, of BUF_SIZE "tf_writer_init L" DNSTAP_PROTOBUF_CONTENT_TYPE]
    by (simp_all add: st write_result_ok_def)
  define c where "c = \<lparr>c_next = clients d, c_id = client_id d, c_state = no_state, c_len = 0,
    c_buf = fresh_block BUF_SIZE, c_reading = False, c_flight = None, c_closing = False, c_sent = []\<rparr>"
  define c1 where "c1 = c\<lparr>c_reading := True, c_buf := map Some out @ drop (length out) (c_buf c)\<rparr>"
  define c' where "c' = (if \<not> accepted then c\<lparr>c_closing := True\<rparr>
     else if res \<noteq> tinyframe_ok then c1\<lparr>c_closing := True\<rparr>
     else c1\<lparr>c_len := length out, c_flight := Some (length out), c_state := writing_start\<rparr>)"
  have new: "client_new a d = d\<lparr>heap := (heap d)(a \<mapsto> c), client_id := sz_add (client_id d) 1,
      clients := Some a\<rparr>"
    by (simp add: client_new_def c_def)
  have fill: "fill_buffer a out (put_client a (c\<lparr>c_reading := True\<rparr>) (client_new a d)) =
      Inr (put_client a c1 (client_new a d))"
    using out by (subst fill_buffer_eq) (auto simp: c1_def c_def)
  have send: "send_buffer U a (length out) writing_start (put_client a c1 (client_new a d)) = Inr (put_client a
      (c1\<lparr>c_len := length out, c_flight := Some (length out), c_state := writing_start\<rparr>) (client_new a d))"
    by (subst send_buffer_eq [OF U, where c = c1]) (auto simp: c1_def c_def)
  have c: "heap (client_new a d) a = Some c" "\<not> c_closing c" "\<not> c_closing c1"
    by (simp_all add: new) (simp_all add: c1_def c_def)
  have run: "on_new_connection U L ok room accepted d = Inr (put_client a c' (client_new a d))"
    using True out c
    by (auto simp: on_new_connection_def room c'_def change_client_def fill send uv_close_eq [OF U] st)
  have l: "linked (heap d) (clients d) (connected evs)" "distinct (connected evs)"
      "dom (heap d) = set (connected evs)"
    using d by (simp_all add: daemon_inv_def clients_are_def)
  have "a \<notin> set (connected evs)"
    using l(3) a by auto
  then have "clients_are (put_client a c' (client_new a d)) (a # connected evs)"
    using l by (simp add: clients_are_def new linked_other c'_def c1_def c_def)
  moreover have "given (start_bytes L) [] c' (if c_closing c' then [] else out)"
    by (auto simp: given_def on_way_def c'_def c1_def c_def start_bytes_def st out)
  then have "client_inv (start_bytes L) (ticked L header evs) c'"
    by (rule client_invI [rotated 3]) (auto simp: c'_def c1_def c_def out)
  ultimately show ?thesis
    using d True a unfolding run
    by (auto simp: daemon_inv_def connected_snoc ticked_append room new ran_def intro: client_inv_more)
qed

lemma read_keeps:
  assumes U: "libuv_ok U" and d: "daemon_inv L header evs d" and may: "uv_may (Read a negative) d"
  shows "\<exists>d'. daemon_read U a negative d = Inr d' \<and> daemon_inv L header (evs @ [Read a negative]) d'"
proof -
  obtain c where c: "heap d a = Some c" "\<not> c_closing c"
    using may by (auto split: option.splits)
  have "daemon_inv L header (evs @ [Read a negative]) (put_client a (c\<lparr>c_closing := True\<rparr>) d)"
    by (rule daemon_inv_put [OF d _ c(1)]) (simp_all add: client_inv_close [OF daemon_invD [OF d c(1)]])
  then show ?thesis
    using c daemon_inv_same [OF d] by (cases negative) (auto simp: daemon_read_def uv_close_eq [OF U])
qed

text \<open>A write that ended: on a handle that is being closed, \<open>uv_close\<close> is called a second time.\<close>

lemma uv_written_eq:
  assumes inv: "client_inv start fs c" and h: "heap d a = Some c" and n: "c_flight c = Some n"
  shows "\<exists>bs. map Some bs = take (case failed of None \<Rightarrow> n | Some k \<Rightarrow> min k n) (c_buf c) \<and>
    uv_written a failed d = Inr (put_client a (c\<lparr>c_flight := None, c_sent := c_sent c @ bs\<rparr>) d)"
  using inv
proof (rule client_invE)
  fix gs bs
  assume g: "given start gs c bs"
  define k where "k = (case failed of None \<Rightarrow> n | Some k \<Rightarrow> min k n)"
  have b: "take n (c_buf c) = map Some bs" "n \<le> length (c_buf c)" "k \<le> n"
    using g n by (auto simp: given_def on_way_def k_def split: option.splits)
  have "map Some (take k bs) = take k (c_buf c)"
    using arg_cong [OF b(1), of "take k"] b(3) by (simp add: take_map min_def)
  moreover from this have "mem_load (Some (c_buf c)) 0 k = Inr (take k bs)"
    using b(2,3) by (simp add: mem_load_eq_Inr)
  ultimately show ?thesis
    using h n by (auto simp: uv_written_def k_def)
qed

lemma written_keeps:
  assumes U: "libuv_ok U" and d: "daemon_inv L header evs d" and h: "heap d a = Some c"
    and may: "uv_may (Written a failed) d" and alive: "\<not> c_closing c"
  shows "\<exists>d'. uv_handle U fuel L header (Written a failed) d = Inr (Some d') \<and>
    daemon_inv L header (evs @ [Written a failed]) d'"
proof -
  note inv = daemon_invD [OF d h]
  obtain n where n: "c_flight c = Some n"
    using may h by auto
  from uv_written_eq [OF inv h n, of failed] obtain bs where
    bs: "map Some bs = take (case failed of None \<Rightarrow> n | Some k \<Rightarrow> min k n) (c_buf c)"
      "uv_written a failed d = Inr (put_client a (c\<lparr>c_flight := None, c_sent := c_sent c @ bs\<rparr>) d)"
    by blast
  define c1 where "c1 = c\<lparr>c_flight := None, c_sent := c_sent c @ bs\<rparr>"
  define c' where
    "c' = (if failed = None then c1\<lparr>c_state := started\<rparr> else c1\<lparr>c_closing := True\<rparr>)"
  have inv': "client_inv (start_bytes L) (ticked L header evs) c'"
  proof (cases failed)
    case None
    show ?thesis
      by (rule client_inv_taken [OF inv n, of n _ bs]) (use None bs alive in \<open>simp_all add: c'_def c1_def\<close>)
  next
    case (Some k)
    have "client_inv (start_bytes L) (ticked L header evs) c'"
      by (rule client_inv_taken [OF client_inv_close [OF inv], of n "min k n" _ bs])
        (use Some bs n in \<open>simp_all add: c'_def c1_def\<close>)
    then show ?thesis .
  qed
  have "uv_handle U fuel L header (Written a failed) d = Inr (Some (put_client a c' d))"
    using bs(2) alive h
    by (cases failed) (simp_all add: client_write_def uv_close_eq [OF U] change_client_def c'_def c1_def)
  with daemon_inv_put [OF d _ h _ inv', of "Written a failed"] show ?thesis
    by (simp add: c'_def c1_def)
qed

lemma written_closing:
  assumes U: "libuv_ok U" and d: "daemon_inv L header evs d" and h: "heap d a = Some c" and "c_closing c"
    and may: "uv_may (Written a failed) d"
  shows "\<exists>k d1 c1. failed = Some k \<and> heap d1 a = Some c1 \<and> c_closing c1 \<and>
    uv_handle U fuel L header (Written a failed) d = bindF (uv_close U a d1) (\<lambda>d2. Inr (Some d2)) \<and>
    uv_handle U fuel L header (Written a failed) d = bindF (uv_closes U True) (\<lambda>_. Inr (Some d1)) \<and>
    daemon_inv L header (evs @ [Written a failed]) d1"
proof -
  note inv = daemon_invD [OF d h]
  obtain n k where n: "c_flight c = Some n" and f: "failed = Some k"
    using may h assms(4) by auto
  from uv_written_eq [OF inv h n, of failed] f obtain bs where
    bs: "map Some bs = take (min k n) (c_buf c)"
      "uv_written a failed d = Inr (put_client a (c\<lparr>c_flight := None, c_sent := c_sent c @ bs\<rparr>) d)"
    by auto
  define c1 where "c1 = c\<lparr>c_flight := None, c_sent := c_sent c @ bs\<rparr>"
  let ?d1 = "put_client a c1 d"
  have c1: "heap ?d1 a = Some c1" "c_closing c1" "c1\<lparr>c_closing := True\<rparr> = c1" "put_client a c1 ?d1 = ?d1"
    using assms(4) by (simp_all add: c1_def put_client_def)
  have run: "uv_handle U fuel L header (Written a failed) d = bindF (uv_close U a ?d1) (\<lambda>d2. Inr (Some d2))"
    using f bs(2) by (simp add: client_write_def c1_def)
  have "uv_close U a ?d1 = bindF (uv_closes U True) (\<lambda>_. Inr ?d1)"
    using c1(1,2) by (simp add: uv_close_eq [OF U] c1(3) put_client_def)
  with run have "uv_handle U fuel L header (Written a failed) d = bindF (uv_closes U True) (\<lambda>_. Inr (Some ?d1))"
    by (cases "uv_closes U True") simp_all
  moreover have "client_inv (start_bytes L) (ticked L header evs) c1"
    by (rule client_inv_taken [OF inv n, of "min k n" _ bs]) (use bs assms(4) in \<open>simp_all add: c1_def\<close>)
  then have "daemon_inv L header (evs @ [Written a failed]) ?d1"
    by (intro daemon_inv_put [OF d _ h]) (simp_all add: c1_def)
  ultimately show ?thesis
    using f c1(1,2) run by blast
qed

lemma closed_keeps:
  assumes d: "daemon_inv L header evs d" and may: "uv_may (Closed a) d" and "length evs \<le> fuel"
  shows "\<exists>d'. client_close fuel a d = Inr d' \<and> daemon_inv L header (evs @ [Closed a]) d'"
proof -
  obtain c where c: "heap d a = Some c"
    using may by (auto split: option.splits)
  have l: "clients_are d (connected evs)" "length (connected evs) \<le> fuel"
    using d connected_length [of evs] assms(3) by (auto simp: daemon_inv_def)
  from client_close_runs [OF l c] obtain d' where d':
    "client_close fuel a d = Inr d'" "clients_are d' (remove1 a (connected evs))"
    "\<forall>c'\<in>ran (heap d'). \<exists>c\<in>ran (heap d). c'\<lparr>c_next := None\<rparr> = c\<lparr>c_next := None\<rparr>"
    by blast
  have "\<forall>c\<in>ran (heap d'). client_inv (start_bytes L) (ticked L header evs) c"
    using d d'(3) unfolding daemon_inv_def by (metis client_inv_next)
  with d' show ?thesis
    by (auto simp: daemon_inv_def connected_snoc ticked_append)
qed

lemma tick_keeps:
  assumes U: "libuv_ok U" and L: "extlib_ok L" and d: "daemon_inv L header evs d" and m: "encodable m"
    and fuel: "length evs \<le> fuel" and f: "frame_of L header m = Inr f"
  shows "if BUF_SIZE < length f then tick_message U fuel L header m d = Inr None
    else \<exists>d'. tick_message U fuel L header m d = Inr (Some d') \<and> daemon_inv L header (evs @ [Tick m]) d'"
proof (cases "BUF_SIZE < length f")
  case False
  then have le: "length f \<le> BUF_SIZE" by simp
  have l: "clients_are d (connected evs)" "length (connected evs) \<le> fuel"
    "\<forall>c\<in>ran (heap d). client_inv (start_bytes L) (ticked L header evs) c"
    using d connected_length [of evs] fuel by (auto simp: daemon_inv_def)
  from tick_loop_inv [OF U l le] show ?thesis
    using False f by (auto simp: tick_message_def daemon_inv_def connected_snoc ticked_append)
qed (simp add: tick_message_def f)

fun event_ok :: "uv_event \<Rightarrow> bool" where
  "event_ok (Tick m) = encodable m"
| "event_ok ev = True"

lemma handle_keeps:
  assumes U: "libuv_ok U" and L: "extlib_ok L" and d: "daemon_inv L header evs d" and ok: "event_ok ev"
    and may: "uv_may ev d" and fuel: "length evs \<le> fuel"
  shows "case uv_handle U fuel L header ev d of
      Inr (Some d') \<Rightarrow> daemon_inv L header (evs @ [ev]) d'
    | Inr None \<Rightarrow> \<exists>m f. ev = Tick m \<and> frame_of L header m = Inr f \<and> BUF_SIZE < length f
    | Inl e \<Rightarrow> uv_closes U True = Inl e \<and>
        (\<exists>a k c. ev = Written a (Some k) \<and> heap d a = Some c \<and> c_closing c)"
proof (cases ev)
  case (Connection ok room accepted)
  with connection_keeps [OF U L d] may show ?thesis by fastforce
next
  case (Read a negative)
  with read_keeps [OF U d] may show ?thesis by fastforce
next
  case (Written a failed)
  then obtain c where h: "heap d a = Some c"
    using may by (auto split: option.splits)
  show ?thesis
  proof (cases "c_closing c")
    case True
    from written_closing [OF U d h this, of failed fuel] may obtain k d1 where
      k: "failed = Some k" "daemon_inv L header (evs @ [Written a failed]) d1"
        "uv_handle U fuel L header (Written a failed) d = bindF (uv_closes U True) (\<lambda>_. Inr (Some d1))"
      by (auto simp: Written simp del: uv_handle.simps)
    with h True show ?thesis
      unfolding Written k(3) by (cases "uv_closes U True") simp_all
  next
    case False
    with written_keeps [OF U d h _ False, of failed fuel] may show ?thesis
      by (auto simp: Written simp del: uv_handle.simps)
  qed
next
  case (Closed a)
  with closed_keeps [OF d _ fuel] may show ?thesis by fastforce
next
  case (Tick m)
  then obtain t where "wire_of m = Inr t"
    using ok by (auto elim: encodableE)
  from frame_of_eq [OF L this] obtain f where f: "frame_of L header m = Inr f" by blast
  have "encodable m" using ok Tick by simp
  from tick_keeps [OF U L d this fuel f] f show ?thesis
    by (auto simp: Tick split: if_splits)
qed

lemma run_inv:
  assumes U: "libuv_ok U" and "daemon_run U fuel L header evs d" and L: "extlib_ok L" and "list_all event_ok evs"
    and "length evs \<le> fuel"
  shows "daemon_inv L header evs d"
  using assms(2,4,5)
proof (induction rule: daemon_run.induct)
  case daemon_idle
  then show ?case
    by (simp add: daemon_inv_def clients_are_def daemon_start_def connected_def)
next
  case (daemon_event evs d ev d')
  then have "daemon_inv L header evs d" by simp
  from handle_keeps [OF U L this _ daemon_event.hyps(2), of fuel] daemon_event show ?case
    by simp
qed

section \<open>What the server guarantees\<close>

text \<open>
  in every run the clients on the heap are one list linked by \<open>next\<close>, without repetition, of exactly
  the accepted and not yet closed clients, the newest first. No event \<open>libuv\<close> may report makes a handler
  touch a freed client, overrun a buffer, reuse a write request or lose its way in the list. The server
  stops only for a frame too large for its buffers, or in the second \<open>uv_close\<close> of a handle, when a write
  ends on a client that is being closed.
\<close>
theorem daemon_list_kept:
  assumes "libuv_ok U" and "extlib_ok L" and "daemon_run U fuel L header evs d" and "list_all event_ok (evs @ [ev])"
    and "uv_may ev d" and "length evs \<le> fuel"
  shows "clients_are d (connected evs) \<and>
    (case uv_handle U fuel L header ev d of
      Inr (Some d') \<Rightarrow> clients_are d' (list_step ev (connected evs))
    | Inr None \<Rightarrow> \<exists>m f. ev = Tick m \<and> frame_of L header m = Inr f \<and> BUF_SIZE < length f
    | Inl e \<Rightarrow> uv_closes U True = Inl e \<and>
        (\<exists>a k c. ev = Written a (Some k) \<and> heap d a = Some c \<and> c_closing c))"
proof -
  have ok: "list_all event_ok evs" "event_ok ev"
    using assms(4) by simp_all
  note inv = run_inv [OF assms(1) assms(3,2) ok(1) assms(6)]
  from handle_keeps [OF assms(1) assms(2) inv ok(2) assms(5,6)] inv show ?thesis
    by (auto simp: daemon_inv_def connected_snoc split: sum.splits option.splits)
qed

text \<open>
  C25: what a client has got is the start of a Frame Streams stream and then, in order, frames of ticked
  messages, each whole, but for an end that is still missing: nothing is missing when the client is open and
  no write is in flight, and while a write is in flight what is missing is what lies at the start of the
  client's buffer, whatever ticks have come since. The messages of the timer events are such that can be
  encoded, in place of the one from \<open>create_dnstap\<close>.
\<close>
theorem daemon_client_stream:
  assumes "libuv_ok U" and "extlib_ok L" and "daemon_run U fuel L header evs d" and "list_all event_ok evs"
    and "length evs \<le> fuel" and "heap d a = Some c"
  shows "\<exists>gs rest. subseq gs (ticked L header evs) \<and> c_sent c @ rest = start_bytes L @ concat gs \<and>
    (case c_flight c of None \<Rightarrow> c_closing c \<or> rest = [] | Some n \<Rightarrow> take n (c_buf c) = map Some rest)"
proof -
  have "client_inv (start_bytes L) (ticked L header evs) c"
    by (rule daemon_invD [OF run_inv [OF assms(1) assms(3,2,4,5)] assms(6)])
  then show ?thesis
  proof (rule client_invE)
    fix gs bs
    assume g: "subseq gs (ticked L header evs)" "given (start_bytes L) gs c bs"
    show ?thesis
    proof (cases "c_closing c \<and> c_flight c = None")
      case True
      with g show ?thesis by (fastforce simp: given_def prefix_def)
    next
      case False
      with g show ?thesis
        by (intro exI [of _ gs] exI [of _ bs]) (auto simp: given_def on_way_def split: option.splits)
    qed
  qed
qed

text \<open>
  C26: A client that is lost while a write to it is in flight gets its handle closed twice: the read
  callback closes it, the end of the write is then the only thing that can still be reported of the
  client, it can only be an error, and for that error the write callback calls \<open>uv_close\<close> once more on
  the handle that is being closed. What becomes of the server is what \<open>libuv\<close> does with that call,
  which is left open here; when it does not tolerate it, the server is down.
\<close>
theorem daemon_lost_client_closed_twice:
  assumes "libuv_ok U" and "extlib_ok L" and "daemon_run U fuel L header evs d" and "list_all event_ok evs"
    and "length evs \<le> fuel" and "heap d a = Some c" and "c_reading c" and "\<not> c_closing c"
    and "c_flight c \<noteq> None"
  shows "uv_may (Read a True) d \<and>
    (\<exists>d'. uv_handle U fuel L header (Read a True) d = Inr (Some d') \<and>
       \<not> uv_may (Written a None) d' \<and> \<not> uv_may (Closed a) d' \<and> \<not> uv_may (Read a negative) d' \<and>
       (\<forall>k. uv_may (Written a (Some k)) d' \<and>
          (\<exists>d1 c1. heap d1 a = Some c1 \<and> c_closing c1 \<and> uv_handle U fuel L header (Written a (Some k)) d' =
             bindF (uv_close U a d1) (\<lambda>d2. Inr (Some d2))) \<and>
          (\<forall>e. uv_closes U True = Inl e \<longrightarrow>
             uv_handle U fuel L header (Written a (Some k)) d' = Inl e)))"
proof -
  note inv = run_inv [OF assms(1) assms(3,2,4,5)]
  define d' where "d' = put_client a (c\<lparr>c_closing := True\<rparr>) d"
  have h: "heap d' a = Some (c\<lparr>c_closing := True\<rparr>)"
    by (simp add: d'_def)
  have may: "uv_may (Written a (Some k)) d'" for k
    using assms(9) h by simp
  have d': "daemon_inv L header (evs @ [Read a True]) d'"
    unfolding d'_def
    by (rule daemon_inv_put [OF inv _ assms(6)]) (simp_all add: client_inv_close [OF daemon_invD [OF inv assms(6)]])
  have twice: "(\<exists>d1 c1. heap d1 a = Some c1 \<and> c_closing c1 \<and> uv_handle U fuel L header (Written a (Some k)) d' =
             bindF (uv_close U a d1) (\<lambda>d2. Inr (Some d2))) \<and>
          (\<forall>e. uv_closes U True = Inl e \<longrightarrow> uv_handle U fuel L header (Written a (Some k)) d' = Inl e)" for k
    using written_closing [OF assms(1) d' h _ may, of k fuel] by fastforce
  have "uv_handle U fuel L header (Read a True) d = Inr (Some d')"
    using assms(6,8) by (simp add: daemon_read_def uv_close_eq [OF assms(1)] d'_def)
  moreover have "uv_may (Read a True) d" "\<not> uv_may (Written a None) d'" "\<not> uv_may (Closed a) d'"
    "\<not> uv_may (Read a negative) d'"
    using assms(6-9) h by auto
  ultimately show ?thesis
    using twice may by blast
qed

section \<open>A run\<close>

definition toy_uv :: libuv where
  "toy_uv = \<lparr>uv_closes = (\<lambda>closing. if closing then Inl Assert_failed else Inr ()), uv_writes = Not\<rparr>"

lemma toy_uv_ok: "libuv_ok toy_uv"
  by (simp add: libuv_ok_def toy_uv_def)

definition toy_head :: "nat \<Rightarrow> byte list" where
  "toy_head n = [0, 0, 0, of_nat n]"

definition toy_accepted :: client where
  "toy_accepted = \<lparr>c_next = None, c_id = 1, c_state = writing_start, c_len = 25,
     c_buf = map Some (start_bytes toylib) @ replicate 4071 None, c_reading = True,
     c_flight = Some 25, c_closing = False, c_sent = []\<rparr>"

definition toy_server :: "client \<Rightarrow> daemon" where
  "toy_server c = \<lparr>heap = [7 \<mapsto> c], clients = Some 7, client_id = 2\<rparr>"

lemma toy_server_start: "tf_write_control_start toylib (tf_writer_init toylib) BUF_SIZE DNSTAP_PROTOBUF_CONTENT_TYPE =
    (tinyframe_ok, 25, start_bytes toylib)" "length (start_bytes toylib) = 25"
  by code_simp+

lemma toy_connect:
  "uv_handle toy_uv 8 toylib toy_head (Connection True (Some 7) True) daemon_start = Inr (Some (toy_server toy_accepted))"
proof -
  define c where "c = \<lparr>c_next = None, c_id = 1, c_state = no_state, c_len = 0,
     c_buf = fresh_block BUF_SIZE, c_reading = True, c_flight = None, c_closing = False, c_sent = []\<rparr>"
  have fill: "fill_buffer 7 (start_bytes toylib) (toy_server c) = Inr (toy_server
      (c\<lparr>c_buf := map Some (start_bytes toylib) @ replicate 4071 None\<rparr>))"
    by (subst fill_buffer_eq [where c = c])
      (auto simp: toy_server_def toy_server_start put_client_def c_def fresh_block_def BUF_SIZE_def)
  have send: "send_buffer toy_uv 7 25 writing_start
      (toy_server (c\<lparr>c_buf := map Some (start_bytes toylib) @ replicate 4071 None\<rparr>)) =
      Inr (toy_server toy_accepted)"
    by (subst send_buffer_eq [OF toy_uv_ok, where c = "c\<lparr>c_buf := map Some (start_bytes toylib) @ replicate 4071 None\<rparr>"])
      (auto simp: toy_server_def put_client_def c_def toy_accepted_def)
  have sz: "sz_add 1 1 = 2" "sz_add (Suc 0) (Suc 0) = 2"
    by (simp_all add: sz_add_def size_limit_def)
  have new: "bindF (change_client 7 (\<lambda>c. c\<lparr>c_reading := True\<rparr>) (client_new 7 daemon_start)) k =
      k (toy_server c)" for k :: "daemon \<Rightarrow> fault + daemon"
    by (simp add: change_client_def get_client_def client_new_def daemon_start_def put_client_def
        toy_server_def c_def sz)
  have w: "tf_bytes_wrote toylib 25 = 25"
    by (simp add: toylib_def)
  show ?thesis
    by (simp add: on_new_connection_def new toy_server_start fill send w)
qed

lemma toy_server_run: "daemon_run toy_uv 8 toylib toy_head [Connection True (Some 7) True] (toy_server toy_accepted)"
  using daemon_event [OF daemon_idle, of "Connection True (Some 7) True" toy_uv 8 toylib toy_head, OF _ toy_connect]
  by (simp add: daemon_start_def)

theorem daemon_list_kept_witness:
  "clients_are (toy_server toy_accepted) [7] \<and>
   (\<exists>d'. uv_handle toy_uv 8 toylib toy_head (Read 7 True) (toy_server toy_accepted) = Inr (Some d') \<and> clients_are d' [7])"
proof -
  have may: "uv_may (Read 7 True) (toy_server toy_accepted)"
    by (simp add: toy_server_def toy_accepted_def)
  from daemon_list_kept [OF toy_uv_ok toylib_ok toy_server_run _ may] show ?thesis
    by (auto simp: connected_def split: sum.splits option.splits)
qed

theorem daemon_lost_client_closed_twice_witness:
  "\<exists>d d'. uv_handle toy_uv 8 toylib toy_head (Connection True (Some 7) True) daemon_start = Inr (Some d) \<and>
     uv_handle toy_uv 8 toylib toy_head (Read 7 True) d = Inr (Some d') \<and>
     uv_handle toy_uv 8 toylib toy_head (Written 7 (Some 0)) d' = Inl Assert_failed"
proof -
  have c: "heap (toy_server toy_accepted) 7 = Some toy_accepted" "c_reading toy_accepted"
    "\<not> c_closing toy_accepted" "c_flight toy_accepted \<noteq> None"
    by (simp_all add: toy_server_def toy_accepted_def)
  have u: "uv_closes toy_uv True = Inl Assert_failed" by (simp add: toy_uv_def)
  from daemon_lost_client_closed_twice [OF toy_uv_ok toylib_ok toy_server_run _ _ c] obtain d' where
    "uv_handle toy_uv 8 toylib toy_head (Read 7 True) (toy_server toy_accepted) = Inr (Some d')"
    "uv_handle toy_uv 8 toylib toy_head (Written 7 (Some 0)) d' = Inl Assert_failed"
    using u by (auto simp del: uv_handle.simps)
  with toy_connect show ?thesis by blast
qed

text \<open>The client gets the start, a tick, and another tick while the frame is still in flight.\<close>

definition toy_waiting :: client where
  "toy_waiting = \<lparr>c_next = None, c_id = 1, c_state = started, c_len = 25,
     c_buf = map Some (start_bytes toylib) @ replicate 4071 None, c_reading = True,
     c_flight = None, c_closing = False, c_sent = start_bytes toylib\<rparr>"

definition toy_frame :: "byte list" where
  "toy_frame = [0, 0, 0, 3, 9, 1, 1]"

lemma toy_frame_of: "frame_of toylib toy_head toy_msg = Inr toy_frame"
  by (simp add: frame_of_eq [OF toylib_ok toy_msg_wire])
    (simp add: toylib_def toy_pack_def toy_dnstap_def toy_message_def toy_frame_def toy_head_def)

definition toy_served :: client where
  "toy_served = tick_client toy_frame toy_waiting"

lemma toy_written: "uv_handle toy_uv 8 toylib toy_head (Written 7 None) (toy_server toy_accepted) =
    Inr (Some (toy_server toy_waiting))"
proof -
  have l: "mem_load (Some (map Some (start_bytes toylib) @ replicate 4071 None)) 0 25 =
      Inr (start_bytes toylib)"
    using toy_server_start(2) by (simp add: mem_load_def)
  show ?thesis
    by (simp add: uv_written_def client_write_def change_client_def get_client_def put_client_def
        toy_server_def l toy_accepted_def toy_waiting_def)
qed

lemma toy_tick:
  assumes "c_state c = started \<and> c_flight c = None \<and> length (c_buf c) = BUF_SIZE \<or> c_state c \<noteq> started"
    and "c_next c = None" and "\<not> c_closing c"
  shows "uv_handle toy_uv 8 toylib toy_head (Tick toy_msg) (toy_server c) =
    Inr (Some (toy_server (tick_client toy_frame c)))"
proof -
  have f: "length toy_frame = 7" "length toy_frame \<le> BUF_SIZE"
    by (simp_all add: toy_frame_def BUF_SIZE_def)
  have l: "linked (heap (toy_server c)) (clients (toy_server c)) [7]"
    using assms(2) by (simp add: toy_server_def)
  have h: "heap (toy_server c) 7 = Some c" "clients (toy_server c) = Some 7"
    "put_client 7 c' (toy_server c) = toy_server c'" for c c'
    by (simp_all add: toy_server_def put_client_def)
  have one: "(if c_state c = started
      then bindF (fill_buffer 7 toy_frame (toy_server c)) (send_buffer toy_uv 7 (length toy_frame) writing_frame)
      else Inr (toy_server c)) = Inr (toy_server (tick_client toy_frame c))"
    using assms(1,3) f h by (auto simp: fill_buffer_eq send_buffer_eq [OF toy_uv_ok] tick_client_def)
  have "tick_loop toy_uv (Suc 7) toy_frame (Some 7) (toy_server c) = Inr (toy_server (tick_client toy_frame c))"
    unfolding tick_loop.simps using one h assms(2) by simp
  then show ?thesis
    using f by (simp add: tick_message_def toy_frame_of h flip: One_nat_def)
qed

text \<open>The second tick finds the frame still in flight.\<close>

lemma toy_serving:
  "daemon_run toy_uv 8 toylib toy_head [Connection True (Some 7) True, Written 7 None, Tick toy_msg, Tick toy_msg]
     (toy_server toy_served)"
proof -
  note l = toy_server_start(2)
  have 1: "daemon_run toy_uv 8 toylib toy_head [Connection True (Some 7) True, Written 7 None] (toy_server toy_waiting)"
    using daemon_event [OF toy_server_run _ toy_written] by (simp add: toy_server_def toy_accepted_def)
  have t1: "uv_handle toy_uv 8 toylib toy_head (Tick toy_msg) (toy_server toy_waiting) = Inr (Some (toy_server toy_served))"
    unfolding toy_served_def by (rule toy_tick) (simp_all add: toy_waiting_def BUF_SIZE_def l)
  have "tick_client toy_frame toy_served = toy_served"
    by (simp add: toy_served_def tick_client_def)
  then have t2: "uv_handle toy_uv 8 toylib toy_head (Tick toy_msg) (toy_server toy_served) = Inr (Some (toy_server toy_served))"
    using toy_tick [of toy_served] by (simp add: toy_served_def tick_client_def toy_waiting_def)
  have 2: "daemon_run toy_uv 8 toylib toy_head [Connection True (Some 7) True, Written 7 None, Tick toy_msg]
      (toy_server toy_served)"
    using daemon_event [OF 1 _ t1] by simp
  show ?thesis
    using daemon_event [OF 2 _ t2] by simp
qed

theorem daemon_client_stream_witness:
  "\<exists>(c :: client) gs. c_flight c = Some 7 \<and> subseq gs [toy_frame, toy_frame] \<and>
     c_sent c @ toy_frame = start_bytes toylib @ concat gs"
proof -
  have h: "heap (toy_server toy_served) 7 = Some toy_served"
    by (simp add: toy_server_def)
  have f: "c_flight toy_served = Some 7" "take 7 (c_buf toy_served) = map Some toy_frame"
    by (simp_all add: toy_served_def tick_client_def toy_waiting_def toy_frame_def)
  have e: "encodable toy_msg"
    by (simp add: encodable_def toy_msg_wire)
  have "\<exists>gs rest. subseq gs (ticked toylib toy_head
        [Connection True (Some 7) True, Written 7 None, Tick toy_msg, Tick toy_msg]) \<and>
      c_sent toy_served @ rest = start_bytes toylib @ concat gs \<and>
      (case c_flight toy_served of None \<Rightarrow> c_closing toy_served \<or> rest = []
       | Some n \<Rightarrow> take n (c_buf toy_served) = map Some rest)"
    by (rule daemon_client_stream [OF toy_uv_ok toylib_ok toy_serving _ _ h]) (simp_all add: e)
  then obtain gs rest where g: "subseq gs [toy_frame, toy_frame]"
    "c_sent toy_served @ rest = start_bytes toylib @ concat gs" "map Some rest = map Some toy_frame"
    using f by (auto simp: toy_frame_of)
  then have "rest = toy_frame"
    by (simp add: inj_map_eq_map inj_def)
  with g f(1) show ?thesis
    by (intro exI [of _ toy_served] exI [of _ gs]) simp
qed

end
