(* ===== verification/Daemon_Main.thy ===== *)
theory Daemon_Main
  imports Daemon_Props Socket_Setup
begin

text \<open>
  \<open>main\<close> of \<open>examples/daemon_sender_uv.c\<close>: the server is set up and \<open>libuv\<close> calls the handlers until the
  program ends. The whole program keeps its list of clients, and the only way it goes down is the one of
  a client that is lost while a message is on its way to it; this for messages that can be encoded, which
  the one it gets from \<open>create_dnstap\<close> is not.
\<close>

section \<open>The code\<close>

text \<open>
  \<open>uv_ip\<close> is what \<open>uv_ip6_addr\<close> and \<open>uv_ip4_addr\<close> make of the host and the port; their result is not
  looked at. \<open>listens\<close> is what \<open>uv_listen\<close> returns for the address.
\<close>

definition daemon_address :: "(address_family \<Rightarrow> string \<Rightarrow> int \<Rightarrow> 'a) \<Rightarrow> string \<Rightarrow> string \<Rightarrow> 'a" where
  "daemon_address uv_ip host port = uv_ip (family_of host) host (atoi (chars port))"

text \<open>
  The loop of \<open>libuv\<close> over the events of the outside; what it may not report in a state it does not
  report. The result has the events that were reported, and \<open>None\<close> for the state once \<open>tick\<close> has ended the
  program.
\<close>

fun daemon_loop :: "libuv \<Rightarrow> nat \<Rightarrow> ('r, 'w) extlib \<Rightarrow> (nat \<Rightarrow> byte list) \<Rightarrow> uv_event list \<Rightarrow> uv_event list \<Rightarrow>
    daemon \<Rightarrow> fault + uv_event list \<times> daemon option" where
  "daemon_loop U fuel L header seen [] d = Inr (seen, Some d)"
| "daemon_loop U fuel L header seen (ev # evs) d =
     (if uv_may ev d
      then bindF (uv_handle U fuel L header ev d) (\<lambda>x. case x of
             None \<Rightarrow> Inr (seen @ [ev], None)
           | Some d1 \<Rightarrow> daemon_loop U fuel L header (seen @ [ev]) evs d1)
      else daemon_loop U fuel L header seen evs d)"

text \<open>The exit status when the program ends, otherwise what was reported so far and the state.\<close>

definition daemon_main :: "libuv \<Rightarrow> nat \<Rightarrow> ('r, 'w) extlib \<Rightarrow> (nat \<Rightarrow> byte list) \<Rightarrow>
    (address_family \<Rightarrow> string \<Rightarrow> int \<Rightarrow> 'a) \<Rightarrow> ('a \<Rightarrow> int) \<Rightarrow> string list \<Rightarrow> uv_event list \<Rightarrow>
    fault + nat + uv_event list \<times> daemon" where
  "daemon_main U fuel L header uv_ip listens argv evs =
     (if length argv < 3 then Inr (Inl 1)
      else if listens (daemon_address uv_ip (argv ! 1) (argv ! 2)) \<noteq> 0 then Inr (Inl 1)
      else bindF (daemon_loop U fuel L header [] evs daemon_start) (\<lambda>(seen, x).
           Inr (case x of None \<Rightarrow> Inl 1 | Some d \<Rightarrow> Inr (seen, d))))"

section \<open>The program\<close>

definition served :: "libuv \<Rightarrow> nat \<Rightarrow> ('r, 'w) extlib \<Rightarrow> (nat \<Rightarrow> byte list) \<Rightarrow> uv_event list \<Rightarrow>
    fault + uv_event list \<times> daemon option \<Rightarrow> bool" where
  "served U fuel L header evs x \<longleftrightarrow> (case x of
      Inr (seen, Some d) \<Rightarrow> subseq seen evs \<and> daemon_run U fuel L header seen d \<and>
        clients_are d (connected seen)
    | Inr (seen, None) \<Rightarrow> subseq seen evs \<and>
        (\<exists>m f. Tick m \<in> set evs \<and> frame_of L header m = Inr f \<and> BUF_SIZE < length f)
    | Inl e \<Rightarrow> uv_closes U True = Inl e \<and> (\<exists>a k. Written a (Some k) \<in> set evs))"

lemma daemon_loop_served:
  assumes U: "libuv_ok U" and L: "extlib_ok L" and "daemon_run U fuel L header seen d"
    and "list_all event_ok (seen @ evs)" and "length (seen @ evs) \<le> fuel" and "subseq seen done"
  shows "served U fuel L header (done @ evs) (daemon_loop U fuel L header seen evs d)"
  using assms(3-)
proof (induction evs arbitrary: seen d "done")
  case Nil
  have "list_all event_ok seen" "length seen \<le> fuel" using Nil.prems by simp_all
  from run_inv [OF U Nil.prems(1) L this] Nil.prems(1,4) show ?case
    by (simp add: served_def daemon_inv_def)
next
  case (Cons ev evs)
  have ok: "list_all event_ok seen" "event_ok ev" "length seen \<le> fuel" using Cons.prems by simp_all
  have sub: "subseq (seen @ [ev]) (done @ [ev])" using Cons.prems(4) by simp
  have sub': "subseq (seen @ [ev]) (done @ ev # evs)"
    using list_emb_prefix [OF sub, of evs] by simp
  show ?case
  proof (cases "uv_may ev d")
    case False
    have "subseq seen (done @ [ev])" using Cons.prems(4) by (rule list_emb_prefix)
    from Cons.IH [OF Cons.prems(1) _ _ this] Cons.prems(2,3) False show ?thesis by simp
  next
    case True
    note k = handle_keeps [OF U L run_inv [OF U Cons.prems(1) L ok(1,3)] ok(2) True ok(3)]
    show ?thesis
    proof (cases "uv_handle U fuel L header ev d")
      case (Inl e)
      with k True show ?thesis by (auto simp: served_def)
    next
      case (Inr x)
      show ?thesis
      proof (cases x)
        case None
        with Inr k True sub' show ?thesis by (auto simp: served_def)
      next
        case (Some d1)
        with Inr have "uv_handle U fuel L header ev d = Inr (Some d1)" by simp
        note run = daemon_event [OF Cons.prems(1) True this]
        from Cons.IH [OF run _ _ sub] Cons.prems(2,3) True Inr Some show ?thesis by simp
      qed
    qed
  qed
qed

lemma tick_dies: "tick U fuel L header pton version t1 t2 d = Inl Use_after_free"
  by (simp add: tick_def tick_message_def frame_of_def dnstap_encode_protobuf_size_def create_dnstap_wire)

text \<open>
  C24: The whole server, for timer events with messages that can be encoded: with too few arguments or an
  address that cannot be listened on it exits with 1; otherwise, whatever the outside does, it serves
  the events that are reported, its list of clients is exactly the connected ones, it ends itself (with
  1) only for a message that does not fit into the buffer of a client, and the only fault is that of a
  second \<open>uv_close\<close>, after a write to a client has failed. The fuel is the number of events. The
  message \<open>tick\<close> really has, the one \<open>create_dnstap\<close> returns, cannot be encoded: with it the first \<open>tick\<close>
  uses memory that is gone.
\<close>
theorem daemon_main_serves:
  assumes "libuv_ok U" and "extlib_ok L" and "list_all event_ok evs" and "length evs \<le> fuel"
  shows "(if length argv < 3 \<or> listens (daemon_address uv_ip (argv ! 1) (argv ! 2)) \<noteq> 0
     then daemon_main U fuel L header uv_ip listens argv evs = Inr (Inl 1)
     else case daemon_main U fuel L header uv_ip listens argv evs of
        Inr (Inl n) \<Rightarrow> n = 1 \<and> (\<exists>m f. Tick m \<in> set evs \<and> frame_of L header m = Inr f \<and> BUF_SIZE < length f)
      | Inr (Inr (seen, d)) \<Rightarrow> subseq seen evs \<and> daemon_run U fuel L header seen d \<and>
          clients_are d (connected seen)
      | Inl e \<Rightarrow> uv_closes U True = Inl e \<and> (\<exists>a k. Written a (Some k) \<in> set evs)) \<and>
     (\<forall>d. tick U fuel L header pton version t1 t2 d = Inl Use_after_free)"
proof (cases "length argv < 3 \<or> listens (daemon_address uv_ip (argv ! 1) (argv ! 2)) \<noteq> 0")
  case True
  then show ?thesis by (auto simp: daemon_main_def tick_dies)
next
  case False
  have "served U fuel L header ([] @ evs) (daemon_loop U fuel L header [] evs daemon_start)"
    by (rule daemon_loop_served [OF assms(1,2) daemon_idle]) (use assms(3,4) in simp_all)
  with False show ?thesis
    by (auto simp: daemon_main_def served_def tick_dies split: sum.splits option.splits prod.splits)
qed

theorem daemon_main_serves_witness:
  "\<exists>seen d. daemon_main toy_uv 8 toylib toy_head (\<lambda>f h p. p) (\<lambda>p. if p = 6000 then 0 else -1)
     [''daemon'', ''127.0.0.1'', ''6000''] [Closed 3, Connection True (Some 7) True] = Inr (Inr (seen, d)) \<and>
     clients_are d (connected seen) \<and>
     daemon_main toy_uv 8 toylib toy_head (\<lambda>f h p. p) (\<lambda>p. if p = 6000 then 0 else -1)
     [''daemon'', ''127.0.0.1''] [Closed 3, Connection True (Some 7) True] = Inr (Inl 1)"
proof -
  have p: "atoi (chars ''6000'') = 6000" by code_simp
  have may: "\<not> uv_may (Closed 3) daemon_start" "uv_may (Connection True (Some 7) True) daemon_start"
    by (simp_all add: daemon_start_def)
  have m: "daemon_main toy_uv 8 toylib toy_head (\<lambda>f h p. p) (\<lambda>p. if p = 6000 then 0 else -1)
     [''daemon'', ''127.0.0.1'', ''6000''] [Closed 3, Connection True (Some 7) True] =
     Inr (Inr ([Connection True (Some 7) True], toy_server toy_accepted))"
    using may toy_connect p by (simp add: daemon_main_def daemon_address_def del: uv_may.simps uv_handle.simps)
  have "list_all event_ok [Closed 3, Connection True (Some 7) True]" by simp
  note t = daemon_main_serves [OF toy_uv_ok toylib_ok this, where fuel = 8 and header = toy_head and
      uv_ip = "\<lambda>f h p. p" and listens = "\<lambda>p. if p = 6000 then 0 else -1"]
  have l: "(if daemon_address (\<lambda>f h p. p) ''127.0.0.1'' ''6000'' = 6000 then 0 else - 1) = (0 :: int)"
    using p by (simp add: daemon_address_def)
  from t [where argv = "[''daemon'', ''127.0.0.1'', ''6000'']"] m l
    t [where argv = "[''daemon'', ''127.0.0.1'']"] show ?thesis by simp
qed

end
