(* ===== verification/Write_Errors.thy ===== *)
theory Write_Errors
  imports Write_Steps
begin

text \<open>
  The handle after a call of \<open>dnswire_writer_write\<close> that returned \<open>dnswire_error\<close> or asked for more, before
  the stream is stopped: it can be used again, with one exception. When the peer refused the content type
  and nothing more has arrived, the handle stays in the state \<open>decoding_accept\<close> with nothing to decode.
\<close>

definition refused :: "('r, 'w) dnswire_writer \<Rightarrow> bool" where
  "refused h \<longleftrightarrow> wr_state h = dnswire_writer_decoding_accept \<and> in_live (wr_in h) = [] \<and>
     writer_ok (h\<lparr>wr_state := dnswire_writer_reading_accept\<rparr>)"

definition usable :: "('r, 'w) dnswire_writer \<Rightarrow> bool" where
  "usable h \<longleftrightarrow> in_phase h \<and> (writer_ok h \<or> refused h)"

text \<open>A piece that encodes nothing, and a call that may encode one frame.\<close>

definition holds :: "world \<Rightarrow> ('r, 'w) dnswire_writer \<Rightarrow> ('r, 'w) dnswire_writer \<Rightarrow> world \<Rightarrow> bool" where
  "holds w h h' w' \<longleftrightarrow> usable h' \<and> wr_encoder h' = wr_encoder h \<and> write_cost w' h' \<le> write_cost w h \<and>
     (\<exists>out. sent w' = sent w @ out \<and> out @ out_pending (wr_out h') = out_pending (wr_out h))"

definition keeps :: "('r, 'w) extlib \<Rightarrow> world \<Rightarrow> ('r, 'w) dnswire_writer \<Rightarrow> ('r, 'w) dnswire_writer \<Rightarrow>
    world \<Rightarrow> bool" where
  "keeps L w h h' w' \<longleftrightarrow> usable h' \<and> e_dnstap (wr_encoder h') = e_dnstap (wr_encoder h) \<and>
     write_cost w' h' \<le> write_cost w h \<and>
     (\<exists>fs out. list_all (written L) fs \<and>
        (fs = [] \<and> e_state (wr_encoder h') = e_state (wr_encoder h) \<or>
         (\<exists>f r. fs = [f] \<and> fst f = e_state (wr_encoder h) \<and> fst (snd f) = e_dnstap (wr_encoder h) \<and>
            encoder_next (e_state (wr_encoder h)) = Some (e_state (wr_encoder h'), r))) \<and>
        sent w' = sent w @ out \<and> out @ out_pending (wr_out h') = out_pending (wr_out h) @ frame_bytes fs)"

lemma holds_after:
  assumes "holds w1 h1 h' w'" and "sent w1 = sent w @ out" and "out @ out_pending (wr_out h1) = out_pending (wr_out h)"
    and "wr_encoder h1 = wr_encoder h" and "write_cost w1 h1 \<le> write_cost w h"
  shows "holds w h h' w'"
  using assms by (auto simp: holds_def)

lemma holds_keeps: "holds w h h' w' \<Longrightarrow> keeps L w h h' w'"
  unfolding holds_def keeps_def by (elim conjE exE) (intro conjI exI [of _ "[]"] exI; simp)

lemma frame_keeps:
  assumes p: "holds w1 h1 h' w'"
    and f: "written L (e_state (wr_encoder h), e_dnstap (wr_encoder h), bs)"
    and n: "encoder_next (e_state (wr_encoder h)) = Some (e_state (wr_encoder h1), r)"
    and d: "e_dnstap (wr_encoder h1) = e_dnstap (wr_encoder h)"
    and b: "out_pending (wr_out h1) = out_pending (wr_out h) @ bs" "sent w1 = sent w"
    and c: "write_cost w1 h1 \<le> write_cost w h"
  shows "keeps L w h h' w'"
proof -
  let ?f = "(e_state (wr_encoder h), e_dnstap (wr_encoder h), bs)"
  from p obtain out where o: "sent w' = sent w1 @ out" "out @ out_pending (wr_out h') = out_pending (wr_out h1)"
    "wr_encoder h' = wr_encoder h1" "usable h'" "write_cost w' h' \<le> write_cost w1 h1"
    by (auto simp: holds_def)
  show ?thesis
    unfolding keeps_def
    by (intro conjI exI [of _ "[?f]"] exI [of _ out]) (use o f n d b c in auto)
qed

lemma usable_input:
  assumes ok: "writer_ok h" and bi: "wr_bidirectional h" and left: "o_left (wr_out h) = 0"
    and ph: "in_phase h" and b: "in_ok b" and d: "decoder_ok d" and g: "state_group (wr_state h) = 1"
    and st: "s = dnswire_writer_reading_accept \<or> s = dnswire_writer_decoding_accept"
  shows "usable (h\<lparr>wr_decoder := d, wr_in := b, wr_state := s\<rparr>)"
proof -
  let ?h = "h\<lparr>wr_decoder := d, wr_in := b\<rparr>"
  have r: "writer_ok (?h\<lparr>wr_state := dnswire_writer_reading_accept\<rparr>)"
    using writer_okD(1,2) [OF ok] bi left b d by (simp add: writer_ok_def)
  have "in_phase (?h\<lparr>wr_state := s\<rparr>)"
    using ph g st by (auto simp: in_phase_def)
  moreover have "writer_ok (?h\<lparr>wr_state := s\<rparr>) \<or> refused (?h\<lparr>wr_state := s\<rparr>)"
  proof (cases "s = dnswire_writer_decoding_accept")
    case True
    with r show ?thesis
      by (cases "in_live b = []") (simp_all add: refused_def writer_ok_def)
  qed (use st r in simp)
  ultimately show ?thesis
    by (simp add: usable_def)
qed

lemma decoding_accept_holds:
  assumes L: "extlib_ok L" and ok: "writer_ok h" and ph: "in_phase h"
    and st: "wr_state h = dnswire_writer_decoding_accept"
    and r: "pop_decoding_accept L w h = Inr (res, h', w')" and res: "res \<in> {dnswire_error, dnswire_need_more}"
  shows "holds w h h' w'"
proof -
  have bi: "wr_bidirectional h" "in_live (wr_in h) \<noteq> []" "o_left (wr_out h) = 0"
    using ok st by (auto simp: writer_ok_def)
  note wok = writer_okD [OF ok]
  note i = wok(4) [OF bi(1)]
  from decode_buffered [OF L i bi(2) wok(3)] obtain dres d where
    load: "in_load (wr_in h) = Inr (in_live (wr_in h))"
    and dec: "dnswire_decoder_decode L (wr_decoder h) (in_live (wr_in h)) = Inr (dres, d)"
    and d: "decoder_ok d"
    and con: "dres \<in> {dnswire_again, dnswire_bidirectional, dnswire_have_dnstap} \<Longrightarrow>
      in_ok (in_consume (dnswire_decoder_decoded L d) (wr_in h)) \<and>
      in_live (in_consume (dnswire_decoder_decoded L d) (wr_in h)) =
        drop (dnswire_decoder_decoded L d) (in_live (wr_in h))"
    by metis
  from inq.make_room [OF i, of w] obtain rm b' w1 where
    room: "in_need_more w (wr_in h) = Inr (rm, b', w1)" "in_ok b'" "in_live b' = in_live (wr_in h)"
    by blast
  have q: "holds w h (h\<lparr>wr_decoder := d, wr_in := b, wr_state := s\<rparr>) w2"
    if "in_ok b" "length (in_live b) \<le> length (in_live (wr_in h))" "same_io w w2"
      "s = dnswire_writer_reading_accept \<or> s = dnswire_writer_decoding_accept" for b s w2
    using usable_input [OF ok bi(1,3) ph that(1) d _ that(4)] that st
    by (auto simp: holds_def write_cost_def same_io_def)
  have stay: "holds w h (h\<lparr>wr_decoder := d, wr_in := b\<rparr>) w2"
    if "in_ok b" "length (in_live b) \<le> length (in_live (wr_in h))" "same_io w w2" for b w2
    using q [OF that, of dnswire_writer_decoding_accept] unfolding st [symmetric] by simp
  have quiet: "holds w h (h\<lparr>wr_decoder := d\<rparr>) w"
    using stay [OF i] by simp
  note eval = pop_decoding_accept_def load dec Let_def
  show ?thesis
  proof (cases dres)
    case dnswire_bidirectional
    with r res con stay [of "in_consume (dnswire_decoder_decoded L d) (wr_in h)" w]
    show ?thesis by (simp add: eval split: if_splits)
  next
    case dnswire_need_more
    with r res room stay [OF room(2) _ in_need_more_io [OF room(1)]]
      q [OF room(2) _ in_need_more_io [OF room(1)], of dnswire_writer_reading_accept] show ?thesis
      by (cases rm) (simp_all add: eval)
  next
    case dnswire_again
    with r res show ?thesis by (simp add: eval)
  qed (use r quiet in \<open>simp_all add: eval\<close>)
qed

text \<open>A \<open>read\<close> or \<open>write\<close> that moved nothing.\<close>

lemma take_in_none:
  assumes "write_take_in w h = Inr (None, w')"
  shows "length (reads w') \<le> length (reads w)" and "writes w' = writes w" and "inbox w' = inbox w"
    and "sent w' = sent w"
  using assms
  by (auto simp: write_take_in_def sys_read_def Let_def bindF_eq_Inr split: list.splits option.splits if_splits)

lemma bytes_none:
  assumes "write_bytes w h = Inr (None, w')"
  shows "length (writes w') \<le> length (writes w) \<and> reads w' = reads w \<and> inbox w' = inbox w \<and> sent w' = sent w"
proof -
  obtain bs where bs: "out_peek (wr_out h) (o_left (wr_out h)) = Inr bs"
    using assms by (auto simp: write_bytes_def bindF_eq_Inr)
  obtain a w1 where a1: "sys_write w bs = (a, w1)" by (cases "sys_write w bs")
  with assms bs have a: "sys_write w bs = (a, w')" "a = None \<or> a = Some 0"
    by (auto simp: write_bytes_def split: option.splits if_splits)
  then show ?thesis
  proof (cases "writes w")
    case (Cons k ks)
    with a show ?thesis by (cases "k < 0") (auto simp: sys_write_def Let_def)
  qed (auto simp: sys_write_def)
qed

lemma usable_same: "writer_ok h \<Longrightarrow> in_phase h \<Longrightarrow> usable h"
  by (simp add: usable_def)

lemma reading_accept_holds:
  assumes L: "extlib_ok L" and ok: "writer_ok h" and ph: "in_phase h"
    and st: "wr_state h = dnswire_writer_reading_accept"
    and r: "write_reading_accept L w h = Inr (res, h', w')" and res: "res \<in> {dnswire_error, dnswire_need_more}"
  shows "holds w h h' w'"
proof -
  have bi: "wr_bidirectional h" "o_left (wr_out h) = 0" using ok st by (auto simp: writer_ok_def)
  obtain got w1 where t: "write_take_in w h = Inr (got, w1)"
    using r by (cases "write_take_in w h") (auto simp: write_reading_accept_def)
  show ?thesis
  proof (cases got)
    case None
    with r t have "h' = h" "w' = w1" by (simp_all add: write_reading_accept_def)
    with t None take_in_none [of w h w1] show ?thesis
      by (auto simp: holds_def usable_same [OF ok ph] write_cost_def)
  next
    case (Some h1)
    from take_in_uses [OF writer_okD(4) [OF ok bi(1)] t [unfolded Some]] obtain b bs where
      b: "h1 = h\<lparr>wr_in := b\<rparr>" "in_ok b" "bs \<noteq> []" "in_live b = in_live (wr_in h) @ bs"
        "inbox w = bs @ inbox w1" "sent w1 = sent w" "length (reads w) = Suc (length (reads w1))"
        "writes w1 = writes w" by blast
    let ?h = "h\<lparr>wr_in := b, wr_state := dnswire_writer_decoding_accept\<rparr>"
    have okh: "writer_ok ?h" using ok b bi by (simp add: writer_ok_def)
    have phh: "in_phase ?h" using ph st by (simp add: in_phase_def)
    have p: "pop_decoding_accept L w1 ?h = Inr (res, h', w')"
      using r t Some b(1) by (simp add: write_reading_accept_def write_decoding_accept_def)
    have "holds w1 ?h h' w'"
      by (rule decoding_accept_holds [OF L okh phh _ p res]) simp
    then show ?thesis
      by (rule holds_after [of _ _ _ _ _ "[]"]) (use b st in \<open>simp_all add: write_cost_def\<close>)
  qed
qed

lemma writing_ready_holds:
  assumes L: "extlib_ok L" and ok: "writer_ok h" and ph: "in_phase h" and bi: "wr_bidirectional h"
    and st: "wr_state h \<in> {dnswire_writer_writing_ready, dnswire_writer_writing}"
    and r: "write_writing_ready L w dnswire_again h = Inr (res, h', w')"
    and res: "res \<in> {dnswire_error, dnswire_need_more}"
  shows "holds w h h' w'"
proof -
  obtain got w1 where t: "write_bytes w h = Inr (got, w1)"
    using r by (cases "write_bytes w h") (auto simp: write_writing_ready_def)
  show ?thesis
  proof (cases got)
    case None
    with r t have "h' = h" "w' = w1" by (simp_all add: write_writing_ready_def)
    with t None bytes_none [of w h w1] show ?thesis
      by (auto simp: holds_def usable_same [OF ok ph] write_cost_def)
  next
    case (Some h1)
    from write_bytes_uses [OF writer_okD(1) [OF ok] t [unfolded Some]] obtain n where
      n: "h1 = h\<lparr>wr_out := out_drain n (wr_out h)\<rparr>" "n \<le> o_left (wr_out h)"
        "sent w1 = sent w @ take n (out_pending (wr_out h))"
        "out_pending (wr_out h1) = drop n (out_pending (wr_out h))"
        "length (writes w) = Suc (length (writes w1))" "reads w1 = reads w" "inbox w1 = inbox w" by blast
    let ?h = "h1\<lparr>wr_state := dnswire_writer_reading_accept\<rparr>"
    have left: "o_left (wr_out h1) = 0" and w: "write_reading_accept L w1 ?h = Inr (res, h', w')"
      using r t Some res by (auto simp: write_writing_ready_def split: if_splits)
    have okh: "writer_ok ?h"
      unfolding n(1) by (rule writer_ok_drained [OF ok n(2)])
        (use left bi n(1) in \<open>simp_all add: decoding_def stops_def\<close>)
    have phh: "in_phase ?h" using ph st n(1) by (auto simp: in_phase_def)
    have "holds w1 ?h h' w'"
      by (rule reading_accept_holds [OF L okh phh _ w res]) simp
    then show ?thesis
      by (rule holds_after [OF _ n(3)]) (use n st in \<open>auto simp: write_cost_def\<close>)
  qed
qed

lemma writing_holds:
  assumes ok: "writer_ok h" and ph: "in_phase h"
    and r: "write_writing w res0 h = Inr (dnswire_error, h', w')" and "res0 \<noteq> dnswire_error"
  shows "holds w h h' w'"
proof -
  obtain got w1 where t: "write_bytes w h = Inr (got, w1)"
    using r by (cases "write_bytes w h") (auto simp: write_writing_def)
  with r assms(4) have "got = None" "h' = h" "w' = w1"
    by (auto simp: write_writing_def split: option.splits)
  with t bytes_none [of w h w1] show ?thesis
    by (auto simp: holds_def usable_same [OF ok ph] write_cost_def)
qed

text \<open>Encoding: an error leaves the encoder in its state and nothing pending.\<close>

lemma encoding_error:
  assumes L: "extlib_ok L" and ok: "writer_ok h" and ph: "in_phase h" and left: "o_left (wr_out h) = 0"
    and st: "\<not> decoding (wr_state h)" "\<not> stops (wr_state h)"
    and r: "encoding L w (wr_encoder h) (wr_out h) = Inr (dnswire_error, e, b, w1)"
  shows "keeps L w h (h\<lparr>wr_encoder := e, wr_out := b\<rparr>) w1"
proof -
  note wok = writer_okD [OF ok]
  have "o_at (wr_out h) < o_size (wr_out h)" using nothing_left [OF wok(1) left] by simp
  from encoding_props [OF L wok(2,1) this, of w] r have
    "encoding_post L (wr_encoder h) (wr_out h) (dnswire_error, e, b, w1)" by auto
  then have p: "out_ok b" "encoder_ok e" "e_dnstap e = e_dnstap (wr_encoder h)"
    "e_state e = e_state (wr_encoder h)" "out_pending b = out_pending (wr_out h)"
    using encoder_next_result [of "e_state (wr_encoder h)" "e_state e" dnswire_error]
    by (auto simp: encoding_post_def)
  have "o_left b = 0"
    using p(1,5) left out_pending_length [OF p(1)] out_pending_length [OF wok(1)] by simp
  from writer_ok_output_same [OF ok p(1,2) refl st(1) this st(2)]
  have "usable (h\<lparr>wr_encoder := e, wr_out := b\<rparr>)"
    using ph p(4) by (auto simp: usable_def in_phase_def)
  with p encoding_io [OF r] show ?thesis
    unfolding keeps_def by (intro conjI exI [of _ "[]"]) (auto simp: write_cost_def same_io_def)
qed

lemma encoding_frame:
  assumes L: "extlib_ok L" and ok: "writer_ok h" and ph: "in_phase h" and left: "o_left (wr_out h) = 0"
    and st: "wr_state h \<in> {dnswire_writer_encoding, dnswire_writer_encoding_ready}"
    and enc: "encoding L w (wr_encoder h) (wr_out h) = Inr (res, e, b, w1)" and ne: "res \<noteq> dnswire_error"
  obtains "writer_ok (h\<lparr>wr_encoder := e, wr_out := b, wr_state := dnswire_writer_writing\<rparr>)"
    and "in_phase (h\<lparr>wr_encoder := e, wr_out := b, wr_state := dnswire_writer_writing\<rparr>)"
    and "res \<in> {dnswire_ok, dnswire_again}"
    and "wr_state h = dnswire_writer_encoding_ready \<Longrightarrow> res = dnswire_again"
    and "\<And>h' w'. holds w1 (h\<lparr>wr_encoder := e, wr_out := b, wr_state := dnswire_writer_writing\<rparr>) h' w' \<Longrightarrow>
      keeps L w h h' w'"
proof -
  from encoding_one [OF L ok left enc ne] obtain bs e1 len where
    f: "written L (e_state (wr_encoder h), e_dnstap (wr_encoder h), bs)"
      "encoder_next (e_state (wr_encoder h)) = Some (e_state e, res)"
      "e_dnstap e = e_dnstap (wr_encoder h)" "out_pending b = out_pending (wr_out h) @ bs"
      "same_io w w1" "out_ok b" "encoder_ok e" by blast
  let ?g = "h\<lparr>wr_encoder := e, wr_out := b, wr_state := dnswire_writer_writing\<rparr>"
  have es: "e_state e \<in> {dnswire_encoder_control_start, dnswire_encoder_frames}"
    "res \<in> {dnswire_ok, dnswire_again}" "wr_state h = dnswire_writer_encoding_ready \<Longrightarrow> res = dnswire_again"
    using ph st f(2) by (auto simp: in_phase_def)
  have okg: "writer_ok ?g"
    by (rule writer_ok_output [OF ok f(6,7)])
      (simp_all add: decoding_def may_have_pending_def undirected_def stops_def)
  have phg: "in_phase ?g" using es(1) by (simp add: in_phase_def)
  have c: "write_cost w1 ?g \<le> write_cost w h"
    using f(5) next_ahead(2) [OF f(2)] st by (auto simp: write_cost_def same_io_def)
  have "keeps L w h h' w'" if "holds w1 ?g h' w'" for h' w'
    using frame_keeps [OF that f(1) _ _ _ _ c] f by (simp add: same_io_def)
  with that okg phg es(2,3) show thesis by blast
qed

lemma write_encoding_keeps:
  assumes L: "extlib_ok L" and ok: "writer_ok h" and ph: "in_phase h" and st: "wr_state h = dnswire_writer_encoding"
    and r: "write_encoding L w h = Inr (res, h', w')" and res: "res \<in> {dnswire_error, dnswire_need_more}"
  shows "keeps L w h h' w'"
proof -
  have left: "o_left (wr_out h) = 0" using ok st by (auto simp: writer_ok_def)
  obtain res0 e b w1 where enc: "encoding L w (wr_encoder h) (wr_out h) = Inr (res0, e, b, w1)"
    using r by (cases "encoding L w (wr_encoder h) (wr_out h)") (auto simp: write_encoding_def)
  let ?g = "h\<lparr>wr_encoder := e, wr_out := b, wr_state := dnswire_writer_writing\<rparr>"
  show ?thesis
  proof (cases "res0 = dnswire_error")
    case True
    with r enc encoding_error [OF L ok ph left _ _ enc [unfolded True]] st show ?thesis
      by (simp add: write_encoding_def decoding_def stops_def)
  next
    case False
    have s: "wr_state h \<in> {dnswire_writer_encoding, dnswire_writer_encoding_ready}" using st by simp
    from L ok ph left s enc False show ?thesis
    proof (rule encoding_frame)
      assume g: "writer_ok ?g" "in_phase ?g" "res0 \<in> {dnswire_ok, dnswire_again}"
        "\<And>h' w'. holds w1 ?g h' w' \<Longrightarrow> keeps L w h h' w'"
      have "o_left b \<noteq> 0"
      proof
        assume "o_left b = 0"
        with r enc have "res = res0" by (simp add: write_encoding_def)
        with g(3) res show False by auto
      qed
      with r enc False have w: "write_writing w1 res0 ?g = Inr (res, h', w')"
        by (simp add: write_encoding_def)
      have "wr_state ?g = dnswire_writer_writing" by simp
      with writing_passes [OF g(1) _ w] g(3) res have "res = dnswire_error" by auto
      with w writing_holds [OF g(1,2)] False g(4) show ?thesis by blast
    qed
  qed
qed

lemma write_encoding_ready_keeps:
  assumes L: "extlib_ok L" and ok: "writer_ok h" and ph: "in_phase h"
    and st: "wr_state h = dnswire_writer_encoding_ready"
    and r: "write_encoding_ready L w h = Inr (res, h', w')" and res: "res \<in> {dnswire_error, dnswire_need_more}"
  shows "keeps L w h h' w'"
proof -
  have left: "o_left (wr_out h) = 0" and bi: "wr_bidirectional h" using ok st by (auto simp: writer_ok_def)
  obtain res0 e b w1 where enc: "encoding L w (wr_encoder h) (wr_out h) = Inr (res0, e, b, w1)"
    using r by (cases "encoding L w (wr_encoder h) (wr_out h)") (auto simp: write_encoding_ready_def)
  let ?g = "h\<lparr>wr_encoder := e, wr_out := b, wr_state := dnswire_writer_writing\<rparr>"
  show ?thesis
  proof (cases "res0 = dnswire_error")
    case True
    with r enc encoding_error [OF L ok ph left _ _ enc [unfolded True]] st show ?thesis
      by (simp add: write_encoding_ready_def decoding_def stops_def)
  next
    case False
    have s: "wr_state h \<in> {dnswire_writer_encoding, dnswire_writer_encoding_ready}" using st by simp
    from L ok ph left s enc False show ?thesis
    proof (rule encoding_frame)
      assume g: "writer_ok ?g" "in_phase ?g" "wr_state h = dnswire_writer_encoding_ready \<Longrightarrow> res0 = dnswire_again"
        "\<And>h' w'. holds w1 ?g h' w' \<Longrightarrow> keeps L w h h' w'"
      have res0: "res0 = dnswire_again" using g(3) st .
      have "o_left b \<noteq> 0"
        using r enc res res0 by (auto simp: write_encoding_ready_def Let_def split: if_splits)
      with r enc res0 have w: "write_writing_ready L w1 dnswire_again ?g = Inr (res, h', w')"
        by (simp add: write_encoding_ready_def)
      have "wr_bidirectional ?g" "wr_state ?g \<in> {dnswire_writer_writing_ready, dnswire_writer_writing}"
        using bi by simp_all
      from writing_ready_holds [OF L g(1,2) this w res] show ?thesis by (rule g(4))
    qed
  qed
qed

text \<open>The call.\<close>

lemma write_keeps:
  assumes L: "extlib_ok L" and ok: "writer_ok h" and ph: "in_phase h"
    and st: "e_state (wr_encoder h) \<notin> {dnswire_encoder_control_stop, dnswire_encoder_done}"
    and r: "dnswire_writer_write L w h = Inr (res, h', w')" and res: "res \<in> {dnswire_error, dnswire_need_more}"
  shows "keeps L w h h' w'"
proof -
  have buf: "o_buf (wr_out h) \<noteq> None" using writer_okD(1) [OF ok] by (auto elim: out_okD)
  have g: "state_group (wr_state h) \<le> 1" using ph st by (auto simp: in_phase_def split: if_splits)
  have bi: "wr_state h = dnswire_writer_writing_ready \<Longrightarrow> wr_bidirectional h"
    using ok by (simp add: writer_ok_def)
  show ?thesis
  proof (cases "wr_state h")
    case dnswire_writer_encoding_ready
    with r buf write_encoding_ready_keeps [OF L ok ph _ _ res] show ?thesis by (simp add: dnswire_writer_write_def)
  next
    case dnswire_writer_writing_ready
    with r buf writing_ready_holds [OF L ok ph bi _ _ res] show ?thesis
      by (simp add: dnswire_writer_write_def holds_keeps)
  next
    case dnswire_writer_reading_accept
    with r buf reading_accept_holds [OF L ok ph _ _ res] show ?thesis
      by (simp add: dnswire_writer_write_def holds_keeps)
  next
    case dnswire_writer_decoding_accept
    with r buf decoding_accept_holds [OF L ok ph _ _ res] show ?thesis
      by (simp add: dnswire_writer_write_def write_decoding_accept_def holds_keeps)
  next
    case dnswire_writer_encoding
    with r buf write_encoding_keeps [OF L ok ph _ _ res] show ?thesis by (simp add: dnswire_writer_write_def)
  next
    case dnswire_writer_writing
    with r buf have w: "write_writing w dnswire_again h = Inr (res, h', w')"
      by (simp add: dnswire_writer_write_def)
    with writing_passes [OF ok dnswire_writer_writing w] res have "res = dnswire_error" by auto
    with w writing_holds [OF ok ph] show ?thesis by (auto intro: holds_keeps)
  qed (use g in simp_all)
qed

text \<open>What a call can return.\<close>

lemma accept_results:
  "pop_decoding_accept L w h = Inr (res, h', w') \<Longrightarrow> res \<in> {dnswire_again, dnswire_need_more, dnswire_error}"
  "write_reading_accept L w h = Inr (res, h', w') \<Longrightarrow> res \<in> {dnswire_again, dnswire_need_more, dnswire_error}"
  "write_writing_ready L w dnswire_again h = Inr (res, h', w') \<Longrightarrow>
     res \<in> {dnswire_again, dnswire_need_more, dnswire_error}"
proof -
  have dec: "res \<in> {dnswire_again, dnswire_need_more, dnswire_error}"
    if "pop_decoding_accept L w h = Inr (res, h', w')" for w h
  proof -
    from that obtain x where x: "in_load (wr_in h) = Inr x"
      by (cases "in_load (wr_in h)") (simp_all add: pop_decoding_accept_def)
    with that obtain dres d where d: "dnswire_decoder_decode L (wr_decoder h) x = Inr (dres, d)"
      by (cases "dnswire_decoder_decode L (wr_decoder h) x") (auto simp: pop_decoding_accept_def)
    show ?thesis
      using that by (cases dres) (auto simp: pop_decoding_accept_def x d Let_def bindF_eq_Inr split: if_splits)
  qed
  have rd: "res \<in> {dnswire_again, dnswire_need_more, dnswire_error}"
    if r: "write_reading_accept L w h = Inr (res, h', w')" for w h
  proof -
    obtain got w1 where t: "write_take_in w h = Inr (got, w1)"
      using r by (cases "write_take_in w h") (auto simp: write_reading_accept_def)
    with r dec show ?thesis
      by (cases got) (auto simp: write_reading_accept_def write_decoding_accept_def)
  qed
  show "res \<in> {dnswire_again, dnswire_need_more, dnswire_error}"
    if r: "write_writing_ready L w dnswire_again h = Inr (res, h', w')"
  proof -
    obtain got w1 where t: "write_bytes w h = Inr (got, w1)"
      using r by (cases "write_bytes w h") (auto simp: write_writing_ready_def)
    with r rd show ?thesis
      by (cases got) (auto simp: write_writing_ready_def split: if_splits)
  qed
  show "res \<in> {dnswire_again, dnswire_need_more, dnswire_error}"
    if "write_reading_accept L w h = Inr (res, h', w')" by (rule rd [OF that])
  show "res \<in> {dnswire_again, dnswire_need_more, dnswire_error}"
    if "pop_decoding_accept L w h = Inr (res, h', w')" by (rule dec [OF that])
qed

lemma encoding_results:
  assumes L: "extlib_ok L" and ok: "writer_ok h" and ph: "in_phase h" and st: "wr_state h = dnswire_writer_encoding"
    and r: "write_encoding L w h = Inr (res, h', w')"
  shows "res \<in> {dnswire_ok, dnswire_again, dnswire_error}"
proof -
  have left: "o_left (wr_out h) = 0" using ok st by (auto simp: writer_ok_def)
  have s: "wr_state h \<in> {dnswire_writer_encoding, dnswire_writer_encoding_ready}" using st by simp
  obtain res0 e b w1 where enc: "encoding L w (wr_encoder h) (wr_out h) = Inr (res0, e, b, w1)"
    using r by (cases "encoding L w (wr_encoder h) (wr_out h)") (auto simp: write_encoding_def)
  let ?g = "h\<lparr>wr_encoder := e, wr_out := b, wr_state := dnswire_writer_writing\<rparr>"
  show ?thesis
  proof (cases "res0 = dnswire_error")
    case True
    with r enc show ?thesis by (simp add: write_encoding_def)
  next
    case False
    from L ok ph left s enc False show ?thesis
    proof (rule encoding_frame)
      assume g: "writer_ok ?g" "res0 \<in> {dnswire_ok, dnswire_again}"
      have st': "wr_state ?g = dnswire_writer_writing" by simp
      show ?thesis
      proof (cases "o_left b = 0")
        case True
        with r enc g(2) show ?thesis by (auto simp: write_encoding_def)
      next
        case pending: False
        with r enc False have "write_writing w1 res0 ?g = Inr (res, h', w')"
          by (simp add: write_encoding_def)
        with writing_passes [OF g(1) st' this] g(2) show ?thesis by auto
      qed
    qed
  qed
qed

lemma encoding_ready_results:
  assumes L: "extlib_ok L" and ok: "writer_ok h" and ph: "in_phase h"
    and st: "wr_state h = dnswire_writer_encoding_ready"
    and r: "write_encoding_ready L w h = Inr (res, h', w')"
  shows "res \<in> {dnswire_again, dnswire_need_more, dnswire_error}"
proof -
  have left: "o_left (wr_out h) = 0" using ok st by (auto simp: writer_ok_def)
  have s: "wr_state h \<in> {dnswire_writer_encoding, dnswire_writer_encoding_ready}" using st by simp
  obtain res0 e b w1 where enc: "encoding L w (wr_encoder h) (wr_out h) = Inr (res0, e, b, w1)"
    using r by (cases "encoding L w (wr_encoder h) (wr_out h)") (auto simp: write_encoding_ready_def)
  let ?g = "h\<lparr>wr_encoder := e, wr_out := b, wr_state := dnswire_writer_writing\<rparr>"
  show ?thesis
  proof (cases "res0 = dnswire_error")
    case True
    with r enc show ?thesis by (simp add: write_encoding_ready_def)
  next
    case False
    from L ok ph left s enc False have again: "res0 = dnswire_again"
      by (rule encoding_frame) (use st in simp)
    show ?thesis
    proof (cases "o_left b = 0")
      case True
      with r enc again show ?thesis by (simp add: write_encoding_ready_def)
    next
      case pending: False
      with r enc again have "write_writing_ready L w1 dnswire_again ?g = Inr (res, h', w')"
        by (simp add: write_encoding_ready_def)
      then show ?thesis by (rule accept_results(3))
    qed
  qed
qed

lemma write_results:
  assumes L: "extlib_ok L" and ok: "writer_ok h" and ph: "in_phase h"
    and st: "e_state (wr_encoder h) \<notin> {dnswire_encoder_control_stop, dnswire_encoder_done}"
    and r: "dnswire_writer_write L w h = Inr (res, h', w')"
  shows "res \<in> {dnswire_ok, dnswire_again, dnswire_need_more, dnswire_error}"
proof -
  have buf: "o_buf (wr_out h) \<noteq> None" using writer_okD(1) [OF ok] by (auto elim: out_okD)
  have g: "state_group (wr_state h) \<le> 1" using ph st by (auto simp: in_phase_def split: if_splits)
  note eval = dnswire_writer_write_def buf
  show ?thesis
  proof (cases "wr_state h")
    case dnswire_writer_encoding_ready
    with r encoding_ready_results [OF L ok ph, of w res h' w'] show ?thesis by (auto simp: eval)
  next
    case dnswire_writer_writing_ready
    with r accept_results(3) [of L w h res h' w'] show ?thesis by (auto simp: eval)
  next
    case dnswire_writer_reading_accept
    with r accept_results(2) [of L w h res h' w'] show ?thesis by (auto simp: eval)
  next
    case dnswire_writer_decoding_accept
    with r accept_results(1) [of L w h res h' w'] show ?thesis by (auto simp: eval write_decoding_accept_def)
  next
    case dnswire_writer_encoding
    with r encoding_results [OF L ok ph, of w res h' w'] show ?thesis by (auto simp: eval)
  next
    case dnswire_writer_writing
    with r writing_passes [OF ok, of w dnswire_again res h' w'] show ?thesis by (auto simp: eval)
  qed (use g in simp_all)
qed

end
