(* ===== verification/Relay.thy ===== *)
theory Relay
  imports Reader_Programs Writer_Programs Writer_Limits Write_Errors
begin

text \<open>
  \<open>examples/reader_sender.c\<close>: a relay that reads messages from a file and sends them over a socket. It
  drives a reader and a writer, each with a world of its own: \<open>wa\<close> for the file, \<open>ws\<close> for the socket.
\<close>

section \<open>The code\<close>

text \<open>
  The inner loop for one message; the first component of the result tells whether it was sent, after any
  other end the program sets \<open>done\<close>.
\<close>

fun relay_message :: "nat \<Rightarrow> ('r, 'w) extlib \<Rightarrow> world \<Rightarrow> ('r, 'w) dnswire_writer \<Rightarrow>
    fault + bool \<times> ('r, 'w) dnswire_writer \<times> world" where
  "relay_message 0 L ws h = Inl Out_of_fuel"
| "relay_message (Suc fuel) L ws h =
     bindF (dnswire_writer_write L ws h) (\<lambda>(res, h1, ws1). case res of
       dnswire_ok \<Rightarrow> Inr (True, h1, ws1)
     | dnswire_again \<Rightarrow> relay_message fuel L ws1 h1
     | _ \<Rightarrow> Inr (False, h1, ws1))"

text \<open>
  The outer loop. The writer gets the address of the message in the reader's decoder; it encodes it before
  the reader is called again, so that its value at that moment is what is encoded.
\<close>

datatype relay_end = Source_ended | Source_broken | Target_broken

fun relay_loop :: "nat \<Rightarrow> ('r, 'w) extlib \<Rightarrow> world \<Rightarrow> ('r, 'w) dnswire_reader \<Rightarrow> world \<Rightarrow>
    ('r, 'w) dnswire_writer \<Rightarrow>
    fault + relay_end \<times> ('r, 'w) dnswire_reader \<times> world \<times> ('r, 'w) dnswire_writer \<times> world" where
  "relay_loop 0 L wa r ws h = Inl Out_of_fuel"
| "relay_loop (Suc fuel) L wa r ws h =
     bindF (dnswire_reader_fread L wa r) (\<lambda>(res, r1, wa1). case res of
       dnswire_have_dnstap \<Rightarrow>
         bindF (relay_message fuel L ws (dnswire_writer_set_dnstap h (dc_dnstap (r_decoder r1))))
           (\<lambda>(sent, h1, ws1). if sent then relay_loop fuel L wa1 r1 ws1 h1
              else Inr (Target_broken, r1, wa1, h1, ws1))
     | dnswire_again \<Rightarrow> relay_loop fuel L wa1 r1 ws h
     | dnswire_need_more \<Rightarrow> relay_loop fuel L wa1 r1 ws h
     | dnswire_endofdata \<Rightarrow> Inr (Source_ended, r1, wa1, h, ws)
     | _ \<Rightarrow> Inr (Source_broken, r1, wa1, h, ws))"

text \<open>The loop at the end; what \<open>dnswire_writer_stop\<close> returns is ignored. \<open>done\<close> is never 2.\<close>

fun relay_stop_loop :: "nat \<Rightarrow> ('r, 'w) extlib \<Rightarrow> world \<Rightarrow> ('r, 'w) dnswire_writer \<Rightarrow>
    fault + outcome \<times> ('r, 'w) dnswire_writer \<times> world" where
  "relay_stop_loop 0 L ws h = Inl Out_of_fuel"
| "relay_stop_loop (Suc fuel) L ws h =
     bindF (dnswire_writer_write L ws h) (\<lambda>(res, h1, ws1). case res of
       dnswire_again \<Rightarrow> relay_stop_loop fuel L ws1 h1
     | dnswire_endofdata \<Rightarrow> Inr (Stopped, h1, ws1)
     | _ \<Rightarrow> Inr (Failed, h1, ws1))"

definition relay_stop :: "nat \<Rightarrow> ('r, 'w) extlib \<Rightarrow> world \<Rightarrow> ('r, 'w) dnswire_writer \<Rightarrow>
    fault + outcome \<times> ('r, 'w) dnswire_writer \<times> world" where
  "relay_stop fuel L ws h = relay_stop_loop fuel L ws (snd (dnswire_writer_stop h))"

text \<open>What happens once the socket is connected: the end of the loop and how the stream was stopped.\<close>

definition relay_run :: "nat \<Rightarrow> ('r, 'w) extlib \<Rightarrow> world \<Rightarrow> ('r, 'w) dnswire_reader \<Rightarrow> world \<Rightarrow>
    ('r, 'w) dnswire_writer \<Rightarrow> fault + relay_end \<times> outcome \<times> world" where
  "relay_run fuel L wa r ws h =
     bindF (relay_loop fuel L wa r ws h) (\<lambda>(e, r1, wa1, h1, ws1).
     bindF (relay_stop fuel L ws1 h1) (\<lambda>(oc, h2, ws2).
     bindF (dnswire_reader_destroy r1) (\<lambda>_. Inr (e, oc, ws2))))"

definition relay_main :: "nat \<Rightarrow> ('r, 'w) extlib \<Rightarrow> inet_pton \<Rightarrow> kernel \<Rightarrow> string list \<Rightarrow> bool \<Rightarrow>
    world \<Rightarrow> world \<Rightarrow> fault + nat \<times> (relay_end \<times> outcome) option \<times> world" where
  "relay_main fuel L pton k argv opened wa ws =
     (if length argv < 3 then Inr (1, None, ws)
      else if \<not> opened then Inr (1, None, ws)
      else case dnswire_reader_init L wa of (res, r, wa1) \<Rightarrow>
        if res \<noteq> dnswire_ok then Inr (1, None, ws)
        else case dnswire_writer_init L ws of (res', h, ws1) \<Rightarrow>
          if res' \<noteq> dnswire_ok then Inr (1, None, ws1)
          else case dnswire_writer_set_bidirectional ws1 h True of (res'', h1, ws2) \<Rightarrow>
            if res'' \<noteq> dnswire_ok then Inr (1, None, ws2)
            else bindF (sender_socket pton k (drop 2 argv)) (\<lambda>(connected, printed).
                 if \<not> connected then Inr (1, None, ws2)
                 else bindF (relay_run fuel L wa1 r ws2 h1) (\<lambda>(e, oc, ws3). Inr (0, Some (e, oc), ws3))))"

section \<open>The conversation with the target\<close>

text \<open>The frames sent for the messages \<open>ms\<close>, by the state of the encoder.\<close>

definition of_messages :: "dnstap list \<Rightarrow> wframe list \<Rightarrow> bool" where
  "of_messages ms fs \<longleftrightarrow> map (\<lambda>f. (fst f, fst (snd f))) fs = map (\<lambda>m. (dnswire_encoder_frames, Some m)) ms"

definition begun :: "dnstap list \<Rightarrow> wframe list \<Rightarrow> bool" where
  "begun ms fs \<longleftrightarrow> map fst (take 2 fs) = [dnswire_encoder_control_ready, dnswire_encoder_control_start] \<and>
     of_messages ms (drop 2 fs)"

fun relayed :: "dnswire_encoder_state \<Rightarrow> dnstap list \<Rightarrow> wframe list \<Rightarrow> bool" where
  "relayed dnswire_encoder_control_ready ms fs \<longleftrightarrow> fs = [] \<and> ms = []"
| "relayed dnswire_encoder_control_start ms fs \<longleftrightarrow> map fst fs = [dnswire_encoder_control_ready] \<and> ms = []"
| "relayed dnswire_encoder_frames ms fs \<longleftrightarrow> begun ms fs"
| "relayed dnswire_encoder_control_stop ms fs \<longleftrightarrow> begun ms fs"
| "relayed dnswire_encoder_done ms fs \<longleftrightarrow>
     fs \<noteq> [] \<and> begun ms (butlast fs) \<and> fst (last fs) = dnswire_encoder_control_stop"
| "relayed s ms fs \<longleftrightarrow> False"

lemma begun_length: "begun ms fs \<Longrightarrow> 2 \<le> length fs"
  by (auto simp: begun_def dest: arg_cong [of _ _ length])

lemma begun_first:
  assumes "map fst fs = [dnswire_encoder_control_ready]" and "fst f = dnswire_encoder_control_start"
  shows "begun [] (fs @ [f])"
proof -
  have "length fs = 1"
    using arg_cong [OF assms(1), of length] by simp
  with assms show ?thesis
    by (simp add: begun_def of_messages_def)
qed

lemma begun_message:
  assumes "begun ms fs" and "fst f = dnswire_encoder_frames" and "fst (snd f) = Some m"
  shows "begun (ms @ [m]) (fs @ [f])"
  using assms begun_length [OF assms(1)] by (simp add: begun_def of_messages_def)

lemma relayed_next:
  assumes "relayed s ms fs" and "encoder_next s = Some (s', res)" and "fst f = s" and "res \<noteq> dnswire_ok"
  shows "relayed s' ms (fs @ [f])"
  using assms begun_first [of fs f] by (cases s) auto

lemma relayed_message:
  assumes "relayed s ms fs" and "encoder_next s = Some (s', dnswire_ok)" and "fst f = s" and "fst (snd f) = Some m"
  shows "s = dnswire_encoder_frames \<and> s' = s \<and> relayed s (ms @ [m]) (fs @ [f])"
  using assms begun_message [of ms fs f m] by (cases s) auto

text \<open>What the writer has sent and holds back, in the middle of the program.\<close>

definition relaying :: "('r, 'w) extlib \<Rightarrow> byte list \<Rightarrow> dnstap list \<Rightarrow> ('r, 'w) dnswire_writer \<Rightarrow> world \<Rightarrow> bool" where
  "relaying L base ms h ws \<longleftrightarrow> writer_ok h \<and> in_phase h \<and>
     (\<exists>fs. list_all (written L) fs \<and> relayed (e_state (wr_encoder h)) ms fs \<and>
        sent ws @ out_pending (wr_out h) = base @ frame_bytes fs)"

definition conversation_of :: "('r, 'w) extlib \<Rightarrow> dnstap list \<Rightarrow> wframe list \<Rightarrow> bool" where
  "conversation_of L ms fs \<longleftrightarrow> list_all (written L) fs \<and> relayed dnswire_encoder_done ms fs"

text \<open>One call in any of the two loops.\<close>

lemma relaying_write:
  assumes L: "extlib_ok L" "tinyframe_consumes L" "tinyframe_nonempty L"
    and s: "relaying L base ms h ws" and w: "dnswire_writer_write L ws h = Inr (res, h', ws')"
    and ne: "res \<noteq> dnswire_error"
  obtains fs gs where "writer_ok h'" and "wrote L ws h (res, h', ws')"
    and "relayed (e_state (wr_encoder h)) ms fs"
    and "list_all (written L) (fs @ gs)" and "sent ws' @ out_pending (wr_out h') = base @ frame_bytes (fs @ gs)"
    and "moved res (e_state (wr_encoder h)) gs (e_state (wr_encoder h'))"
    and "\<forall>f \<in> set gs. fst (snd f) = e_dnstap (wr_encoder h)" and "e_dnstap (wr_encoder h') = e_dnstap (wr_encoder h)"
proof -
  have ok: "writer_ok h" and ph: "in_phase h" using s by (simp_all add: relaying_def)
  from s obtain fs where f: "list_all (written L) fs" "relayed (e_state (wr_encoder h)) ms fs"
    "sent ws @ out_pending (wr_out h) = base @ frame_bytes fs" by (auto simp: relaying_def)
  have ok': "writer_ok h'"
    using writer_write_returns [OF L(1) ok, of ws] w ne by (auto simp: write_post_def)
  have x: "wrote L ws h (res, h', ws')" by (rule write_wrote [OF L ok ph w])
  from x ne obtain gs out where g: "list_all (written L) gs"
    "moved res (e_state (wr_encoder h)) gs (e_state (wr_encoder h'))"
    "\<forall>f \<in> set gs. fst (snd f) = e_dnstap (wr_encoder h)" "sent ws' = sent ws @ out"
    "out @ out_pending (wr_out h') = out_pending (wr_out h) @ frame_bytes gs"
    and d: "e_dnstap (wr_encoder h') = e_dnstap (wr_encoder h)" by (auto simp: wrote_def)
  have "sent ws' @ out_pending (wr_out h') = base @ frame_bytes (fs @ gs)"
    using f(3) g(4,5) by (metis append_assoc frame_bytes_simps(3))
  with f g d ok' x that [of fs gs] show thesis by simp
qed

lemma relayed_moved:
  assumes "relayed s ms fs" and "moved res s gs s'" and "res \<noteq> dnswire_ok"
  shows "relayed s' ms (fs @ gs)" and "s' = dnswire_encoder_done \<Longrightarrow> s \<in> {dnswire_encoder_control_stop, dnswire_encoder_done}"
    and "s' = dnswire_encoder_control_stop \<Longrightarrow> s = s'"
    and "s \<in> {dnswire_encoder_control_stop, dnswire_encoder_done} \<Longrightarrow> s' \<in> {dnswire_encoder_control_stop, dnswire_encoder_done}"
proof -
  from assms(2,3) consider "gs = []" "s' = s"
    | f r where "gs = [f]" "fst f = s" "encoder_next s = Some (s', r)" "r \<noteq> dnswire_ok"
    by (auto simp: moved_def)
  then have "relayed s' ms (fs @ gs) \<and> (s' = dnswire_encoder_done \<longrightarrow> s \<in> {dnswire_encoder_control_stop, dnswire_encoder_done}) \<and>
     (s' = dnswire_encoder_control_stop \<longrightarrow> s = s') \<and>
     (s \<in> {dnswire_encoder_control_stop, dnswire_encoder_done} \<longrightarrow> s' \<in> {dnswire_encoder_control_stop, dnswire_encoder_done})"
  proof cases
    case 2
    have "s \<noteq> dnswire_encoder_control_finish" using assms(1) by auto
    with 2 relayed_next [OF assms(1) 2(3,2,4)] show ?thesis
      by (cases s) (auto simp del: relayed.simps)
  qed (use assms(1) in simp)
  then show "relayed s' ms (fs @ gs)"
    and "s' = dnswire_encoder_done \<Longrightarrow> s \<in> {dnswire_encoder_control_stop, dnswire_encoder_done}"
    and "s' = dnswire_encoder_control_stop \<Longrightarrow> s = s'"
    and "s \<in> {dnswire_encoder_control_stop, dnswire_encoder_done} \<Longrightarrow> s' \<in> {dnswire_encoder_control_stop, dnswire_encoder_done}"
    by blast+
qed

definition stopping :: "('r, 'w) dnswire_writer \<Rightarrow> bool" where
  "stopping h \<longleftrightarrow> e_state (wr_encoder h) \<in> {dnswire_encoder_control_stop, dnswire_encoder_done}"

lemma relaying_again:
  assumes L: "extlib_ok L" "tinyframe_consumes L" "tinyframe_nonempty L"
    and s: "relaying L base ms h ws" and w: "dnswire_writer_write L ws h = Inr (dnswire_again, h', ws')"
  shows "relaying L base ms h' ws' \<and> write_cost ws' h' < write_cost ws h \<and>
       e_dnstap (wr_encoder h') = e_dnstap (wr_encoder h) \<and> (stopping h' \<longrightarrow> stopping h)"
  using L s w
proof (rule relaying_write)
  fix fs gs
  assume x: "writer_ok h'" "wrote L ws h (dnswire_again, h', ws')" "relayed (e_state (wr_encoder h)) ms fs"
    "list_all (written L) (fs @ gs)" "sent ws' @ out_pending (wr_out h') = base @ frame_bytes (fs @ gs)"
    "moved dnswire_again (e_state (wr_encoder h)) gs (e_state (wr_encoder h'))"
    "e_dnstap (wr_encoder h') = e_dnstap (wr_encoder h)"
  note m = relayed_moved [OF x(3,6)]
  have "in_phase h'" "write_cost ws' h' < write_cost ws h"
    using x(2) by (simp_all add: wrote_def)
  moreover have "stopping h' \<longrightarrow> stopping h"
    using m(2,3) by (auto simp: stopping_def)
  ultimately show ?thesis
    using x m(1) unfolding relaying_def by blast
qed simp

lemma relaying_sent:
  assumes L: "extlib_ok L" "tinyframe_consumes L" "tinyframe_nonempty L"
    and s: "relaying L base ms h ws" and w: "dnswire_writer_write L ws h = Inr (dnswire_ok, h', ws')"
  shows "\<exists>m. e_dnstap (wr_encoder h) = Some m \<and> relaying L base (ms @ [m]) h' ws' \<and>
     write_cost ws' h' \<le> write_cost ws h \<and> e_state (wr_encoder h') = dnswire_encoder_frames"
  using L s w
proof (rule relaying_write)
  fix fs gs
  assume x: "writer_ok h'" "wrote L ws h (dnswire_ok, h', ws')" "relayed (e_state (wr_encoder h)) ms fs"
    "list_all (written L) (fs @ gs)" "sent ws' @ out_pending (wr_out h') = base @ frame_bytes (fs @ gs)"
    "moved dnswire_ok (e_state (wr_encoder h)) gs (e_state (wr_encoder h'))"
    "\<forall>f \<in> set gs. fst (snd f) = e_dnstap (wr_encoder h)"
  from x(6) obtain f where f: "gs = [f]" "fst f = e_state (wr_encoder h)"
    "encoder_next (e_state (wr_encoder h)) = Some (e_state (wr_encoder h'), dnswire_ok)"
    by (auto simp: moved_def)
  have e: "e_state (wr_encoder h) = dnswire_encoder_frames"
    using f(3) by (cases "e_state (wr_encoder h)") simp_all
  obtain d bs where fd: "f = (dnswire_encoder_frames, d, bs)"
    using f(2) e by (cases f) auto
  then have "d \<noteq> None"
    using x(4) f(1) written_has_message by fastforce
  then obtain m where m: "e_dnstap (wr_encoder h) = Some m" "fst (snd f) = Some m"
    using x(7) f(1) fd by auto
  note r = relayed_message [OF x(3) f(3,2) m(2)]
  have "in_phase h'" "write_cost ws' h' \<le> write_cost ws h"
    using x(2) by (simp_all add: wrote_def)
  with r m(1) x(1,4,5) f(1) show ?thesis
    unfolding relaying_def by metis
qed simp

lemma relaying_stopped:
  assumes L: "extlib_ok L" "tinyframe_consumes L" "tinyframe_nonempty L"
    and s: "relaying L base ms h ws" and w: "dnswire_writer_write L ws h = Inr (dnswire_endofdata, h', ws')"
  shows "stopping h \<and> (\<exists>fs. conversation_of L ms fs \<and> sent ws' = base @ frame_bytes fs)"
  using L s w
proof (rule relaying_write)
  fix fs gs
  assume x: "wrote L ws h (dnswire_endofdata, h', ws')" "relayed (e_state (wr_encoder h)) ms fs"
    "list_all (written L) (fs @ gs)" "sent ws' @ out_pending (wr_out h') = base @ frame_bytes (fs @ gs)"
    "moved dnswire_endofdata (e_state (wr_encoder h)) gs (e_state (wr_encoder h'))"
  have d: "in_phase h'" "wr_state h' = dnswire_writer_done" "out_pending (wr_out h') = []"
    using x(1) by (simp_all add: wrote_def)
  then have e: "e_state (wr_encoder h') = dnswire_encoder_done"
    by (simp add: in_phase_def)
  note m = relayed_moved [OF x(2,5)]
  have "conversation_of L ms (fs @ gs)"
    using m(1) x(3) by (simp add: conversation_of_def e)
  with m(2) e x(4) d(3) show ?thesis
    unfolding stopping_def by auto
qed simp

text \<open>
  A call that failed or asked for more; the frame of the message may have been encoded. A handle that is
  \<open>refused\<close> counts as one that waits for more.
\<close>

definition unstuck :: "('r, 'w) dnswire_writer \<Rightarrow> ('r, 'w) dnswire_writer" where
  "unstuck h = (if refused h then h\<lparr>wr_state := dnswire_writer_reading_accept\<rparr> else h)"

lemma usable_unstuck:
  assumes "usable h"
  shows "writer_ok (unstuck h)" and "in_phase (unstuck h)" and "wr_encoder (unstuck h) = wr_encoder h"
    and "wr_out (unstuck h) = wr_out h" and "write_cost w (unstuck h) = write_cost w h"
  using assms by (auto simp: unstuck_def usable_def refused_def in_phase_def write_cost_def)

lemma relaying_failed:
  assumes L: "extlib_ok L" and s: "relaying L base ms h ws" and ns: "\<not> stopping h"
    and w: "dnswire_writer_write L ws h = Inr (res, h', ws')"
    and res: "res \<in> {dnswire_error, dnswire_need_more}" and m: "e_dnstap (wr_encoder h) = Some m"
  shows "\<exists>ms'. (ms' = ms \<or> ms' = ms @ [m]) \<and> relaying L base ms' (unstuck h') ws' \<and>
     write_cost ws' (unstuck h') \<le> write_cost ws h \<and> \<not> stopping h' \<and> usable h'"
proof -
  let ?e = "e_state (wr_encoder h)" and ?e' = "e_state (wr_encoder h')"
  from s obtain fs where f: "writer_ok h" "in_phase h" "list_all (written L) fs" "relayed ?e ms fs"
    "sent ws @ out_pending (wr_out h) = base @ frame_bytes fs" by (auto simp: relaying_def)
  have ne: "?e \<notin> {dnswire_encoder_control_stop, dnswire_encoder_done}"
    using ns by (simp add: stopping_def)
  from write_keeps [OF L f(1,2) ne w res] obtain gs out where k: "usable h'"
    "write_cost ws' h' \<le> write_cost ws h" "list_all (written L) gs"
    "gs = [] \<and> ?e' = ?e \<or> (\<exists>g r. gs = [g] \<and> fst g = ?e \<and> fst (snd g) = e_dnstap (wr_encoder h) \<and>
        encoder_next ?e = Some (?e', r))"
    "sent ws' = sent ws @ out" "out @ out_pending (wr_out h') = out_pending (wr_out h) @ frame_bytes gs"
    by (auto simp: keeps_def)
  have b: "sent ws' @ out_pending (wr_out h') = base @ frame_bytes (fs @ gs)"
    using f(5) k(5,6) by (metis append_assoc frame_bytes_simps(3))
  have "\<exists>ms'. (ms' = ms \<or> ms' = ms @ [m]) \<and> relayed ?e' ms' (fs @ gs) \<and> \<not> stopping h'"
    using k(4)
  proof (elim disjE exE conjE)
    fix g r
    assume g: "gs = [g]" "fst g = ?e" "fst (snd g) = e_dnstap (wr_encoder h)" "encoder_next ?e = Some (?e', r)"
    have "\<not> stopping h'"
      using g(4) ne f(4) by (cases ?e) (auto simp: stopping_def)
    then show ?thesis
      using relayed_message [OF f(4), of ?e' g m] relayed_next [OF f(4) g(4,2)] g m
      by (cases "r = dnswire_ok") auto
  qed (use f(4) ne in \<open>auto simp: stopping_def\<close>)
  then obtain ms' where "ms' = ms \<or> ms' = ms @ [m]" "relayed ?e' ms' (fs @ gs)" "\<not> stopping h'" by blast
  with usable_unstuck [OF k(1)] k f(3) b show ?thesis
    unfolding relaying_def by (intro exI [of _ ms']) (auto intro!: exI [of _ "fs @ gs"])
qed

section \<open>The loops\<close>

lemma decoded_encodable:
  assumes "dnstap_decode_protobuf L d0 data = Inr (0, m)"
  shows "encodable m"
proof -
  have un: "d_unpacked d0 = None"
    using assms by (auto simp: dnstap_decode_protobuf_def bindF_eq_Inr)
  obtain t where "pb_unpack L data = Some t"
    using assms decode_fails [OF un, of L data] by (cases "pb_unpack L data") auto
  with decode_wire [OF un] assms show ?thesis
    by (fastforce simp: encodable_def)
qed

text \<open>Between two messages the encoder has sent all that were received.\<close>

definition between :: "dnstap list \<Rightarrow> ('r, 'w) dnswire_writer \<Rightarrow> bool" where
  "between ms h \<longleftrightarrow> e_state (wr_encoder h) =
     (if ms = [] then dnswire_encoder_control_ready else dnswire_encoder_frames)"

lemma relaying_set:
  assumes "relaying L base ms h ws" and "encodable m"
  shows "relaying L base ms (dnswire_writer_set_dnstap h m) ws"
    and "e_dnstap (wr_encoder (dnswire_writer_set_dnstap h m)) = Some m"
    and "write_cost ws (dnswire_writer_set_dnstap h m) = write_cost ws h"
    and "stopping (dnswire_writer_set_dnstap h m) = stopping h"
proof -
  have sel: "e_state (wr_encoder (dnswire_writer_set_dnstap h m)) = e_state (wr_encoder h)"
    "wr_state (dnswire_writer_set_dnstap h m) = wr_state h" "wr_in (dnswire_writer_set_dnstap h m) = wr_in h"
    "wr_out (dnswire_writer_set_dnstap h m) = wr_out h"
    by (simp_all add: dnswire_writer_set_dnstap_def dnswire_encoder_set_dnstap_def)
  have "writer_ok (dnswire_writer_set_dnstap h m)"
    using assms by (simp add: relaying_def dnswire_writer_set_dnstap_def dnswire_encoder_set_dnstap_def
        writer_ok_def encoder_ok_def)
  with assms(1) show "relaying L base ms (dnswire_writer_set_dnstap h m) ws"
    by (auto simp: relaying_def in_phase_def sel)
  show "e_dnstap (wr_encoder (dnswire_writer_set_dnstap h m)) = Some m"
    by (simp add: dnswire_writer_set_dnstap_def dnswire_encoder_set_dnstap_def)
  show "write_cost ws (dnswire_writer_set_dnstap h m) = write_cost ws h"
    by (simp add: write_cost_def sel)
  show "stopping (dnswire_writer_set_dnstap h m) = stopping h"
    by (simp add: stopping_def sel)
qed

lemma relay_message_ends:
  assumes L: "extlib_ok L" "tinyframe_consumes L" "tinyframe_nonempty L"
    and "relaying L base ms h ws" and "\<not> stopping h" and "e_dnstap (wr_encoder h) = Some m"
    and "write_cost ws h < fuel"
  shows "\<exists>ok h' ws' ms'. relay_message fuel L ws h = Inr (ok, h', ws') \<and> (ms' = ms \<or> ms' = ms @ [m]) \<and>
     relaying L base ms' (unstuck h') ws' \<and> usable h' \<and> write_cost ws' (unstuck h') \<le> write_cost ws h \<and>
     \<not> stopping h' \<and>
     (ok \<longrightarrow> relaying L base (ms @ [m]) h' ws' \<and> between (ms @ [m]) h' \<and> write_cost ws' h' \<le> write_cost ws h)"
  using assms(4-)
proof (induction fuel arbitrary: h ws)
  case (Suc fuel)
  have ok: "writer_ok h" using Suc.prems(1) by (simp add: relaying_def)
  from writer_write_returns [OF L(1) ok, of ws] obtain res h1 ws1 where
    r: "dnswire_writer_write L ws h = Inr (res, h1, ws1)" by (metis prod_cases3)
  consider (sent) "res = dnswire_ok" | (more) "res = dnswire_again"
    | (failed) "res \<in> {dnswire_error, dnswire_need_more}"
    using write_results [OF L(1) _ _ _ r] Suc.prems(1,2) by (auto simp: relaying_def stopping_def)
  then show ?case
  proof cases
    case sent
    with relaying_sent [OF L Suc.prems(1)] r Suc.prems(3) have
      s: "relaying L base (ms @ [m]) h1 ws1" "write_cost ws1 h1 \<le> write_cost ws h"
        "e_state (wr_encoder h1) = dnswire_encoder_frames" by auto
    have u: "unstuck h1 = h1" "usable h1"
      using s(1) by (auto simp: relaying_def unstuck_def usable_def refused_def writer_ok_def)
    with s r sent show ?thesis
      by (intro exI [of _ True] exI [of _ h1] exI [of _ ws1] exI [of _ "ms @ [m]"])
        (simp add: between_def stopping_def)
  next
    case more
    with relaying_again [OF L Suc.prems(1)] r have
      s: "relaying L base ms h1 ws1" "write_cost ws1 h1 < write_cost ws h" "\<not> stopping h1"
        "e_dnstap (wr_encoder h1) = Some m" using Suc.prems(2,3) by auto
    with Suc.IH [OF s(1,3,4)] Suc.prems(4) obtain ok' h' ws' ms' where
      "relay_message fuel L ws1 h1 = Inr (ok', h', ws')" "ms' = ms \<or> ms' = ms @ [m]"
      "relaying L base ms' (unstuck h') ws'" "usable h'" "write_cost ws' (unstuck h') \<le> write_cost ws1 h1"
      "\<not> stopping h'"
      "ok' \<longrightarrow> relaying L base (ms @ [m]) h' ws' \<and> between (ms @ [m]) h' \<and> write_cost ws' h' \<le> write_cost ws1 h1"
      by auto
    with s(2) r more show ?thesis
      by (intro exI [of _ ok'] exI [of _ h'] exI [of _ ws'] exI [of _ ms']) auto
  next
    case failed
    from relaying_failed [OF L(1) Suc.prems(1,2) r failed Suc.prems(3)] obtain ms' where
      "ms' = ms \<or> ms' = ms @ [m]" "relaying L base ms' (unstuck h1) ws1"
      "write_cost ws1 (unstuck h1) \<le> write_cost ws h" "\<not> stopping h1" "usable h1" by blast
    with r failed show ?thesis
      by (intro exI [of _ False] exI [of _ h1] exI [of _ ws1] exI [of _ ms']) auto
  qed
qed simp

text \<open>
  Where the outer loop ends: the messages \<open>ms\<close> were received, and all of them were sent, or all but the
  last one when the target failed.
\<close>

definition passed_on :: "('r, 'w) extlib \<Rightarrow> byte list \<Rightarrow> ('r, 'w) dnswire_reader \<Rightarrow> byte list \<Rightarrow> relay_end \<Rightarrow>
    ('r, 'w) dnswire_writer \<Rightarrow> world \<Rightarrow> bool" where
  "passed_on L base r0 content e h ws \<longleftrightarrow> (\<exists>inp rest ms r. receives L r0 inp ms r \<and> content = inp @ rest \<and>
     (e = Source_ended \<longrightarrow> dc_state (r_decoder r) = dnswire_decoder_done) \<and>
     (if e = Target_broken
      then ms \<noteq> [] \<and> usable h \<and> \<not> stopping h \<and>
        (relaying L base ms (unstuck h) ws \<or> relaying L base (butlast ms) (unstuck h) ws)
      else relaying L base ms h ws \<and> between ms h))"

lemma between_not_stopping: "between ms h \<Longrightarrow> \<not> stopping h"
  by (auto simp: between_def stopping_def split: if_splits)

lemma passed_on_read:
  assumes "received_to L r0 content ms w r" and "relaying L base ms h ws" and "between ms h"
    and "e = Source_ended \<longrightarrow> dc_state (r_decoder r) = dnswire_decoder_done"
    and "e \<noteq> Target_broken"
  shows "passed_on L base r0 content e h ws"
  using assms unfolding passed_on_def received_to_def by auto

lemma passed_on_broken:
  assumes "received_to L r0 content (ms @ [m]) w r" and "ms' = ms \<or> ms' = ms @ [m]"
    and "relaying L base ms' (unstuck h) ws" and "usable h" and "\<not> stopping h"
  shows "passed_on L base r0 content Target_broken h ws"
proof -
  from assms(1) obtain inp where "receives L r0 inp (ms @ [m]) r" "content = inp @ inbox w"
    by (auto simp: received_to_def)
  with assms(2-) show ?thesis
    unfolding passed_on_def
    by (intro exI [of _ inp] exI [of _ "inbox w"] exI [of _ "ms @ [m]"] exI [of _ r]) auto
qed

lemma relay_loop_ends:
  assumes L: "extlib_ok L" "tinyframe_consumes L" "tinyframe_nonempty L"
    and "received_to L r0 content ms wa r"
    and "relaying L base ms h ws" and "between ms h" and "read_cost wa r + write_cost ws h < fuel"
  shows "\<exists>e r' wa' h' ws'. relay_loop fuel L wa r ws h = Inr (e, r', wa', h', ws') \<and>
     decoder_ok (r_decoder r') \<and> passed_on L base r0 content e h' ws' \<and>
     write_cost ws' (unstuck h') \<le> write_cost ws h"
  using assms(4-)
proof (induction fuel arbitrary: wa r ws h ms)
  case (Suc fuel)
  note rel = Suc.prems(2) and bt = Suc.prems(3) and cost = Suc.prems(4)
  have u: "unstuck h = h"
    using rel by (auto simp: unstuck_def refused_def relaying_def writer_ok_def)
  from loop_read [OF L(1,2) Suc.prems(1)] obtain res r1 wa1 where
    r: "dnswire_reader_fread L wa r = Inr (res, r1, wa1)" "decoder_ok (r_decoder r1)"
      "goes_on res \<longrightarrow> read_cost wa1 r1 < read_cost wa r"
      "res = dnswire_endofdata \<longrightarrow> dc_state (r_decoder r1) = dnswire_decoder_done"
      "res = dnswire_have_dnstap \<longrightarrow> (\<exists>d0 bs. dnstap_decode_protobuf L d0 bs = Inr (0, dc_dnstap (r_decoder r1)))"
      "res \<noteq> dnswire_error \<longrightarrow> received_to L r0 content
        (if res = dnswire_have_dnstap then ms @ [dc_dnstap (r_decoder r1)] else ms) wa1 r1" by blast
  consider (more) "res \<in> {dnswire_again, dnswire_need_more}" | (got) "res = dnswire_have_dnstap"
    | (stop) "res = dnswire_endofdata" | (broken) "res \<in> {dnswire_ok, dnswire_error, dnswire_bidirectional}"
    by (cases res) auto
  then show ?case
  proof cases
    case more
    then have "received_to L r0 content ms wa1 r1" "goes_on res" using r(6) by (auto simp: goes_on_def)
    from Suc.IH [OF this(1) rel bt] r(1,3) this(2) cost more show ?thesis by auto
  next
    case got
    let ?m = "dc_dnstap (r_decoder r1)"
    have g: "received_to L r0 content (ms @ [?m]) wa1 r1" "goes_on res" using r(6) got by (auto simp: goes_on_def)
    from r(5) got have "encodable ?m" by (auto intro: decoded_encodable)
    note s = relaying_set [OF rel this]
    have ns: "\<not> stopping (dnswire_writer_set_dnstap h ?m)" using between_not_stopping [OF bt] s(4) by simp
    have "write_cost ws (dnswire_writer_set_dnstap h ?m) < fuel" using cost r(3) g(2) s(3) by simp
    from relay_message_ends [OF L s(1) ns s(2) this] obtain sent h1 ws1 ms' where
      m: "relay_message fuel L ws (dnswire_writer_set_dnstap h ?m) = Inr (sent, h1, ws1)"
        "ms' = ms \<or> ms' = ms @ [?m]" "relaying L base ms' (unstuck h1) ws1" "usable h1"
        "write_cost ws1 (unstuck h1) \<le> write_cost ws h" "\<not> stopping h1"
        "sent \<longrightarrow> relaying L base (ms @ [?m]) h1 ws1 \<and> between (ms @ [?m]) h1 \<and>
           write_cost ws1 h1 \<le> write_cost ws h"
      unfolding s(3) by blast
    show ?thesis
    proof (cases sent)
      case True
      with m(7) have n: "relaying L base (ms @ [?m]) h1 ws1" "between (ms @ [?m]) h1"
        "write_cost ws1 h1 \<le> write_cost ws h" by blast+
      have "read_cost wa1 r1 + write_cost ws1 h1 < fuel" using n(3) r(3) g(2) cost by simp
      from Suc.IH [OF g(1) n(1,2) this] n(3) True m(1) got r(1) show ?thesis by fastforce
    next
      case False
      with passed_on_broken [OF g(1) m(2,3,4,6)] m(1,5) r(1,2) got show ?thesis by simp
    qed
  next
    case stop
    then have "received_to L r0 content ms wa1 r1" using r(6) by simp
    from passed_on_read [OF this rel bt, of Source_ended] stop r(1,2,4) u show ?thesis by simp
  next
    case broken
    from passed_on_read [OF Suc.prems(1) rel bt, of Source_broken] broken r(1,2) u show ?thesis by auto
  qed
qed simp

lemma relay_stop_loop_ends:
  assumes L: "extlib_ok L" "tinyframe_consumes L" "tinyframe_nonempty L"
    and "relaying L base ms h ws" and "write_cost ws h < fuel"
  shows "\<exists>oc h' ws'. relay_stop_loop fuel L ws h = Inr (oc, h', ws') \<and>
     (oc = Stopped \<longrightarrow> stopping h \<and> (\<exists>fs. conversation_of L ms fs \<and> sent ws' = base @ frame_bytes fs))"
  using assms(4-)
proof (induction fuel arbitrary: h ws)
  case (Suc fuel)
  have ok: "writer_ok h" using Suc.prems(1) by (simp add: relaying_def)
  from writer_write_returns [OF L(1) ok, of ws] obtain res h1 ws1 where
    r: "dnswire_writer_write L ws h = Inr (res, h1, ws1)" by (metis prod_cases3)
  show ?case
  proof (cases "res = dnswire_again")
    case True
    with relaying_again [OF L Suc.prems(1)] r have
      s: "relaying L base ms h1 ws1" "write_cost ws1 h1 < write_cost ws h" "stopping h1 \<longrightarrow> stopping h" by auto
    from Suc.IH [OF s(1)] s(2,3) Suc.prems(2) r True show ?thesis by auto
  next
    case False
    with relaying_stopped [OF L Suc.prems(1)] r show ?thesis by (cases res) auto
  qed
qed simp

lemma stop_frames:
  assumes "relaying L base ms h ws" and "e_state (wr_encoder h) = dnswire_encoder_frames"
  shows "\<exists>h'. dnswire_writer_stop h = (dnswire_ok, h') \<and> relaying L base ms h' ws \<and> write_cost ws h' \<le> write_cost ws h"
proof -
  let ?h = "h\<lparr>wr_encoder := (wr_encoder h)\<lparr>e_state := dnswire_encoder_control_stop\<rparr>,
           wr_state := dnswire_writer_stopping\<rparr>"
  have st: "dnswire_writer_stop h = (dnswire_ok, ?h)"
    using assms(2) by (simp add: dnswire_writer_stop_def dnswire_encoder_stop_def Let_def)
  have ok: "writer_ok h" using assms(1) by (simp add: relaying_def)
  from assms(1) obtain fs where "list_all (written L) fs" "relayed (e_state (wr_encoder h)) ms fs"
    "sent ws @ out_pending (wr_out h) = base @ frame_bytes fs" by (auto simp: relaying_def)
  with writer_stop_ok [OF ok st] have "relaying L base ms ?h ws"
    unfolding relaying_def by (intro conjI exI [of _ fs]) (simp_all add: in_phase_def assms(2))
  moreover have "write_cost ws ?h \<le> write_cost ws h"
    using assms(2) by (simp add: write_cost_def)
  ultimately show ?thesis
    using st by blast
qed

lemma stop_other:
  assumes "e_state (wr_encoder h) \<noteq> dnswire_encoder_frames"
  shows "snd (dnswire_writer_stop h) = h"
  using assms by (cases "e_state (wr_encoder h)")
    (simp_all add: dnswire_writer_stop_def dnswire_encoder_stop_def Let_def)

text \<open>A refused handle that cannot be stopped faults in the next call.\<close>

lemma refused_write:
  assumes "refused h"
  shows "dnswire_writer_write L w h = Inl Assert_failed"
proof -
  let ?h = "h\<lparr>wr_state := dnswire_writer_reading_accept\<rparr>"
  have h: "wr_state h = dnswire_writer_decoding_accept" "in_live (wr_in h) = []" "writer_ok ?h"
    using assms by (simp_all add: refused_def)
  have buf: "o_buf (wr_out h) \<noteq> None" using writer_okD(1) [OF h(3)] by (auto elim: out_okD)
  have "wr_bidirectional ?h" using h(3) by (simp add: writer_ok_def)
  from writer_okD(4) [OF h(3) this] have "in_load (wr_in h) = Inr []"
    using in_load_live [of "wr_in h"] h(2) by simp
  then show ?thesis
    using h(1) buf by (simp add: dnswire_writer_write_def write_decoding_accept_def pop_decoding_accept_def
        dnswire_decoder_decode_def)
qed

lemma relay_stop_ends:
  assumes L: "extlib_ok L" "tinyframe_consumes L" "tinyframe_nonempty L"
    and u: "usable h" and s: "relaying L base ms (unstuck h) ws" and ns: "\<not> stopping h"
    and f: "write_cost ws (unstuck h) < fuel"
  shows "refused h \<and> relay_stop fuel L ws h = Inl Assert_failed \<or>
    (\<exists>oc h' ws'. relay_stop fuel L ws h = Inr (oc, h', ws') \<and>
       (oc = Stopped \<longrightarrow> e_state (wr_encoder h) = dnswire_encoder_frames \<and>
          (\<exists>fs. conversation_of L ms fs \<and> sent ws' = base @ frame_bytes fs)))"
proof (cases "e_state (wr_encoder h) = dnswire_encoder_frames")
  case True
  then have e: "e_state (wr_encoder (unstuck h)) = dnswire_encoder_frames"
    using usable_unstuck(3) [OF u] by simp
  from stop_frames [OF s e] obtain h1 where
    h1: "dnswire_writer_stop (unstuck h) = (dnswire_ok, h1)" "relaying L base ms h1 ws"
      "write_cost ws h1 \<le> write_cost ws (unstuck h)" by blast
  have "dnswire_writer_stop (unstuck h) = dnswire_writer_stop h"
    using True by (simp add: unstuck_def dnswire_writer_stop_def dnswire_encoder_stop_def Let_def)
  with h1 relay_stop_loop_ends [OF L h1(2), of fuel] f True show ?thesis
    by (auto simp: relay_stop_def)
next
  case False
  note st = stop_other [OF False]
  show ?thesis
  proof (cases "refused h")
    case True
    obtain n where "fuel = Suc n" using f by (cases fuel) auto
    with True refused_write [OF True, of L ws] st show ?thesis by (simp add: relay_stop_def)
  next
    case ok: False
    then have "unstuck h = h" by (simp add: unstuck_def)
    with relay_stop_loop_ends [OF L, of base ms h ws fuel] s f ns show ?thesis
      by (auto simp: relay_stop_def st)
  qed
qed

section \<open>The program\<close>

text \<open>
  What a run comes to: the setup fails; or the messages \<open>ms\<close> were received from the file, and a stream that
  was stopped has exactly these, or all but the last one when sending that failed; or the program aborts
  because the target refused the content type.
\<close>

definition relays :: "('r, 'w) extlib \<Rightarrow> nat \<Rightarrow> world \<Rightarrow> world \<Rightarrow>
    fault + nat \<times> (relay_end \<times> outcome) option \<times> world \<Rightarrow> bool" where
  "relays L fuel wa ws x \<longleftrightarrow> (\<exists>ws'. x = Inr (1, None, ws')) \<or>
     (\<exists>r0 wa1 inp rest ms r e. dnswire_reader_init L wa = (dnswire_ok, r0, wa1) \<and>
        receives L r0 inp ms r \<and> inbox wa = inp @ rest \<and>
        ((\<exists>oc ws'. x = Inr (0, Some (e, oc), ws') \<and>
            (e = Source_ended \<longrightarrow> dc_state (r_decoder r) = dnswire_decoder_done) \<and>
            (oc = Stopped \<longrightarrow> ms \<noteq> [] \<and> (\<exists>fs ms'. conversation_of L ms' fs \<and>
               sent ws' = sent ws @ frame_bytes fs \<and> (ms' = ms \<or> e = Target_broken \<and> ms' = butlast ms)))) \<or>
         x = Inl Assert_failed \<and>
           (\<exists>hi wi h0 ws0 r1 wa2 h ws1. dnswire_writer_init L ws = (dnswire_ok, hi, wi) \<and>
              dnswire_writer_set_bidirectional wi hi True = (dnswire_ok, h0, ws0) \<and>
              relay_loop fuel L wa1 r0 ws0 h0 = Inr (Target_broken, r1, wa2, h, ws1) \<and> refused h)))"

lemma passed_on_stops:
  assumes L: "extlib_ok L" "tinyframe_consumes L" "tinyframe_nonempty L"
    and p: "passed_on L base r0 content e h ws" and f: "write_cost ws (unstuck h) < fuel"
  obtains inp rest ms r where "receives L r0 inp ms r" and "content = inp @ rest"
    and "e = Source_ended \<Longrightarrow> dc_state (r_decoder r) = dnswire_decoder_done"
    and "e = Target_broken \<and> refused h \<and> relay_stop fuel L ws h = Inl Assert_failed \<or>
      (\<exists>oc h' ws'. relay_stop fuel L ws h = Inr (oc, h', ws') \<and>
        (oc = Stopped \<longrightarrow> ms \<noteq> [] \<and> (\<exists>fs ms'. conversation_of L ms' fs \<and>
           sent ws' = base @ frame_bytes fs \<and> (ms' = ms \<or> e = Target_broken \<and> ms' = butlast ms))))"
proof -
  from p obtain inp rest ms r where r: "receives L r0 inp ms r" "content = inp @ rest"
    "e = Source_ended \<Longrightarrow> dc_state (r_decoder r) = dnswire_decoder_done"
    and t: "if e = Target_broken
      then ms \<noteq> [] \<and> usable h \<and> \<not> stopping h \<and>
        (relaying L base ms (unstuck h) ws \<or> relaying L base (butlast ms) (unstuck h) ws)
      else relaying L base ms h ws \<and> between ms h"
    unfolding passed_on_def by blast
  note result = that [OF r]
  show thesis
  proof (cases "e = Target_broken")
    case True
    with t obtain ms' where m: "ms \<noteq> []" "usable h" "\<not> stopping h" "ms' = ms \<or> ms' = butlast ms"
      "relaying L base ms' (unstuck h) ws" by auto
    from relay_stop_ends [OF L m(2,5,3) f] show thesis
      by (rule disjE) (rule result; use True m in blast)+
  next
    case False
    with t have rel: "relaying L base ms h ws" and b: "between ms h" by simp_all
    have nr: "\<not> refused h" using rel by (auto simp: refused_def relaying_def writer_ok_def)
    then have u: "unstuck h = h" "usable h" using rel by (auto simp: unstuck_def usable_def relaying_def)
    have "e_state (wr_encoder h) = dnswire_encoder_frames \<Longrightarrow> ms \<noteq> []"
      using b by (auto simp: between_def)
    with relay_stop_ends [OF L u(2), of base ms ws fuel] u(1) rel f nr between_not_stopping [OF b]
    obtain oc h' ws' where "relay_stop fuel L ws h = Inr (oc, h', ws')"
      "oc = Stopped \<longrightarrow> ms \<noteq> [] \<and> (\<exists>fs. conversation_of L ms fs \<and> sent ws' = base @ frame_bytes fs)"
      by auto
    then show thesis
      by (intro result disjI2 exI [of _ oc] exI [of _ h'] exI [of _ ws'] conjI) blast+
  qed
qed

lemma relay_starts:
  assumes i: "dnswire_writer_init L ws = (dnswire_ok, h, ws1)"
    and b: "dnswire_writer_set_bidirectional ws1 h True = (dnswire_ok, h1, ws2)"
  shows "relaying L (sent ws) [] h1 ws2" and "between [] h1"
    and "write_cost ws2 h1 = length (writes ws) + length (reads ws) + length (inbox ws) + 8"
proof -
  have d: "encodable toy_msg" by (simp add: encodable_def toy_msg_wire)
  let ?h = "dnswire_writer_set_dnstap h1 toy_msg"
  note u = bidirectional_set_up [OF i d b] and s = set_bidirectional_sound [OF i b]
  have sel: "wr_state ?h = wr_state h1" "wr_in ?h = wr_in h1" "wr_out ?h = wr_out h1"
    "e_state (wr_encoder ?h) = e_state (wr_encoder h1)"
    by (simp_all add: dnswire_writer_set_dnstap_def dnswire_encoder_set_dnstap_def)
  have "in_phase h1" using u(2) unfolding in_phase_def sel .
  moreover have "sent ws2 @ out_pending (wr_out h1) = sent ws"
    using u(3) by (auto simp: sending_def sel)
  ultimately show "relaying L (sent ws) [] h1 ws2"
    unfolding relaying_def using s by (intro conjI exI [of _ "[]"]) simp_all
  show "between [] h1" using s by (simp add: between_def)
  show "write_cost ws2 h1 = length (writes ws) + length (reads ws) + length (inbox ws) + 8"
    using u(5) by (simp add: write_cost_def sel)
qed

lemma relay_run_relays:
  assumes L: "extlib_ok L" "tinyframe_consumes L" "tinyframe_nonempty L"
    and ok: "dnswire_reader_init L wa = (dnswire_ok, r0, wa1)" "dnswire_writer_init L ws = (dnswire_ok, h, ws1)"
      "dnswire_writer_set_bidirectional ws1 h True = (dnswire_ok, h1, ws2)"
    and f: "2 * (length (reads wa) + length (writes wa) + length (inbox wa)) +
      length (reads ws) + length (writes ws) + length (inbox ws) + 8 < fuel"
  shows "relays L fuel wa ws
     (bindF (relay_run fuel L wa1 r0 ws2 h1) (\<lambda>(e, oc, ws3). Inr (0, Some (e, oc), ws3)))"
proof -
  let "relays L fuel wa ws ?x" = ?thesis
  note rs = reader_init_sound [OF ok(1)] and io = reader_init_io [OF ok(1)] and st = relay_starts [OF ok(2,3)]
  have "read_cost wa1 r0 + write_cost ws2 h1 < fuel" "inbox wa = inbox wa1"
    using io f by (simp_all add: read_cost_def same_io_def rs awaiting_decode_def st(3))
  note c = this
  have "r_state r0 = dnswire_reader_reading_control" by (simp add: rs)
  from relay_loop_ends [OF L received_start [OF rs(1) this c(2)] st(1,2) c(1)] obtain e r1 wa2 h2 ws3 where
    l: "relay_loop fuel L wa1 r0 ws2 h1 = Inr (e, r1, wa2, h2, ws3)" "decoder_ok (r_decoder r1)"
      "passed_on L (sent ws) r0 (inbox wa) e h2 ws3" "write_cost ws3 (unstuck h2) \<le> write_cost ws2 h1" by blast
  have "write_cost ws3 (unstuck h2) < fuel" using l(4) f by (simp add: st(3))
  from L l(3) this show ?thesis
  proof (rule passed_on_stops)
    fix inp rest ms r
    assume r: "receives L r0 inp ms r" "inbox wa = inp @ rest"
      "e = Source_ended \<Longrightarrow> dc_state (r_decoder r) = dnswire_decoder_done"
      and t: "e = Target_broken \<and> refused h2 \<and> relay_stop fuel L ws3 h2 = Inl Assert_failed \<or>
        (\<exists>oc h' ws'. relay_stop fuel L ws3 h2 = Inr (oc, h', ws') \<and>
          (oc = Stopped \<longrightarrow> ms \<noteq> [] \<and> (\<exists>fs ms'. conversation_of L ms' fs \<and>
             sent ws' = sent ws @ frame_bytes fs \<and> (ms' = ms \<or> e = Target_broken \<and> ms' = butlast ms))))"
    from t show ?thesis
    proof (elim disjE conjE exE)
      assume a: "e = Target_broken" "refused h2" "relay_stop fuel L ws3 h2 = Inl Assert_failed"
      have "?x = Inl Assert_failed"
        by (simp add: relay_run_def l(1) a(3))
      with a ok r l(1) show ?thesis unfolding relays_def by blast
    next
      fix oc h' ws'
      assume a: "relay_stop fuel L ws3 h2 = Inr (oc, h', ws')"
        "oc = Stopped \<longrightarrow> ms \<noteq> [] \<and> (\<exists>fs ms'. conversation_of L ms' fs \<and>
             sent ws' = sent ws @ frame_bytes fs \<and> (ms' = ms \<or> e = Target_broken \<and> ms' = butlast ms))"
      have "?x = Inr (0, Some (e, oc), ws')"
        by (simp add: relay_run_def l(1) a(1) reader_destroyed [OF l(2)])
      with a(2) ok(1) r show ?thesis unfolding relays_def by blast
    qed
  qed
qed

lemma relay_main_relays:
  assumes L: "extlib_ok L" "tinyframe_consumes L" "tinyframe_nonempty L" and n: "inet_pton_ok pton"
    and f: "2 * (length (reads wa) + length (writes wa) + length (inbox wa)) +
      length (reads ws) + length (writes ws) + length (inbox ws) + 8 < fuel"
  shows "relays L fuel wa ws (relay_main fuel L pton k argv opened wa ws)"
proof -
  obtain res r0 wa1 where i: "dnswire_reader_init L wa = (res, r0, wa1)" by (cases "dnswire_reader_init L wa")
  obtain res' h ws1 where j: "dnswire_writer_init L ws = (res', h, ws1)" by (cases "dnswire_writer_init L ws")
  obtain res'' h1 ws2 where b: "dnswire_writer_set_bidirectional ws1 h True = (res'', h1, ws2)"
    by (cases "dnswire_writer_set_bidirectional ws1 h True")
  from sender_socket_returns [OF n] obtain connected t where
    s: "sender_socket pton k (drop 2 argv) = Inr (connected, t)" by blast
  note eval = relay_main_def i j b s
  show ?thesis
  proof (cases "length argv < 3 \<or> \<not> opened \<or> res \<noteq> dnswire_ok \<or> res' \<noteq> dnswire_ok \<or> res'' \<noteq> dnswire_ok \<or> \<not> connected")
    case True
    then have "\<exists>ws'. relay_main fuel L pton k argv opened wa ws = Inr (1, None, ws')"
      by (auto simp: eval)
    then show ?thesis by (simp add: relays_def)
  next
    case False
    with i j b have "dnswire_reader_init L wa = (dnswire_ok, r0, wa1)"
      "dnswire_writer_init L ws = (dnswire_ok, h, ws1)"
      "dnswire_writer_set_bidirectional ws1 h True = (dnswire_ok, h1, ws2)" by simp_all
    from relay_run_relays [OF L this f] False show ?thesis by (simp add: eval)
  qed
qed

text \<open>
  C22: \<open>reader_sender\<close> comes to an end, whatever the file holds and whatever the kernel, the allocator and
  the target answer, also when it goes on using the writer after an error. When it reports that the stream
  is stopped, it has sent one complete conversation, READY, START, messages, STOP, and its messages are
  exactly those received from the file, in order, except for the last one if sending that failed. The only
  fault is the assertion of the decoder, after the loop has left the writer \<open>refused\<close>: the target refused
  the content type and nothing is left to decode.
\<close>
theorem relay_forwards:
  assumes "extlib_ok L" and "tinyframe_consumes L" and "tinyframe_nonempty L" and "inet_pton_ok pton"
    and "2 * (length (reads wa) + length (writes wa) + length (inbox wa)) +
      length (reads ws) + length (writes ws) + length (inbox ws) + 8 < fuel"
  shows "relays L fuel wa ws (relay_main fuel L pton k argv opened wa ws)"
  by (rule relay_main_relays [OF assms])

text \<open>
  What is left of an ACCEPT that refuses: \<open>k + 1\<close> calls of the decoder take all the bytes at hand, every one
  but the last leaves some, and the last one ends the ACCEPT without the content type among its fields.
\<close>

primrec refuses :: "('r, 'w) extlib \<Rightarrow> nat \<Rightarrow> 'r dnswire_decoder \<Rightarrow> byte list \<Rightarrow> bool" where
  "refuses L 0 d bytes \<longleftrightarrow> (case dnswire_decoder_decode L d bytes of
      Inr (dnswire_bidirectional, d') \<Rightarrow>
        dnswire_decoder_decoded L d' = length bytes \<and> \<not> dc_accept_support_dnstap_protobuf d'
    | _ \<Rightarrow> False)"
| "refuses L (Suc k) d bytes \<longleftrightarrow> (case dnswire_decoder_decode L d bytes of
      Inr (dnswire_again, d') \<Rightarrow>
        dnswire_decoder_decoded L d' < length bytes \<and> refuses L k d' (drop (dnswire_decoder_decoded L d') bytes)
    | _ \<Rightarrow> False)"

lemma refuses_simps:
  "refuses L 0 d bytes \<longleftrightarrow> (\<exists>d'. dnswire_decoder_decode L d bytes = Inr (dnswire_bidirectional, d') \<and>
     dnswire_decoder_decoded L d' = length bytes \<and> \<not> dc_accept_support_dnstap_protobuf d')"
  "refuses L (Suc k) d bytes \<longleftrightarrow> (\<exists>d'. dnswire_decoder_decode L d bytes = Inr (dnswire_again, d') \<and>
     dnswire_decoder_decoded L d' < length bytes \<and> refuses L k d' (drop (dnswire_decoder_decoded L d') bytes))"
  by (auto split: sum.splits prod.splits dnswire_result.splits)

lemma write_decoding_write:
  assumes "writer_ok h" and "wr_state h = dnswire_writer_decoding_accept"
  shows "dnswire_writer_write L w h = pop_decoding_accept L w h"
  using writer_okD(1) [OF assms(1)] assms(2)
  by (auto elim!: out_okD simp: dnswire_writer_write_def write_decoding_accept_def)

lemma refusing:
  assumes L: "extlib_ok L" and "writer_ok h" and "in_phase h" and "wr_state h = dnswire_writer_decoding_accept"
    and "refuses L k (wr_decoder h) (in_live (wr_in h))"
  shows "\<exists>h'. relay_message (Suc (k + n)) L w h = Inr (False, h', w) \<and> refused h' \<and> wr_encoder h' = wr_encoder h"
  using assms(2-5)
proof (induction k arbitrary: h)
  case 0
  note ok = 0(1) and ph = 0(2) and st = 0(3)
  have bi: "wr_bidirectional h" "in_live (wr_in h) \<noteq> []" using ok st by (auto simp: writer_ok_def)
  note i = writer_okD(4) [OF ok bi(1)]
  from 0(4) obtain d where d: "dnswire_decoder_decode L (wr_decoder h) (in_live (wr_in h)) = Inr (dnswire_bidirectional, d)"
    "dnswire_decoder_decoded L d = length (in_live (wr_in h))" "\<not> dc_accept_support_dnstap_protobuf d"
    unfolding refuses_simps(1) by blast
  define h' where "h' = h\<lparr>wr_decoder := d, wr_in := in_consume (dnswire_decoder_decoded L d) (wr_in h)\<rparr>"
  have p: "pop_decoding_accept L w h = Inr (dnswire_error, h', w)"
    using d(1,3) in_load_live [OF i] by (simp add: pop_decoding_accept_def h'_def Let_def)
  have e: "wr_state h' = dnswire_writer_decoding_accept" "in_live (wr_in h') = []" "wr_encoder h' = wr_encoder h"
    using inq.consume_live [OF i, of "dnswire_decoder_decoded L d"] d(2) st by (simp_all add: h'_def)
  from decoding_accept_holds [OF L ok ph st p] have "usable h'" by (simp add: holds_def)
  with e have "refused h'" by (auto simp: usable_def writer_ok_def)
  with e(3) p write_decoding_write [OF ok st, of L w] show ?case by simp
next
  case (Suc k)
  note ok = Suc.prems(1) and ph = Suc.prems(2) and st = Suc.prems(3)
  have bi: "wr_bidirectional h" "in_live (wr_in h) \<noteq> []" "o_left (wr_out h) = 0"
    using ok st by (auto simp: writer_ok_def)
  note i = writer_okD(4) [OF ok bi(1)]
  from Suc.prems(4) obtain d where d: "dnswire_decoder_decode L (wr_decoder h) (in_live (wr_in h)) = Inr (dnswire_again, d)"
    "dnswire_decoder_decoded L d < length (in_live (wr_in h))"
    "refuses L k d (drop (dnswire_decoder_decoded L d) (in_live (wr_in h)))"
    unfolding refuses_simps(2) by blast
  define b where "b = in_consume (dnswire_decoder_decoded L d) (wr_in h)"
  define h' where "h' = h\<lparr>wr_decoder := d, wr_in := b, wr_state := dnswire_writer_decoding_accept\<rparr>"
  from decode_buffered [OF L i bi(2) writer_okD(3) [OF ok]] d(1) have dec: "decoder_ok d" by auto
  have b: "in_ok b" "in_live b = drop (dnswire_decoder_decoded L d) (in_live (wr_in h))"
    using inq.consume_live [OF i] inq.consume_ok [OF i] d(2) by (simp_all add: b_def)
  have left: "i_left b \<noteq> 0"
    using in_left_live [OF b(1)] b(2) d(2) by simp
  have h': "h' = h\<lparr>wr_decoder := d, wr_in := b\<rparr>"
    using st by (cases h) (simp add: h'_def)
  have p: "pop_decoding_accept L w h = Inr (dnswire_again, h', w)"
    using d(1) in_load_live [OF i] left st
    by (simp add: pop_decoding_accept_def h' Let_def b_def)
  have "usable h'"
    unfolding h'_def by (rule usable_input [OF ok bi(1,3) ph b(1) dec]) (simp_all add: st)
  moreover have "in_live (wr_in h') \<noteq> []" using b(2) d(2) by (simp add: h')
  ultimately have s: "writer_ok h'" "in_phase h'" by (auto simp: usable_def refused_def)
  have "refuses L k (wr_decoder h') (in_live (wr_in h'))" using d(3) b(2) by (simp add: h')
  from Suc.IH [OF s _ this] obtain h2 where "relay_message (Suc (k + n)) L w h' = Inr (False, h2, w)"
    "refused h2" "wr_encoder h2 = wr_encoder h'" by (auto simp: h'_def)
  with p write_decoding_write [OF ok st, of L w] show ?case by (simp add: h')
qed

text \<open>The call that reads the bytes goes on as if they had been there before.\<close>

lemma reading_decoding:
  assumes ok: "writer_ok h" and ph: "in_phase h" and st: "wr_state h = dnswire_writer_reading_accept"
    and rd: "sys_read w (in_room (wr_in h)) = (Some bs, w')" "bs \<noteq> []"
  shows "\<exists>h1. dnswire_writer_write L w h = dnswire_writer_write L w' h1 \<and> writer_ok h1 \<and> in_phase h1 \<and>
     wr_state h1 = dnswire_writer_decoding_accept \<and> wr_decoder h1 = wr_decoder h \<and> wr_encoder h1 = wr_encoder h \<and>
     in_live (wr_in h1) = in_live (wr_in h) @ bs"
proof -
  have bi: "wr_bidirectional h" using ok st by (simp add: writer_ok_def)
  have buf: "o_buf (wr_out h) \<noteq> None" using writer_okD(1) [OF ok] by (auto elim: out_okD)
  from inq.append_live [OF writer_okD(4) [OF ok bi] sys_read_length [OF rd(1)]] obtain b where
    b: "in_append (wr_in h) bs = Inr b" "in_ok b" "in_live b = in_live (wr_in h) @ bs" by blast
  let ?h = "h\<lparr>wr_in := b, wr_state := dnswire_writer_decoding_accept\<rparr>"
  have "writer_ok ?h" using ok st b(2,3) bi rd(2) by (simp add: writer_ok_def)
  moreover have "in_phase ?h" using ph st by (simp add: in_phase_def)
  moreover have "dnswire_writer_write L w h = dnswire_writer_write L w' ?h"
    using st buf rd b(1) by (simp add: dnswire_writer_write_def write_reading_accept_def write_take_in_def)
  ultimately show ?thesis using b(3) by (intro exI [of _ ?h]) simp
qed

text \<open>
  C23: a target that refuses the content type can make the relay abort. It does when the relay waits for the
  answer to its READY and all that is missing of an ACCEPT without the content type, the whole of it or what
  follows a part decoded before, arrives in one \<open>read\<close> and nothing behind it: sending the message fails,
  stopping the writer fails, which is not looked at, and the next call runs the decoder on an empty buffer.
\<close>
theorem relay_refused_aborts:
  assumes "extlib_ok L" and "writer_ok h" and "in_phase h" and "wr_state h = dnswire_writer_reading_accept"
    and "e_state (wr_encoder h) = dnswire_encoder_control_start"
    and "sys_read w (in_room (wr_in h)) = (Some bs, w')" and "bs \<noteq> []"
    and "refuses L k (wr_decoder h) (in_live (wr_in h) @ bs)"
  shows "\<exists>h'. relay_message (Suc (k + n)) L w h = Inr (False, h', w') \<and>
     dnswire_writer_stop h' = (dnswire_error, h') \<and> relay_stop (Suc n) L w' h' = Inl Assert_failed"
proof -
  from reading_decoding [OF assms(2-4,6,7)] obtain h1 where h1:
    "dnswire_writer_write L w h = dnswire_writer_write L w' h1" "writer_ok h1" "in_phase h1"
    "wr_state h1 = dnswire_writer_decoding_accept" "wr_decoder h1 = wr_decoder h" "wr_encoder h1 = wr_encoder h"
    "in_live (wr_in h1) = in_live (wr_in h) @ bs" by blast
  from refusing [OF assms(1) h1(2-4), of k n w'] assms(8) h1(5,7) obtain h' where
    h': "relay_message (Suc (k + n)) L w' h1 = Inr (False, h', w')" "refused h'" "wr_encoder h' = wr_encoder h"
    by (auto simp: h1(6))
  have "dnswire_writer_stop h' = (dnswire_error, h')"
    using assms(5) h'(3) by (cases h') (simp add: dnswire_writer_stop_def dnswire_encoder_stop_def Let_def)
  with h' h1(1) refused_write [OF h'(2), of L w'] show ?thesis
    by (intro exI [of _ h']) (simp add: relay_stop_def)
qed

section \<open>Runs\<close>

text \<open>The peer offers the content type \<open>x\<close> and nothing else.\<close>

definition toy_offered :: "(toy_reader, nat) dnswire_writer" where
  "toy_offered = toy_await
     \<lparr>wr_encoder := (wr_encoder toy_await)\<lparr>e_state := dnswire_encoder_control_start\<rparr>,
      wr_decoder := DNSWIRE_DECODER_INITIALIZER toylib\<rparr>"

lemma toy_refuses: "refuses toylib 1 (wr_decoder toy_offered) [1, 2, 1, 120]"
  by (simp add: refuses_simps toy_offered_def DNSWIRE_DECODER_INITIALIZER_def dnswire_decoder_decode_def
      decode_reading_control_def decode_checking_accept_def dnswire_decoder_decoded_def content_type_matches_def
      toylib_def toy_read_def toy_header_def toy_field_def DNSTAP_PROTOBUF_CONTENT_TYPE_def)

lemma toy_offered_sound:
  "writer_ok toy_offered" "in_phase toy_offered" "wr_state toy_offered = dnswire_writer_reading_accept"
  "e_state (wr_encoder toy_offered) = dnswire_encoder_control_start" "in_live (wr_in toy_offered) = []"
  "in_room (wr_in toy_offered) = 4096"
proof -
  have "decoder_ok (DNSWIRE_DECODER_INITIALIZER toylib)" by (rule decoder_init_ok)
  then have d: "decoder_ok (wr_decoder toy_offered)"
    by (simp add: toy_offered_def decoder_ok_def)
  have sel: "wr_in toy_offered = wr_in toy_await" "wr_out toy_offered = wr_out toy_await"
    "wr_bidirectional toy_offered = wr_bidirectional toy_await"
    "e_dnstap (wr_encoder toy_offered) = e_dnstap (wr_encoder toy_await)"
    by (simp_all add: toy_offered_def)
  show st: "wr_state toy_offered = dnswire_writer_reading_accept"
    "e_state (wr_encoder toy_offered) = dnswire_encoder_control_start"
    by (simp_all add: toy_offered_def toy_await_def)
  have sa: "wr_state toy_await = dnswire_writer_reading_accept" by (simp add: toy_await_def)
  show "writer_ok toy_offered"
    using toy_await_sound(1) d by (simp add: writer_ok_def encoder_ok_def sel st sa)
  show "in_phase toy_offered" by (simp add: in_phase_def st)
  show "in_live (wr_in toy_offered) = []"
    using toy_await_sound(3) by (simp add: sel in_live_def split: option.split)
  have i: "in_ok (wr_in toy_await)"
    using writer_okD(4) [OF toy_await_sound(1,2)] .
  have "i_at (wr_in toy_await) = 0"
    using i toy_await_sound(3) by (auto elim!: in_okD)
  moreover have "i_size (wr_in toy_await) = 4096"
    using toy_writer0_sound(7)
    by (simp add: toy_await_def toy_writerB_def dnswire_writer_set_bidirectional_def
        toy_writer0_sound(6) sys_alloc_def toy_out_def DNSWIRE_DEFAULT_BUF_SIZE_def)
  ultimately show "in_room (wr_in toy_offered) = 4096"
    using in_room_exact [OF i] toy_await_sound(3) by (simp add: sel)
qed

theorem relay_refused_aborts_witness:
  "\<exists>h'. relay_message (Suc (1 + 4)) toylib (toy_out\<lparr>reads := [9], inbox := [1, 2, 1, 120]\<rparr>) toy_offered =
       Inr (False, h', toy_out) \<and> relay_stop (Suc 4) toylib toy_out h' = Inl Assert_failed"
proof -
  have rd: "sys_read (toy_out\<lparr>reads := [9], inbox := [1, 2, 1, 120]\<rparr>) (in_room (wr_in toy_offered)) =
      (Some [1, 2, 1, 120], toy_out)"
    by (simp add: sys_read_def toy_out_def toy_offered_sound(6))
  have "refuses toylib 1 (wr_decoder toy_offered) (in_live (wr_in toy_offered) @ [1, 2, 1, 120])"
    using toy_refuses by (simp add: toy_offered_sound(5))
  from relay_refused_aborts [OF toylib_ok toy_offered_sound(1-4) rd _ this, of 4]
  show ?thesis by auto
qed

theorem relay_forwards_witness:
  "relays toylib 200 toy_source toy_file
     (relay_main 200 toylib toy_pton \<lparr>k_socket = True, k_bind = (\<lambda>a. True), k_listen = True,
        k_accept = True, k_connect = (\<lambda>a. True)\<rparr> [''relay'', ''file'', ''127.0.0.1'', ''53''] True toy_source toy_file)"
  by (rule relay_forwards [OF toylib_ok toylib_consumes toylib_nonempty toy_pton_ok])
    (simp add: toy_source_def toy_file_def toy_content_def toy_start_hdr_def DNSTAP_PROTOBUF_CONTENT_TYPE_def)

end
