(* ===== verification/Handshake.thy ===== *)
theory Handshake
  imports Dialogue Writer_Handshake
begin

text \<open>
  A handshake between the two handles, evaluated: the writer offers, the reader accepts, and the
  writer reads that in the same call.
\<close>

section \<open>The reader\<close>

text \<open>The evaluation rule \<open>push_whole\<close> for the end of READY.\<close>

lemma push_ready:
  assumes ok: "reader_ok r" and e: "in_live (r_in r) = []"
    and st: "r_state r = dnswire_reader_reading_control" "r_allow_bidirectional r"
    and data: "data \<noteq> []" "length data \<le> i_size (r_in r)"
    and dec: "dnswire_decoder_decode L (r_decoder r) data = Inr (dnswire_bidirectional, d)"
      "dc_ready_support_dnstap_protobuf d" "dnswire_decoder_decoded L d = length data"
  shows "\<exists>r'. dnswire_reader_push L w r (Some data) True (Some n) = Inr (dnswire_again, r', w, []) \<and>
     r_pushed r' = length data \<and> r_state r' = dnswire_reader_encoding_accept \<and>
     r_encoder r' = r_encoder r \<and> r_out r' = r_out r"
proof -
  let ?r = "r\<lparr>r_pushed := 0\<rparr>"
  note in0 = reader_okD(1) [OF ok]
  have "in_room (r_in r) = i_size (r_in r)"
    using in_room_exact [OF in0] in_live_length [OF in0] e in0 by (auto elim: in_okD)
  with push_bytes_post [of ?r data] in0 data obtain b where
    b: "push_bytes data ?r = Inr (r\<lparr>r_pushed := length data, r_in := b\<rparr>)" "in_ok b"
      "in_live b = data"
    by (auto simp: e min_def)
  have "push_reading_control L w data ?r = Inr (dnswire_again, r\<lparr>r_pushed := length data, r_decoder := d,
      r_in := in_consume (length data) b, r_is_bidirectional := True,
      r_state := dnswire_reader_encoding_accept\<rparr>, w)"
    using data(1) in_load_live [OF b(2)] dec st(2)
    by (auto simp: push_reading_control_def b push_decoding_control_def Let_def)
  then show ?thesis
    using st in_ok_buf [OF in0]
    by (auto simp: dnswire_reader_push_def no_output_def Let_def)
qed

text \<open>The answer, when there is room for all of it.\<close>

lemma push_accept:
  assumes L: "extlib_ok L" and ok: "reader_ok r" and st: "r_state r = dnswire_reader_encoding_accept"
    and out: "out_ok (r_out r)" "o_left (r_out r) = 0" and e: "encoder_ok (r_encoder r)"
    and enc: "dnswire_encoder_encode L (r_encoder r) (o_size (r_out r)) = Inr (dnswire_again, e', bs)"
    and n: "length bs \<le> n"
  shows "\<exists>r'. dnswire_reader_push L w r (Some []) True (Some n) = Inr (dnswire_again, r', w, bs) \<and>
     r_pushed r' = 0"
proof -
  from encoding_first [OF L e out enc, of w] obtain b where
    b: "encoding L w (r_encoder r) (r_out r) = Inr (dnswire_again, e', b, w)" "out_pending b = bs" "out_ok b"
    by auto
  have left: "o_left b = length bs" using out_pending_length [OF b(3)] b(2) by simp
  have pk: "out_peek b (length bs) = Inr bs"
    using outq.peek_pending [OF b(3), of "length bs"] b(2) left by simp
  note eval = dnswire_reader_push_def push_encoding_accept_def push_writing_accept_def push_output_def Let_def
  have buf: "i_buf (r_in r) \<noteq> None" using in_ok_buf [OF reader_okD(1) [OF ok]] by auto
  show ?thesis
  proof (cases "length bs < n")
    case True
    then show ?thesis using st b(1) left pk buf by (simp add: eval)
  next
    case False
    with n have "n = length bs" by simp
    then show ?thesis using st b(1) left pk buf by (simp add: eval)
  qed
qed

section \<open>The decoders\<close>

definition toy_accept :: "byte list" where
  "toy_accept = [1, 23] @ toy_content"

lemma toy_offered:
  "\<exists>d1 d2. dnswire_decoder_decode toylib (DNSWIRE_DECODER_INITIALIZER toylib) [4, 23] = Inr (dnswire_again, d1) \<and>
     dnswire_decoder_decoded toylib d1 = 2 \<and>
     dnswire_decoder_decode toylib d1 toy_content = Inr (dnswire_bidirectional, d2) \<and>
     dc_ready_support_dnstap_protobuf d2 \<and> dnswire_decoder_decoded toylib d2 = length toy_content"
proof -
  define q1 where "q1 = (tf_reader_init toylib)\<lparr>tr_type := TINYFRAME_CONTROL_READY, tr_left := 23, tr_read := 2\<rparr>"
  define d1 where "d1 = (DNSWIRE_DECODER_INITIALIZER toylib)
       \<lparr>dc_reader := q1, dc_state := dnswire_decoder_checking_ready\<rparr>"
  have clen: "length DNSTAP_PROTOBUF_CONTENT_TYPE = 22" by (simp add: DNSTAP_PROTOBUF_CONTENT_TYPE_def)
  define q2 where "q2 = q1\<lparr>tr_field := DNSTAP_PROTOBUF_CONTENT_TYPE, tr_left := 0, tr_read := 23\<rparr>"
  have h: "dnswire_decoder_decode toylib (DNSWIRE_DECODER_INITIALIZER toylib) [4, 23] = Inr (dnswire_again, d1)"
    by (simp add: dnswire_decoder_decode_def decode_reading_control_def DNSWIRE_DECODER_INITIALIZER_def
        toy_readers toy_read_def toy_header_def d1_def q1_def)
  have rd: "tf_read toylib (dc_reader d1) toy_content = (tinyframe_have_control_field, q2)"
    by (simp add: toy_readers toy_read_def toy_content_def toy_field_def clen d1_def q1_def q2_def)
  have "tf_control_length_left toylib q2 = 0" by (simp add: toylib_def q2_def)
  moreover have "tf_field_type toylib q2 = TINYFRAME_CONTROL_FIELD_CONTENT_TYPE" "content_type_matches toylib q2"
    by (simp_all add: toy_readers content_type_matches_def q2_def strncmp_eq_refl)
  ultimately have "decode_checking_ready toylib d1 toy_content = (dnswire_bidirectional,
      d1\<lparr>dc_reader := q2, dc_ready_support_dnstap_protobuf := True, dc_state := dnswire_decoder_reading_start\<rparr>)"
    using rd by (simp add: decode_checking_ready_def)
  moreover have "dc_state d1 = dnswire_decoder_checking_ready" "toy_content \<noteq> []"
    by (simp_all add: d1_def toy_content_def)
  ultimately have f: "dnswire_decoder_decode toylib d1 toy_content = Inr (dnswire_bidirectional,
      d1\<lparr>dc_reader := q2, dc_ready_support_dnstap_protobuf := True, dc_state := dnswire_decoder_reading_start\<rparr>)"
    by (simp add: decode_dispatch)
  show ?thesis
    using h f by (auto simp: dnswire_decoder_decoded_def toy_readers d1_def q1_def q2_def toy_content_def clen)
qed

lemma toy_answer_head:
  "\<exists>d. dnswire_decoder_decode toylib (DNSWIRE_DECODER_INITIALIZER toylib) toy_accept = Inr (dnswire_again, d) \<and>
     dnswire_decoder_decoded toylib d = 2"
  by (simp add: dnswire_decoder_decode_def decode_reading_control_def DNSWIRE_DECODER_INITIALIZER_def
      toy_accept_def toy_readers toy_read_def toy_header_def dnswire_decoder_decoded_def)

section \<open>The reader accepts\<close>

lemma toy_readerB_fields:
  "in_live (r_in toy_readerB) = []" "r_state toy_readerB = dnswire_reader_reading_control"
  "i_size (r_in toy_readerB) = 4096" "r_decoder toy_readerB = DNSWIRE_DECODER_INITIALIZER toylib"
  "r_allow_bidirectional toy_readerB"
  by (simp_all add: toy_readerB_def dnswire_reader_allow_bidirectional_def toy_world_def sys_alloc_def
      toy_reader0_def dnswire_reader_init_def reader_defaults_def in_live_def Let_def
      DNSWIRE_DEFAULT_BUF_SIZE_def)

lemma toy_accepts:
  "\<exists>e. dnswire_encoder_encode toylib (r_encoder toy_readerB) (o_size (r_out toy_readerB)) =
     Inr (dnswire_again, e, toy_accept) \<and> o_left (r_out toy_readerB) = 0 \<and> encoder_ok (r_encoder toy_readerB)"
proof -
  have "o_size (r_out toy_readerB) = 4096" "e_state (r_encoder toy_readerB) = dnswire_encoder_control_accept"
    "o_left (r_out toy_readerB) = 0" "encoder_ok (r_encoder toy_readerB)"
    by (simp_all add: toy_readerB_def toy_reader0_def dnswire_reader_allow_bidirectional_def toy_world_def
        dnswire_reader_init_def reader_defaults_def sys_alloc_def DNSWIRE_DEFAULT_BUF_SIZE_def Let_def
        encoder_ok_def DNSWIRE_ENCODER_INITIALIZER_def)
  then show ?thesis
    by (simp add: dnswire_encoder_encode_def encoder_wrote_def content_type_field_def toylib_def
        toy_emit_def toy_control_def DNSTAP_PROTOBUF_CONTENT_TYPE_def toy_accept_def toy_content_def)
qed

lemma toy_reader_accepts:
  "\<exists>r1 r2 r3. reader_step toylib toy_readerB [4, 23] dnswire_again [] r1 \<and>
     reader_step toylib r1 toy_content dnswire_again [] r2 \<and>
     reader_step toylib r2 [] dnswire_again toy_accept r3"
proof -
  have al: "reader_ok toy_readerB" "out_ok (r_out toy_readerB)"
    using toy_readerB_sound toy_readerB_fields(5) by auto
  have clen: "length DNSTAP_PROTOBUF_CONTENT_TYPE = 22" by (simp add: DNSTAP_PROTOBUF_CONTENT_TYPE_def)
  obtain d1 d2 where d: "dnswire_decoder_decode toylib (DNSWIRE_DECODER_INITIALIZER toylib) [4, 23] = Inr (dnswire_again, d1)"
    "dnswire_decoder_decoded toylib d1 = 2"
    "dnswire_decoder_decode toylib d1 toy_content = Inr (dnswire_bidirectional, d2)"
    "dc_ready_support_dnstap_protobuf d2" "dnswire_decoder_decoded toylib d2 = length toy_content"
    using toy_offered by blast
  from push_whole [OF al(1) toy_readerB_fields(1,2), of True "Some 100" "[4, 23]" toylib dnswire_again d1 toy_world]
    d(1,2) toy_readerB_fields obtain r1 where
    r1: "dnswire_reader_push toylib toy_world toy_readerB (Some [4, 23]) True (Some 100) =
        Inr (dnswire_again, r1, toy_world, [])" "r_pushed r1 = 2" "r_decoder r1 = d1" "in_live (r_in r1) = []"
      "i_size (r_in r1) = 4096" "r_allow_bidirectional r1" "r_state r1 = dnswire_reader_reading_control"
      "r_encoder r1 = r_encoder toy_readerB" "r_out r1 = r_out toy_readerB"
    by (auto simp: room_for_def)
  have s1: "reader_step toylib toy_readerB [4, 23] dnswire_again [] r1"
    using step_push [OF r1(1)] r1(2) by simp
  have ok1: "reader_ok r1" using reader_step_ok [OF s1 toylib_ok al(1)] by (simp add: step_ok_def)
  have c: "toy_content \<noteq> []" "length toy_content \<le> i_size (r_in r1)"
    by (simp_all add: toy_content_def clen r1(5))
  from push_ready [OF ok1 r1(4,7,6) c d(3) [folded r1(3)] d(4,5), of toy_world 100] obtain r2 where
    r2: "dnswire_reader_push toylib toy_world r1 (Some toy_content) True (Some 100) =
        Inr (dnswire_again, r2, toy_world, [])" "r_pushed r2 = length toy_content"
      "r_state r2 = dnswire_reader_encoding_accept" "r_encoder r2 = r_encoder r1" "r_out r2 = r_out r1"
    by auto
  have s2: "reader_step toylib r1 toy_content dnswire_again [] r2"
    using step_push [OF r2(1)] r2(2) by simp
  have ok2: "reader_ok r2" using reader_step_ok [OF s2 toylib_ok ok1] by (simp add: step_ok_def)
  obtain e where e: "dnswire_encoder_encode toylib (r_encoder r2) (o_size (r_out r2)) =
      Inr (dnswire_again, e, toy_accept)" "o_left (r_out r2) = 0" "encoder_ok (r_encoder r2)"
    using toy_accepts unfolding r2(4,5) r1(8,9) by blast
  have "length toy_accept \<le> 100" by (simp add: toy_accept_def toy_content_def clen)
  from push_accept [OF toylib_ok ok2 r2(3) _ e(2,3,1) this, of toy_world] al(2) obtain r3 where
    r3: "dnswire_reader_push toylib toy_world r2 (Some []) True (Some 100) =
        Inr (dnswire_again, r3, toy_world, toy_accept)" "r_pushed r3 = 0"
    by (auto simp: r2(5) r1(9))
  have "reader_step toylib r2 [] dnswire_again toy_accept r3"
    using step_push [OF r3(1)] r3(2) by simp
  with s1 s2 show ?thesis by blast
qed

section \<open>The writer offers and reads the answer\<close>

lemma write_offer:
  assumes L: "extlib_ok L" and ok: "writer_ok h" and st: "wr_state h = dnswire_writer_encoding_ready"
    and enc: "dnswire_encoder_encode L (wr_encoder h) (o_size (wr_out h)) = Inr (dnswire_again, e, out)"
    and out: "out \<noteq> []" and w: "sys_write w out = (Some (length out), w1)"
    and rd: "sys_read w1 (in_room (wr_in h)) = (Some ans, w2)" "ans \<noteq> []" "in_live (wr_in h) = []"
    and dec: "dnswire_decoder_decode L (wr_decoder h) ans = Inr (dnswire_again, d)"
  shows "\<exists>h'. dnswire_writer_write L w h = Inr (dnswire_again, h', w2) \<and> o_left (wr_out h') = 0"
proof -
  have "o_left (wr_out h) = 0" "in_ok (wr_in h)" using ok st by (auto simp: writer_ok_def)
  note wok = writer_okD [OF ok] and left0 = this(1) and in0 = this(2)
  from encoding_first [OF L wok(2,1) left0 enc, of w] obtain b where
    b: "encoding L w (wr_encoder h) (wr_out h) = Inr (dnswire_again, e, b, w)" "out_pending b = out" "out_ok b"
    by auto
  have left: "o_left b = length out" using out_pending_length [OF b(3)] b(2) by simp
  have pk: "out_peek b (o_left b) = Inr out"
    using outq.peek_pending [OF b(3), of "o_left b"] b(2) left by simp
  let ?d = "out_drain (length out) b"
  have d: "out_ok ?d" "out_pending ?d = []"
    using outq.drain_ok [OF b(3), of "length out"] outq.drain_pending [OF b(3), of "length out"] b(2)
    by simp_all
  have left1: "o_left ?d = 0" using out_pending_length [OF d(1)] d(2) by simp
  from inq.append_live [OF in0 sys_read_length [OF rd(1)]] rd(3) obtain c where
    c: "in_append (wr_in h) ans = Inr c" "in_ok c" "in_live c = ans" by auto
  have "o_buf (wr_out h) \<noteq> None" using wok(1) by (auto elim: out_okD)
  then show ?thesis
    using st b(1) left out w pk left1 rd c(1) in_load_live [OF c(2)] c(3) dec
    by (auto simp: dnswire_writer_write_def write_encoding_ready_def write_writing_ready_def write_bytes_def
        write_reading_accept_def write_take_in_def write_decoding_accept_def pop_decoding_accept_def Let_def)
qed

definition toy_talk :: world where
  "toy_talk = \<lparr>allocs = [], reads = [100], inbox = toy_accept, writes = [100], sent = []\<rparr>"

lemma toy_offer:
  "\<exists>h. dnswire_writer_write toylib toy_talk toy_writerB =
     Inr (dnswire_again, h, \<lparr>allocs = [], reads = [], inbox = [], writes = [], sent = [4, 23] @ toy_content\<rparr>) \<and>
     o_left (wr_out h) = 0"
proof -
  have ok: "writer_ok toy_writerB" "wr_state toy_writerB = dnswire_writer_encoding_ready"
    using set_bidirectional_sound [OF toy_writer_init toy_bidirectional] by auto
  note defs = toy_writerB_def toy_writer0_def dnswire_writer_set_bidirectional_def toy_out_def
    dnswire_writer_init_def writer_defaults_def sys_alloc_def DNSWIRE_DEFAULT_BUF_SIZE_def Let_def
  have f: "o_size (wr_out toy_writerB) = 4096" "e_state (wr_encoder toy_writerB) = dnswire_encoder_control_ready"
    "in_live (wr_in toy_writerB) = []" "in_room (wr_in toy_writerB) = 4096"
    "wr_decoder toy_writerB = DNSWIRE_DECODER_INITIALIZER toylib"
    by (simp_all add: defs in_live_def in_room_def sz_sub_def size_limit_def)
  have clen: "length DNSTAP_PROTOBUF_CONTENT_TYPE = 22" by (simp add: DNSTAP_PROTOBUF_CONTENT_TYPE_def)
  obtain e where e: "dnswire_encoder_encode toylib (wr_encoder toy_writerB) (o_size (wr_out toy_writerB)) =
      Inr (dnswire_again, e, [4, 23] @ toy_content)"
    using f(1,2) by (simp add: dnswire_encoder_encode_def encoder_wrote_def content_type_field_def toylib_def
        toy_emit_def toy_control_def toy_content_def clen)
  obtain d where d: "dnswire_decoder_decode toylib (DNSWIRE_DECODER_INITIALIZER toylib) toy_accept =
      Inr (dnswire_again, d)" using toy_answer_head by blast
  have w: "sys_write toy_talk ([4, 23] @ toy_content) = (Some (length ([4, 23] @ toy_content)),
      toy_talk\<lparr>writes := [], sent := [4, 23] @ toy_content\<rparr>)"
    by (simp add: sys_write_def toy_talk_def toy_content_def clen)
  have r: "sys_read (toy_talk\<lparr>writes := [], sent := [4, 23] @ toy_content\<rparr>) 4096 = (Some toy_accept,
      \<lparr>allocs = [], reads = [], inbox = [], writes = [], sent = [4, 23] @ toy_content\<rparr>)"
    by (simp add: sys_read_def toy_talk_def toy_accept_def toy_content_def clen)
  show ?thesis
    by (rule write_offer [OF toylib_ok ok e _ w r [folded f(4)] _ f(3) d [folded f(5)]])
      (simp_all add: toy_accept_def)
qed

text \<open>One call of the writer, in the middle of which the reader is called three times.\<close>

lemma toy_dialogue:
  "\<exists>s. dialogue_run toylib (new_dialogue toy_writerB toy_readerB) s \<and> dg_set s = [] \<and>
     dg_sent s = [4, 23] @ toy_content \<and> dg_fwd s = [] \<and> dg_took s = toy_accept \<and> dg_back s = []"
proof -
  let ?s0 = "new_dialogue toy_writerB toy_readerB" and ?o = "[4, 23] @ toy_content"
  let ?s1 = "?s0\<lparr>dg_fwd := dg_fwd ?s0 @ ?o, dg_sent := dg_sent ?s0 @ ?o\<rparr>"
  from toy_reader_accepts obtain r1 r2 r3 where r:
    "reader_step toylib toy_readerB [4, 23] dnswire_again [] r1"
    "reader_step toylib r1 toy_content dnswire_again [] r2"
    "reader_step toylib r2 [] dnswire_again toy_accept r3" by blast
  let ?a = "?s1\<lparr>dg_reader := r1, dg_fwd := toy_content, dg_back := [], dg_got := []\<rparr>"
  let ?b = "?a\<lparr>dg_reader := r2, dg_fwd := [], dg_back := [], dg_got := []\<rparr>"
  let ?c = "?b\<lparr>dg_reader := r3, dg_fwd := [], dg_back := toy_accept, dg_got := []\<rparr>"
  have "reader_speaks toylib ?s1 ?a"
    using reader_speaks.intros [where s = ?s1 and rst = toy_content, of toylib "[4, 23]" dnswire_again "[]" r1] r(1)
    by (simp add: new_dialogue_def)
  moreover have "reader_speaks toylib ?a ?b"
    using reader_speaks.intros [where s = ?a and rst = "[]", of toylib toy_content dnswire_again "[]" r2] r(2)
    by (simp add: new_dialogue_def)
  moreover have "reader_speaks toylib ?b ?c"
    using reader_speaks.intros [where s = ?b and rst = "[]", of toylib "[]" dnswire_again toy_accept r3] r(3)
    by (simp add: new_dialogue_def)
  ultimately have l: "listening toylib ?s1 ?c"
    by (blast intro: listening_start listening_more)
  from toy_offer obtain h where h: "dnswire_writer_write toylib toy_talk (dg_writer ?s0) =
     Inr (dnswire_again, h, \<lparr>allocs = [], reads = [], inbox = [], writes = [], sent = ?o\<rparr>)"
    by (auto simp: new_dialogue_def)
  have "dialogue_step toylib ?s0 (?c\<lparr>dg_writer := h, dg_back := [], dg_took := dg_took ?c @ toy_accept\<rparr>)"
    using writer_speaks [OF h _ _ l, of toy_accept] by (simp add: toy_talk_def)
  from dialogue_more [OF dialogue_start this] show ?thesis
    by (intro exI) (rule conjI, assumption, simp add: new_dialogue_def)
qed

section \<open>Waiting for ACCEPT\<close>

text \<open>The writer has sent READY and has not found the content type in an ACCEPT frame yet.\<close>

definition waiting :: "('r, 'w) dnswire_writer \<Rightarrow> bool" where
  "waiting h \<longleftrightarrow> wr_state h \<in> {dnswire_writer_reading_accept, dnswire_writer_decoding_accept}"

definition accepted :: "('r, 'w) dnswire_writer \<Rightarrow> bool" where
  "accepted h \<longleftrightarrow> dc_accept_support_dnstap_protobuf (wr_decoder h)"

lemma decode_keeps_accept:
  assumes "dnswire_decoder_decode L d bs = Inr (res, d')" and "dc_accept_support_dnstap_protobuf d"
  shows "dc_accept_support_dnstap_protobuf d'"
  using assms
  by (cases "dc_state d")
    (auto simp: dnswire_decoder_decode_def assertF_def decode_state_defs decode_reading_frames_def
      bindF_eq_Inr Let_def
      split: if_splits prod.splits tinyframe_result.splits tinyframe_control.splits)

lemma decoding_accept_waits:
  assumes "pop_decoding_accept L w h = Inr (res, h', w')" and "res \<noteq> dnswire_error"
    and "wr_state h = dnswire_writer_decoding_accept"
  shows "(waiting h' \<or> accepted h') \<and> sent w' = sent w \<and> (accepted h \<longrightarrow> accepted h')"
proof -
  obtain bs r d where d: "in_load (wr_in h) = Inr bs" "dnswire_decoder_decode L (wr_decoder h) bs = Inr (r, d)"
    using assms(1) by (auto simp: pop_decoding_accept_def bindF_eq_Inr)
  with assms decode_keeps_accept [OF d(2)] show ?thesis
    by (cases r) (auto simp: pop_decoding_accept_def Let_def bindF_eq_Inr waiting_def accepted_def
        dest: in_need_more_inbox split: if_splits)
qed

lemma reading_accept_waits:
  assumes "write_reading_accept L w h = Inr (res, h', w')" and "res \<noteq> dnswire_error"
  shows "(waiting h' \<or> accepted h') \<and> sent w' = sent w \<and> (accepted h \<longrightarrow> accepted h')"
proof -
  from assms obtain h1 w1 where h1: "write_take_in w h = Inr (Some h1, w1)"
    "pop_decoding_accept L w1 (h1\<lparr>wr_state := dnswire_writer_decoding_accept\<rparr>) = Inr (res, h', w')"
    by (auto simp: write_reading_accept_def write_decoding_accept_def bindF_eq_Inr split: option.splits)
  have "sent w1 = sent w"
    using h1(1) by (auto simp: write_take_in_def bindF_eq_Inr dest: sys_read_sent
        split: prod.splits option.splits if_splits)
  moreover have "wr_decoder h1 = wr_decoder h" using take_in_keeps [OF h1(1)] by auto
  ultimately show ?thesis
    using decoding_accept_waits [OF h1(2) assms(2)] by (simp add: accepted_def)
qed

lemma waiting_write:
  assumes "dnswire_writer_write L w h = Inr (res, h', w')" and "res \<noteq> dnswire_error" and "waiting h"
  shows "(waiting h' \<or> accepted h') \<and> sent w' = sent w"
  using assms reading_accept_waits [of L w h res h' w'] decoding_accept_waits [of L w h res h' w']
  by (auto simp: dnswire_writer_write_def assertF_def waiting_def write_decoding_accept_def split: if_splits)

text \<open>Whatever a call does, what the decoder has accepted stays accepted.\<close>

lemma accepted_state [simp]:
  "accepted (h\<lparr>wr_state := st\<rparr>) = accepted h" "accepted (h\<lparr>wr_in := b\<rparr>) = accepted h"
  "accepted (h\<lparr>wr_encoder := e\<rparr>) = accepted h" "accepted (h\<lparr>wr_out := o'\<rparr>) = accepted h"
  "accepted (dnswire_writer_set_dnstap h d) = accepted h"
  by (simp_all add: accepted_def dnswire_writer_set_dnstap_def)

lemma accepted_take: "write_take_in w h = Inr (x, w') \<Longrightarrow> accepted h \<Longrightarrow> \<forall>h1. x = Some h1 \<longrightarrow> accepted h1"
  using take_in_keeps by fastforce

lemma accepted_bytes: "write_bytes w h = Inr (x, w') \<Longrightarrow> accepted h \<Longrightarrow> \<forall>h1. x = Some h1 \<longrightarrow> accepted h1"
  using write_bytes_effect by fastforce

lemma decoding_accepted:
  assumes "pop_decoding_accept L w h = Inr (res, h', w')" and "accepted h"
  shows "accepted h'"
proof -
  obtain bs r d where d: "in_load (wr_in h) = Inr bs" "dnswire_decoder_decode L (wr_decoder h) bs = Inr (r, d)"
    using assms(1) by (auto simp: pop_decoding_accept_def bindF_eq_Inr)
  with assms decode_keeps_accept [OF d(2)] show ?thesis
    by (cases r) (auto simp: pop_decoding_accept_def Let_def bindF_eq_Inr accepted_def split: if_splits)
qed

lemma decoding_finish_accepted:
  assumes "pop_decoding_finish L w h = Inr (res, h', w')" and "accepted h"
  shows "accepted h'"
proof -
  obtain bs r d where d: "in_load (wr_in h) = Inr bs" "dnswire_decoder_decode L (wr_decoder h) bs = Inr (r, d)"
    using assms(1) by (auto simp: pop_decoding_finish_def bindF_eq_Inr)
  with assms decode_keeps_accept [OF d(2)] show ?thesis
    by (cases r) (auto simp: pop_decoding_finish_def Let_def bindF_eq_Inr accepted_def split: if_splits)
qed

lemma reading_accepted:
  assumes "write_reading_accept L w h = Inr (res, h', w') \<or> write_reading_finish L w h = Inr (res, h', w')"
    and "accepted h"
  shows "accepted h'"
proof -
  obtain x w1 where x: "write_take_in w h = Inr (x, w1)"
    using assms(1) by (auto simp: write_reading_accept_def write_reading_finish_def bindF_eq_Inr)
  show ?thesis
    using assms x accepted_take [OF x assms(2)]
    by (cases x) (auto simp: write_reading_accept_def write_reading_finish_def write_decoding_accept_def
        write_decoding_finish_def dest: decoding_accepted decoding_finish_accepted)
qed

lemma writing_ready_accepted:
  assumes "write_writing_ready L w r h = Inr (res, h', w')" and "accepted h"
  shows "accepted h'"
proof -
  obtain x w1 where x: "write_bytes w h = Inr (x, w1)"
    using assms(1) by (auto simp: write_writing_ready_def bindF_eq_Inr)
  show ?thesis
    using assms x accepted_bytes [OF x assms(2)]
      reading_accepted [of L w1 "(the x)\<lparr>wr_state := dnswire_writer_reading_accept\<rparr>" res h' w']
    by (cases x) (auto simp: write_writing_ready_def split: if_splits)
qed

lemma writing_accepted:
  assumes "write_writing w r h = Inr (res, h', w')" and "accepted h"
  shows "accepted h'"
proof -
  obtain x w1 where x: "write_bytes w h = Inr (x, w1)"
    using assms(1) by (auto simp: write_writing_def bindF_eq_Inr)
  show ?thesis
    using assms x accepted_bytes [OF x assms(2)] by (cases x) (auto simp: write_writing_def split: if_splits)
qed

lemma pending_accepted:
  assumes "write_pending w h k = Inr (res, h', w')" and "accepted h"
    and k: "\<And>h1 w1. k h1 w1 = Inr (res, h', w') \<Longrightarrow> accepted h1 \<Longrightarrow> accepted h'"
  shows "accepted h'"
proof (cases "o_left (wr_out h) = 0")
  case True
  with assms(1,2) show ?thesis by (auto simp: write_pending_def intro: k)
next
  case False
  then obtain x w1 where x: "write_bytes w h = Inr (x, w1)"
    using assms(1) by (auto simp: write_pending_def bindF_eq_Inr)
  show ?thesis
    using assms(1,2) False x accepted_bytes [OF x assms(2)] k [of "the x" w1]
    by (cases x) (auto simp: write_pending_def split: if_splits)
qed

lemma writing_stop_accepted:
  assumes "write_writing_stop w h = Inr (res, h', w')" and "accepted h"
  shows "accepted h'"
  by (rule pending_accepted [OF assms(1) [unfolded write_writing_stop_def] assms(2)])
    (auto split: if_splits)

lemma encoding_accepted:
  assumes "write_encoding_ready L w h = Inr (res, h', w') \<or> write_encoding L w h = Inr (res, h', w') \<or>
      write_encoding_stop L w h = Inr (res, h', w')" and "accepted h"
  shows "accepted h'"
proof -
  obtain r e b w1 where r: "encoding L w (wr_encoder h) (wr_out h) = Inr (r, e, b, w1)"
    using assms(1)
    by (auto simp: write_encoding_ready_def write_encoding_def write_encoding_stop_def bindF_eq_Inr)
  let ?h = "\<lambda>st. h\<lparr>wr_encoder := e, wr_out := b, wr_state := st\<rparr>"
  show ?thesis
    using assms r writing_ready_accepted [of L w1 r "?h dnswire_writer_writing" res h' w']
      writing_accepted [of w1 r "?h dnswire_writer_writing" res h' w']
      writing_stop_accepted [of w1 "?h dnswire_writer_writing_stop" res h' w']
    by (auto simp: write_encoding_ready_def write_encoding_def write_encoding_stop_def Let_def
        split: if_splits)
qed

lemma stopping_accepted:
  assumes "write_stopping L w h = Inr (res, h', w')" and "accepted h"
  shows "accepted h'"
  by (rule pending_accepted [OF assms(1) [unfolded write_stopping_def] assms(2)])
    (use encoding_accepted in fastforce)

lemma write_accepted:
  assumes "dnswire_writer_write L w h = Inr (res, h', w')" and "accepted h"
  shows "accepted h'"
proof -
  have "o_buf (wr_out h) \<noteq> None"
    using assms(1) by (auto simp: dnswire_writer_write_def assertF_def split: if_splits)
  then show ?thesis
    using assms encoding_accepted [of L w h res h' w'] writing_ready_accepted [of L w dnswire_again h res h' w']
      writing_accepted [of w dnswire_again h res h' w'] writing_stop_accepted [of w h res h' w']
      stopping_accepted [of L w h res h' w'] reading_accepted [of L w h res h' w']
      decoding_accepted [of L w h res h' w'] decoding_finish_accepted [of L w h res h' w']
    by (cases "wr_state h")
      (simp_all add: dnswire_writer_write_def write_decoding_accept_def write_decoding_finish_def)
qed

lemma writes_on_wait:
  assumes "writes_on L h w h' w'" and "waiting h \<or> accepted h"
  shows "waiting h' \<and> sent w' = sent w \<or> accepted h'"
  using assms
proof (induction rule: writes_on.induct)
  case (one_write h w h1 w1 res h2 w2)
  then show ?case
    using waiting_write [OF one_write.hyps(2,3)] write_accepted [OF one_write.hyps(2)] by auto
next
  case (one_set h w h1 w1 d)
  then show ?case by (simp add: waiting_def dnswire_writer_set_dnstap_def accepted_def)
qed simp

lemma ready_in_one_piece:
  assumes "dnswire_writer_write L w h = Inr (res, h1, w1)" and "wr_state h = dnswire_writer_encoding_ready"
    and "res \<noteq> dnswire_error" and "o_left (wr_out h1) = 0" and "sent w1 \<noteq> sent w"
  shows "waiting h1 \<or> accepted h1"
proof -
  have "write_encoding_ready L w h = Inr (res, h1, w1)"
    using assms(1,2) by (auto simp: dnswire_writer_write_def assertF_def split: if_splits)
  then obtain r e b w2 where r: "encoding L w (wr_encoder h) (wr_out h) = Inr (r, e, b, w2)"
    and m: "(if r \<noteq> dnswire_error \<and> o_left b \<noteq> 0
       then write_writing_ready L w2 r (h\<lparr>wr_encoder := e, wr_out := b, wr_state := dnswire_writer_writing\<rparr>)
       else Inr (r, h\<lparr>wr_encoder := e, wr_out := b\<rparr>, w2)) = Inr (res, h1, w1)"
    by (auto simp: write_encoding_ready_def bindF_eq_Inr Let_def)
  let ?h = "h\<lparr>wr_encoder := e, wr_out := b, wr_state := dnswire_writer_writing\<rparr>"
  have "write_writing_ready L w2 r ?h = Inr (res, h1, w1)"
    using m encoding_world [OF r] assms(5) by (auto split: if_splits)
  then obtain h2 w3 where "write_reading_accept L w3 h2 = Inr (res, h1, w1)"
    using assms(3,4) by (auto simp: write_writing_ready_def bindF_eq_Inr split: option.splits if_splits)
  from reading_accept_waits [OF this assms(3)] show ?thesis by blast
qed

text \<open>
  C14: When READY goes out in one piece, the writer waits: however often \<open>dnswire_writer_write\<close> is
  called without failing, with whatever messages and however the answer arrives, nothing more is sent until the
  decoder has found the content type in an ACCEPT frame.
\<close>
theorem write_waits_for_accept:
  assumes "dnswire_writer_write L w h = Inr (res, h1, w1)" and "wr_state h = dnswire_writer_encoding_ready"
    and "res \<noteq> dnswire_error" and "o_left (wr_out h1) = 0" and "sent w1 \<noteq> sent w"
    and "writes_on L h1 w1 h2 w2"
  shows "wr_state h2 \<in> {dnswire_writer_reading_accept, dnswire_writer_decoding_accept} \<and> sent w2 = sent w1 \<or>
     dc_accept_support_dnstap_protobuf (wr_decoder h2)"
  using writes_on_wait [OF assms(6) ready_in_one_piece [OF assms(1-5)]]
  by (simp add: waiting_def accepted_def)

theorem write_waits_for_accept_witness:
  "\<exists>h w. dnswire_writer_write toylib toy_talk toy_writerB = Inr (dnswire_again, h, w) \<and>
     sent w = [4, 23] @ toy_content \<and>
     (wr_state h \<in> {dnswire_writer_reading_accept, dnswire_writer_decoding_accept} \<or>
      dc_accept_support_dnstap_protobuf (wr_decoder h))"
proof -
  from toy_offer obtain h where h: "dnswire_writer_write toylib toy_talk toy_writerB = Inr (dnswire_again, h,
      \<lparr>allocs = [], reads = [], inbox = [], writes = [], sent = [4, 23] @ toy_content\<rparr>)" "o_left (wr_out h) = 0"
    by blast
  have "wr_state toy_writerB = dnswire_writer_encoding_ready"
    using set_bidirectional_sound [OF toy_writer_init toy_bidirectional] by auto
  from write_waits_for_accept [OF h(1) this _ h(2) _ no_write] h(1) show ?thesis
    by (auto simp: toy_talk_def)
qed

section \<open>The conversation of both\<close>

text \<open>
  C5: Both sides at once. In every run of a dialogue between a writer and a reader that were set
  up for a bidirectional conversation, in whatever order they are called, whatever the kernel
  does and however much of a frame is under way: the writer sends READY, START, messages, STOP;
  the reader has delivered the first of the messages, in order, none missing, doubled or altered,
  and all of them when it has come to STOP or nothing is under way any more; and what it has
  answered is a beginning of ACCEPT, FINISH.
\<close>
theorem dialogue_delivers:
  assumes "extlib_ok L" and "tinyframe_stream_ok L pos" and "tinyframe_ready_ok L pos"
    and "dnswire_writer_init L w = (dnswire_ok, h0, w1)"
    and "dnswire_writer_set_bidirectional w1 h0 True = (dnswire_ok, h, w2)"
    and "dnswire_reader_init L v = (dnswire_ok, r0, v1)"
    and "dnswire_reader_allow_bidirectional v1 r0 True = (dnswire_ok, r, v2)"
    and "dialogue_run L (new_dialogue h r) s" and "\<forall>m \<in> set (dg_set s). unpacks L m"
  shows "(\<exists>fs. list_all (written L) fs \<and> frame_bytes fs = dg_sent s @ out_pending (wr_out (dg_writer s)) \<and>
     ready_trace (e_state (wr_encoder (dg_writer s))) (map fst fs) \<and>
     set (sent_messages fs) \<subseteq> set (dg_set s) \<and> length (dg_got s) \<le> length (sent_messages fs) \<and>
     list_all2 same_message (take (length (dg_got s)) (sent_messages fs)) (dg_got s) \<and>
     (dc_state (r_decoder (dg_reader s)) = dnswire_decoder_done \<or>
        in_live (r_in (dg_reader s)) @ dg_fwd s @ out_pending (wr_out (dg_writer s)) = [] \<longrightarrow>
      length (dg_got s) = length (sent_messages fs))) \<and>
     answers L (dg_took s @ dg_back s) (dg_reader s)"
  by (rule conjI [OF dialogue_frames [OF assms] dialogue_answers [OF assms(1,6,7,8)]])

theorem dialogue_delivers_witness:
  "\<exists>s fs. dialogue_run toylib (new_dialogue toy_writerB toy_readerB) s \<and>
     dg_took s = toy_accept \<and> answers toylib toy_accept (dg_reader s) \<and>
     frame_bytes fs = [4, 23] @ toy_content @ out_pending (wr_out (dg_writer s)) \<and>
     ready_trace (e_state (wr_encoder (dg_writer s))) (map fst fs)"
proof -
  from toy_dialogue obtain s where s: "dialogue_run toylib (new_dialogue toy_writerB toy_readerB) s"
    "dg_set s = []" "dg_sent s = [4, 23] @ toy_content" "dg_took s = toy_accept" "dg_back s = []" by blast
  have u: "\<forall>m \<in> set (dg_set s). unpacks toylib m" by (simp add: s(2))
  note d = dialogue_delivers [OF toylib_ok toy_stream_ok toy_ready_ok toy_writer_init toy_bidirectional
      toy_init toy_allow s(1) u]
  from conjunct1 [OF d] conjunct2 [OF d] s show ?thesis by (auto simp only: append_assoc append_Nil2)
qed

end
