(* ===== verification/Dead_Message.thy ===== *)
theory Dead_Message
  imports Writer_Programs
begin

text \<open>
  A writer whose message cannot be encoded, because its pointers lead to memory that is gone. Until the
  encoder comes to the message it works as a writer without a message does; where that fails, this one
  uses the memory. What the programs \<open>writer\<close> and \<open>sender\<close> come to with the message that
  \<open>create_dnstap\<close> returns follows.
\<close>

section \<open>The same calls, up to the message\<close>

text \<open>The result of a call with the encoder, or the handle, changed by \<open>f\<close>.\<close>

definition on_state :: "('h \<Rightarrow> 'h) \<Rightarrow> fault + dnswire_result \<times> 'h \<times> 'a \<Rightarrow> fault + dnswire_result \<times> 'h \<times> 'a" where
  "on_state f x = bindF x (\<lambda>(res, h, y). Inr (res, f h, y))"

lemma on_state_simps [simp]:
  "on_state f (Inr (res, h, y)) = Inr (res, f h, y)"
  "on_state f (Inl e) = Inl e"
  by (simp_all add: on_state_def)


abbreviation with_message :: "dnstap \<Rightarrow> 'w dnswire_encoder \<Rightarrow> 'w dnswire_encoder" where
  "with_message d e \<equiv> e\<lparr>e_dnstap := Some d\<rparr>"

definition handle_with :: "dnstap \<Rightarrow> ('r, 'w) dnswire_writer \<Rightarrow> ('r, 'w) dnswire_writer" where
  "handle_with d h = dnswire_writer_set_dnstap h d"

lemma handle_with_update:
  "(handle_with d h)\<lparr>wr_state := s\<rparr> = handle_with d (h\<lparr>wr_state := s\<rparr>)"
  "(handle_with d h)\<lparr>wr_out := b\<rparr> = handle_with d (h\<lparr>wr_out := b\<rparr>)"
  "(handle_with d h)\<lparr>wr_in := i\<rparr> = handle_with d (h\<lparr>wr_in := i\<rparr>)"
  "(handle_with d h)\<lparr>wr_decoder := c\<rparr> = handle_with d (h\<lparr>wr_decoder := c\<rparr>)"
  "(handle_with d h)\<lparr>wr_encoder := with_message d e\<rparr> = handle_with d (h\<lparr>wr_encoder := e\<rparr>)"
  by (simp_all add: handle_with_def dnswire_writer_set_dnstap_def dnswire_encoder_set_dnstap_def)

lemma handle_with_select:
  "wr_state (handle_with d h) = wr_state h" "wr_out (handle_with d h) = wr_out h"
  "wr_in (handle_with d h) = wr_in h" "wr_decoder (handle_with d h) = wr_decoder h"
  "wr_encoder (handle_with d h) = with_message d (wr_encoder h)"
  by (simp_all add: handle_with_def dnswire_writer_set_dnstap_def dnswire_encoder_set_dnstap_def)

lemmas handle_with = handle_with_update handle_with_select












section \<open>At the message\<close>







section \<open>The programs\<close>










end
