(* ===== verification/Spec2Isabelle.thy ===== *)
theory Spec2Isabelle
  imports Reader_Answers Writer_Handshake Encoding_Props Create_Dnstap Session Client_Receiver
    Daemon_Main Relay Handshake Dead_Message
begin

text \<open>
  Verification of the dnswire library and of its example programs.

  \<^bold>\<open>The program.\<close> dnswire encodes and decodes DNSTAP messages (protobuf) in Frame Streams. At the bottom
  are \<open>src/dnstap.c\<close> with \<open>dnswire/dnstap.h\<close>, the message as a C struct with setter macros, and the state
  machines \<open>src/encoder.c\<close> and \<open>src/decoder.c\<close>, which produce or consume one frame per call. On them rest
  the handles \<open>src/reader.c\<close> and \<open>src/writer.c\<close>, which buffer bytes in blocks that grow, and talk to the
  peer either through arrays of the caller (\<open>push\<close>, \<open>pop\<close>) or through a descriptor (\<open>read\<close>, \<open>write\<close>), in
  one direction or with the handshake READY, ACCEPT, FINISH. The programs under \<open>examples/\<close> drive the
  handles over files, sockets and \<open>libuv\<close>.

  \<^bold>\<open>How the code is modelled.\<close> A struct is a record with the fields of the source, an enum a datatype, an
  operation a function that returns the new state. A call may also fault: the result type is
  \<open>fault + 'a\<close>, where a fault (theory Prelude) is what C leaves undefined or what aborts: a failed
  assertion, a null pointer, an access outside of a block, a read of a byte that was never written, use
  after free, a double free, a variable length array of size 0. Blocks of memory keep which of their
  bytes were written. \<open>size_t\<close> is a natural number with the wrap-around written out (\<open>sz_add\<close>, \<open>sz_sub\<close>);
  fields of the messages that have 32 or 64 bits are words. The kernel and the allocator are the record
  \<open>world\<close>: lists of answers, so that a statement about every world covers every short read, short
  write, error and failed allocation. Each case of a \<open>switch\<close> over the state is a function of its own,
  named after the state; the falling through of the source is a call of the next one.

  \<^bold>\<open>What is a parameter.\<close> \<open>tinyframe\<close> and \<open>protobuf-c\<close> are not part of the sources: they are the record
  \<open>extlib\<close> of theory Extlib. \<open>extlib_ok\<close> states what the code relies on (a call stays within its room and
  its input, packing writes what was announced, at least one byte); \<open>tinyframe_consumes\<close> and
  \<open>tinyframe_nonempty\<close> that reading and writing something moves at least one byte; Tf_Stream what
  \<open>tinyframe\<close> documents of reading what it wrote. Theory Toylib has a small executable instance of all of
  them, on which the witnesses are evaluated. \<open>inet_pton\<close>, \<open>inet_ntop\<close>, the clock, the answers of
  \<open>socket\<close>, \<open>connect\<close>, \<open>accept\<close>, and what \<open>libuv\<close> does with a handle that is being closed are
  parameters as well. \<open>libuv_ok\<close> says that a handle which is not being closed can be closed and written
  to and that a write to one that is being closed is refused; what a second \<open>uv_close\<close> of a handle does is
  left open, since nothing documents it.

  \<^bold>\<open>The message of the examples.\<close> \<open>create_dnstap\<close> (\<open>examples/create_dnstap.c\<close>) returns a struct whose
  pointers to the message and to the bytes of the two addresses lead into its own frame. In the model
  \<open>out_of_frame\<close> lets the first one lead to a tree that is not there and sets a flag beside the bytes of
  each address; who follows one of them gets the fault \<open>Use_after_free\<close>. So no example program sends its message. What the
  programs do with a message that can be encoded is still of interest, and so the part of \<open>main\<close> behind
  the call of \<open>create_dnstap\<close> is a function of the message (\<open>writer_main_with\<close>, \<open>sender_main_with\<close>,
  \<open>tick_message\<close>); \<open>writer_main\<close>, \<open>sender_main\<close> and \<open>tick\<close> are these functions on what \<open>create_dnstap\<close>
  returns. The properties that take a message as a parameter say so; what becomes of the programs as they
  are is in Dead_Message and Daemon_Main.

  \<^bold>\<open>The theories.\<close>

  \<^item> Prelude, Dnswire, Dnstap_Enums: faults, sizes, blocks, the outside world; results, buffer sizes; the
    enums and their name tables (\<open>dnswire.c\<close>, \<open>dnswire.h\<close>, \<open>dnstap.h\<close>).
  \<^item> Dnstap (\<open>dnstap.c\<close>, \<open>dnstap.h\<close>, the macros \<open>gen-macros.sh\<close> generates): the struct, whose message
    pointer may lead into the struct itself, into the unpacked tree or into freed memory; the setters,
    \<open>dnstap_decode_protobuf\<close>, \<open>dnstap_encode_protobuf\<close>, \<open>dnstap_cleanup\<close>. Dnstap_Props: decoding leaves
    only known enum values, decoding and encoding are inverse, which setters are lost on a decoded
    message, what a failed decode leaves behind. Dnstap_Build: what the macros build can be encoded.
  \<^item> Encoder, Encoder_Props, Decoder, Decoder_Props, Decoder_Traces: the two state machines; contracts of
    one call, and over whole runs the order of frames and that messages follow an accepted START.
  \<^item> Inbuf, Outbuf: the buffers of both handles with the code that moves, consumes, grows and resizes them.
    The interfaces are the locales \<open>byte_queue\<close>, \<open>growing_queue\<close>, \<open>out_queue\<close>, \<open>frame_source\<close>, interpreted
    on the buffers of the code. Encoding_Props: the loop that encodes and expands takes at most
    \<open>max - size + 1\<close> rounds, since each expansion adds at least one byte below \<open>max\<close>; that is its fuel.
  \<^item> Buffered, Reader, Reader_Inv, Reader_Steps, Reader_Traces, Reader_Answers: \<open>reader.c\<close>. The invariant
    \<open>reader_ok\<close> is kept by every call that does not return \<open>dnswire_error\<close>; a run of such calls is a run
    of the decoder on the concatenated input; what is answered; progress; limits.
  \<^item> Writer, Writer_Calls, Writer_Inv, Writer_Traces: \<open>writer.c\<close>. The invariant \<open>writer_ok\<close>, kept by
    every call that does not return \<open>dnswire_error\<close>; what a run of such calls sends is a conversation of
    START, messages in the order they were set, STOP, for all runs but those that call \<open>pop\<close> after \<open>stop\<close>
    with bytes pending; the locale \<open>frame_order\<close> has what that needs of the
    order of the frames, and is interpreted on the orders with and without READY. Writer_Limits,
    Writer_Handshake: where the code departs from that, in bidirectional conversations and in \<open>pop\<close>.
  \<^item> Trace (\<open>trace.c\<close>): the rendering of traced bytes. Print_Dnstap renders the same way; the locale
    \<open>renderer\<close> has the common part.
  \<^item> Tf_Stream, Roundtrip: from the writer of one side to the reader of the other, in pieces of any size.
  \<^item> Dialogue, Handshake: both sides of a bidirectional conversation, their calls in any order over two
    channels; the writer waits for ACCEPT when READY goes out in one piece. A call of the writer may send
    and then wait for the answer, so the reader may be called in the middle of it; a call of the reader
    does only one of the two.
  \<^item> Progress, Write_Steps, Read_Steps: what one call uses up of the answers of the kernel, the input and
    the frames ahead, so that the loops of the programs end. The fuel of these loops is the sum of what
    can be used up, stated in each theorem.
  \<^item> Print_Dnstap (\<open>print_dnstap.c\<close>), Create_Dnstap (\<open>create_dnstap.c\<close>), Socket_Setup (the socket part of
    \<open>sender.c\<close> and \<open>receiver.c\<close>), Writer_Programs (\<open>writer.c\<close>, \<open>sender.c\<close>), Dead_Message (these two
    with the message of \<open>create_dnstap\<close>: they run like a writer without a message until the encoder comes
    to it), Reader_Programs (\<open>reader.c\<close>,
    \<open>receiver.c\<close>), File_Transfer (a file written by \<open>writer.c\<close> and printed by \<open>reader.c\<close>),
    Client_Receiver (\<open>client_receiver_uv.c\<close>), Daemon_Sender, Daemon_Props and Daemon_Main
    (\<open>daemon_sender_uv.c\<close>: the callbacks over a heap of clients, runs as an inductive relation over the
    events of \<open>libuv\<close>; the heap holds a linked list, and the fuel of its searches is the number of
    events; the whole program), Relay (\<open>reader_sender.c\<close>, a reader and a writer, each with a world of its own).
  \<^item> Complete_Stream, Good_World, Reading_Through, Writing_Through, Delivery: that the programs do come to
    the good end. A complete stream is cut into pieces that the decoder takes in one call each. In a world
    where no allocation fails, \<open>write\<close> takes at least a byte and \<open>read\<close> hands out at least one as long
    as there are any (\<open>allocates\<close>, \<open>sends\<close>, \<open>delivers\<close>), and for a message whose frame fits into the
    largest buffer (\<open>fits\<close>, with the hypothesis \<open>tinyframe_forms\<close> that a frame has one form and is
    written when there is room for it), no call of a handle fails. \<open>3 * DNSWIRE_MAXIMUM_BUF_SIZE\<close> calls
    of \<open>write\<close> are enough, since START, the message and STOP are at most that many bytes. So a file that
    \<open>writer.c\<close> is given to write arrives in \<open>reader.c\<close>.
  \<^item> Answer_Stream, Session_Sender, Session_Receiver, Session: the same for \<open>sender.c\<close> and \<open>receiver.c\<close> over a
    connection, with the handshake and FINISH at the end. Each side goes through stages (READY, ACCEPT, the
    stream, FINISH), and each call leads from one to the same or the next. The worlds are those in which
    Writer_Handshake leaves the code correct: READY is taken at once, and ACCEPT and FINISH come in one
    piece each and one by one. \<open>tinyframe_answer_ok\<close> is what \<open>tinyframe\<close> documents of reading these two.
  \<^item> Write_Errors: what a call of \<open>dnswire_writer_write\<close> that failed leaves behind; the relay goes on with
    such a handle. It aborts when an ACCEPT without the content type arrives in one \<open>read\<close> with nothing
    behind it (\<open>refuses\<close>: some calls of the decoder take all of its bytes).

  \<^bold>\<open>Not modelled.\<close> The trace output itself and all messages to the standard error output; closing of
  descriptors; the macros that only read a field; the timer of \<open>daemon_sender_uv.c\<close>; the tests; the build files; the generated
  protobuf code and \<open>tinyframe\<close>, which are parameters. The bytes that a setter is given are held by value,
  except that the addresses of a message may be marked as gone. The addresses of the buffers and of handles are not modelled, so neither is their freeing
  at the end.
\<close>

end
